(* ===== verification/Telora_Prelude.thy ===== *)
theory Telora_Prelude
  imports Main "HOL-Library.Word" "HOL-Library.Code_Target_Nat"
begin

text \<open>
  Shared vocabulary of the development: the machine integers of the Rust code, results
  as sums, checked arithmetic, little- and big-endian byte strings, bounds-checked slices,
  and the lemma collections the component theories extend.
\<close>

unbundle bit_operations_syntax

section \<open>Lemma collections\<close>

named_theorems result_simps \<open>equations and inversions for results\<close>
named_theorems codec_simps \<open>lengths and round trips of byte encodings\<close>
named_theorems checked_simps \<open>what a successful checked operation computed\<close>

section \<open>Machine integers\<close>

type_synonym u8 = "8 word"
type_synonym u16 = "16 word"
type_synonym u32 = "32 word"
type_synonym u64 = "64 word"
type_synonym i32 = "32 word"
type_synonym i64 = "64 word"
type_synonym bytes = "u8 list"

text \<open>
  \<open>usize\<close> is the one of the wasm32 runtime: 32 bits. It is kept as a \<open>nat\<close> with the bound
  written out, so that a checked operation is a comparison with \<open>usize_max\<close>.
\<close>

definition usize_max :: nat where
  "usize_max = 4294967295"

definition u32_max :: u32 where
  "u32_max = 0xffffffff"

definition checked_add_usize :: "nat \<Rightarrow> nat \<Rightarrow> nat option" where
  "checked_add_usize a b = (if a + b \<le> usize_max then Some (a + b) else None)"

definition checked_sub_usize :: "nat \<Rightarrow> nat \<Rightarrow> nat option" where
  "checked_sub_usize a b = (if b \<le> a then Some (a - b) else None)"

definition checked_add :: "'a::len word \<Rightarrow> 'a word \<Rightarrow> 'a word option" where
  "checked_add a b = (if unat a + unat b < 2 ^ LENGTH('a) then Some (a + b) else None)"

definition checked_mul :: "'a::len word \<Rightarrow> 'a word \<Rightarrow> 'a word option" where
  "checked_mul a b = (if unat a * unat b < 2 ^ LENGTH('a) then Some (a * b) else None)"

definition checked_sub :: "'a::len word \<Rightarrow> 'a word \<Rightarrow> 'a word option" where
  "checked_sub a b = (if b \<le> a then Some (a - b) else None)"

lemma unat_u8: "unat (a :: u8) < 256"
  using unsigned_less [of a] by simp

lemma unat_u16: "unat (a :: u16) < 65536"
  using unsigned_less [of a] by simp

lemma unat_u32: "unat (a :: u32) < 4294967296"
  using unsigned_less [of a] by simp

lemma unat_u64: "unat (a :: u64) < 18446744073709551616"
  using unsigned_less [of a] by simp

lemmas unat_bounds = unat_u8 unat_u16 unat_u32 unat_u64

lemma unat_ucast_u64 [simp]: "unat (ucast (a :: u32) :: u64) = unat a"
  using unat_u32 [of a] by (simp add: unsigned_ucast_eq take_bit_nat_eq_self_iff)

lemma checked_add_usize_Some [checked_simps]:
  "checked_add_usize a b = Some c \<longleftrightarrow> c = a + b \<and> a + b \<le> usize_max"
  by (auto simp: checked_add_usize_def)

lemma checked_sub_usize_Some [checked_simps]:
  "checked_sub_usize a b = Some c \<longleftrightarrow> c = a - b \<and> b \<le> a"
  by (auto simp: checked_sub_usize_def)

lemma checked_add_Some [checked_simps]:
  fixes a b c :: "'a::len word"
  shows "checked_add a b = Some c \<longleftrightarrow> unat c = unat a + unat b"
proof
  assume "checked_add a b = Some c"
  then show "unat c = unat a + unat b"
    by (auto simp: checked_add_def unat_word_ariths split: if_splits)
next
  assume c: "unat c = unat a + unat b"
  have "unat c < 2 ^ LENGTH('a)" by (rule unsigned_less)
  with c have "unat a + unat b < 2 ^ LENGTH('a)" by simp
  moreover from this c have "a + b = c"
    by (intro word_unat_eq_iff [THEN iffD2]) (simp add: unat_word_ariths)
  ultimately show "checked_add a b = Some c" by (simp add: checked_add_def)
qed

lemma checked_mul_Some [checked_simps]:
  fixes a b c :: "'a::len word"
  shows "checked_mul a b = Some c \<longleftrightarrow> unat c = unat a * unat b"
proof
  assume "checked_mul a b = Some c"
  then show "unat c = unat a * unat b"
    by (auto simp: checked_mul_def unat_word_ariths split: if_splits)
next
  assume c: "unat c = unat a * unat b"
  have "unat c < 2 ^ LENGTH('a)" by (rule unsigned_less)
  with c have "unat a * unat b < 2 ^ LENGTH('a)" by simp
  moreover from this c have "a * b = c"
    by (intro word_unat_eq_iff [THEN iffD2]) (simp add: unat_word_ariths)
  ultimately show "checked_mul a b = Some c" by (simp add: checked_mul_def)
qed

lemma checked_sub_Some [checked_simps]:
  fixes a b c :: "'a::len word"
  shows "checked_sub a b = Some c \<longleftrightarrow> b \<le> a \<and> c = a - b"
  by (auto simp: checked_sub_def)

section \<open>Results\<close>

text \<open>\<open>Result<A, E>\<close> is \<open>'e + 'a\<close> with the error on the left; \<open>rbind\<close> is the \<open>?\<close> operator.\<close>

definition rbind :: "'e + 'a \<Rightarrow> ('a \<Rightarrow> 'e + 'b) \<Rightarrow> 'e + 'b" where
  "rbind r f = (case r of Inl e \<Rightarrow> Inl e | Inr x \<Rightarrow> f x)"

definition ok_or :: "'a option \<Rightarrow> 'e \<Rightarrow> 'e + 'a" where
  "ok_or x e = (case x of None \<Rightarrow> Inl e | Some y \<Rightarrow> Inr y)"

lemma rbind_simps [simp, result_simps]:
  "rbind (Inl e) f = Inl e"
  "rbind (Inr x) f = f x"
  by (simp_all add: rbind_def)

lemma rbind_eq_Inr [result_simps]:
  "rbind r f = Inr y \<longleftrightarrow> (\<exists>x. r = Inr x \<and> f x = Inr y)"
  by (cases r) simp_all

lemma rbind_eq_Inl [result_simps]:
  "rbind r f = Inl e \<longleftrightarrow> r = Inl e \<or> (\<exists>x. r = Inr x \<and> f x = Inl e)"
  by (cases r) simp_all

lemma rbind_cong [fundef_cong]:
  "r = r' \<Longrightarrow> (\<And>x. r' = Inr x \<Longrightarrow> f x = f' x) \<Longrightarrow> rbind r f = rbind r' f'"
  by (cases r') simp_all

lemma rbind_assoc: "rbind (rbind r f) g = rbind r (\<lambda>x. rbind (f x) g)"
  by (cases r) simp_all

text \<open>
  A computation that may also not return is an option, \<open>None\<close> when it does not; \<open>obind\<close> is its \<open>?\<close>.
\<close>

definition obind :: "('e + 'a) option \<Rightarrow> ('a \<Rightarrow> ('e + 'b) option) \<Rightarrow> ('e + 'b) option" where
  "obind r f = (case r of None \<Rightarrow> None | Some (Inl e) \<Rightarrow> Some (Inl e) | Some (Inr x) \<Rightarrow> f x)"

lemma obind_simps [simp]:
  "obind (Some (Inr x)) f = f x" "obind (Some (Inl e)) f = Some (Inl e)" "obind None f = None"
  by (simp_all add: obind_def)

lemma obind_eq_Inr [result_simps]:
  "obind r f = Some (Inr y) \<longleftrightarrow> (\<exists>x. r = Some (Inr x) \<and> f x = Some (Inr y))"
  by (auto simp: obind_def split: option.splits sum.splits)

lemma obind_mono [partial_function_mono]:
  fixes r :: "('x \<Rightarrow> 'y option) \<Rightarrow> ('e + 'a) option" and g :: "'a \<Rightarrow> ('x \<Rightarrow> 'y option) \<Rightarrow> ('e + 'b) option"
  assumes r: "monotone (fun_ord option_ord) option_ord r"
    and g: "\<And>x. monotone (fun_ord option_ord) option_ord (g x)"
  shows "monotone (fun_ord option_ord) option_ord (\<lambda>f. obind (r f) (\<lambda>x. g x f))"
proof (rule monotoneI)
  fix f f' :: "'x \<Rightarrow> 'y option"
  assume ff: "fun_ord option_ord f f'"
  have "r f = None \<or> r f = r f'" using monotoneD [OF r] ff unfolding flat_ord_def by blast
  moreover have "g x f = None \<or> g x f = g x f'" for x
    using monotoneD [OF g] ff unfolding flat_ord_def by blast
  ultimately show "option_ord (obind (r f) (\<lambda>x. g x f)) (obind (r f') (\<lambda>x. g x f'))"
    unfolding flat_ord_def obind_def by (cases "r f'") (fastforce split: sum.splits)+
qed

lemma ok_or_simps [simp, result_simps]:
  "ok_or None e = Inl e"
  "ok_or (Some x) e = Inr x"
  by (simp_all add: ok_or_def)

lemma ok_or_eq_Inr [result_simps]: "ok_or x e = Inr y \<longleftrightarrow> x = Some y"
  by (cases x) simp_all

lemma ok_or_eq_Inl [result_simps]: "ok_or x e = Inl e' \<longleftrightarrow> x = None \<and> e' = e"
  by (cases x) auto

section \<open>Byte strings of fixed width\<close>

fun le_bytes :: "nat \<Rightarrow> nat \<Rightarrow> bytes" where
  "le_bytes 0 n = []"
| "le_bytes (Suc k) n = of_nat (n mod 256) # le_bytes k (n div 256)"

fun le_nat :: "bytes \<Rightarrow> nat" where
  "le_nat [] = 0"
| "le_nat (b # bs) = unat b + 256 * le_nat bs"

lemma length_le_bytes [simp, codec_simps]: "length (le_bytes k n) = k"
  by (induction k arbitrary: n) simp_all

lemma unat_of_nat_byte [simp]: "unat (of_nat (n mod 256) :: u8) = n mod 256"
  by (simp add: unat_of_nat)

lemma le_nat_le_bytes [codec_simps]: "le_nat (le_bytes k n) = n mod 256 ^ k"
proof (induction k arbitrary: n)
  case 0
  then show ?case by simp
next
  case (Suc k)
  have "n mod 256 + 256 * (n div 256 mod 256 ^ k) = n mod (256 * 256 ^ k)"
    by (simp add: mod_mult2_eq)
  with Suc.IH [of "n div 256"] show ?case by simp
qed

lemma le_nat_less [codec_simps]: "le_nat bs < 256 ^ length bs"
proof (induction bs)
  case Nil
  then show ?case by simp
next
  case (Cons b bs)
  have "unat b < 256" using unsigned_less [of b] by simp
  with Cons.IH show ?case by simp
qed

lemma le_bytes_le_nat [codec_simps]: "length bs = k \<Longrightarrow> le_bytes k (le_nat bs) = bs"
proof (induction bs arbitrary: k)
  case Nil
  then show ?case by simp
next
  case (Cons b bs)
  have b: "unat b < 256" using unsigned_less [of b] by simp
  then have "(unat b + 256 * le_nat bs) mod 256 = unat b"
    and "(unat b + 256 * le_nat bs) div 256 = le_nat bs"
    by simp_all
  with Cons show ?case by (cases k) simp_all
qed

text \<open>\<open>to_le_bytes\<close>, \<open>from_le_bytes\<close>, \<open>to_be_bytes\<close> and \<open>from_be_bytes\<close> of the primitive types.\<close>

definition u32_to_le :: "u32 \<Rightarrow> bytes" where
  "u32_to_le w = le_bytes 4 (unat w)"

definition u32_from_le :: "bytes \<Rightarrow> u32" where
  "u32_from_le bs = of_nat (le_nat bs)"

definition u64_to_le :: "u64 \<Rightarrow> bytes" where
  "u64_to_le w = le_bytes 8 (unat w)"

definition u64_from_le :: "bytes \<Rightarrow> u64" where
  "u64_from_le bs = of_nat (le_nat bs)"

definition u32_to_be :: "u32 \<Rightarrow> bytes" where
  "u32_to_be w = rev (u32_to_le w)"

definition u32_from_be :: "bytes \<Rightarrow> u32" where
  "u32_from_be bs = u32_from_le (rev bs)"

definition u64_to_be :: "u64 \<Rightarrow> bytes" where
  "u64_to_be w = rev (u64_to_le w)"

lemma length_words [simp, codec_simps]:
  "length (u32_to_le w) = 4" "length (u64_to_le v) = 8"
  "length (u32_to_be w) = 4" "length (u64_to_be v) = 8"
  by (simp_all add: u32_to_le_def u64_to_le_def u32_to_be_def u64_to_be_def)

lemma u32_from_to_le [simp, codec_simps]: "u32_from_le (u32_to_le w) = w"
proof -
  have "unat w < 2 ^ 32" using unsigned_less [of w] by simp
  then show ?thesis by (simp add: u32_from_le_def u32_to_le_def le_nat_le_bytes)
qed

lemma u64_from_to_le [simp, codec_simps]: "u64_from_le (u64_to_le w) = w"
proof -
  have "unat w < 2 ^ 64" using unsigned_less [of w] by simp
  then show ?thesis by (simp add: u64_from_le_def u64_to_le_def le_nat_le_bytes)
qed

lemma u32_to_from_le [codec_simps]: "length bs = 4 \<Longrightarrow> u32_to_le (u32_from_le bs) = bs"
  using le_nat_less [of bs]
  by (simp add: u32_from_le_def u32_to_le_def unat_of_nat le_bytes_le_nat)

lemma u64_to_from_le [codec_simps]: "length bs = 8 \<Longrightarrow> u64_to_le (u64_from_le bs) = bs"
  using le_nat_less [of bs]
  by (simp add: u64_from_le_def u64_to_le_def unat_of_nat le_bytes_le_nat)

lemma u32_from_to_be [simp, codec_simps]: "u32_from_be (u32_to_be w) = w"
  by (simp add: u32_from_be_def u32_to_be_def)

section \<open>Slices\<close>

text \<open>\<open>xs.get(a..b)\<close>: \<open>None\<close> unless \<open>a \<le> b \<le> len\<close>.\<close>

definition get_range :: "'a list \<Rightarrow> nat \<Rightarrow> nat \<Rightarrow> 'a list option" where
  "get_range xs a b = (if a \<le> b \<and> b \<le> length xs then Some (take (b - a) (drop a xs)) else None)"

lemma get_range_Some [checked_simps]:
  "get_range xs a b = Some ys \<longleftrightarrow> a \<le> b \<and> b \<le> length xs \<and> ys = take (b - a) (drop a xs)"
  by (auto simp: get_range_def)

lemma get_range_length: "get_range xs a b = Some ys \<Longrightarrow> length ys = b - a"
  by (auto simp: get_range_Some)

lemma get_range_append [simp]:
  "get_range (xs @ ys @ zs) (length xs) (length xs + length ys) = Some ys"
  by (simp add: get_range_def)

text \<open>\<open>xs.get(i)\<close>.\<close>

definition get_at :: "'a list \<Rightarrow> nat \<Rightarrow> 'a option" where
  "get_at xs i = (if i < length xs then Some (xs ! i) else None)"

lemma get_at_Some [checked_simps]: "get_at xs i = Some x \<longleftrightarrow> i < length xs \<and> xs ! i = x"
  by (auto simp: get_at_def)

section \<open>Loops that can fail\<close>

text \<open>A \<open>for\<close> loop whose body uses \<open>?\<close>: the first failure ends it.\<close>

fun fold_opt :: "('a \<Rightarrow> 's \<Rightarrow> 's option) \<Rightarrow> 'a list \<Rightarrow> 's \<Rightarrow> 's option" where
  "fold_opt f [] s = Some s"
| "fold_opt f (x # xs) s = (case f x s of None \<Rightarrow> None | Some t \<Rightarrow> fold_opt f xs t)"

fun foldm :: "('a \<Rightarrow> 's \<Rightarrow> 'e + 's) \<Rightarrow> 'a list \<Rightarrow> 's \<Rightarrow> 'e + 's" where
  "foldm f [] s = Inr s"
| "foldm f (x # xs) s = rbind (f x s) (foldm f xs)"

fun map_opt :: "('a \<Rightarrow> 'b option) \<Rightarrow> 'a list \<Rightarrow> 'b list option" where
  "map_opt f [] = Some []"
| "map_opt f (x # xs) =
     (case f x of None \<Rightarrow> None | Some y \<Rightarrow>
       (case map_opt f xs of None \<Rightarrow> None | Some ys \<Rightarrow> Some (y # ys)))"

lemma fold_opt_append:
  "fold_opt f (xs @ ys) s = (case fold_opt f xs s of None \<Rightarrow> None | Some t \<Rightarrow> fold_opt f ys t)"
  by (induction xs arbitrary: s) (auto split: option.splits)

lemma foldm_append: "foldm f (xs @ ys) s = rbind (foldm f xs s) (foldm f ys)"
proof (induction xs arbitrary: s)
  case (Cons x xs)
  then show ?case by (cases "f x s") simp_all
qed simp

lemma map_opt_Some:
  "map_opt f xs = Some ys \<longleftrightarrow> length ys = length xs \<and> (\<forall>i < length xs. f (xs ! i) = Some (ys ! i))"
proof (induction xs arbitrary: ys)
  case Nil
  then show ?case by auto
next
  case (Cons x xs)
  show ?case
  proof (cases ys)
    case Nil
    then show ?thesis by (auto split: option.splits)
  next
    case (Cons y zs)
    then show ?thesis
      by (auto simp: Cons.IH All_less_Suc2 intro: nth_equalityI split: option.splits)
        (metis Cons.IH option.distinct(1))
  qed
qed

lemma fold_opt_invariant:
  assumes "fold_opt f xs s = Some t" and "P [] s"
    and "\<And>ys x zs u v. xs = ys @ x # zs \<Longrightarrow> P ys u \<Longrightarrow> f x u = Some v \<Longrightarrow> P (ys @ [x]) v"
  shows "P xs t"
proof -
  have "fold_opt f zs u = Some t \<Longrightarrow> xs = ys @ zs \<Longrightarrow> P ys u \<Longrightarrow> P xs t" for ys zs u
  proof (induction zs arbitrary: ys u)
    case Nil
    then show ?case by simp
  next
    case (Cons z zs)
    then obtain v where v: "f z u = Some v" "fold_opt f zs v = Some t"
      by (auto split: option.splits)
    with Cons.prems assms(3) have "P (ys @ [z]) v" by blast
    with Cons.IH [OF v(2), of "ys @ [z]"] Cons.prems show ?case by simp
  qed
  from this [OF assms(1), of "[]"] assms(2) show ?thesis by simp
qed

lemma foldm_invariant:
  assumes "foldm f xs s = Inr t" and "P [] s"
    and "\<And>ys x zs u v. xs = ys @ x # zs \<Longrightarrow> P ys u \<Longrightarrow> f x u = Inr v \<Longrightarrow> P (ys @ [x]) v"
  shows "P xs t"
proof -
  have "foldm f zs u = Inr t \<Longrightarrow> xs = ys @ zs \<Longrightarrow> P ys u \<Longrightarrow> P xs t" for ys zs u
  proof (induction zs arbitrary: ys u)
    case Nil
    then show ?case by simp
  next
    case (Cons z zs)
    then obtain v where v: "f z u = Inr v" "foldm f zs v = Inr t"
      by (auto simp: rbind_eq_Inr)
    with Cons.prems assms(3) have "P (ys @ [z]) v" by blast
    with Cons.IH [OF v(2), of "ys @ [z]"] Cons.prems show ?case by simp
  qed
  from this [OF assms(1), of "[]"] assms(2) show ?thesis by simp
qed

section \<open>Sorted search\<close>

text \<open>\<open>partition_point\<close> of a sorted vector: the number of leading elements at or below a bound.\<close>

lemma takeWhile_partition:
  fixes f :: "'a \<Rightarrow> nat" and k :: nat and i :: nat
  assumes "sorted (map f xs)" and i: "i < length xs"
  shows "f (xs ! i) \<le> k \<longleftrightarrow> i < length (takeWhile (\<lambda>x. f x \<le> k) xs)"
proof
  let ?n = "length (takeWhile (\<lambda>x. f x \<le> k) xs)"
  assume le: "f (xs ! i) \<le> k"
  show "i < ?n"
  proof (rule ccontr)
    assume "\<not> i < ?n"
    then have n: "?n \<le> i" "?n < length xs" using i by simp_all
    then have "k < f (xs ! ?n)" by (metis nth_length_takeWhile not_le)
    moreover have "f (xs ! ?n) \<le> f (xs ! i)"
      using sorted_nth_mono [OF assms(1), of ?n i] n i by simp
    ultimately show False using le by simp
  qed
next
  assume "i < length (takeWhile (\<lambda>x. f x \<le> k) xs)"
  then show "f (xs ! i) \<le> k" by (metis nth_mem set_takeWhileD takeWhile_nth)
qed

end
