(* ===== verification/Sha256.thy ===== *)
theory Sha256
  imports Telora_Prelude
begin

text \<open>
  The streaming SHA-256 of \<^verbatim>\<open>crates/telora-sha256/src/lib.rs\<close>, with the block buffer as the code
  keeps it (bytes of an earlier block stay behind the length). A slice or index out of range is a
  panic, \<open>None\<close>. The specification pads the whole message at once.
\<close>

section \<open>The compression function\<close>

definition SHA_INITIAL :: "u32 list" where
  "SHA_INITIAL =
    [0x6a09e667, 0xbb67ae85, 0x3c6ef372, 0xa54ff53a, 0x510e527f, 0x9b05688c, 0x1f83d9ab, 0x5be0cd19]"

definition SHA_ROUND :: "u32 list" where
  "SHA_ROUND =
    concat
    [[0x428a2f98, 0x71374491, 0xb5c0fbcf, 0xe9b5dba5, 0x3956c25b, 0x59f111f1, 0x923f82a4, 0xab1c5ed5],
     [0xd807aa98, 0x12835b01, 0x243185be, 0x550c7dc3, 0x72be5d74, 0x80deb1fe, 0x9bdc06a7, 0xc19bf174],
     [0xe49b69c1, 0xefbe4786, 0x0fc19dc6, 0x240ca1cc, 0x2de92c6f, 0x4a7484aa, 0x5cb0a9dc, 0x76f988da],
     [0x983e5152, 0xa831c66d, 0xb00327c8, 0xbf597fc7, 0xc6e00bf3, 0xd5a79147, 0x06ca6351, 0x14292967],
     [0x27b70a85, 0x2e1b2138, 0x4d2c6dfc, 0x53380d13, 0x650a7354, 0x766a0abb, 0x81c2c92e, 0x92722c85],
     [0xa2bfe8a1, 0xa81a664b, 0xc24b8b70, 0xc76c51a3, 0xd192e819, 0xd6990624, 0xf40e3585, 0x106aa070],
     [0x19a4c116, 0x1e376c08, 0x2748774c, 0x34b0bcb5, 0x391c0cb3, 0x4ed8aa4a, 0x5b9cca4f, 0x682e6ff3],
     [0x748f82ee, 0x78a5636f, 0x84c87814, 0x8cc70208, 0x90befffa, 0xa4506ceb, 0xbef9a3f7, 0xc67178f2]]"

fun chunks_exact :: "nat \<Rightarrow> nat \<Rightarrow> 'a list \<Rightarrow> 'a list list" where
  "chunks_exact n 0 xs = []"
| "chunks_exact n (Suc k) xs = take n xs # chunks_exact n k (drop n xs)"

text \<open>\<open>slice::chunks_exact\<close>: the whole chunks, the remainder is left out.\<close>

definition exact_chunks :: "nat \<Rightarrow> 'a list \<Rightarrow> 'a list list" where
  "exact_chunks n xs = chunks_exact n (length xs div n) xs"

abbreviation rotate_right :: "nat \<Rightarrow> u32 \<Rightarrow> u32" where
  "rotate_right n w \<equiv> word_rotr n w"

definition schedule_step :: "u32 list \<Rightarrow> nat \<Rightarrow> u32 list" where
  "schedule_step words index =
     (let w15 = words ! (index - 15); w2 = words ! (index - 2);
          s0 = (rotate_right 7 w15 XOR rotate_right 18 w15) XOR drop_bit 3 w15;
          s1 = (rotate_right 17 w2 XOR rotate_right 19 w2) XOR drop_bit 10 w2
      in words[index := words ! (index - 16) + s0 + words ! (index - 7) + s1])"

definition schedule :: "bytes \<Rightarrow> u32 list" where
  "schedule block =
     foldl schedule_step (map u32_from_be (take 64 (exact_chunks 4 block)) @
       replicate (64 - length (take 64 (exact_chunks 4 block))) 0) [16..<64]"

type_synonym sha_state = "u32 \<times> u32 \<times> u32 \<times> u32 \<times> u32 \<times> u32 \<times> u32 \<times> u32"

definition sha_round :: "u32 list \<Rightarrow> sha_state \<Rightarrow> nat \<Rightarrow> sha_state" where
  "sha_round words = (\<lambda>(a, b, c, d, e, f, g, h) index.
     let choice = (e AND f) XOR (NOT e AND g);
         majority = ((a AND b) XOR (a AND c)) XOR (b AND c);
         t1 = h + ((rotate_right 6 e XOR rotate_right 11 e) XOR rotate_right 25 e) + choice +
              SHA_ROUND ! index + words ! index;
         t2 = ((rotate_right 2 a XOR rotate_right 13 a) XOR rotate_right 22 a) + majority
     in (t1 + t2, a, b, c, d + t1, e, f, g))"

definition sha_compress :: "u32 list \<Rightarrow> bytes \<Rightarrow> u32 list" where
  "sha_compress state block =
     (let words = schedule block in
      case foldl (sha_round words)
             (state ! 0, state ! 1, state ! 2, state ! 3, state ! 4, state ! 5, state ! 6, state ! 7)
             [0..<64] of
        (a, b, c, d, e, f, g, h) \<Rightarrow> map2 (+) state [a, b, c, d, e, f, g, h])"

section \<open>The streaming context\<close>

record sha_context =
  sh_state :: "u32 list"
  sh_block :: bytes
  sh_block_len :: nat
  sh_byte_len :: u64

definition sha_new :: sha_context where
  "sha_new = \<lparr>sh_state = SHA_INITIAL, sh_block = replicate 64 0, sh_block_len = 0, sh_byte_len = 0\<rparr>"

text \<open>\<open>block[at..at + n].copy_from_slice(input)\<close>\<close>

definition overwrite :: "nat \<Rightarrow> bytes \<Rightarrow> bytes \<Rightarrow> bytes option" where
  "overwrite at inp block =
     (if at + length inp \<le> length block
      then Some (take at block @ inp @ drop (at + length inp) block) else None)"

text \<open>The buffered start of \<open>update\<close>: the context and the input that is left.\<close>

definition sha_fill :: "bytes \<Rightarrow> sha_context \<Rightarrow> (bytes \<times> sha_context) option" where
  "sha_fill inp s =
     (if sh_block_len s = 0 then Some (inp, s)
      else if 64 < sh_block_len s then None
      else
        (let count = min (64 - sh_block_len s) (length inp) in
         case overwrite (sh_block_len s) (take count inp) (sh_block s) of
           None \<Rightarrow> None
         | Some block \<Rightarrow>
             (let len = sh_block_len s + count in
              Some (drop count inp,
                if len = 64
                then s\<lparr>sh_state := sha_compress (sh_state s) block, sh_block := block, sh_block_len := 0\<rparr>
                else s\<lparr>sh_block := block, sh_block_len := len\<rparr>))))"

text \<open>The end of \<open>update\<close>: whole blocks are hashed, the rest is kept.\<close>

definition sha_absorb :: "bytes \<Rightarrow> sha_context \<Rightarrow> sha_context option" where
  "sha_absorb inp s =
     (let s = s\<lparr>sh_state := foldl sha_compress (sh_state s) (exact_chunks 64 inp)\<rparr>;
          remainder = length inp mod 64
      in if remainder \<noteq> 0 then
           (case overwrite 0 (drop (length inp - remainder) inp) (sh_block s) of
              None \<Rightarrow> None
            | Some block \<Rightarrow> Some (s\<lparr>sh_block := block, sh_block_len := remainder\<rparr>))
         else Some s)"

definition sha_update :: "bytes \<Rightarrow> sha_context \<Rightarrow> sha_context option" where
  "sha_update inp s =
     (case sha_fill inp (s\<lparr>sh_byte_len := sh_byte_len s + of_nat (length inp)\<rparr>) of
        None \<Rightarrow> None
      | Some (inp, s) \<Rightarrow> sha_absorb inp s)"

definition sha_finish :: "sha_context \<Rightarrow> bytes option" where
  "sha_finish s =
     (if length (sh_block s) \<le> sh_block_len s then None
      else
        (let bit_len = sh_byte_len s * 8;
             block = (sh_block s)[sh_block_len s := 0x80];
             len = sh_block_len s + 1;
             (state, block) =
               (if 56 < len
                then (sha_compress (sh_state s) (take len block @ replicate (length block - len) 0),
                      replicate 64 0)
                else (sh_state s, take len block @ replicate (56 - len) 0 @ drop 56 block))
         in case overwrite 56 (u64_to_be bit_len) block of
              None \<Rightarrow> None
            | Some block \<Rightarrow> Some (concat (map u32_to_be (sha_compress state block)))))"

definition hex_char :: "u8 \<Rightarrow> char" where
  "hex_char b = ''0123456789abcdef'' ! unat b"

definition sha_hex :: "bytes \<Rightarrow> string option" where
  "sha_hex inp =
     (case sha_update inp sha_new of
        None \<Rightarrow> None
      | Some s \<Rightarrow>
          (case sha_finish s of
             None \<Rightarrow> None
           | Some digest \<Rightarrow>
               Some (concat (map (\<lambda>b. [hex_char (drop_bit 4 b), hex_char (b AND 0x0f)]) digest))))"

section \<open>The specification\<close>

text \<open>The padded message: a one bit, zeros, and the length in bits, in whole blocks.\<close>

definition sha_padding :: "nat \<Rightarrow> bytes" where
  "sha_padding len = 0x80 # replicate ((119 - len mod 64) mod 64) 0 @ u64_to_be (of_nat (8 * len))"

definition sha_digest :: "bytes \<Rightarrow> bytes" where
  "sha_digest msg =
     concat (map u32_to_be
       (foldl sha_compress SHA_INITIAL (exact_chunks 64 (msg @ sha_padding (length msg)))))"

section \<open>Chunks\<close>

lemma chunks_exact_append:
  "length a = n * k \<Longrightarrow> chunks_exact n (k + j) (a @ b) = chunks_exact n k a @ chunks_exact n j b"
proof (induction k arbitrary: a)
  case (Suc k)
  have "length (drop n a) = n * k" using Suc.prems by simp
  from Suc.IH [OF this] Suc.prems show ?case by simp
qed simp

lemma exact_chunks_append:
  assumes "0 < n" and "n dvd length a"
  shows "exact_chunks n (a @ b) = exact_chunks n a @ exact_chunks n b"
proof -
  obtain k where k: "length a = n * k" using assms(2) by (auto elim: dvdE)
  have "(length a + length b) div n = k + length b div n" using assms(1) k by simp
  with chunks_exact_append [OF k] k assms(1) show ?thesis by (simp add: exact_chunks_def)
qed

lemma exact_chunks_block: "length a = n \<Longrightarrow> 0 < n \<Longrightarrow> exact_chunks n a = [a]"
  by (simp add: exact_chunks_def)

lemma exact_chunks_two: "length a = n \<Longrightarrow> length b = n \<Longrightarrow> 0 < n \<Longrightarrow> exact_chunks n (a @ b) = [a, b]"
  by (simp add: exact_chunks_append exact_chunks_block)

lemma exact_chunks_short: "length a < n \<Longrightarrow> exact_chunks n a = []"
  by (simp add: exact_chunks_def)

lemma chunks_exact_take: "n * k \<le> length xs \<Longrightarrow> chunks_exact n k (take (n * k) xs) = chunks_exact n k xs"
proof (induction k arbitrary: xs)
  case (Suc k)
  then have "n * k \<le> length (drop n xs)" by simp
  from Suc.IH [OF this] show ?case by (simp add: drop_take add.commute)
qed simp

lemma exact_chunks_whole:
  assumes "0 < n"
  shows "exact_chunks n xs = exact_chunks n (take (length xs - length xs mod n) xs)"
proof -
  have "length xs - length xs mod n = n * (length xs div n)"
    by (simp add: minus_mod_eq_mult_div)
  moreover have "n * (length xs div n) \<le> length xs" by simp
  ultimately show ?thesis
    using chunks_exact_take [of n "length xs div n" xs] assms by (simp add: exact_chunks_def)
qed

section \<open>Streaming computes the digest\<close>

text \<open>What the context holds after the bytes \<open>msg\<close>: the hashed blocks, and the rest in the buffer.\<close>

definition streamed :: "bytes \<Rightarrow> sha_context \<Rightarrow> bool" where
  "streamed msg s \<longleftrightarrow>
     sh_state s = foldl sha_compress SHA_INITIAL (exact_chunks 64 msg) \<and>
     length (sh_block s) = 64 \<and> sh_block_len s = length msg mod 64 \<and>
     take (sh_block_len s) (sh_block s) = drop (length msg - length msg mod 64) msg"

lemma streamed_new: "streamed [] sha_new"
  by (simp add: streamed_def sha_new_def exact_chunks_def)

lemma overwrite_Some: "overwrite at inp block = Some b \<longleftrightarrow>
    at + length inp \<le> length block \<and> b = take at block @ inp @ drop (at + length inp) block"
  by (auto simp: overwrite_def)

lemma overwrite_after:
  "length pre = at \<Longrightarrow> length inp \<le> length post \<Longrightarrow>
    overwrite at inp (pre @ post) = Some (pre @ inp @ drop (length inp) post)"
  by (auto simp: overwrite_def)

text \<open>The whole blocks of a message and its rest.\<close>

abbreviation whole :: "bytes \<Rightarrow> bytes" where
  "whole msg \<equiv> take (length msg - length msg mod 64) msg"

abbreviation rest :: "bytes \<Rightarrow> bytes" where
  "rest msg \<equiv> drop (length msg - length msg mod 64) msg"

lemma whole_rest: "whole msg @ rest msg = msg" "length (rest msg) = length msg mod 64" "64 dvd length (whole msg)"
  by (simp_all add: dvd_minus_mod)

lemma chunks_rest: "exact_chunks 64 (msg @ xs) = exact_chunks 64 msg @ exact_chunks 64 (rest msg @ xs)"
proof -
  have "exact_chunks 64 (whole msg @ rest msg @ xs) = exact_chunks 64 (whole msg) @ exact_chunks 64 (rest msg @ xs)"
    by (rule exact_chunks_append) (simp_all add: whole_rest)
  moreover have "exact_chunks 64 (whole msg) = exact_chunks 64 msg" by (rule exact_chunks_whole [symmetric]) simp
  ultimately show ?thesis by (metis append.assoc whole_rest(1))
qed

lemma blocks_of: "64 dvd length a \<Longrightarrow> length r < 64 \<Longrightarrow> exact_chunks 64 (a @ r) = exact_chunks 64 a"
  by (simp add: exact_chunks_append exact_chunks_short)

lemma rest_append: "64 dvd length a \<Longrightarrow> rest (a @ b) = rest b"
  by (auto elim!: dvdE simp: drop_append)

lemma mod_append: "64 dvd length a \<Longrightarrow> length (a @ b) mod 64 = length b mod 64"
  by (auto elim!: dvdE)

lemma absorb_streamed:
  assumes "streamed msg s" and "sh_block_len s = 0"
  shows "\<exists>s'. sha_absorb inp s = Some s' \<and> streamed (msg @ inp) s' \<and> sh_byte_len s' = sh_byte_len s"
proof -
  have dvd: "64 dvd length msg" and blk: "length (sh_block s) = 64"
    using assms by (auto simp: streamed_def)
  have st: "foldl sha_compress (sh_state s) (exact_chunks 64 inp) =
      foldl sha_compress SHA_INITIAL (exact_chunks 64 (msg @ inp))"
    using assms(1) dvd by (simp add: streamed_def exact_chunks_append)
  note len = mod_append [OF dvd, of inp] and rs = rest_append [OF dvd, of inp]
  have r: "length (rest inp) = length inp mod 64" "length inp mod 64 < 64" by (simp_all add: whole_rest)
  show ?thesis
  proof (cases "length inp mod 64 = 0")
    case True
    with st len rs assms blk r show ?thesis by (auto simp: sha_absorb_def streamed_def Let_def)
  next
    case False
    then obtain b where b: "overwrite 0 (rest inp) (sh_block s) = Some b" and "b = rest inp @ drop (length (rest inp)) (sh_block s)"
      using blk r by (simp add: overwrite_def)
    with False st len rs blk r show ?thesis
      by (auto simp: sha_absorb_def streamed_def Let_def)
  qed
qed

lemma streamed_byte_len [simp]: "streamed msg (s\<lparr>sh_byte_len := n\<rparr>) = streamed msg s"
  by (simp add: streamed_def)

lemma absorb_Nil: "sha_absorb [] s = Some s"
  by (simp add: sha_absorb_def exact_chunks_def)

lemma mod_add_small: "(a :: nat) mod 64 + n < 64 \<Longrightarrow> (a + n) mod 64 = a mod 64 + n"
  by (simp add: mod_add_left_eq [symmetric, of a])

lemma mod_add_full: "(a :: nat) mod 64 + n = 64 \<Longrightarrow> (a + n) mod 64 = 0"
  by (metis mod_add_left_eq mod_self)

lemma fill_streamed:
  assumes "streamed msg s"
  shows "\<exists>left s'. sha_fill inp s = Some (left, s') \<and> sh_byte_len s' = sh_byte_len s \<and>
    (\<exists>used. inp = used @ left \<and> streamed (msg @ used) s' \<and> (left = [] \<or> sh_block_len s' = 0))"
proof (cases "sh_block_len s = 0")
  case True
  with assms show ?thesis by (auto simp: sha_fill_def)
next
  case False
  let ?L = "sh_block_len s" and ?block = "sh_block s"
  let ?count = "min (64 - ?L) (length inp)"
  have L: "?L = length msg mod 64" "?L < 64" and blk: "length ?block = 64"
    and keep: "take ?L ?block = rest msg" using assms by (auto simp: streamed_def)
  let ?new = "take ?L ?block @ take ?count inp @ drop (?L + ?count) ?block"
  have ow: "overwrite ?L (take ?count inp) ?block = Some ?new"
    using blk L by (simp add: overwrite_def)
  have len: "length ?new = 64" using blk L by simp
  note app = chunks_rest [of msg]
  show ?thesis
  proof (cases "64 - ?L \<le> length inp")
    case True
    let ?used = "take (64 - ?L) inp"
    have c: "?count = 64 - ?L" using True by simp
    have new: "?new = rest msg @ ?used" using c keep blk L by simp
    have m0: "length (msg @ ?used) mod 64 = 0"
      using mod_add_full [of "length msg" "64 - ?L"] L True by simp
    have "exact_chunks 64 (rest msg @ ?used) = [?new]"
      using exact_chunks_block [OF len] new by simp
    with app [of ?used] assms have "foldl sha_compress SHA_INITIAL (exact_chunks 64 (msg @ ?used)) =
        sha_compress (sh_state s) ?new" by (simp add: streamed_def)
    then have "streamed (msg @ ?used) (s\<lparr>sh_state := sha_compress (sh_state s) ?new, sh_block := ?new, sh_block_len := 0\<rparr>)"
      using len m0 unfolding streamed_def by simp
    moreover have "sha_fill inp s = Some (drop (64 - ?L) inp,
        s\<lparr>sh_state := sha_compress (sh_state s) ?new, sh_block := ?new, sh_block_len := 0\<rparr>)"
      using False L ow c by (simp add: sha_fill_def Let_def)
    moreover have "inp = ?used @ drop (64 - ?L) inp" by simp
    ultimately show ?thesis
      by (intro exI [of _ "drop (64 - ?L) inp"]
          exI [of _ "s\<lparr>sh_state := sha_compress (sh_state s) ?new, sh_block := ?new, sh_block_len := 0\<rparr>"])
        (auto intro!: exI [of _ ?used])
  next
    case less: False
    then have c: "?count = length inp" by simp
    have m: "length (msg @ inp) mod 64 = ?L + length inp"
      using mod_add_small [of "length msg" "length inp"] L less by simp
    have "exact_chunks 64 (rest msg @ inp) = []"
      using L less by (intro exact_chunks_short) (simp add: whole_rest)
    moreover have "rest (msg @ inp) = rest msg @ inp" using m L by simp
    ultimately have "streamed (msg @ inp) (s\<lparr>sh_block := ?new, sh_block_len := ?L + length inp\<rparr>)"
      using app [of inp] assms len c keep m blk less unfolding streamed_def by simp
    moreover have "sha_fill inp s = Some ([], s\<lparr>sh_block := ?new, sh_block_len := ?L + length inp\<rparr>)"
      using False L(2) ow c less by (simp add: sha_fill_def Let_def not_less less_imp_le)
    ultimately show ?thesis by (intro exI [of _ "[]"]) auto
  qed
qed

lemma update_streamed:
  assumes "streamed msg s" and "sh_byte_len s = of_nat (length msg)"
  shows "\<exists>s'. sha_update inp s = Some s' \<and> streamed (msg @ inp) s' \<and> sh_byte_len s' = of_nat (length (msg @ inp))"
proof -
  let ?s = "s\<lparr>sh_byte_len := sh_byte_len s + of_nat (length inp)\<rparr>"
  have "streamed msg ?s" using assms(1) by simp
  from fill_streamed [OF this, of inp] obtain left s' used where f: "sha_fill inp ?s = Some (left, s')"
    and b: "sh_byte_len s' = sh_byte_len ?s" and u: "inp = used @ left" "streamed (msg @ used) s'"
    and e: "left = [] \<or> sh_block_len s' = 0" by blast
  from e show ?thesis
  proof
    assume "left = []"
    with f u b assms(2) show ?thesis by (simp add: sha_update_def absorb_Nil)
  next
    assume "sh_block_len s' = 0"
    from absorb_streamed [OF u(2) this, of left] f u b assms(2) show ?thesis
      by (auto simp: sha_update_def)
  qed
qed

text \<open>Both branches of \<open>finish\<close> hash the rest with the padding.\<close>

lemma padding_zeros:
  assumes "m < 64"
  shows "(119 - m) mod 64 = (if 56 \<le> m then (63 - m) + 56 else 55 - (m :: nat))"
proof (cases "56 \<le> m")
  case False
  then have "(119 - m) mod 64 = ((55 - m) + 64) mod 64" by simp
  also have "\<dots> = 55 - m" by (simp only: mod_add_self2) simp
  finally show ?thesis using False by simp
qed (use assms in simp)

lemma finish_streamed:
  assumes "streamed msg s" and "sh_byte_len s = of_nat (length msg)"
  shows "sha_finish s = Some (sha_digest msg)"
proof -
  let ?L = "sh_block_len s" and ?be = "u64_to_be (of_nat (8 * length msg)) :: bytes"
  have L: "?L = length msg mod 64" "?L < 64" and blk: "length (sh_block s) = 64"
    and keep: "take ?L (sh_block s) = rest msg"
    and st: "sh_state s = foldl sha_compress SHA_INITIAL (exact_chunks 64 msg)"
    using assms(1) by (auto simp: streamed_def)
  have be: "length ?be = 8" by (simp add: codec_simps)
  have lr: "length (rest msg) = ?L" using L by simp
  let ?block = "(sh_block s)[?L := 0x80]"
  have marked: "take (?L + 1) ?block = rest msg @ [0x80]"
    using blk L keep by (simp add: take_Suc_conv_app_nth)
  have bits: "sh_byte_len s * 8 = of_nat (8 * length msg)" using assms(2) by simp
  have digest: "sha_digest msg = concat (map u32_to_be
      (foldl sha_compress (sh_state s) (exact_chunks 64 (rest msg @ sha_padding (length msg)))))"
    unfolding sha_digest_def chunks_rest [of msg] by (simp add: st)
  show ?thesis
  proof (cases "56 \<le> ?L")
    case True
    let ?one = "rest msg @ [0x80] @ replicate (63 - ?L) 0" and ?two = "replicate 56 0 @ ?be"
    have "rest msg @ sha_padding (length msg) = ?one @ ?two"
      using padding_zeros [OF L(2)] True L by (simp add: sha_padding_def replicate_add [symmetric])
    moreover have "length ?one = 64" "length ?two = 64" using lr L be by simp_all
    ultimately have "exact_chunks 64 (rest msg @ sha_padding (length msg)) = [?one, ?two]"
      using exact_chunks_two [of ?one 64 ?two] by simp
    moreover have "overwrite 56 ?be (replicate 64 0) = Some ?two"
      using be by (simp add: overwrite_def)
    ultimately show ?thesis
      unfolding digest using True blk L marked bits by (simp add: sha_finish_def Let_def)
  next
    case False
    let ?one = "rest msg @ [0x80] @ replicate (55 - ?L) 0 @ ?be"
    have "rest msg @ sha_padding (length msg) = ?one"
      using padding_zeros [OF L(2)] False L by (simp add: sha_padding_def)
    moreover have "length ?one = 64" using lr False be by simp
    ultimately have "exact_chunks 64 (rest msg @ sha_padding (length msg)) = [?one]"
      by (simp add: exact_chunks_block)
    moreover have "overwrite 56 ?be (rest msg @ [0x80] @ replicate (55 - ?L) 0 @ drop 56 ?block) = Some ?one"
      using overwrite_after [of "rest msg @ [0x80] @ replicate (55 - ?L) 0" 56 ?be "drop 56 ?block"] be lr False blk
      by simp
    ultimately show ?thesis
      unfolding digest using False blk L marked bits by (simp add: sha_finish_def Let_def)
  qed
qed

lemma updates_streamed:
  assumes "streamed msg s" and "sh_byte_len s = of_nat (length msg)"
  shows "\<exists>s'. fold_opt sha_update parts s = Some s' \<and> streamed (msg @ concat parts) s' \<and>
    sh_byte_len s' = of_nat (length (msg @ concat parts))"
  using assms
proof (induction parts arbitrary: msg s)
  case (Cons p parts)
  from update_streamed [OF Cons.prems, of p] obtain t where "sha_update p s = Some t"
    "streamed (msg @ p) t" "sh_byte_len t = of_nat (length (msg @ p))" by blast
  with Cons.IH [of "msg @ p" t] show ?case by simp
qed simp

text \<open>
  C14: Streaming is hashing the whole: however a message is cut into updates (empty ones and ones
  across block boundaries included), no update and no \<open>finish\<close> panics and the digest is that of the
  padded message.
\<close>

theorem sha_streaming:
  "\<exists>s. fold_opt sha_update parts sha_new = Some s \<and> sha_finish s = Some (sha_digest (concat parts))"
  using updates_streamed [OF streamed_new, of parts] finish_streamed by (auto simp: sha_new_def)

end
