(* ===== verification/Layout_Image.thy ===== *)
theory Layout_Image
  imports Telora_Prelude
begin

text \<open>
  Decoding of the closed layout image, \<^verbatim>\<open>crates/telora-wasm-shared/src/layout_image.rs\<close>: one
  32-byte entry per type, each pointing to a run of 12-byte details in the same image.
\<close>

section \<open>Model\<close>

definition ENTRY_BYTES :: u32 where "ENTRY_BYTES = 32"
definition DETAIL_BYTES :: u32 where "DETAIL_BYTES = 12"
definition KIND :: u32 where "KIND = 0"
definition VALUE_BYTES :: u32 where "VALUE_BYTES = 4"
definition DATA_BYTES :: u32 where "DATA_BYTES = 8"
definition ALIGNMENT :: u32 where "ALIGNMENT = 12"
definition RESOURCE_TABLE :: u32 where "RESOURCE_TABLE = 16"
definition DETAIL_OFFSET :: u32 where "DETAIL_OFFSET = 20"
definition DETAIL_COUNT :: u32 where "DETAIL_COUNT = 24"
definition FLAGS :: u32 where "FLAGS = 28"
definition DETAIL_TYPE :: u32 where "DETAIL_TYPE = 0"
definition DETAIL_OFFSET_OR_TAG :: u32 where "DETAIL_OFFSET_OR_TAG = 4"
definition DETAIL_FLAGS :: u32 where "DETAIL_FLAGS = 8"
definition DETAIL_BOXED :: u32 where "DETAIL_BOXED = 1"
definition NO_TYPE :: u32 where "NO_TYPE = u32_max"
definition NO_RESOURCE :: u32 where "NO_RESOURCE = u32_max"

lemmas layout_consts =
  ENTRY_BYTES_def DETAIL_BYTES_def KIND_def VALUE_BYTES_def DATA_BYTES_def ALIGNMENT_def
  RESOURCE_TABLE_def DETAIL_OFFSET_def DETAIL_COUNT_def FLAGS_def DETAIL_TYPE_def
  DETAIL_OFFSET_OR_TAG_def DETAIL_FLAGS_def

datatype layout_kind =
    KScalar | KString | KBytes | KRecord | KArray | KDict | KEnum | KDyn | KFunction
  | KResource | KNewtype | KCompileTime | KInlineRecord | KInlineNewtype

definition kind_decode :: "u32 \<Rightarrow> layout_kind option" where
  "kind_decode v =
     (if v = 0 then Some KScalar
      else if v = 1 then Some KString
      else if v = 2 then Some KBytes
      else if v = 3 then Some KRecord
      else if v = 4 then Some KArray
      else if v = 5 then Some KDict
      else if v = 6 then Some KEnum
      else if v = 7 then Some KDyn
      else if v = 8 then Some KFunction
      else if v = 9 then Some KResource
      else if v = 10 then Some KNewtype
      else if v = 11 then Some KCompileTime
      else if v = 12 then Some KInlineRecord
      else if v = 13 then Some KInlineNewtype
      else None)"

text \<open>The discriminants of \<open>#[repr(u32)] enum Kind\<close>.\<close>

primrec kind_code :: "layout_kind \<Rightarrow> u32" where
  "kind_code KScalar = 0" | "kind_code KString = 1" | "kind_code KBytes = 2"
| "kind_code KRecord = 3" | "kind_code KArray = 4" | "kind_code KDict = 5"
| "kind_code KEnum = 6" | "kind_code KDyn = 7" | "kind_code KFunction = 8"
| "kind_code KResource = 9" | "kind_code KNewtype = 10" | "kind_code KCompileTime = 11"
| "kind_code KInlineRecord = 12" | "kind_code KInlineNewtype = 13"

record layout_entry =
  le_kind :: layout_kind
  le_value_bytes :: u32
  le_data_bytes :: u32
  le_alignment :: u32
  le_resource_table :: "u32 option"
  le_detail_offset :: u32
  le_detail_count :: u32
  le_flags :: u32

record layout_detail =
  ld_ty :: "u32 option"
  ld_offset_or_tag :: u32
  ld_flags :: u32

definition is_power_of_two :: "u32 \<Rightarrow> bool" where
  "is_power_of_two w \<longleftrightarrow> w \<noteq> 0 \<and> w AND (w - 1) = 0"

text \<open>
  The closure \<open>word\<close> of both decoders: a little-endian word of the image at \<open>base + offset\<close>.
\<close>

definition image_word :: "bytes \<Rightarrow> nat \<Rightarrow> u32 \<Rightarrow> u32 option" where
  "image_word img base offset =
     Option.bind (checked_add_usize base (unat offset)) (\<lambda>at.
     Option.bind (get_range img at (at + 4)) (\<lambda>bs. Some (u32_from_le bs)))"

definition entry_decode :: "bytes \<Rightarrow> u32 \<Rightarrow> layout_entry option" where
  "entry_decode img type_id =
     Option.bind (checked_mul type_id ENTRY_BYTES) (\<lambda>b.
       let base = unat b; word = image_word img base in
       Option.bind (word KIND) (\<lambda>k. Option.bind (kind_decode k) (\<lambda>kind.
       Option.bind (word RESOURCE_TABLE) (\<lambda>resource.
       Option.bind (word VALUE_BYTES) (\<lambda>value_bytes.
       Option.bind (word DATA_BYTES) (\<lambda>data_bytes.
       Option.bind (word ALIGNMENT) (\<lambda>alignment.
       Option.bind (word DETAIL_OFFSET) (\<lambda>detail_offset.
       Option.bind (word DETAIL_COUNT) (\<lambda>detail_count.
       Option.bind (word FLAGS) (\<lambda>flags.
       Option.bind (checked_mul detail_count DETAIL_BYTES) (\<lambda>run.
       Option.bind (checked_add detail_offset run) (\<lambda>details.
         if (value_bytes = 0) \<noteq> (kind = KCompileTime)
            \<or> \<not> is_power_of_two alignment
            \<or> unat details > length img
         then None
         else Some \<lparr>le_kind = kind, le_value_bytes = value_bytes, le_data_bytes = data_bytes,
                    le_alignment = alignment,
                    le_resource_table = (if resource \<noteq> NO_RESOURCE then Some resource else None),
                    le_detail_offset = detail_offset, le_detail_count = detail_count,
                    le_flags = flags\<rparr>))))))))))))"

definition detail_decode :: "bytes \<Rightarrow> layout_entry \<Rightarrow> u32 \<Rightarrow> layout_detail option" where
  "detail_decode img entry index =
     (if index \<ge> le_detail_count entry then None
      else
        Option.bind (checked_mul index DETAIL_BYTES) (\<lambda>run.
        Option.bind (checked_add (le_detail_offset entry) run) (\<lambda>b.
          let base = unat b; word = image_word img base in
          Option.bind (word DETAIL_TYPE) (\<lambda>ty.
          Option.bind (word DETAIL_OFFSET_OR_TAG) (\<lambda>offset_or_tag.
          Option.bind (word DETAIL_FLAGS) (\<lambda>flags.
            Some \<lparr>ld_ty = (if ty \<noteq> NO_TYPE then Some ty else None),
                  ld_offset_or_tag = offset_or_tag, ld_flags = flags\<rparr>))))))"

section \<open>What a decoded entry guarantees\<close>

lemma kind_decode_code [simp]: "kind_decode (kind_code k) = Some k"
  by (cases k) (simp_all add: kind_decode_def)

lemma kind_code_decode: "kind_decode v = Some k \<Longrightarrow> kind_code k = v"
  by (auto simp: kind_decode_def split: if_splits)

text \<open>A run of details lies inside the image.\<close>

definition details_inside :: "bytes \<Rightarrow> layout_entry \<Rightarrow> bool" where
  "details_inside img e \<longleftrightarrow>
     unat (le_detail_offset e) + unat (le_detail_count e) * 12 \<le> length img
     \<and> unat (le_detail_offset e) + unat (le_detail_count e) * 12 < 2 ^ 32"

lemma entry_decode_Some:
  assumes "entry_decode img t = Some e"
  shows "details_inside img e"
    and "le_value_bytes e = 0 \<longleftrightarrow> le_kind e = KCompileTime"
    and "is_power_of_two (le_alignment e)"
    and "le_resource_table e \<noteq> Some NO_RESOURCE"
    and "unat t * 32 + 32 \<le> length img"
proof -
  note unfold = entry_decode_def Let_def bind_eq_Some_conv
  from assms obtain run details where
      run: "checked_mul (le_detail_count e) DETAIL_BYTES = Some run"
      "checked_add (le_detail_offset e) run = Some details" "unat details \<le> length img"
    by (auto simp: unfold split: if_splits)
  with unat_u32 [of details] show "details_inside img e"
    by (auto simp: details_inside_def checked_simps DETAIL_BYTES_def)
  from assms show "le_value_bytes e = 0 \<longleftrightarrow> le_kind e = KCompileTime"
    and "is_power_of_two (le_alignment e)" and "le_resource_table e \<noteq> Some NO_RESOURCE"
    by (auto simp: unfold split: if_splits)
  from assms obtain b fl where
      "checked_mul t ENTRY_BYTES = Some b" "image_word img (unat b) FLAGS = Some fl"
    by (auto simp: unfold split: if_splits)
  then show "unat t * 32 + 32 \<le> length img"
    by (auto simp: checked_simps ENTRY_BYTES_def FLAGS_def image_word_def bind_eq_Some_conv)
qed

lemma image_word_total:
  "base + unat offset + 4 \<le> length img \<Longrightarrow> length img \<le> usize_max \<Longrightarrow>
     \<exists>w. image_word img base offset = Some w"
  by (simp add: image_word_def checked_add_usize_def get_range_def)

lemma detail_decode_total:
  assumes inside: "details_inside img e" and len: "length img \<le> usize_max"
    and idx: "index < le_detail_count e"
  obtains d where "detail_decode img e index = Some d"
proof -
  let ?i = "unat index" and ?off = "unat (le_detail_offset e)" and ?n = "unat (le_detail_count e)"
  from idx have i: "?i * 12 + 12 \<le> ?n * 12" by (simp add: word_less_nat_alt)
  from inside have fits: "?off + ?n * 12 \<le> length img" "?off + ?n * 12 < 2 ^ 32"
    by (simp_all add: details_inside_def)
  define run where "run = index * DETAIL_BYTES"
  define b where "b = le_detail_offset e + run"
  from i fits have run: "checked_mul index DETAIL_BYTES = Some run"
    by (simp add: checked_mul_def DETAIL_BYTES_def run_def)
  then have ur: "unat run = ?i * 12" by (simp add: checked_simps DETAIL_BYTES_def)
  from i fits have b: "checked_add (le_detail_offset e) run = Some b"
    by (simp add: checked_add_def ur b_def)
  then have ub: "unat b = ?off + ?i * 12" by (simp add: checked_simps ur)
  have w: "\<exists>w. image_word img (unat b) k = Some w" if "unat k + 4 \<le> 12" for k
    using that i fits(1) by (intro image_word_total [OF _ len]) (simp add: ub)
  obtain w0 w1 w2 where "image_word img (unat b) DETAIL_TYPE = Some w0"
    "image_word img (unat b) DETAIL_OFFSET_OR_TAG = Some w1"
    "image_word img (unat b) DETAIL_FLAGS = Some w2"
    using w [of DETAIL_TYPE] w [of DETAIL_OFFSET_OR_TAG] w [of DETAIL_FLAGS]
    by (auto simp: layout_consts)
  with idx run b show ?thesis
    by (intro that) (simp add: detail_decode_def not_le Let_def)
qed

text \<open>
  The detail run of a decoded entry is readable: once an entry of an addressable image decodes,
  its entry record and its whole detail run lie inside the image, every detail of it decodes, and
  an index past its count does not.
\<close>

theorem layout_details_readable:
  assumes "entry_decode img t = Some e" and "length img \<le> usize_max"
  shows "(detail_decode img e index = None \<longleftrightarrow> le_detail_count e \<le> index) \<and>
    unat (le_detail_offset e) + unat (le_detail_count e) * 12 \<le> length img \<and>
    unat t * 32 + 32 \<le> length img"
proof -
  note inside = entry_decode_Some [OF assms(1)]
  have "detail_decode img e index = None \<longleftrightarrow> le_detail_count e \<le> index"
  proof (cases "index < le_detail_count e")
    case True
    from detail_decode_total [OF inside(1) assms(2) True] obtain d where
      "detail_decode img e index = Some d" by blast
    with True show ?thesis by simp
  qed (simp add: detail_decode_def not_less)
  with inside show ?thesis by (simp add: details_inside_def)
qed

definition layout_example :: bytes where
  "layout_example =
     u32_to_le 4 @ u32_to_le 24 @ u32_to_le 16 @ u32_to_le 8 @ u32_to_le NO_RESOURCE @ u32_to_le 32 @
     u32_to_le 1 @ u32_to_le 0 @ u32_to_le 0 @ u32_to_le 0 @ u32_to_le 0"

definition layout_example_entry :: layout_entry where
  "layout_example_entry =
     \<lparr>le_kind = KArray, le_value_bytes = 24, le_data_bytes = 16, le_alignment = 8,
      le_resource_table = None, le_detail_offset = 32, le_detail_count = 1, le_flags = 0\<rparr>"

lemma layout_example_words:
  "image_word layout_example 0 0 = Some 4" "image_word layout_example 0 4 = Some 24"
  "image_word layout_example 0 8 = Some 16" "image_word layout_example 0 12 = Some 8"
  "image_word layout_example 0 16 = Some NO_RESOURCE" "image_word layout_example 0 20 = Some 32"
  "image_word layout_example 0 24 = Some 1" "image_word layout_example 0 28 = Some 0"
  "length layout_example = 44"
  by (simp_all add: image_word_def layout_example_def get_range_def checked_add_usize_def usize_max_def)

lemma layout_example_decodes: "entry_decode layout_example 0 = Some layout_example_entry"
  by (simp add: entry_decode_def Let_def layout_consts layout_example_words checked_mul_def
    checked_add_def is_power_of_two_def layout_example_entry_def kind_decode_def NO_RESOURCE_def)

theorem layout_details_readable_witness:
  "detail_decode layout_example layout_example_entry 0 \<noteq> None"
proof -
  have "length layout_example \<le> usize_max"
    by (simp add: layout_example_words usize_max_def)
  from layout_details_readable [OF layout_example_decodes this, of 0]
  show ?thesis by (simp add: layout_example_entry_def)
qed

end
