(* ===== verification/Gc_Classify.thy ===== *)
theory Gc_Classify
  imports Layout_Image
begin

text \<open>
  Static reference classification, \<^verbatim>\<open>crates/telora-wasm-shared/src/layout_image/gc.rs\<close>: every
  type is tagged with the kinds of references its values can hold, by a worklist over the
  reversed detail edges.
\<close>

section \<open>Model\<close>

definition GC_REFERENCES :: u32 where "GC_REFERENCES = 1"
definition INTERNAL_REFERENCES :: u32 where "INTERNAL_REFERENCES = 2"
definition DYNAMIC_REFERENCES :: u32 where "DYNAMIC_REFERENCES = 4"

definition REFERENCE_FLAGS :: u32 where
  "REFERENCE_FLAGS = GC_REFERENCES OR INTERNAL_REFERENCES OR DYNAMIC_REFERENCES"

definition kind_flags :: "layout_kind \<Rightarrow> u32" where
  "kind_flags k =
     (case k of
        KString \<Rightarrow> GC_REFERENCES | KBytes \<Rightarrow> GC_REFERENCES
      | KArray \<Rightarrow> GC_REFERENCES | KDict \<Rightarrow> GC_REFERENCES
      | KDyn \<Rightarrow> INTERNAL_REFERENCES OR DYNAMIC_REFERENCES
      | KFunction \<Rightarrow> INTERNAL_REFERENCES OR DYNAMIC_REFERENCES
      | KResource \<Rightarrow> INTERNAL_REFERENCES
      | _ \<Rightarrow> 0)"

text \<open>The arrays \<open>flags\<close> and \<open>consumers\<close> while they are filled.\<close>

type_synonym tables = "u32 list \<times> nat list list"

text \<open>One round of the inner \<open>for index\<close> loop.\<close>

definition classify_detail :: "bytes \<Rightarrow> layout_entry \<Rightarrow> nat \<Rightarrow> nat \<Rightarrow> tables \<Rightarrow> tables option" where
  "classify_detail img entry tid index st =
     Option.bind (detail_decode img entry (of_nat index)) (\<lambda>detail.
       let (flags, consumers) = st;
           flags = (if ld_flags detail AND DETAIL_BOXED \<noteq> 0
                    then flags[tid := flags ! tid OR INTERNAL_REFERENCES] else flags)
       in case ld_ty detail of
            None \<Rightarrow> Some (flags, consumers)
          | Some ty \<Rightarrow>
              let child = unat ty
              in (if child < length consumers
                  then Some (flags, consumers[child := consumers ! child @ [tid]])
                  else None))"

text \<open>One round of the outer loop over the entries.\<close>

definition classify_entry :: "bytes \<Rightarrow> layout_entry list \<Rightarrow> nat \<Rightarrow> tables \<Rightarrow> tables option" where
  "classify_entry img entries tid st =
     (let entry = entries ! tid; (flags, consumers) = st
      in fold_opt (classify_detail img entry tid) [0..<unat (le_detail_count entry)]
           (flags[tid := kind_flags (le_kind entry)], consumers))"

text \<open>
  The propagation state: \<open>flags\<close>, \<open>queued\<close> and the stack \<open>pending\<close>, whose head is the last
  element of the source's vector. An index out of range, where the source would panic, is \<open>None\<close>.
\<close>

type_synonym propagation = "u32 list \<times> bool list \<times> nat list"

fun push_parents :: "nat \<Rightarrow> nat list \<Rightarrow> propagation \<Rightarrow> propagation option" where
  "push_parents child [] st = Some st"
| "push_parents child (parent # ps) (flags, queued, pending) =
     (if parent \<ge> length flags \<or> child \<ge> length flags \<or> parent \<ge> length queued then None
      else
        let next = flags ! parent OR flags ! child
        in if next \<noteq> flags ! parent then
             let flags = flags[parent := next]
             in if \<not> queued ! parent
                then push_parents child ps (flags, queued[parent := True], parent # pending)
                else push_parents child ps (flags, queued, pending)
           else push_parents child ps (flags, queued, pending))"

text \<open>The flag bits that are still clear; every change of \<open>flags\<close> lowers their number.\<close>

definition zero_bits :: "u32 \<Rightarrow> nat" where
  "zero_bits f = card {b. b < 32 \<and> \<not> bit f b}"

definition clear_bits :: "u32 list \<Rightarrow> nat" where
  "clear_bits flags = sum_list (map zero_bits flags)"

lemma zero_bits_or:
  assumes "f OR w \<noteq> f"
  shows "zero_bits (f OR w) < zero_bits f"
  unfolding zero_bits_def
proof (rule psubset_card_mono)
  have "{b. b < 32 \<and> \<not> bit (f OR w) b} \<noteq> {b. b < 32 \<and> \<not> bit f b}"
  proof
    assume eq: "{b. b < 32 \<and> \<not> bit (f OR w) b} = {b. b < 32 \<and> \<not> bit f b}"
    have "bit (f OR w) n = bit f n" if "n < 32" for n
      using eq that by blast
    then have "f OR w = f" by (intro bit_word_eqI) simp
    with assms show False by simp
  qed
  then show "{b. b < 32 \<and> \<not> bit (f OR w) b} \<subset> {b. b < 32 \<and> \<not> bit f b}"
    by (auto simp: bit_or_iff)
qed simp

lemma clear_bits_update:
  assumes "i < length flags" and "flags ! i OR w \<noteq> flags ! i"
  shows "clear_bits (flags[i := flags ! i OR w]) < clear_bits flags"
proof -
  have "zero_bits (flags ! i) \<le> clear_bits flags"
    using assms(1) elem_le_sum_list [of i "map zero_bits flags"] by (simp add: clear_bits_def)
  with zero_bits_or [OF assms(2)] assms(1) show ?thesis
    by (simp add: clear_bits_def map_update sum_list_update)
qed

lemma push_parents_measure:
  "push_parents child ps (flags, queued, pending) = Some (flags', queued', pending') \<Longrightarrow>
     clear_bits flags' < clear_bits flags
       \<or> (flags' = flags \<and> queued' = queued \<and> pending' = pending)"
proof (induction ps arbitrary: flags queued pending)
  case Nil
  then show ?case by simp
next
  case (Cons parent ps)
  let ?next = "flags ! parent OR flags ! child"
  show ?case
  proof (cases "?next = flags ! parent")
    case True
    with Cons.prems have "push_parents child ps (flags, queued, pending) = Some (flags', queued', pending')"
      by (simp split: if_splits)
    then show ?thesis by (rule Cons.IH)
  next
    case False
    with Cons.prems obtain q p where
        "push_parents child ps (flags[parent := ?next], q, p) = Some (flags', queued', pending')"
      and parent: "parent < length flags"
      by (cases "queued ! parent") (simp_all add: Let_def split: if_splits)
    from Cons.IH [OF this(1)] clear_bits_update [OF parent False] show ?thesis
      by auto
  qed
qed

function propagate :: "nat list list \<Rightarrow> propagation \<Rightarrow> u32 list option" where
  "propagate consumers (flags, queued, []) = Some flags"
| "propagate consumers (flags, queued, child # pending) =
     (if child \<ge> length queued \<or> child \<ge> length consumers then None
      else case push_parents child (consumers ! child) (flags, queued[child := False], pending) of
             None \<Rightarrow> None
           | Some st \<Rightarrow> propagate consumers st)"
  by pat_completeness auto
termination
proof (relation "measures [\<lambda>(c, f, q, p). clear_bits f, \<lambda>(c, f, q, p). length p]", goal_cases)
  case 1
  show ?case by simp
next
  case (2 consumers flags queued child pending st)
  obtain flags' queued' pending' where st: "st = (flags', queued', pending')"
    by (cases st) auto
  from push_parents_measure [OF 2(2) [unfolded st]] show ?case
    by (auto simp: st)
qed

definition gc_classify :: "bytes \<Rightarrow> nat \<Rightarrow> u32 list option" where
  "gc_classify img count =
     Option.bind (map_opt (\<lambda>tid. if tid < 2 ^ 32 then entry_decode img (of_nat tid) else None) [0..<count])
       (\<lambda>entries.
     Option.bind (fold_opt (classify_entry img entries) [0..<count] (replicate count 0, replicate count []))
       (\<lambda>(flags, consumers).
        let pending = rev (filter (\<lambda>tid. flags ! tid \<noteq> 0) [0..<count]);
            queued = map (\<lambda>f. f \<noteq> 0) flags
        in propagate consumers (flags, queued, pending)))"

section \<open>The worklist computes a closure\<close>

text \<open>\<open>(p, c)\<close>: values of type \<open>p\<close> contain values of type \<open>c\<close>.\<close>

definition consumer_rel :: "nat list list \<Rightarrow> (nat \<times> nat) set" where
  "consumer_rel consumers = {(p, c). c < length consumers \<and> p \<in> set (consumers ! c)}"

definition consumers_ok :: "nat list list \<Rightarrow> bool" where
  "consumers_ok consumers \<longleftrightarrow> (\<forall>c < length consumers. set (consumers ! c) \<subseteq> {..<length consumers})"

definition reaches_bit :: "nat list list \<Rightarrow> u32 list \<Rightarrow> nat \<Rightarrow> nat \<Rightarrow> bool" where
  "reaches_bit consumers seed i b \<longleftrightarrow>
     (\<exists>c < length consumers. (i, c) \<in> (consumer_rel consumers)\<^sup>* \<and> bit (seed ! c) b)"

text \<open>
  The invariant of the propagation. While the parents of \<open>child\<close> are being visited, the
  closedness may still fail for the parents \<open>ps\<close> not yet reached.
\<close>

definition propagation_inv ::
    "nat list list \<Rightarrow> u32 list \<Rightarrow> nat \<Rightarrow> nat list \<Rightarrow> propagation \<Rightarrow> bool" where
  "propagation_inv consumers seed child ps st = (case st of (flags, queued, pending) \<Rightarrow>
     length flags = length consumers \<and> length queued = length consumers
     \<and> set pending \<subseteq> {..<length consumers}
     \<and> (\<forall>i < length consumers. queued ! i \<longrightarrow> i \<in> set pending)
     \<and> (\<forall>i < length consumers. \<forall>b. bit (seed ! i) b \<longrightarrow> bit (flags ! i) b)
     \<and> (\<forall>i < length consumers. \<forall>b. bit (flags ! i) b \<longrightarrow> reaches_bit consumers seed i b)
     \<and> (\<forall>c < length consumers. c \<notin> set pending \<longrightarrow>
           (\<forall>p \<in> set (consumers ! c). (c = child \<and> p \<in> set ps)
              \<or> (\<forall>b. bit (flags ! c) b \<longrightarrow> bit (flags ! p) b))))"

lemma propagation_closedD:
  "propagation_inv consumers seed child ps (flags, queued, pending) \<Longrightarrow> c < length consumers \<Longrightarrow>
     c \<notin> set pending \<Longrightarrow> p \<in> set (consumers ! c) \<Longrightarrow>
     c = child \<and> p \<in> set ps \<or> (\<forall>b. bit (flags ! c) b \<longrightarrow> bit (flags ! p) b)"
  unfolding propagation_inv_def prod.case by blast

lemma reaches_bit_step:
  assumes "p \<in> set (consumers ! c)" "c < length consumers" "reaches_bit consumers seed c b"
  shows "reaches_bit consumers seed p b"
  using assms unfolding reaches_bit_def consumer_rel_def
  by (blast intro: converse_rtrancl_into_rtrancl)

lemma push_one_inv:
  assumes inv: "propagation_inv consumers seed child (parent # ps) (flags, queued, pending)"
    and child: "child < length consumers" and parent: "parent \<in> set (consumers ! child)"
    and ok: "consumers_ok consumers"
    and changed: "flags ! parent OR flags ! child \<noteq> flags ! parent"
  shows "propagation_inv consumers seed child ps
    (flags[parent := flags ! parent OR flags ! child],
     (if queued ! parent then queued else queued[parent := True]),
     (if queued ! parent then pending else parent # pending))"
proof -
  let ?n = "length consumers" and ?f = "flags[parent := flags ! parent OR flags ! child]"
  let ?p = "if queued ! parent then pending else parent # pending"
  from ok child parent have pn: "parent < ?n" by (auto simp: consumers_ok_def)
  from changed have ne: "parent \<noteq> child" by auto
  from inv have len: "length flags = ?n" "length queued = ?n"
    by (simp_all add: propagation_inv_def)
  have bits: "bit (?f ! i) b \<longleftrightarrow> bit (flags ! i) b \<or> i = parent \<and> bit (flags ! child) b"
    if "i < ?n" for i b
    using that len pn by (auto simp: nth_list_update bit_or_iff)
  have qp: "parent \<in> set ?p" using inv pn by (auto simp: propagation_inv_def)
  have sound: "reaches_bit consumers seed i b" if "i < ?n" "bit (?f ! i) b" for i b
    using that inv child parent
    by (auto simp: bits propagation_inv_def intro: reaches_bit_step [OF parent child])
  have closed: "(c = child \<and> p \<in> set ps) \<or> (\<forall>b. bit (?f ! c) b \<longrightarrow> bit (?f ! p) b)"
    if c: "c < ?n" "c \<notin> set ?p" and p: "p \<in> set (consumers ! c)" for c p
  proof -
    from c qp have "c \<noteq> parent" "c \<notin> set pending" by (auto split: if_splits)
    from ok c(1) p have "p < ?n" by (auto simp: consumers_ok_def)
    with propagation_closedD [OF inv c(1) \<open>c \<notin> set pending\<close> p] c(1) \<open>c \<noteq> parent\<close>
    show ?thesis by (auto simp: bits)
  qed
  show ?thesis
    unfolding propagation_inv_def
    using inv len pn sound closed
    by (auto simp: propagation_inv_def bits bit_or_iff nth_list_update)
qed

lemma push_parents_inv:
  assumes "child < length consumers" and "consumers_ok consumers"
  shows "set ps \<subseteq> set (consumers ! child) \<Longrightarrow> propagation_inv consumers seed child ps st \<Longrightarrow>
    \<exists>st'. push_parents child ps st = Some st' \<and> propagation_inv consumers seed child [] st'"
proof (induction ps arbitrary: st)
  case Nil
  then show ?case by simp
next
  case (Cons parent ps)
  obtain flags queued pending where st: "st = (flags, queued, pending)" by (cases st) auto
  from Cons.prems assms have pn: "parent < length consumers" by (auto simp: consumers_ok_def)
  with Cons.prems st have len: "parent < length flags" "child < length flags" "parent < length queued"
    using assms(1) by (simp_all add: propagation_inv_def)
  show ?case
  proof (cases "flags ! parent OR flags ! child = flags ! parent")
    case True
    then have "bit (flags ! child) b \<Longrightarrow> bit (flags ! parent) b" for b
      by (metis bit_or_iff)
    with Cons.prems(2) st have "propagation_inv consumers seed child ps (flags, queued, pending)"
      by (fastforce simp: propagation_inv_def)
    with Cons.IH Cons.prems(1) True len st show ?thesis by simp
  next
    case False
    from push_one_inv [OF Cons.prems(2) [unfolded st] assms(1) _ assms(2) False] Cons.prems(1)
    have "propagation_inv consumers seed child ps
        (flags[parent := flags ! parent OR flags ! child],
         (if queued ! parent then queued else queued[parent := True]),
         (if queued ! parent then pending else parent # pending))" by simp
    with Cons.IH [OF _ this] Cons.prems(1) False len st show ?thesis
      by (cases "queued ! parent") (simp_all add: Let_def)
  qed
qed

lemma propagation_final:
  assumes "propagation_inv consumers seed child [] (flags, queued, [])"
    and "i < length consumers"
  shows "bit (flags ! i) b \<longleftrightarrow> reaches_bit consumers seed i b"
proof
  show "bit (flags ! i) b \<Longrightarrow> reaches_bit consumers seed i b"
    using assms by (auto simp: propagation_inv_def)
next
  assume "reaches_bit consumers seed i b"
  then obtain c where c: "c < length consumers" "(i, c) \<in> (consumer_rel consumers)\<^sup>*"
    and b: "bit (seed ! c) b" by (auto simp: reaches_bit_def)
  have seed: "bit (flags ! c) b" using assms(1) c(1) b by (auto simp: propagation_inv_def)
  from c(2) seed show "bit (flags ! i) b"
  proof (induction rule: converse_rtrancl_induct)
    case base
    then show ?case .
  next
    case (step p q)
    then show ?case using assms(1) by (auto simp: propagation_inv_def consumer_rel_def)
  qed
qed

lemma pop_inv:
  assumes inv: "propagation_inv consumers seed child [] (flags, queued, c # pending)"
    and c: "c < length consumers" "length queued = length consumers"
  shows "propagation_inv consumers seed c (consumers ! c) (flags, queued[c := False], pending)"
proof -
  have q: "i \<in> set pending" if "i < length consumers" "queued[c := False] ! i" for i
    using that inv c by (cases "i = c") (auto simp: propagation_inv_def)
  have closed: "d = c \<and> p \<in> set (consumers ! c) \<or> (\<forall>b. bit (flags ! d) b \<longrightarrow> bit (flags ! p) b)"
    if "d < length consumers" "d \<notin> set pending" "p \<in> set (consumers ! d)" for d p
    using that propagation_closedD [OF inv, of d p] by (cases "d = c") auto
  from inv show ?thesis
    by (simp add: propagation_inv_def q closed)
qed

lemma propagate_closure:
  "consumers_ok consumers \<Longrightarrow> propagation_inv consumers seed child [] st \<Longrightarrow>
    \<exists>flags. propagate consumers st = Some flags \<and> length flags = length consumers
      \<and> (\<forall>i < length consumers. \<forall>b. bit (flags ! i) b \<longleftrightarrow> reaches_bit consumers seed i b)"
proof (induction consumers st arbitrary: child rule: propagate.induct)
  case (1 consumers flags queued)
  then have "length flags = length consumers" by (simp add: propagation_inv_def)
  with propagation_final [OF "1.prems"(2)] show ?case by simp
next
  case (2 consumers flags queued c pending)
  have c: "c < length consumers" "length queued = length consumers"
    using "2.prems"(2) by (auto simp: propagation_inv_def)
  have "propagation_inv consumers seed c (consumers ! c) (flags, queued[c := False], pending)"
    using "2.prems"(2) c by (rule pop_inv)
  from push_parents_inv [OF c(1) "2.prems"(1) _ this] obtain st' where
    st': "push_parents c (consumers ! c) (flags, queued[c := False], pending) = Some st'"
    "propagation_inv consumers seed c [] st'" by auto
  from "2.IH" [OF _ st'(1) "2.prems"(1) st'(2)] c st'(1) show ?case by simp
qed

section \<open>The tables the worklist starts from\<close>

definition detail_refers :: "bytes \<Rightarrow> layout_entry \<Rightarrow> nat \<Rightarrow> nat \<Rightarrow> bool" where
  "detail_refers img e i c \<longleftrightarrow>
     (\<exists>d ty. detail_decode img e (of_nat i) = Some d \<and> ld_ty d = Some ty \<and> unat ty = c)"

definition detail_boxed :: "bytes \<Rightarrow> layout_entry \<Rightarrow> nat \<Rightarrow> bool" where
  "detail_boxed img e i \<longleftrightarrow>
     (\<exists>d. detail_decode img e (of_nat i) = Some d \<and> ld_flags d AND DETAIL_BOXED \<noteq> 0)"

definition entry_refers :: "bytes \<Rightarrow> layout_entry \<Rightarrow> nat \<Rightarrow> bool" where
  "entry_refers img e c \<longleftrightarrow> (\<exists>i < unat (le_detail_count e). detail_refers img e i c)"

definition entry_seed :: "bytes \<Rightarrow> layout_entry \<Rightarrow> u32" where
  "entry_seed img e = kind_flags (le_kind e) OR
     (if \<exists>i < unat (le_detail_count e). detail_boxed img e i then INTERNAL_REFERENCES else 0)"

lemma classify_details:
  assumes "fold_opt (classify_detail img e t) [0..<k] (F, C) = Some (F', C')" and "t < length F"
  shows "F' = F[t := F ! t OR (if \<exists>i < k. detail_boxed img e i then INTERNAL_REFERENCES else 0)]
    \<and> length C' = length C
    \<and> (\<forall>c < length C. set (C' ! c) = set (C ! c) \<union> (if \<exists>i < k. detail_refers img e i c then {t} else {}))
    \<and> (\<forall>i < k. \<forall>c. detail_refers img e i c \<longrightarrow> c < length C)"
  using assms(1)
proof (induction k arbitrary: F' C')
  case 0
  then show ?case by simp
next
  case (Suc k)
  from Suc.prems obtain F1 C1 where
      1: "fold_opt (classify_detail img e t) [0..<k] (F, C) = Some (F1, C1)"
      and 2: "classify_detail img e t k (F1, C1) = Some (F', C')"
    by (auto simp: fold_opt_append split: option.splits)
  note IH = Suc.IH [OF 1]
  from 2 obtain d where d: "detail_decode img e (of_nat k) = Some d"
    by (auto simp: classify_detail_def bind_eq_Some_conv)
  have boxed: "detail_boxed img e k \<longleftrightarrow> ld_flags d AND DETAIL_BOXED \<noteq> 0"
    and refers: "detail_refers img e k c \<longleftrightarrow> (\<exists>ty. ld_ty d = Some ty \<and> unat ty = c)" for c
    by (auto simp: detail_boxed_def detail_refers_def d)
  have F': "F' = (if detail_boxed img e k then F1[t := F1 ! t OR INTERNAL_REFERENCES] else F1)"
    and len: "length C' = length C1"
    and C': "\<forall>c < length C1. set (C' ! c) = set (C1 ! c) \<union> (if detail_refers img e k c then {t} else {})"
    and rng: "\<forall>c. detail_refers img e k c \<longrightarrow> c < length C1"
    using 2 unfolding boxed refers
    by (auto simp: classify_detail_def d Let_def nth_list_update split: if_splits option.splits)
  have "F' = F[t := F ! t OR (if \<exists>i < Suc k. detail_boxed img e i then INTERNAL_REFERENCES else 0)]"
    using IH F' assms(2) by (auto simp: less_Suc_eq or.assoc)
  with IH len C' rng show ?case by (auto simp: less_Suc_eq)
qed

lemma classify_entries:
  assumes "fold_opt (classify_entry img es) [0..<k] (replicate n 0, replicate n []) = Some (F, C)"
    and "k \<le> n"
  shows "length F = n \<and> length C = n \<and> (\<forall>i < k. F ! i = entry_seed img (es ! i))
    \<and> (\<forall>c < n. set (C ! c) = {i. i < k \<and> entry_refers img (es ! i) c})
    \<and> (\<forall>i < k. \<forall>c. entry_refers img (es ! i) c \<longrightarrow> c < n)"
  using assms
proof (induction k arbitrary: F C)
  case 0
  then have "F = replicate n 0" "C = replicate n []" by simp_all
  then show ?case by simp
next
  case (Suc k)
  from Suc.prems(1) obtain F1 C1 where
      1: "fold_opt (classify_entry img es) [0..<k] (replicate n 0, replicate n []) = Some (F1, C1)"
      and 2: "classify_entry img es k (F1, C1) = Some (F, C)"
    by (auto simp: fold_opt_append split: option.splits)
  from Suc.prems(2) have kn: "k < n" "k \<le> n" by simp_all
  note IH = Suc.IH [OF 1 kn(2)]
  from 2 have "fold_opt (classify_detail img (es ! k) k) [0..<unat (le_detail_count (es ! k))]
      (F1[k := kind_flags (le_kind (es ! k))], C1) = Some (F, C)"
    by (simp add: classify_entry_def Let_def)
  from classify_details [OF this] IH kn have
    "F = F1[k := entry_seed img (es ! k)]" "length C = length C1"
    "\<forall>c < n. set (C ! c) = set (C1 ! c) \<union> (if entry_refers img (es ! k) c then {k} else {})"
    "\<forall>c. entry_refers img (es ! k) c \<longrightarrow> c < n"
    by (auto simp: entry_seed_def entry_refers_def)
  with IH kn show ?case
    by (auto simp: less_Suc_eq nth_list_update)
qed

lemma classify_details_total:
  assumes "\<And>i. i < k \<Longrightarrow> detail_decode img e (of_nat i) \<noteq> None"
    and "\<And>i c. i < k \<Longrightarrow> detail_refers img e i c \<Longrightarrow> c < length C"
  shows "\<exists>F' C'. fold_opt (classify_detail img e t) [0..<k] (F, C) = Some (F', C') \<and> length C' = length C"
  using assms
proof (induction k)
  case 0
  then show ?case by simp
next
  case (Suc k)
  have "\<exists>F' C'. fold_opt (classify_detail img e t) [0..<k] (F, C) = Some (F', C') \<and> length C' = length C"
    by (rule Suc.IH) (use Suc.prems in \<open>blast intro: less_SucI\<close>)+
  then obtain F1 C1 where
    1: "fold_opt (classify_detail img e t) [0..<k] (F, C) = Some (F1, C1)" "length C1 = length C"
    by blast
  from Suc.prems(1) obtain d where d: "detail_decode img e (of_nat k) = Some d" by blast
  have "unat ty < length C" if "ld_ty d = Some ty" for ty
    using Suc.prems(2) [of k "unat ty"] d that by (auto simp: detail_refers_def)
  then have "\<exists>F2 C2. classify_detail img e t k (F1, C1) = Some (F2, C2) \<and> length C2 = length C"
    using 1(2) by (auto simp: classify_detail_def d Let_def split: option.splits)
  with 1 show ?case by (auto simp: fold_opt_append)
qed

lemma classify_entries_total:
  assumes "\<And>i j. i < k \<Longrightarrow> j < unat (le_detail_count (es ! i)) \<Longrightarrow> detail_decode img (es ! i) (of_nat j) \<noteq> None"
    and "\<And>i c. i < k \<Longrightarrow> entry_refers img (es ! i) c \<Longrightarrow> c < n"
  shows "\<exists>F C. fold_opt (classify_entry img es) [0..<k] (F0, replicate n []) = Some (F, C) \<and> length C = n"
  using assms
proof (induction k)
  case 0
  then show ?case by simp
next
  case (Suc k)
  have "\<exists>F C. fold_opt (classify_entry img es) [0..<k] (F0, replicate n []) = Some (F, C) \<and> length C = n"
    by (rule Suc.IH) (use Suc.prems in \<open>blast intro: less_SucI\<close>)+
  then obtain F1 C1 where
    1: "fold_opt (classify_entry img es) [0..<k] (F0, replicate n []) = Some (F1, C1)" "length C1 = n"
    by blast
  have "\<exists>F' C'. fold_opt (classify_detail img (es ! k) k) [0..<unat (le_detail_count (es ! k))]
      (F1[k := kind_flags (le_kind (es ! k))], C1) = Some (F', C') \<and> length C' = length C1"
  proof (rule classify_details_total)
    show "detail_decode img (es ! k) (of_nat j) \<noteq> None" if "j < unat (le_detail_count (es ! k))" for j
      using Suc.prems(1) [of k j] that by simp
    show "c < length C1" if "j < unat (le_detail_count (es ! k))" "detail_refers img (es ! k) j c" for j c
      using Suc.prems(2) [of k c] that 1(2) by (auto simp: entry_refers_def)
  qed
  then have "\<exists>F2 C2. classify_entry img es k (F1, C1) = Some (F2, C2) \<and> length C2 = n"
    using 1(2) by (auto simp: classify_entry_def Let_def)
  with 1 show ?case by (auto simp: fold_opt_append)
qed

section \<open>Classification is the closure of the seeds\<close>

definition contains_rel :: "bytes \<Rightarrow> nat \<Rightarrow> (nat \<times> nat) set" where
  "contains_rel img count =
     {(p, c). p < count \<and> (\<exists>e. entry_decode img (of_nat p) = Some e \<and> entry_refers img e c)}"

lemma gc_classify_start:
  assumes entries: "map_opt (\<lambda>tid. if tid < 2 ^ 32 then entry_decode img (of_nat tid) else None)
      [0..<count] = Some es"
    and tables: "fold_opt (classify_entry img es) [0..<count]
      (replicate count 0, replicate count []) = Some (F, C)"
  shows "consumers_ok C" and "length C = count"
    and "propagation_inv C F 0 []
      (F, map (\<lambda>f. f \<noteq> 0) F, rev (filter (\<lambda>tid. F ! tid \<noteq> 0) [0..<count]))"
    and "consumer_rel C = contains_rel img count"
    and "i < count \<Longrightarrow> \<exists>e. entry_decode img (of_nat i) = Some e \<and> F ! i = entry_seed img e"
proof -
  from entries have es: "length es = count"
      "\<And>i. i < count \<Longrightarrow> entry_decode img (of_nat i) = Some (es ! i)"
    by (auto simp: map_opt_Some split: if_splits)
  note t = classify_entries [OF tables order_refl]
  from t show "length C = count" and ok: "consumers_ok C"
    by (auto simp: consumers_ok_def)
  from t es show "i < count \<Longrightarrow> \<exists>e. entry_decode img (of_nat i) = Some e \<and> F ! i = entry_seed img e"
    by auto
  from t es show "consumer_rel C = contains_rel img count"
    by (auto simp: consumer_rel_def contains_rel_def)
  have "reaches_bit C F i b" if "i < count" "bit (F ! i) b" for i b
    using that t by (auto simp: reaches_bit_def)
  with t show "propagation_inv C F 0 []
      (F, map (\<lambda>f. f \<noteq> 0) F, rev (filter (\<lambda>tid. F ! tid \<noteq> 0) [0..<count]))"
    by (auto simp: propagation_inv_def)
qed

text \<open>
  C3: the classification is exact. A bit is set for a type if and only if some type it contains,
  directly or through any number of details, has that bit by its own kind or by a boxed detail.
\<close>

theorem gc_classify_closure:
  assumes "gc_classify img count = Some flags"
  shows "length flags = count \<and> (\<forall>i < count. \<forall>b. bit (flags ! i) b \<longleftrightarrow>
    (\<exists>c e. (i, c) \<in> (contains_rel img count)\<^sup>* \<and> c < count
       \<and> entry_decode img (of_nat c) = Some e \<and> bit (entry_seed img e) b))"
proof -
  from assms obtain es F C where
      entries: "map_opt (\<lambda>tid. if tid < 2 ^ 32 then entry_decode img (of_nat tid) else None)
        [0..<count] = Some es"
      and tables: "fold_opt (classify_entry img es) [0..<count]
        (replicate count 0, replicate count []) = Some (F, C)"
      and run: "propagate C (F, map (\<lambda>f. f \<noteq> 0) F, rev (filter (\<lambda>tid. F ! tid \<noteq> 0) [0..<count]))
        = Some flags"
    by (auto simp: gc_classify_def bind_eq_Some_conv Let_def)
  note start = gc_classify_start [OF entries tables]
  from propagate_closure [OF start(1,3)] run start(2) have
    "length flags = count" "\<forall>i < count. \<forall>b. bit (flags ! i) b \<longleftrightarrow> reaches_bit C F i b"
    by auto
  moreover have "reaches_bit C F i b \<longleftrightarrow> (\<exists>c e. (i, c) \<in> (contains_rel img count)\<^sup>* \<and> c < count
       \<and> entry_decode img (of_nat c) = Some e \<and> bit (entry_seed img e) b)" for i b
    unfolding reaches_bit_def start(2,4) using start(5) by fastforce
  ultimately show ?thesis by simp
qed

text \<open>
  C31: classification fails only on a malformed image. It returns flags exactly when every entry
  decodes and every detail type names an entry; the worklist never stops short or panics.
\<close>

theorem gc_classify_total:
  assumes "length img \<le> usize_max" and "count \<le> 2 ^ 32"
  shows "(\<exists>flags. gc_classify img count = Some flags) \<longleftrightarrow>
    (\<forall>i < count. \<exists>e. entry_decode img (of_nat i) = Some e \<and> (\<forall>c. entry_refers img e c \<longrightarrow> c < count))"
    (is "?returns \<longleftrightarrow> ?wf")
proof
  assume ?returns
  then obtain es F C where
      entries: "map_opt (\<lambda>tid. if tid < 2 ^ 32 then entry_decode img (of_nat tid) else None)
        [0..<count] = Some es"
      and tables: "fold_opt (classify_entry img es) [0..<count]
        (replicate count 0, replicate count []) = Some (F, C)"
    by (auto simp: gc_classify_def bind_eq_Some_conv Let_def)
  from entries have "\<And>i. i < count \<Longrightarrow> entry_decode img (of_nat i) = Some (es ! i)"
    by (auto simp: map_opt_Some split: if_splits)
  with classify_entries [OF tables order_refl] show ?wf by auto
next
  assume wf: ?wf
  define es where "es = map (\<lambda>i. the (entry_decode img (of_nat i))) [0..<count]"
  from wf have es: "entry_decode img (of_nat i) = Some (es ! i)" if "i < count" for i
    using that by (auto simp: es_def)
  then have entries: "map_opt (\<lambda>tid. if tid < 2 ^ 32 then entry_decode img (of_nat tid) else None)
      [0..<count] = Some es"
    using assms(2) by (auto simp: map_opt_Some) (simp add: es_def)
  have "\<exists>F C. fold_opt (classify_entry img es) [0..<count]
      (replicate count 0, replicate count []) = Some (F, C) \<and> length C = count"
  proof (rule classify_entries_total)
    fix i j assume i: "i < count" and j: "j < unat (le_detail_count (es ! i))"
    then have "of_nat j < le_detail_count (es ! i)"
      using unat_u32 [of "le_detail_count (es ! i)"]
      by (simp add: word_less_nat_alt unat_of_nat)
    from detail_decode_total [OF entry_decode_Some(1) [OF es [OF i]] assms(1) this]
    show "detail_decode img (es ! i) (of_nat j) \<noteq> None" by auto
  next
    fix i c assume "i < count" and "entry_refers img (es ! i) c"
    then show "c < count" using wf es by auto
  qed
  then obtain F C where tables: "fold_opt (classify_entry img es) [0..<count]
      (replicate count 0, replicate count []) = Some (F, C)" by blast
  from propagate_closure [OF gc_classify_start(1,3) [OF entries tables]] entries tables
  show ?returns by (auto simp: gc_classify_def Let_def)
qed

section \<open>An example image\<close>

text \<open>Two types: a newtype that boxes the second type, and an array of the first.\<close>

definition gc_example :: bytes where
  "gc_example =
     u32_to_le 1 @ u32_to_le 16 @ u32_to_le 16 @ u32_to_le 8 @ u32_to_le NO_RESOURCE @ u32_to_le 64 @
     u32_to_le 0 @ u32_to_le 0 @
     u32_to_le 12 @ u32_to_le 16 @ u32_to_le 16 @ u32_to_le 8 @ u32_to_le NO_RESOURCE @ u32_to_le 64 @
     u32_to_le 1 @ u32_to_le 0 @
     u32_to_le 0 @ u32_to_le 0 @ u32_to_le 0"

lemma gc_example_flags: "gc_classify gc_example 2 = Some [1, 1]"
  by code_simp

theorem gc_classify_closure_witness:
  "\<exists>c e. (1, c) \<in> (contains_rel gc_example 2)\<^sup>* \<and> c < 2 \<and>
    entry_decode gc_example (of_nat c) = Some e \<and> bit (entry_seed gc_example e) 0"
proof -
  have "bit ([1, 1 :: u32] ! 1) 0" by simp
  with gc_classify_closure [OF gc_example_flags] show ?thesis by (metis one_less_numeral_iff semiring_norm(76))
qed

theorem gc_classify_total_witness:
  "\<exists>e. entry_decode gc_example (of_nat 1) = Some e"
proof -
  have len: "length gc_example \<le> usize_max"
    by (simp add: gc_example_def u32_to_le_def usize_max_def)
  have "(2 :: nat) \<le> 2 ^ 32" by simp
  from gc_classify_total [OF len this] gc_example_flags have
    "\<forall>i < 2. \<exists>e. entry_decode gc_example (of_nat i) = Some e \<and> (\<forall>c. entry_refers gc_example e c \<longrightarrow> c < 2)"
    by blast
  from this [THEN spec, of 1] show ?thesis by auto
qed

end
