(* ===== verification/Abi.thy ===== *)
theory Abi
  imports Telora_Prelude
begin

text \<open>
  The constants of the physical layout shared by code generator and runtime,
  \<^verbatim>\<open>crates/telora-wasm-shared/src/abi.rs\<close>. Byte offsets the source types as \<open>u64\<close> are used
  as 32-bit offsets by the tracer and appear here at that width.
\<close>

definition INLINE_FIELDS :: u32 where "INLINE_FIELDS = u32_max"
definition INLINE_DATA :: u32 where "INLINE_DATA = 16"
definition HEADER_BYTES :: u32 where "HEADER_BYTES = 8"
definition SCALAR_BYTES :: u32 where "SCALAR_BYTES = 16"
definition FUNCTION_BYTES :: u32 where "FUNCTION_BYTES = 16"
definition STRING_BYTES :: u32 where "STRING_BYTES = HEADER_BYTES + 16"
definition DYN_BYTES :: u32 where "DYN_BYTES = HEADER_BYTES + 24"
definition LOC_BYTES :: u32 where "LOC_BYTES = 8"
definition DATA :: u32 where "DATA = 8"
definition TABLE_BASE :: u32 where "TABLE_BASE = 64"
definition TABLE_BYTES :: u32 where "TABLE_BYTES = 16"
definition TABLE_COUNT :: u32 where "TABLE_COUNT = 7"
definition STATIC_BASE :: u32 where "STATIC_BASE = TABLE_BASE + TABLE_BYTES * TABLE_COUNT"

definition RECORDS :: u32 where "RECORDS = u32_max"
definition ARRAYS :: u32 where "ARRAYS = u32_max - 1"
definition VALUES :: u32 where "VALUES = u32_max - 2"
definition ENVIRONMENTS :: u32 where "ENVIRONMENTS = u32_max - 3"
definition NEWTYPES :: u32 where "NEWTYPES = u32_max - 4"
definition BLAMES :: u32 where "BLAMES = 0"
definition DIAGNOSTICS :: u32 where "DIAGNOSTICS = 1"
definition FORMATS :: u32 where "FORMATS = 2"
definition REGEXES :: u32 where "REGEXES = 3"
definition HASHES :: u32 where "HASHES = 4"
definition TESTS :: u32 where "TESTS = 5"
definition DEBUG_EVENTS :: u32 where "DEBUG_EVENTS = 6"

definition DIAGNOSTIC_BYTES :: u32 where "DIAGNOSTIC_BYTES = 40"
definition DEMAND_BYTES :: u32 where "DEMAND_BYTES = 12"

definition table_address :: "u32 \<Rightarrow> u32" where
  "table_address table = TABLE_BASE + table * TABLE_BYTES"

definition DIAG_MESSAGE :: u32 where "DIAG_MESSAGE = 16"
definition DIAG_SUBJECTS :: u32 where "DIAG_SUBJECTS = 20"
definition DIAG_COUNT :: u32 where "DIAG_COUNT = 24"
definition DIAG_MESSAGE_TYPE :: u32 where "DIAG_MESSAGE_TYPE = 36"
definition BLAME_COUNT :: u32 where "BLAME_COUNT = STRING_BYTES"
definition BLAME_SUBJECTS :: u32 where "BLAME_SUBJECTS = STRING_BYTES + 8"

definition CONTENT_VIEW :: u32 where "CONTENT_VIEW = 48"

definition ROOT_VALUE :: u32 where "ROOT_VALUE = 0xfffffff0"
definition ROOT_STORAGE :: u32 where "ROOT_STORAGE = 0xfffffff1"
definition ROOT_SOURCE :: u32 where "ROOT_SOURCE = 0xfffffff2"
definition ROOT_REFERENCES :: u32 where "ROOT_REFERENCES = 0xfffffff3"
definition ROOT_PARSE_CONTEXT :: u32 where "ROOT_PARSE_CONTEXT = 0xfffffff4"
definition ROOT_CODEC_CONTEXT :: u32 where "ROOT_CODEC_CONTEXT = 0xfffffff5"
definition ROOT_PARSE_PLAN :: u32 where "ROOT_PARSE_PLAN = 0xfffffff6"

definition ARRAY_EMPTY :: u32 where "ARRAY_EMPTY = 0"
definition ARRAY_SINGLE :: u32 where "ARRAY_SINGLE = 1"
definition ARRAY_SLICE :: u32 where "ARRAY_SLICE = 2"

lemmas table_tags =
  RECORDS_def ARRAYS_def VALUES_def ENVIRONMENTS_def NEWTYPES_def BLAMES_def DIAGNOSTICS_def
  FORMATS_def REGEXES_def HASHES_def TESTS_def DEBUG_EVENTS_def ROOT_VALUE_def ROOT_STORAGE_def
  ROOT_SOURCE_def ROOT_REFERENCES_def ROOT_PARSE_CONTEXT_def ROOT_CODEC_CONTEXT_def
  ROOT_PARSE_PLAN_def u32_max_def

text \<open>The collector's dispatch tags are pairwise different, and none of them is a table index.\<close>

lemma direct_tags_outside_tables:
  "tag \<in> {RECORDS, ARRAYS, VALUES, ENVIRONMENTS, NEWTYPES, ROOT_VALUE, ROOT_STORAGE, ROOT_SOURCE,
      ROOT_REFERENCES, ROOT_PARSE_CONTEXT, ROOT_CODEC_CONTEXT, ROOT_PARSE_PLAN} \<Longrightarrow> TABLE_COUNT \<le> tag"
  by (auto simp: table_tags TABLE_COUNT_def)

lemma direct_tags_distinct:
  "distinct [RECORDS, ARRAYS, VALUES, ENVIRONMENTS, NEWTYPES, ROOT_VALUE, ROOT_STORAGE, ROOT_SOURCE,
     ROOT_REFERENCES, ROOT_PARSE_CONTEXT, ROOT_CODEC_CONTEXT, ROOT_PARSE_PLAN, BLAMES, DIAGNOSTICS, FORMATS, REGEXES, HASHES, TESTS, DEBUG_EVENTS]"
  by (simp add: table_tags)

end
