(* ===== verification/Trace.thy ===== *)
theory Trace
  imports Abi Layout_Image
begin

text \<open>
  Exact layout traversal, \<^verbatim>\<open>crates/telora-wasm-shared/src/trace.rs\<close>. The \<open>Visitor\<close> trait is a
  record of functions over an arbitrary state; a method that takes \<open>&mut self\<close> returns the new
  state.
\<close>

section \<open>Model\<close>

text \<open>
  The error enum of the traversal; \<open>TracePanic\<close> is not one of its values but the outcome of a
  visitor method that panics.
\<close>

datatype trace_error = TraceOverflow | TraceLayout | TraceMemory | TracePanic

datatype edge =
    EInline (e_old: u32) (e_at: u32) (e_ty: u32)
  | ESource u32
  | EContent (e_old: u32) (e_at: u32)
  | EObject (e_table: u32) (e_id: u32) (e_ty: u32) (e_at: u32)
  | EValue (e_reference: u32) (e_ty: u32) (e_at: u32)
  | EStorage (e_reference: u32) (e_bytes: u32) (e_at: u32)
  | EFunction u32

record 's visitor =
  vi_types :: "'s \<Rightarrow> u32"
  vi_read :: "'s \<Rightarrow> u32 \<Rightarrow> trace_error + u32"
  vi_edge :: "edge \<Rightarrow> 's \<Rightarrow> trace_error + 's"

definition t_add :: "u32 \<Rightarrow> u32 \<Rightarrow> trace_error + u32" where
  "t_add a b = ok_or (checked_add a b) TraceOverflow"

definition t_mul :: "u32 \<Rightarrow> u32 \<Rightarrow> trace_error + u32" where
  "t_mul a b = ok_or (checked_mul a b) TraceOverflow"

definition t_word :: "'s visitor \<Rightarrow> 's \<Rightarrow> u32 \<Rightarrow> u32 \<Rightarrow> trace_error + u32" where
  "t_word v s at offset = rbind (t_add at offset) (vi_read v s)"

definition t_desc :: "'s visitor \<Rightarrow> 's \<Rightarrow> u32 \<Rightarrow> trace_error + u32" where
  "t_desc v s ty = rbind (t_mul ty ENTRY_BYTES) (t_add (vi_types v s))"

definition t_detail :: "'s visitor \<Rightarrow> 's \<Rightarrow> u32 \<Rightarrow> u32 \<Rightarrow> trace_error + u32" where
  "t_detail v s ty index =
     rbind (t_desc v s ty) (\<lambda>desc.
     rbind (t_word v s desc DETAIL_COUNT) (\<lambda>count.
       if index \<ge> count then Inl TraceLayout
       else rbind (rbind (t_word v s desc DETAIL_OFFSET) (t_add (vi_types v s))) (\<lambda>base.
            rbind (t_mul index DETAIL_BYTES) (t_add base))))"

definition t_detail_type :: "'s visitor \<Rightarrow> 's \<Rightarrow> u32 \<Rightarrow> u32 \<Rightarrow> trace_error + u32" where
  "t_detail_type v s ty index =
     rbind (t_detail v s ty index) (\<lambda>d.
     rbind (t_word v s d DETAIL_TYPE) (\<lambda>t.
       if t \<noteq> NO_TYPE then Inr t else Inl TraceLayout))"

definition t_handle :: "'s visitor \<Rightarrow> u32 \<Rightarrow> u32 \<Rightarrow> u32 \<Rightarrow> u32 \<Rightarrow> 's \<Rightarrow> trace_error + 's" where
  "t_handle v table old at ty s =
     rbind (vi_read v s old) (\<lambda>tid. vi_edge v (EObject table tid ty at) s)"

definition t_indirect :: "'s visitor \<Rightarrow> u32 \<Rightarrow> u32 \<Rightarrow> u32 \<Rightarrow> 's \<Rightarrow> trace_error + 's" where
  "t_indirect v old at ty s =
     rbind (vi_read v s old) (\<lambda>reference. vi_edge v (EValue reference ty at) s)"

text \<open>One field of an inline record: the body of the \<open>for index\<close> loop in \<open>data\<close>.\<close>

definition t_inline_field :: "'s visitor \<Rightarrow> u32 \<Rightarrow> u32 \<Rightarrow> u32 \<Rightarrow> u32 \<Rightarrow> 's \<Rightarrow> trace_error + 's" where
  "t_inline_field v ty old at index s =
     rbind (t_detail v s ty index) (\<lambda>field.
     rbind (rbind (t_word v s field DETAIL_OFFSET_OR_TAG) (t_add 8)) (\<lambda>offset.
     rbind (t_add old offset) (\<lambda>o'.
     rbind (t_add at offset) (\<lambda>a'.
     rbind (t_detail_type v s ty index) (\<lambda>fty.
       vi_edge v (EInline o' a' fty) s)))))"

definition u32_upto :: "u32 \<Rightarrow> u32 list" where
  "u32_upto n = map of_nat [0..<unat n]"

text \<open>The three cases of an array value; a failed guard falls through to the last arm.\<close>

definition t_array :: "'s visitor \<Rightarrow> u32 \<Rightarrow> u32 \<Rightarrow> u32 \<Rightarrow> 's \<Rightarrow> trace_error + 's" where
  "t_array v ty old at s =
     rbind (t_word v s old 12) (\<lambda>tag.
       if tag = ARRAY_EMPTY then
         rbind (vi_read v s old) (\<lambda>r.
           if r \<noteq> 0 then Inl TraceLayout else
         rbind (t_word v s old 4) (\<lambda>w4.
           if w4 \<noteq> 0 then Inl TraceLayout else
         rbind (t_word v s old 8) (\<lambda>w8.
           if w8 \<noteq> 0 then Inl TraceLayout else Inr s)))
       else if tag = ARRAY_SINGLE then
         rbind (vi_read v s old) (\<lambda>r.
           if r = 0 then Inl TraceLayout else
         rbind (t_word v s old 4) (\<lambda>w4.
           if w4 \<noteq> 0 then Inl TraceLayout else
         rbind (t_word v s old 8) (\<lambda>w8.
           if w8 \<noteq> 1 then Inl TraceLayout else
         rbind (t_detail_type v s ty 0) (\<lambda>t. t_indirect v old at t s))))
       else if tag = ARRAY_SLICE then
         rbind (t_detail_type v s ty 0) (\<lambda>t. t_handle v ARRAYS old at t s)
       else Inl TraceLayout)"

lemma t_add_Inr [result_simps]: "t_add a b = Inr c \<longleftrightarrow> unat c = unat a + unat b"
  by (simp add: t_add_def result_simps checked_simps)

lemma t_mul_Inr [result_simps]: "t_mul a b = Inr c \<longleftrightarrow> unat c = unat a * unat b"
  by (simp add: t_mul_def result_simps checked_simps)

text \<open>
  \<open>data\<close>: inline payloads of enums and dynamics are followed by the loop, everything else ends
  it. Each round moves \<open>old\<close> forward, and the checked addition fails before it wraps, so the loop
  ends whatever the descriptors say.
\<close>

function t_data :: "'s visitor \<Rightarrow> u32 \<Rightarrow> u32 \<Rightarrow> u32 \<Rightarrow> 's \<Rightarrow> trace_error + 's" where
  "t_data v ty old at s =
     rbind (t_desc v s ty) (\<lambda>desc.
     rbind (t_word v s desc KIND) (\<lambda>k.
     rbind (ok_or (kind_decode k) TraceLayout) (\<lambda>kind.
     case kind of
       KScalar \<Rightarrow> Inr s
     | KString \<Rightarrow> vi_edge v (EContent old at) s
     | KBytes \<Rightarrow> vi_edge v (EContent old at) s
     | KRecord \<Rightarrow> t_handle v RECORDS old at ty s
     | KInlineRecord \<Rightarrow>
         rbind (vi_read v s old) (\<lambda>r.
           if r \<noteq> INLINE_FIELDS then Inl TraceLayout
           else rbind (t_word v s desc DETAIL_COUNT) (\<lambda>n.
                foldm (t_inline_field v ty old at) (u32_upto n) s))
     | KInlineNewtype \<Rightarrow>
         rbind (vi_read v s old) (\<lambda>r.
           if r \<noteq> INLINE_FIELDS then Inl TraceLayout
           else rbind (t_word v s desc DETAIL_COUNT) (\<lambda>n.
                foldm (t_inline_field v ty old at) (u32_upto n) s))
     | KArray \<Rightarrow> t_array v ty old at s
     | KDict \<Rightarrow>
         rbind (t_detail_type v s ty 0) (\<lambda>t0.
         rbind (t_handle v ARRAYS old at t0 s) (\<lambda>s.
         rbind (t_add old 8) (\<lambda>o'.
         rbind (t_add at 8) (\<lambda>a'.
         rbind (t_detail_type v s ty 1) (\<lambda>t1.
           t_handle v ARRAYS o' a' t1 s)))))
     | KEnum \<Rightarrow>
         rbind (vi_read v s old) (\<lambda>tag.
         rbind (t_detail v s ty tag) (\<lambda>variant.
         rbind (t_word v s variant DETAIL_TYPE) (\<lambda>payload.
           if payload = NO_TYPE then Inr s
           else
             rbind (t_add old 8) (\<lambda>o1.
             rbind (t_add at 8) (\<lambda>a1.
             rbind (t_word v s variant DETAIL_FLAGS) (\<lambda>flags.
               if flags AND DETAIL_BOXED \<noteq> 0 then t_handle v VALUES o1 a1 payload s
               else
                 rbind (vi_edge v (ESource o1) s) (\<lambda>s.
                 rbind (t_add o1 HEADER_BYTES) (\<lambda>o2.
                 rbind (t_add a1 HEADER_BYTES) (\<lambda>a2.
                   t_data v payload o2 a2 s))))))))) 
     | KDyn \<Rightarrow>
         rbind (vi_read v s old) (\<lambda>payload.
         rbind (t_word v s old 4) (\<lambda>boxed.
           if boxed > 1 then Inl TraceLayout
           else
             rbind (t_add old 8) (\<lambda>o1.
             rbind (t_add at 8) (\<lambda>a1.
               if boxed = 1 then t_handle v VALUES o1 a1 payload s
               else t_data v payload o1 a1 s))))
     | KFunction \<Rightarrow>
         rbind (vi_read v s old) (\<lambda>f.
         rbind (vi_edge v (EFunction f) s) (\<lambda>s.
         rbind (t_word v s old 4) (\<lambda>tid.
           if tid = 0 then Inr s
           else rbind (t_add at 4) (\<lambda>a'. vi_edge v (EObject ENVIRONMENTS tid ty a') s))))
     | KResource \<Rightarrow>
         rbind (t_word v s desc RESOURCE_TABLE) (\<lambda>table. t_handle v table old at ty s)
     | KNewtype \<Rightarrow>
         rbind (t_detail_type v s ty 0) (\<lambda>t. t_handle v NEWTYPES old at t s)
     | KCompileTime \<Rightarrow> Inl TraceLayout)))"
  by pat_completeness auto
termination
proof (relation "measure (\<lambda>(v, ty, old, at, s). 2 ^ 32 - unat old)", goal_cases)
  case 1
  show ?case by simp
next
  case (2 v ty old at s desc k kind tag variant payload o1 a1 flags s' o2 a2)
  then show ?case
    using unat_u32 [of o2] by (auto simp: result_simps HEADER_BYTES_def)
next
  case (3 v ty old at s desc k kind payload boxed o1 a1)
  then show ?case
    using unat_u32 [of o1] by (auto simp: result_simps)
qed

declare t_data.simps [simp del]

definition t_value :: "'s visitor \<Rightarrow> u32 \<Rightarrow> u32 \<Rightarrow> u32 \<Rightarrow> 's \<Rightarrow> trace_error + 's" where
  "t_value v ty old at s =
     rbind (vi_edge v (ESource old) s) (\<lambda>s.
     rbind (t_add old HEADER_BYTES) (\<lambda>o'.
     rbind (t_add at HEADER_BYTES) (\<lambda>a'. t_data v ty o' a' s)))"


text \<open>The loop bodies of \<open>object\<close>.\<close>

definition t_element :: "'s visitor \<Rightarrow> u32 \<Rightarrow> u32 \<Rightarrow> u32 \<Rightarrow> u32 \<Rightarrow> u32 \<Rightarrow> 's \<Rightarrow> trace_error + 's" where
  "t_element v ty old at width index s =
     rbind (t_mul index width) (\<lambda>offset.
     rbind (t_add old offset) (\<lambda>o'.
     rbind (t_add at offset) (\<lambda>a'. t_value v ty o' a' s)))"

definition t_field :: "'s visitor \<Rightarrow> u32 \<Rightarrow> u32 \<Rightarrow> u32 \<Rightarrow> u32 \<Rightarrow> 's \<Rightarrow> trace_error + 's" where
  "t_field v ty old at index s =
     rbind (t_detail v s ty index) (\<lambda>field.
     rbind (t_word v s field DETAIL_OFFSET_OR_TAG) (\<lambda>offset.
     rbind (t_detail_type v s ty index) (\<lambda>fty.
     rbind (t_add old offset) (\<lambda>o'.
     rbind (t_add at offset) (\<lambda>a'. t_value v fty o' a' s)))))"

definition t_capture :: "'s visitor \<Rightarrow> u32 \<Rightarrow> u32 \<Rightarrow> u32 \<Rightarrow> u32 \<Rightarrow> 's \<Rightarrow> trace_error + 's" where
  "t_capture v count old at index s =
     rbind (rbind (t_mul index 4) (t_add 8)) (\<lambda>offset.
     rbind (t_mul count 4) (\<lambda>types.
     rbind (t_add offset types) (\<lambda>type_offset.
     rbind (t_word v s old type_offset) (\<lambda>ty.
     rbind (t_add old offset) (\<lambda>o'.
     rbind (t_add at offset) (\<lambda>a'. t_indirect v o' a' ty s))))))"

definition t_subject :: "'s visitor \<Rightarrow> u32 \<Rightarrow> u32 \<Rightarrow> 's \<Rightarrow> trace_error + 's" where
  "t_subject v base index s =
     rbind (t_mul index LOC_BYTES) (\<lambda>offset.
     rbind (t_add base offset) (\<lambda>r. vi_edge v (ESource r) s))"

definition t_blame_subject :: "'s visitor \<Rightarrow> u32 \<Rightarrow> u32 \<Rightarrow> 's \<Rightarrow> trace_error + 's" where
  "t_blame_subject v old index s =
     rbind (rbind (t_mul index LOC_BYTES) (t_add BLAME_SUBJECTS)) (\<lambda>offset.
     rbind (t_add old offset) (\<lambda>r. vi_edge v (ESource r) s))"

definition t_operand :: "'s visitor \<Rightarrow> u32 \<Rightarrow> u32 \<Rightarrow> u32 \<Rightarrow> 's \<Rightarrow> trace_error + 's" where
  "t_operand v old at index s =
     rbind (t_word v s old (12 + index * 4)) (\<lambda>ty.
     rbind (t_add old (4 + index * 4)) (\<lambda>o'.
     rbind (t_add at (4 + index * 4)) (\<lambda>a'. t_indirect v o' a' ty s)))"

definition format_operands :: "u32 \<Rightarrow> u32 option" where
  "format_operands k =
     (if k = 0 then Some 0
      else if 1 \<le> k \<and> k \<le> 3 then Some 1
      else if k = 4 \<or> (6 \<le> k \<and> k \<le> 11) then Some 2
      else None)"

definition t_object :: "'s visitor \<Rightarrow> u32 \<Rightarrow> u32 \<Rightarrow> u32 \<Rightarrow> u32 \<Rightarrow> u32 \<Rightarrow> 's \<Rightarrow> trace_error + 's" where
  "t_object v table old at nbytes ty s =
     (if table = HASHES \<or> table = REGEXES then Inr s
      else if table = ARRAYS then
        rbind (t_desc v s ty) (\<lambda>desc.
        rbind (t_word v s desc VALUE_BYTES) (\<lambda>width.
          if width = 0 then (if nbytes = 0 then Inr s else Inl TraceLayout)
          else if width < HEADER_BYTES \<or> nbytes mod width \<noteq> 0 then Inl TraceLayout
          else foldm (t_element v ty old at width) (u32_upto (nbytes div width)) s))
      else if table = VALUES then t_value v ty old at s
      else if table = NEWTYPES then
        rbind (t_detail_type v s ty 0) (\<lambda>t. t_value v t old at s)
      else if table = RECORDS then
        rbind (t_desc v s ty) (\<lambda>desc.
        rbind (t_word v s desc DETAIL_COUNT) (\<lambda>n.
          foldm (t_field v ty old at) (u32_upto n) s))
      else if table = ENVIRONMENTS \<or> table = TESTS then
        rbind (t_word v s old (if table = ENVIRONMENTS then 0 else 4)) (\<lambda>count.
        rbind (rbind (t_mul count 8) (t_add 8)) (\<lambda>expected.
          if nbytes \<noteq> expected then Inl TraceLayout
          else foldm (t_capture v count old at) (u32_upto count) s))
      else if table = BLAMES then
        rbind (vi_edge v (ESource old) s) (\<lambda>s.
        rbind (t_word v s old BLAME_COUNT) (\<lambda>n.
        rbind (foldm (t_blame_subject v old) (u32_upto n) s) (\<lambda>s.
        rbind (t_add old HEADER_BYTES) (\<lambda>o'.
        rbind (t_add at HEADER_BYTES) (\<lambda>a'. vi_edge v (EContent o' a') s)))))
      else if table = FORMATS then
        rbind (vi_read v s old) (\<lambda>k.
        rbind (ok_or (format_operands k) TraceLayout) (\<lambda>count.
          foldm (t_operand v old at) (u32_upto count) s))
      else if table = DEBUG_EVENTS then
        rbind (t_add old 4) (\<lambda>o'.
        rbind (t_add at 4) (\<lambda>a'.
        rbind (t_word v s old 8) (\<lambda>t. t_indirect v o' a' t s)))
      else if table = DIAGNOSTICS then
        rbind (vi_edge v (ESource old) s) (\<lambda>s.
        rbind (t_add old DIAG_MESSAGE) (\<lambda>o'.
        rbind (t_add at DIAG_MESSAGE) (\<lambda>a'.
        rbind (t_word v s old DIAG_MESSAGE_TYPE) (\<lambda>t.
        rbind (t_indirect v o' a' t s) (\<lambda>s.
        rbind (t_word v s old DIAG_COUNT) (\<lambda>count.
        rbind (t_word v s old DIAG_SUBJECTS) (\<lambda>reference.
        rbind (t_mul count LOC_BYTES) (\<lambda>size.
        rbind (t_add at DIAG_SUBJECTS) (\<lambda>a2.
        rbind (vi_edge v (EStorage reference size a2) s) (\<lambda>s.
          foldm (t_subject v reference) (u32_upto count) s))))))))))
      else Inl TraceLayout)"

section \<open>Traversal as an enumeration of edges\<close>

text \<open>
  A visitor that only records: memory and the type directory are fixed, the state is the list of
  the edges met so far.
\<close>

definition log_visitor :: "u32 \<Rightarrow> (u32 \<Rightarrow> trace_error + u32) \<Rightarrow> edge list visitor" where
  "log_visitor types rd =
     \<lparr>vi_types = (\<lambda>_. types), vi_read = (\<lambda>_. rd), vi_edge = (\<lambda>e es. Inr (es @ [e]))\<rparr>"

definition value_edges where
  "value_edges types rd ty old at = t_value (log_visitor types rd) ty old at []"

definition object_edges where
  "object_edges types rd table old at nbytes ty =
     t_object (log_visitor types rd) table old at nbytes ty []"

lemma log_visitor_simps [simp]:
  "vi_types (log_visitor types rd) s = types"
  "vi_read (log_visitor types rd) s = rd"
  "vi_edge (log_visitor types rd) e es = Inr (es @ [e])"
  by (simp_all add: log_visitor_def)

text \<open>
  The contract of a visitor whose handling of edges does not change what the traversal reads. Under
  it a traversal is the enumeration of its edges by \<^const>\<open>log_visitor\<close>, handled in that order.
\<close>

locale stable_visitor =
  fixes v :: "'s visitor"
    and inv :: "'s \<Rightarrow> bool"
    and types :: u32
    and rd :: "u32 \<Rightarrow> trace_error + u32"
  assumes types_stable: "inv s \<Longrightarrow> vi_types v s = types"
    and read_stable: "inv s \<Longrightarrow> vi_read v s a = rd a"
    and edge_keeps: "inv s \<Longrightarrow> vi_edge v e s = Inr s' \<Longrightarrow> inv s'"
begin

definition appends :: "(edge list \<Rightarrow> trace_error + edge list) \<Rightarrow> bool" where
  "appends h \<longleftrightarrow> (\<forall>acc. h acc = (case h [] of Inl e \<Rightarrow> Inl e | Inr es \<Rightarrow> Inr (acc @ es)))"

definition factors :: "('s \<Rightarrow> trace_error + 's) \<Rightarrow> (edge list \<Rightarrow> trace_error + edge list) \<Rightarrow> bool" where
  "factors g h \<longleftrightarrow> appends h \<and>
     (\<forall>s s'. inv s \<longrightarrow>
        (g s = Inr s' \<longleftrightarrow> (\<exists>es. h [] = Inr es \<and> foldm (vi_edge v) es s = Inr s')))"

lemma appends_Inl: "appends h \<Longrightarrow> h [] = Inl e \<Longrightarrow> h acc = Inl e"
  unfolding appends_def by (drule spec [of _ acc]) simp

lemma appends_Inr: "appends h \<Longrightarrow> h [] = Inr es \<Longrightarrow> h acc = Inr (acc @ es)"
  unfolding appends_def by (drule spec [of _ acc]) simp

lemma appends_intros [intro]:
  "(\<And>acc. h acc = Inl e) \<Longrightarrow> appends h"
  "(\<And>acc. h acc = Inr (acc @ es)) \<Longrightarrow> appends h"
  by (simp_all add: appends_def)

lemma folded_keeps: "inv s \<Longrightarrow> foldm (vi_edge v) es s = Inr s' \<Longrightarrow> inv s'"
  by (induction es arbitrary: s) (auto simp: result_simps intro: edge_keeps)

lemma factors_cong: "(\<And>s. inv s \<Longrightarrow> g s = g' s) \<Longrightarrow> factors g' h \<Longrightarrow> factors g h"
  by (simp add: factors_def)

lemma factors_error:
  assumes "factors g h" and "h [] = Inl e"
  shows "h acc = Inl e" and "inv s \<Longrightarrow> g s \<noteq> Inr t"
  using assms appends_Inl [of h e] unfolding factors_def by (blast, force)

lemma factors_ok:
  assumes "factors g h" and "h [] = Inr es"
  shows "h acc = Inr (acc @ es)"
    and "inv s \<Longrightarrow> g s = Inr t \<longleftrightarrow> foldm (vi_edge v) es s = Inr t"
  using assms appends_Inr [of h es] unfolding factors_def by (blast, force)

lemma factors_Inl: "factors (\<lambda>s. Inl e) (\<lambda>es. Inl e')"
  by (auto simp: factors_def)

lemma factors_Inr: "factors Inr Inr"
  by (auto simp: factors_def)

lemma factors_edge: "factors (vi_edge v e) (vi_edge (log_visitor types rd) e)"
  by (auto simp: factors_def result_simps)

lemma factors_seq:
  assumes "factors g h" and "factors g' h'"
  shows "factors (\<lambda>s. rbind (g s) g') (\<lambda>es. rbind (h es) h')"
proof (cases "h []")
  case (Inl e)
  note err = factors_error [OF assms(1) Inl]
  show ?thesis unfolding factors_def using err by (auto simp: rbind_eq_Inr)
next
  case (Inr es)
  note ok = factors_ok [OF assms(1) Inr]
  show ?thesis
  proof (cases "h' []")
    case (Inl e)
    note err = factors_error [OF assms(2) Inl]
    have "rbind (g s) g' \<noteq> Inr t" if "inv s" for s t
      using ok(2) [OF that] err(2) folded_keeps [OF that] by (auto simp: rbind_eq_Inr)
    then show ?thesis unfolding factors_def using ok(1) err(1) by auto
  next
    case (Inr es')
    note ok' = factors_ok [OF assms(2) Inr]
    have "rbind (g s) g' = Inr t \<longleftrightarrow> rbind (foldm (vi_edge v) es s) (foldm (vi_edge v) es') = Inr t"
      if "inv s" for s t
      unfolding rbind_eq_Inr using ok(2) [OF that] ok'(2) folded_keeps [OF that] by blast
    moreover have "rbind (h acc) h' = Inr (acc @ es @ es')" for acc by (simp add: ok(1) ok'(1))
    ultimately show ?thesis unfolding factors_def by (auto simp: foldm_append)
  qed
qed

text \<open>A read whose outcome does not depend on the state.\<close>

lemma factors_read:
  assumes "\<And>s. inv s \<Longrightarrow> r s = p" and "\<And>es. r' es = p"
    and "\<And>x. p = Inr x \<Longrightarrow> factors (g x) (h x)"
  shows "factors (\<lambda>s. rbind (r s) (\<lambda>x. g x s)) (\<lambda>es. rbind (r' es) (\<lambda>x. h x es))"
proof (cases p)
  case (Inl e)
  have "factors (\<lambda>s. rbind (r s) (\<lambda>x. g x s)) (\<lambda>es. Inl e)"
    by (rule factors_cong [OF _ factors_Inl]) (simp add: assms(1) Inl)
  then show ?thesis by (simp add: assms(2) Inl)
next
  case (Inr x)
  have "factors (\<lambda>s. rbind (r s) (\<lambda>x. g x s)) (h x)"
    by (rule factors_cong [OF _ assms(3) [OF Inr]]) (simp add: assms(1) Inr)
  then show ?thesis by (simp add: assms(2) Inr)
qed

lemma factors_pure:
  assumes "\<And>x. p = Inr x \<Longrightarrow> factors (g x) (h x)"
  shows "factors (\<lambda>s. rbind p (\<lambda>x. g x s)) (\<lambda>es. rbind p (\<lambda>x. h x es))"
  using assms by (rule factors_read [OF refl refl])

lemma factors_if:
  assumes "b \<Longrightarrow> factors g h" and "\<not> b \<Longrightarrow> factors g' h'"
  shows "factors (\<lambda>s. if b then g s else g' s) (\<lambda>es. if b then h es else h' es)"
  using assms by (cases b) simp_all

lemma factors_foldm:
  assumes "\<And>x. factors (g x) (h x)"
  shows "factors (foldm g xs) (foldm h xs)"
proof (induction xs)
  case Nil
  have "foldm g [] = Inr" and "foldm h [] = Inr" by auto
  then show ?case using factors_Inr by simp
next
  case (Cons x xs)
  have "foldm g (x # xs) = (\<lambda>s. rbind (g x s) (foldm g xs))"
    and "foldm h (x # xs) = (\<lambda>s. rbind (h x s) (foldm h xs))" by auto
  then show ?case using factors_seq [OF assms Cons.IH] by simp
qed

lemmas factors_intros = factors_Inl factors_Inr factors_edge factors_if factors_foldm

abbreviation "logger \<equiv> log_visitor types rd"

lemma stable_reads:
  assumes "inv s"
  shows "vi_read v s = rd" and "vi_types v s = types"
    and "t_word v s = t_word logger es"
    and "t_desc v s = t_desc logger es"
    and "t_detail v s = t_detail logger es"
    and "t_detail_type v s = t_detail_type logger es"
proof -
  show r: "vi_read v s = rd" and t: "vi_types v s = types"
    using assms by (auto intro: read_stable types_stable)
  show w: "t_word v s = t_word logger es" by (intro ext) (simp add: t_word_def r)
  show d: "t_desc v s = t_desc logger es" by (intro ext) (simp add: t_desc_def t)
  show dt: "t_detail v s = t_detail logger es"
    by (intro ext) (unfold t_detail_def w d t log_visitor_simps, rule refl)
  show "t_detail_type v s = t_detail_type logger es"
    by (intro ext) (unfold t_detail_type_def w dt, rule refl)
qed

lemma log_reads:
  "t_word logger es = t_word logger es'"
  "t_desc logger es = t_desc logger es'"
  "t_detail logger es = t_detail logger es'"
  "t_detail_type logger es = t_detail_type logger es'"
proof -
  show w: "t_word logger es = t_word logger es'" by (intro ext) (simp add: t_word_def)
  show d: "t_desc logger es = t_desc logger es'" by (intro ext) (simp add: t_desc_def)
  show dt: "t_detail logger es = t_detail logger es'"
    by (intro ext) (unfold t_detail_def w d log_visitor_simps, rule refl)
  show "t_detail_type logger es = t_detail_type logger es'"
    by (intro ext) (unfold t_detail_type_def w dt, rule refl)
qed

text \<open>The reads a traversal makes before it continues with the word it has read.\<close>

lemma factors_vi_read:
  assumes "\<And>x. rd a = Inr x \<Longrightarrow> factors (g x) (h x)"
  shows "factors (\<lambda>s. rbind (vi_read v s a) (\<lambda>x. g x s)) (\<lambda>es. rbind (rd a) (\<lambda>x. h x es))"
  using read_stable refl assms by (rule factors_read)

lemma factors_word:
  assumes "\<And>x. t_word logger [] a off = Inr x \<Longrightarrow> factors (g x) (h x)"
  shows "factors (\<lambda>s. rbind (t_word v s a off) (\<lambda>x. g x s))
    (\<lambda>es. rbind (t_word logger es a off) (\<lambda>x. h x es))"
  using stable_reads(3) [THEN fun_cong, THEN fun_cong] log_reads(1) [THEN fun_cong, THEN fun_cong]
    assms by (rule factors_read)

lemma factors_desc:
  assumes "\<And>x. t_desc logger [] ty = Inr x \<Longrightarrow> factors (g x) (h x)"
  shows "factors (\<lambda>s. rbind (t_desc v s ty) (\<lambda>x. g x s))
    (\<lambda>es. rbind (t_desc logger es ty) (\<lambda>x. h x es))"
  using stable_reads(4) [THEN fun_cong] log_reads(2) [THEN fun_cong] assms by (rule factors_read)

lemma factors_detail:
  assumes "\<And>x. t_detail logger [] ty i = Inr x \<Longrightarrow> factors (g x) (h x)"
  shows "factors (\<lambda>s. rbind (t_detail v s ty i) (\<lambda>x. g x s))
    (\<lambda>es. rbind (t_detail logger es ty i) (\<lambda>x. h x es))"
  using stable_reads(5) [THEN fun_cong, THEN fun_cong] log_reads(3) [THEN fun_cong, THEN fun_cong]
    assms by (rule factors_read)

lemma factors_detail_type:
  assumes "\<And>x. t_detail_type logger [] ty i = Inr x \<Longrightarrow> factors (g x) (h x)"
  shows "factors (\<lambda>s. rbind (t_detail_type v s ty i) (\<lambda>x. g x s))
    (\<lambda>es. rbind (t_detail_type logger es ty i) (\<lambda>x. h x es))"
  using stable_reads(6) [THEN fun_cong, THEN fun_cong] log_reads(4) [THEN fun_cong, THEN fun_cong]
    assms by (rule factors_read)

lemmas factors_steps =
  factors_vi_read factors_word factors_desc factors_detail factors_detail_type

lemma factors_handle: "factors (t_handle v table old at ty) (t_handle logger table old at ty)"
  unfolding t_handle_def log_visitor_simps(2)
  by (rule factors_vi_read, rule factors_edge)

lemma factors_indirect: "factors (t_indirect v old at ty) (t_indirect logger old at ty)"
  unfolding t_indirect_def log_visitor_simps(2)
  by (rule factors_vi_read, rule factors_edge)

lemma factors_inline_field:
  "factors (t_inline_field v ty old at i) (t_inline_field logger ty old at i)"
  unfolding t_inline_field_def rbind_assoc
  by (intro factors_steps factors_pure factors_edge)

lemma factors_array: "factors (t_array v ty old at) (t_array logger ty old at)"
  unfolding t_array_def log_visitor_simps(2)
  by (intro factors_steps factors_if factors_Inl factors_Inr factors_handle factors_indirect)

lemma factors_data: "factors (t_data v ty old at) (t_data logger ty old at)"
proof (induction "2 ^ 32 - unat old" arbitrary: ty old at rule: less_induct)
  case less
  have enum: "factors (t_data v payload o2 a2) (t_data logger payload o2 a2)"
    if "t_add old 8 = Inr o1" and "t_add o1 HEADER_BYTES = Inr o2" for payload o1 o2 a2
    using that unat_u32 [of o2] by (intro less) (auto simp: result_simps HEADER_BYTES_def)
  have dyn: "factors (t_data v payload o1 a1) (t_data logger payload o1 a1)"
    if "t_add old 8 = Inr o1" for payload o1 a1
    using that unat_u32 [of o1] by (intro less) (auto simp: result_simps)
  note arms = factors_Inl factors_Inr factors_edge factors_handle factors_array enum dyn
  show ?case
    apply (subst (1 2) t_data.simps [abs_def])
    unfolding log_visitor_simps(2)
    apply (rule factors_desc factors_word factors_pure)+
    subgoal for desc k kind
      by (cases kind; simp only: layout_kind.case;
          (intro factors_if factors_seq factors_steps factors_pure factors_foldm arms
             factors_inline_field; assumption?))
    done
qed

lemma factors_value: "factors (t_value v ty old at) (t_value logger ty old at)"
  unfolding t_value_def by (intro factors_seq factors_pure factors_edge factors_data)

lemmas factors_calls =
  factors_seq factors_steps factors_pure factors_if factors_foldm
  factors_Inl factors_Inr factors_edge factors_value factors_indirect

lemma factors_bodies:
  "factors (t_element v ty old at width i) (t_element logger ty old at width i)"
  "factors (t_field v ty old at i) (t_field logger ty old at i)"
  "factors (t_capture v count old at i) (t_capture logger count old at i)"
  "factors (t_subject v base i) (t_subject logger base i)"
  "factors (t_blame_subject v old i) (t_blame_subject logger old i)"
  "factors (t_operand v old at i) (t_operand logger old at i)"
  unfolding t_element_def t_field_def t_capture_def t_subject_def t_blame_subject_def t_operand_def
    rbind_assoc
  by (intro factors_calls)+

lemma factors_object:
  "factors (t_object v table old at nbytes ty) (t_object logger table old at nbytes ty)"
  unfolding t_object_def log_visitor_simps(2)
  by (intro factors_calls factors_bodies)

lemma value_factors:
  "inv s \<Longrightarrow> t_value v ty old at s = Inr s' \<longleftrightarrow>
    (\<exists>es. value_edges types rd ty old at = Inr es \<and> foldm (vi_edge v) es s = Inr s')"
  using factors_value unfolding factors_def value_edges_def by blast

lemma object_factors:
  "inv s \<Longrightarrow> t_object v table old at nbytes ty s = Inr s' \<longleftrightarrow>
    (\<exists>es. object_edges types rd table old at nbytes ty = Inr es \<and> foldm (vi_edge v) es s = Inr s')"
  using factors_object unfolding factors_def object_edges_def by blast

text \<open>What every edge step keeps, the whole traversal keeps.\<close>

lemma value_keeps: "inv s \<Longrightarrow> t_value v ty old at s = Inr s' \<Longrightarrow> inv s'"
  using value_factors folded_keeps by blast

lemma object_keeps: "inv s \<Longrightarrow> t_object v table old at nbytes ty s = Inr s' \<Longrightarrow> inv s'"
  using object_factors folded_keeps by blast

end

interpretation log: stable_visitor "log_visitor types rd" "\<lambda>_. True" types rd
  by unfold_locales simp_all

end
