(* ===== verification/Frame_Stack.thy ===== *)
theory Frame_Stack
  imports Telora_Prelude
begin

text \<open>
  The contract that the root frames and the scratch frames of the runtime share: every call of the
  interface pushes one frame, pops one, or changes the top one. What it gives: a well-nested
  sequence of calls leaves the frames below it alone.
\<close>

datatype frame_effect = Push | Pop | Top | Keep

text \<open>
  Height above the starting point after a sequence of effects, \<open>None\<close> when it would reach below it.
\<close>

fun nesting :: "frame_effect list \<Rightarrow> nat \<Rightarrow> nat option" where
  "nesting [] n = Some n"
| "nesting (Push # es) n = nesting es (Suc n)"
| "nesting (Pop # es) n = (case n of 0 \<Rightarrow> None | Suc m \<Rightarrow> nesting es m)"
| "nesting (Top # es) n = (case n of 0 \<Rightarrow> None | Suc m \<Rightarrow> nesting es n)"
| "nesting (Keep # es) n = nesting es n"

locale frame_stack =
  fixes inv :: "'s \<Rightarrow> bool"
    and view :: "'s \<Rightarrow> 'v list"
    and step :: "'o \<Rightarrow> 's \<Rightarrow> 's option"
    and effect :: "'o \<Rightarrow> frame_effect"
  assumes step_inv: "inv s \<Longrightarrow> step c s = Some s' \<Longrightarrow> inv s'"
    and step_push: "inv s \<Longrightarrow> step c s = Some s' \<Longrightarrow> effect c = Push \<Longrightarrow> \<exists>x. view s' = x # view s"
    and step_pop: "inv s \<Longrightarrow> step c s = Some s' \<Longrightarrow> effect c = Pop \<Longrightarrow> \<exists>x. view s = x # view s'"
    and step_top: "inv s \<Longrightarrow> step c s = Some s' \<Longrightarrow> effect c = Top \<Longrightarrow>
      \<exists>x y r. view s = x # r \<and> view s' = y # r"
    and step_keep: "inv s \<Longrightarrow> step c s = Some s' \<Longrightarrow> effect c = Keep \<Longrightarrow> view s' = view s"
begin

lemma run_inv: "inv s \<Longrightarrow> fold_opt step cs s = Some s' \<Longrightarrow> inv s'"
  by (induction cs arbitrary: s) (auto split: option.splits intro: step_inv)

lemma nested_run:
  assumes "inv s" and "fold_opt step cs s = Some s'" and "nesting (map effect cs) n = Some m"
    and "view s = up @ base" and "length up = n"
  shows "\<exists>up'. view s' = up' @ base \<and> length up' = m"
  using assms
proof (induction cs arbitrary: s n up)
  case Nil
  then show ?case by auto
next
  case (Cons c cs)
  then obtain t where t: "step c s = Some t" "fold_opt step cs t = Some s'"
    by (auto split: option.splits)
  note inv = step_inv [OF Cons.prems(1) t(1)]
  show ?case
  proof (cases "effect c")
    case Push
    with step_push [OF Cons.prems(1) t(1)] Cons.prems(4) obtain x where "view t = (x # up) @ base"
      by auto
    with Cons.IH [OF inv t(2) _ this] Cons.prems Push show ?thesis by simp
  next
    case Pop
    with Cons.prems obtain x up' where "up = x # up'"
      by (cases up) auto
    with step_pop [OF Cons.prems(1) t(1) Pop] Cons.prems(4) have "view t = up' @ base" by auto
    with Cons.IH [OF inv t(2) _ this] Cons.prems Pop \<open>up = x # up'\<close> show ?thesis by auto
  next
    case Top
    with Cons.prems obtain x up' where "up = x # up'"
      by (cases up) auto
    with step_top [OF Cons.prems(1) t(1) Top] Cons.prems(4) obtain y where
      "view t = (y # up') @ base" by auto
    with Cons.IH [OF inv t(2) _ this] Cons.prems Top \<open>up = x # up'\<close> show ?thesis by auto
  next
    case Keep
    with step_keep [OF Cons.prems(1) t(1)] Cons.prems(4) have "view t = up @ base" by simp
    with Cons.IH [OF inv t(2) _ this] Cons.prems Keep show ?thesis by simp
  qed
qed

text \<open>A balanced sequence of calls restores the frames.\<close>

lemma balanced_run:
  assumes "inv s" and "fold_opt step cs s = Some s'" and "nesting (map effect cs) 0 = Some 0"
  shows "view s' = view s"
  using nested_run [OF assms, of "[]" "view s"] by simp

lemma height_run:
  assumes "inv s" and "fold_opt step cs s = Some s'" and "nesting (map effect cs) 0 = Some m"
  shows "length (view s') = m + length (view s)"
  using nested_run [OF assms, of "[]" "view s"] by auto

end

end
