(* ===== verification/Gc_Roots.thy ===== *)
theory Gc_Roots
  imports Frame_Stack
begin

text \<open>
  Frame roots and host pins, \<^verbatim>\<open>crates/telora-wasm-shared/src/gc_roots.rs\<close>. The frame stack keeps
  its top first; slots and pins keep the order of their vectors. A reservation that the allocator
  may refuse is a boolean argument. \<open>GrPanic\<close> is the outcome of an index out of range.
\<close>

section \<open>Model\<close>

datatype root_kind =
    RStorage
  | RParsePlan
  | RContext (k_string_type: u32) (k_codec: bool)
  | RReferences (k_type: u32) (k_initialized: u32)
  | RValue u32
  | RObject u32 (k_tag: u32) u32
  | RSource

record gc_root =
  rt_reference :: u32
  rt_kind :: root_kind

datatype roots_error = GrLimit | GrAllocation | GrInvalidFrame | GrInvalidSlot | GrStaleHandle | GrPanic

record root_frame =
  fr_generation :: u64
  fr_base :: nat
  fr_count :: nat

record root_handle =
  ha_generation :: u64
  ha_slot :: nat

record root_pin =
  pn_generation :: u64
  pn_root :: "gc_root option"

record gc_roots =
  gr_frames :: "root_frame list"
  gr_slots :: "gc_root option list"
  gr_pins :: "root_pin list"
  gr_free_pins :: "nat list"
  gr_generation :: u64
  gr_limit :: nat

definition roots_new :: "nat \<Rightarrow> gc_roots" where
  "roots_new limit =
     \<lparr>gr_frames = [], gr_slots = [], gr_pins = [], gr_free_pins = [], gr_generation = 0,
      gr_limit = limit\<rparr>"

definition next_generation :: "gc_roots \<Rightarrow> u64 option" where
  "next_generation s = checked_add (gr_generation s) 1"

text \<open>\<open>a.checked_add(b).and_then(|n| n.checked_add(c))\<close>, compared with the limit.\<close>

definition within_limit :: "gc_roots \<Rightarrow> nat \<Rightarrow> nat \<Rightarrow> nat \<Rightarrow> bool" where
  "within_limit s a b c =
     (case checked_add_usize a b of None \<Rightarrow> False
      | Some n \<Rightarrow> (case checked_add_usize n c of None \<Rightarrow> False | Some t \<Rightarrow> t \<le> gr_limit s))"

definition roots_enter :: "bool \<Rightarrow> bool \<Rightarrow> nat \<Rightarrow> gc_roots \<Rightarrow> (roots_error + root_frame) \<times> gc_roots" where
  "roots_enter slots_ok frames_ok count s =
     (case checked_add_usize (length (gr_slots s)) count of
        None \<Rightarrow> (Inl GrLimit, s)
      | Some end \<Rightarrow>
          if \<not> within_limit s end (length (gr_pins s)) (length (gr_frames s) + 1) then (Inl GrLimit, s)
          else if \<not> slots_ok \<or> \<not> frames_ok then (Inl GrAllocation, s)
          else (case next_generation s of
              None \<Rightarrow> (Inl GrLimit, s)
            | Some g \<Rightarrow>
                let frame = \<lparr>fr_generation = g, fr_base = length (gr_slots s), fr_count = count\<rparr>
                in (Inr frame,
                    s\<lparr>gr_generation := g,
                      gr_slots := gr_slots s @ replicate count None,
                      gr_frames := frame # gr_frames s\<rparr>)))"

definition roots_current :: "root_frame \<Rightarrow> gc_roots \<Rightarrow> bool" where
  "roots_current frame s = (case gr_frames s of [] \<Rightarrow> False | f # _ \<Rightarrow> f = frame)"

definition keep_root :: "gc_root option \<Rightarrow> gc_root option" where
  "keep_root root =
     (case root of None \<Rightarrow> None | Some r \<Rightarrow> if rt_reference r \<noteq> 0 then Some r else None)"

definition roots_set :: "root_frame \<Rightarrow> nat \<Rightarrow> gc_root option \<Rightarrow> gc_roots \<Rightarrow> (roots_error + unit) \<times> gc_roots" where
  "roots_set frame slot root s =
     (if \<not> roots_current frame s then (Inl GrInvalidFrame, s)
      else if slot \<ge> fr_count frame then (Inl GrInvalidSlot, s)
      else if fr_base frame + slot \<ge> length (gr_slots s) then (Inl GrPanic, s)
      else (Inr (), s\<lparr>gr_slots := (gr_slots s)[fr_base frame + slot := keep_root root]\<rparr>))"

definition roots_leave :: "root_frame \<Rightarrow> gc_roots \<Rightarrow> (roots_error + unit) \<times> gc_roots" where
  "roots_leave frame s =
     (if \<not> roots_current frame s then (Inl GrInvalidFrame, s)
      else (Inr (), s\<lparr>gr_slots := take (fr_base frame) (gr_slots s), gr_frames := tl (gr_frames s)\<rparr>))"

definition roots_tail :: "bool \<Rightarrow> root_frame \<Rightarrow> gc_root list \<Rightarrow> gc_roots \<Rightarrow> (roots_error + root_frame) \<times> gc_roots" where
  "roots_tail slots_ok frame transfer s =
     (if \<not> roots_current frame s then (Inl GrInvalidFrame, s)
      else (case checked_add_usize (fr_base frame) (length transfer) of
          None \<Rightarrow> (Inl GrLimit, s)
        | Some end \<Rightarrow>
            if \<not> within_limit s end (length (gr_pins s)) (length (gr_frames s)) then (Inl GrLimit, s)
            else if \<not> slots_ok then (Inl GrAllocation, s)
            else (case next_generation s of
                None \<Rightarrow> (Inl GrLimit, s)
              | Some g \<Rightarrow>
                  let next = \<lparr>fr_generation = g, fr_base = fr_base frame, fr_count = length transfer\<rparr>
                  in (Inr next,
                      s\<lparr>gr_generation := g,
                        gr_slots := take (fr_base frame) (gr_slots s) @ map Some transfer,
                        gr_frames := next # tl (gr_frames s)\<rparr>))))"

definition roots_pin :: "bool \<Rightarrow> bool \<Rightarrow> gc_root \<Rightarrow> gc_roots \<Rightarrow> (roots_error + root_handle) \<times> gc_roots" where
  "roots_pin pins_ok free_ok root s =
     (case next_generation s of
        None \<Rightarrow> (Inl GrLimit, s)
      | Some g \<Rightarrow>
          let s = s\<lparr>gr_generation := g\<rparr>; pin = \<lparr>pn_generation = g, pn_root = Some root\<rparr>
          in (case gr_free_pins s of
              slot # rest \<Rightarrow>
                if slot \<ge> length (gr_pins s) then (Inl GrPanic, s\<lparr>gr_free_pins := rest\<rparr>)
                else (Inr \<lparr>ha_generation = g, ha_slot = slot\<rparr>,
                      s\<lparr>gr_pins := (gr_pins s)[slot := pin], gr_free_pins := rest\<rparr>)
            | [] \<Rightarrow>
                if \<not> within_limit s (length (gr_slots s)) (length (gr_frames s)) (length (gr_pins s) + 1)
                then (Inl GrLimit, s)
                else if \<not> pins_ok \<or> \<not> free_ok then (Inl GrAllocation, s)
                else (Inr \<lparr>ha_generation = g, ha_slot = length (gr_pins s)\<rparr>,
                      s\<lparr>gr_pins := gr_pins s @ [pin]\<rparr>)))"

definition roots_get :: "root_handle \<Rightarrow> gc_roots \<Rightarrow> roots_error + gc_root" where
  "roots_get handle s =
     (case get_at (gr_pins s) (ha_slot handle) of
        None \<Rightarrow> Inl GrStaleHandle
      | Some pin \<Rightarrow>
          if pn_generation pin = ha_generation handle
          then ok_or (pn_root pin) GrStaleHandle
          else Inl GrStaleHandle)"

definition roots_unpin :: "root_handle \<Rightarrow> gc_roots \<Rightarrow> (roots_error + gc_root) \<times> gc_roots" where
  "roots_unpin handle s =
     (case roots_get handle s of
        Inl e \<Rightarrow> (Inl e, s)
      | Inr root \<Rightarrow>
          (Inr root,
           s\<lparr>gr_pins := (gr_pins s)[ha_slot handle := (gr_pins s ! ha_slot handle)\<lparr>pn_root := None\<rparr>],
             gr_free_pins := ha_slot handle # gr_free_pins s\<rparr>))"

definition roots_rewrite_pins :: "(gc_root \<Rightarrow> gc_root) \<Rightarrow> gc_roots \<Rightarrow> gc_roots" where
  "roots_rewrite_pins relocate s =
     s\<lparr>gr_pins := map (\<lambda>pin. pin\<lparr>pn_root := map_option relocate (pn_root pin)\<rparr>) (gr_pins s)\<rparr>"

text \<open>The slots are pushed in increasing order, so the last one is on top of the free list.\<close>

definition roots_invalidate_pins :: "gc_roots \<Rightarrow> gc_roots" where
  "roots_invalidate_pins s =
     s\<lparr>gr_pins := map (\<lambda>pin. pin\<lparr>pn_root := None\<rparr>) (gr_pins s),
       gr_free_pins := rev [0..<length (gr_pins s)]\<rparr>"

definition roots_iter :: "gc_roots \<Rightarrow> gc_root list" where
  "roots_iter s =
     filter (\<lambda>r. rt_reference r \<noteq> 0)
       (List.map_filter (\<lambda>r. r) (gr_slots s) @ List.map_filter pn_root (gr_pins s))"

section \<open>Invariant\<close>

text \<open>
  Frames tile the slots from the bottom; generations of frames and pins have been handed out; the
  free list holds exactly the empty pins.
\<close>

fun tiles :: "root_frame list \<Rightarrow> nat \<Rightarrow> bool" where
  "tiles [] n \<longleftrightarrow> n = 0"
| "tiles (f # fs) n \<longleftrightarrow> fr_base f + fr_count f = n \<and> tiles fs (fr_base f)"

definition empty_pins :: "root_pin list \<Rightarrow> nat set" where
  "empty_pins ps = {i. i < length ps \<and> pn_root (ps ! i) = None}"

definition roots_inv :: "gc_roots \<Rightarrow> bool" where
  "roots_inv s \<longleftrightarrow>
     tiles (gr_frames s) (length (gr_slots s)) \<and>
     (\<forall>f \<in> set (gr_frames s). fr_generation f \<le> gr_generation s) \<and>
     (\<forall>p \<in> set (gr_pins s). pn_generation p \<le> gr_generation s) \<and>
     distinct (gr_free_pins s) \<and> set (gr_free_pins s) = empty_pins (gr_pins s) \<and>
     length (gr_slots s) + length (gr_frames s) + length (gr_pins s) \<le> gr_limit s"


datatype root_op =
    OEnter bool bool nat
  | OSet root_frame nat "gc_root option"
  | OLeave root_frame
  | OTail bool root_frame "gc_root list"
  | OPin bool bool gc_root
  | OUnpin root_handle
  | ORewrite "gc_root \<Rightarrow> gc_root"
  | OInvalidate

text \<open>The outcome of a call (whether it succeeded) and the state it leaves.\<close>

definition roots_outcome :: "('e + 'a) \<times> gc_roots \<Rightarrow> 'e option \<times> gc_roots" where
  "roots_outcome r = (case r of (Inl e, s) \<Rightarrow> (Some e, s) | (Inr _, s) \<Rightarrow> (None, s))"

fun roots_call :: "root_op \<Rightarrow> gc_roots \<Rightarrow> roots_error option \<times> gc_roots" where
  "roots_call (OEnter a b n) s = roots_outcome (roots_enter a b n s)"
| "roots_call (OSet f i r) s = roots_outcome (roots_set f i r s)"
| "roots_call (OLeave f) s = roots_outcome (roots_leave f s)"
| "roots_call (OTail a f rs) s = roots_outcome (roots_tail a f rs s)"
| "roots_call (OPin a b r) s = roots_outcome (roots_pin a b r s)"
| "roots_call (OUnpin h) s = roots_outcome (roots_unpin h s)"
| "roots_call (ORewrite g) s = (None, roots_rewrite_pins g s)"
| "roots_call OInvalidate s = (None, roots_invalidate_pins s)"

definition roots_run :: "root_op list \<Rightarrow> gc_roots \<Rightarrow> gc_roots" where
  "roots_run cs s = fold (\<lambda>c s. snd (roots_call c s)) cs s"

lemma next_generation_Some [checked_simps]:
  "next_generation s = Some g \<longleftrightarrow> unat g = Suc (unat (gr_generation s))"
  by (simp add: next_generation_def checked_simps)

lemma next_generation_less: "next_generation s = Some g \<Longrightarrow> gr_generation s < g"
  by (simp add: checked_simps word_less_nat_alt)

lemma within_limit_iff:
  "within_limit s a b c \<longleftrightarrow> a + b + c \<le> gr_limit s \<and> a + b + c \<le> usize_max"
  by (auto simp: within_limit_def checked_add_usize_def)

lemma tiles_base: "tiles (f # fs) n \<Longrightarrow> fr_base f \<le> n"
  by auto

lemma roots_new_inv: "roots_inv (roots_new limit)"
  by (simp add: roots_inv_def roots_new_def empty_pins_def)

lemma empty_pins_append: "empty_pins (ps @ [p]) =
  empty_pins ps \<union> (if pn_root p = None then {length ps} else {})"
  by (auto simp: empty_pins_def nth_append less_Suc_eq)

lemma empty_pins_update: "i < length ps \<Longrightarrow> empty_pins (ps[i := p]) =
  (if pn_root p = None then insert i (empty_pins ps) else empty_pins ps - {i})"
  by (auto simp: empty_pins_def nth_list_update)

text \<open>Outcomes of the calls, one rule for success and one for failure each.\<close>

lemma roots_enter_Inl: "roots_enter a b n s = (Inl e, s') \<Longrightarrow> s' = s"
  by (auto simp: roots_enter_def Let_def split: option.splits if_splits)

lemma roots_enter_Inr:
  assumes "roots_enter a b n s = (Inr f, s')"
  obtains g where "next_generation s = Some g"
    and "f = \<lparr>fr_generation = g, fr_base = length (gr_slots s), fr_count = n\<rparr>"
    and "s' = s\<lparr>gr_generation := g, gr_slots := gr_slots s @ replicate n None,
      gr_frames := f # gr_frames s\<rparr>"
    and "length (gr_slots s) + n + length (gr_pins s) + (length (gr_frames s) + 1) \<le> gr_limit s"
  using assms
  by (auto simp: roots_enter_def Let_def within_limit_iff checked_add_usize_Some
      split: option.splits if_splits)

lemma roots_set_Inr:
  "roots_set f i r s = (Inr u, s') \<longleftrightarrow> roots_current f s \<and> i < fr_count f \<and>
     fr_base f + i < length (gr_slots s) \<and>
     s' = s\<lparr>gr_slots := (gr_slots s)[fr_base f + i := keep_root r]\<rparr>"
  by (auto simp: roots_set_def)

lemma roots_set_Inl: "roots_set f i r s = (Inl e, s') \<Longrightarrow> s' = s"
  by (auto simp: roots_set_def split: if_splits)

lemma roots_leave_Inr:
  "roots_leave f s = (Inr u, s') \<longleftrightarrow> roots_current f s \<and>
     s' = s\<lparr>gr_slots := take (fr_base f) (gr_slots s), gr_frames := tl (gr_frames s)\<rparr>"
  by (auto simp: roots_leave_def)

lemma roots_leave_Inl: "roots_leave f s = (Inl e, s') \<Longrightarrow> s' = s"
  by (auto simp: roots_leave_def split: if_splits)

lemma roots_tail_Inl: "roots_tail a f rs s = (Inl e, s') \<Longrightarrow> s' = s"
  by (auto simp: roots_tail_def Let_def split: option.splits if_splits)

lemma roots_tail_Inr:
  assumes "roots_tail a f rs s = (Inr f', s')"
  obtains g where "next_generation s = Some g" and "roots_current f s"
    and "f' = \<lparr>fr_generation = g, fr_base = fr_base f, fr_count = length rs\<rparr>"
    and "s' = s\<lparr>gr_generation := g, gr_slots := take (fr_base f) (gr_slots s) @ map Some rs,
      gr_frames := f' # tl (gr_frames s)\<rparr>"
    and "fr_base f + length rs + length (gr_pins s) + length (gr_frames s) \<le> gr_limit s"
  using assms
  by (auto simp: roots_tail_def Let_def within_limit_iff checked_add_usize_Some
      split: option.splits if_splits)

lemma roots_currentD: "roots_current f s \<Longrightarrow> \<exists>fs. gr_frames s = f # fs"
  by (auto simp: roots_current_def split: list.splits)

lemma roots_pin_Inr:
  assumes "roots_pin a b r s = (Inr h, s')"
  obtains (reuse) g slot rest where "next_generation s = Some g" and "gr_free_pins s = slot # rest"
      and "slot < length (gr_pins s)" and "h = \<lparr>ha_generation = g, ha_slot = slot\<rparr>"
      and "s' = s\<lparr>gr_generation := g,
        gr_pins := (gr_pins s)[slot := \<lparr>pn_generation = g, pn_root = Some r\<rparr>], gr_free_pins := rest\<rparr>"
    | (fresh) g where "next_generation s = Some g" and "gr_free_pins s = []"
      and "h = \<lparr>ha_generation = g, ha_slot = length (gr_pins s)\<rparr>"
      and "s' = s\<lparr>gr_generation := g,
        gr_pins := gr_pins s @ [\<lparr>pn_generation = g, pn_root = Some r\<rparr>]\<rparr>"
      and "length (gr_slots s) + length (gr_frames s) + (length (gr_pins s) + 1) \<le> gr_limit s"
  using assms
  by (auto simp: roots_pin_def Let_def within_limit_iff split: option.splits list.splits if_splits)

lemma roots_pin_Inl:
  assumes "roots_pin a b r s = (Inl e, s')" and "roots_inv s"
  shows "e \<noteq> GrPanic" and "s' = s \<or> (\<exists>g. next_generation s = Some g \<and> s' = s\<lparr>gr_generation := g\<rparr>)"
  using assms
  by (auto simp: roots_pin_def Let_def roots_inv_def empty_pins_def
      split: option.splits list.splits if_splits)

lemma roots_get_Inr:
  "roots_get h s = Inr r \<longleftrightarrow> ha_slot h < length (gr_pins s) \<and>
     pn_generation (gr_pins s ! ha_slot h) = ha_generation h \<and>
     pn_root (gr_pins s ! ha_slot h) = Some r"
  by (auto simp: roots_get_def get_at_def ok_or_eq_Inr split: option.splits if_splits)

lemma roots_unpin_Inl: "roots_unpin h s = (Inl e, s') \<Longrightarrow> s' = s"
  by (auto simp: roots_unpin_def split: sum.splits)

lemma roots_unpin_Inr:
  "roots_unpin h s = (Inr r, s') \<longleftrightarrow> roots_get h s = Inr r \<and>
     s' = s\<lparr>gr_pins := (gr_pins s)[ha_slot h := (gr_pins s ! ha_slot h)\<lparr>pn_root := None\<rparr>],
            gr_free_pins := ha_slot h # gr_free_pins s\<rparr>"
  by (auto simp: roots_unpin_def split: sum.splits)

text \<open>Preservation of the invariant.\<close>

lemma bump_inv: "roots_inv s \<Longrightarrow> next_generation s = Some g \<Longrightarrow> roots_inv (s\<lparr>gr_generation := g\<rparr>)"
  using next_generation_less [of s g]
  by (fastforce simp: roots_inv_def intro: order_trans less_imp_le)

lemma enter_inv:
  assumes "roots_inv s" and "roots_enter a b n s = (r, s')"
  shows "roots_inv s'"
proof (cases r)
  case (Inl e)
  with assms roots_enter_Inl show ?thesis by blast
next
  case (Inr f)
  with assms(2) obtain g where "next_generation s = Some g"
    and "f = \<lparr>fr_generation = g, fr_base = length (gr_slots s), fr_count = n\<rparr>"
    and "s' = s\<lparr>gr_generation := g, gr_slots := gr_slots s @ replicate n None,
      gr_frames := f # gr_frames s\<rparr>"
    and "length (gr_slots s) + n + length (gr_pins s) + (length (gr_frames s) + 1) \<le> gr_limit s"
    by (auto elim: roots_enter_Inr)
  with bump_inv [OF assms(1)] show ?thesis by (simp add: roots_inv_def)
qed

lemma set_inv: "roots_inv s \<Longrightarrow> roots_set f i r s = (x, s') \<Longrightarrow> roots_inv s'"
  by (auto simp: roots_set_def roots_inv_def split: if_splits)

lemma leave_inv: "roots_inv s \<Longrightarrow> roots_leave f s = (x, s') \<Longrightarrow> roots_inv s'"
  by (auto simp: roots_leave_def roots_inv_def min_absorb2 dest!: roots_currentD
      dest: tiles_base split: if_splits)

lemma tail_inv:
  assumes "roots_inv s" and "roots_tail a f rs s = (r, s')"
  shows "roots_inv s'"
proof (cases r)
  case (Inl e)
  with assms roots_tail_Inl show ?thesis by blast
next
  case (Inr f')
  with assms(2) obtain g where g: "next_generation s = Some g" and cur: "roots_current f s"
    and f': "f' = \<lparr>fr_generation = g, fr_base = fr_base f, fr_count = length rs\<rparr>"
    and s': "s' = s\<lparr>gr_generation := g, gr_slots := take (fr_base f) (gr_slots s) @ map Some rs,
      gr_frames := f' # tl (gr_frames s)\<rparr>"
    and lim: "fr_base f + length rs + length (gr_pins s) + length (gr_frames s) \<le> gr_limit s"
    by (auto elim: roots_tail_Inr)
  from cur obtain fs where "gr_frames s = f # fs" using roots_currentD by blast
  with bump_inv [OF assms(1) g] lim show ?thesis
    by (simp add: roots_inv_def s' f' min_def)
qed

lemma pin_inv:
  assumes "roots_inv s" and "roots_pin a b root s = (r, s')"
  shows "roots_inv s'"
proof (cases r)
  case (Inl e)
  with assms roots_pin_Inl bump_inv show ?thesis by blast
next
  case (Inr h)
  with assms(2) have "roots_pin a b root s = (Inr h, s')" by simp
  then show ?thesis
  proof (cases rule: roots_pin_Inr)
    case (reuse g slot rest)
    with bump_inv [OF assms(1) reuse(1)] show ?thesis
      by (auto simp: roots_inv_def empty_pins_update dest: set_update_subset_insert [THEN subsetD])
  next
    case (fresh g)
    with bump_inv [OF assms(1) fresh(1)] show ?thesis
      by (auto simp: roots_inv_def empty_pins_append)
  qed
qed

lemma unpin_inv:
  assumes "roots_inv s" and "roots_unpin h s = (r, s')"
  shows "roots_inv s'"
proof (cases r)
  case (Inl e)
  with assms roots_unpin_Inl show ?thesis by blast
next
  case (Inr root)
  with assms(2) have "roots_get h s = Inr root"
    and s': "s' = s\<lparr>gr_pins := (gr_pins s)[ha_slot h := (gr_pins s ! ha_slot h)\<lparr>pn_root := None\<rparr>],
            gr_free_pins := ha_slot h # gr_free_pins s\<rparr>"
    by (auto simp: roots_unpin_Inr)
  then have h: "ha_slot h < length (gr_pins s)" "pn_root (gr_pins s ! ha_slot h) = Some root"
    by (auto simp: roots_get_Inr)
  then have "ha_slot h \<notin> empty_pins (gr_pins s)" and "gr_pins s ! ha_slot h \<in> set (gr_pins s)"
    by (auto simp: empty_pins_def)
  with assms(1) h show ?thesis
    by (auto simp: roots_inv_def s' empty_pins_update dest: set_update_subset_insert [THEN subsetD])
qed

lemma rewrite_inv: "roots_inv s \<Longrightarrow> roots_inv (roots_rewrite_pins g s)"
  by (auto simp: roots_inv_def roots_rewrite_pins_def empty_pins_def)

lemma invalidate_inv: "roots_inv s \<Longrightarrow> roots_inv (roots_invalidate_pins s)"
  by (auto simp: roots_inv_def roots_invalidate_pins_def empty_pins_def)

lemma call_inv: "roots_inv s \<Longrightarrow> roots_inv (snd (roots_call c s))"
  by (cases c)
    (auto simp: roots_outcome_def rewrite_inv invalidate_inv split: prod.splits sum.splits
      intro: enter_inv set_inv leave_inv tail_inv pin_inv unpin_inv)

lemma roots_run_inv: "roots_inv s \<Longrightarrow> roots_inv (roots_run cs s)"
  unfolding roots_run_def by (induction cs arbitrary: s) (simp_all add: call_inv)

section \<open>Handles\<close>

text \<open>What a call does to the pin a handle names.\<close>

definition pin_frees :: "root_handle \<Rightarrow> root_op \<Rightarrow> bool" where
  "pin_frees h c \<longleftrightarrow> (case c of OUnpin h' \<Rightarrow> h' = h | OInvalidate \<Rightarrow> True | _ \<Rightarrow> False)"

definition pin_moves :: "root_op \<Rightarrow> gc_root \<Rightarrow> gc_root" where
  "pin_moves c r = (case c of ORewrite g \<Rightarrow> g r | _ \<Rightarrow> r)"

lemma frames_keep_pins:
  "snd (roots_enter a b n s) = s' \<Longrightarrow> gr_pins s' = gr_pins s"
  "snd (roots_set f i r s) = s' \<Longrightarrow> gr_pins s' = gr_pins s"
  "snd (roots_leave f s) = s' \<Longrightarrow> gr_pins s' = gr_pins s"
  "snd (roots_tail a f rs s) = s' \<Longrightarrow> gr_pins s' = gr_pins s"
  by (auto simp: roots_enter_def roots_set_def roots_leave_def roots_tail_def Let_def
      split: option.splits)

lemma generation_mono: "gr_generation s \<le> gr_generation (snd (roots_call c s))"
  using next_generation_less [of s]
  by (cases c)
    (auto simp: roots_outcome_def roots_enter_def roots_set_def roots_leave_def roots_tail_def
      roots_pin_def roots_unpin_def roots_rewrite_pins_def roots_invalidate_pins_def Let_def
      less_imp_le split: prod.splits sum.splits option.splits list.splits if_splits)

lemma pin_get:
  assumes "roots_inv s" and "roots_pin a b root s = (res, s')" and "ha_generation h \<le> gr_generation s"
  shows "roots_get h s' = Inr r \<longleftrightarrow> roots_get h s = Inr r"
proof (cases res)
  case (Inl e)
  with assms(2) roots_pin_Inl [OF _ assms(1)] show ?thesis by (fastforce simp: roots_get_def)
next
  case (Inr k)
  with assms(2) have "roots_pin a b root s = (Inr k, s')" by simp
  then show ?thesis
  proof (cases rule: roots_pin_Inr)
    case (reuse g slot rest)
    from reuse(2) assms(1) have "pn_root (gr_pins s ! slot) = None"
      by (auto simp: roots_inv_def empty_pins_def)
    moreover from next_generation_less [OF reuse(1)] assms(3) have "ha_generation h \<noteq> g" by auto
    ultimately show ?thesis using reuse by (auto simp: roots_get_Inr nth_list_update)
  next
    case (fresh g)
    from next_generation_less [OF fresh(1)] assms(3) have "ha_generation h \<noteq> g" by auto
    with fresh show ?thesis by (auto simp: roots_get_Inr nth_append)
  qed
qed

lemma unpin_get:
  assumes "roots_unpin k s = (res, s')"
  shows "roots_get h s' = Inr r \<longleftrightarrow> roots_get h s = Inr r \<and> h \<noteq> k"
proof (cases res)
  case (Inl e)
  with assms have "s' = s" using roots_unpin_Inl by blast
  moreover from assms Inl have "roots_get k s \<noteq> Inr r" for r
    by (auto simp: roots_unpin_def split: sum.splits)
  ultimately show ?thesis by auto
next
  case (Inr root)
  with assms show ?thesis
    by (cases h; cases k) (auto simp: roots_unpin_Inr roots_get_Inr nth_list_update)
qed

lemma rewrite_get: "roots_get h (roots_rewrite_pins g s) = Inr r \<longleftrightarrow>
    (\<exists>q. roots_get h s = Inr q \<and> r = g q)"
  by (auto simp: roots_get_Inr roots_rewrite_pins_def)

lemma invalidate_get: "roots_get h (roots_invalidate_pins s) \<noteq> Inr r"
  by (auto simp: roots_get_Inr roots_invalidate_pins_def)

lemma call_get:
  assumes "roots_inv s" and "ha_generation h \<le> gr_generation s"
  shows "roots_get h (snd (roots_call c s)) = Inr r \<longleftrightarrow>
    \<not> pin_frees h c \<and> (\<exists>q. roots_get h s = Inr q \<and> r = pin_moves c q)"
proof (cases c)
  case (OPin a b root)
  then show ?thesis
    using pin_get [OF assms(1) _ assms(2), of a b root "fst (roots_pin a b root s)"]
    by (auto simp: pin_frees_def pin_moves_def roots_outcome_def split: prod.splits sum.splits)
next
  case (OUnpin k)
  then show ?thesis
    using unpin_get [of k s "fst (roots_unpin k s)"]
    by (auto simp: pin_frees_def pin_moves_def roots_outcome_def split: prod.splits sum.splits)
next
  case (OEnter a b n)
  then show ?thesis using frames_keep_pins(1) [OF refl, of a b n s]
    by (auto simp: pin_frees_def pin_moves_def roots_outcome_def roots_get_Inr split: prod.splits sum.splits)
next
  case (OSet f i x)
  then show ?thesis using frames_keep_pins(2) [OF refl, of f i x s]
    by (auto simp: pin_frees_def pin_moves_def roots_outcome_def roots_get_Inr split: prod.splits sum.splits)
next
  case (OLeave f)
  then show ?thesis using frames_keep_pins(3) [OF refl, of f s]
    by (auto simp: pin_frees_def pin_moves_def roots_outcome_def roots_get_Inr split: prod.splits sum.splits)
next
  case (OTail a f rs)
  then show ?thesis using frames_keep_pins(4) [OF refl, of a f rs s]
    by (auto simp: pin_frees_def pin_moves_def roots_outcome_def roots_get_Inr split: prod.splits sum.splits)
qed (auto simp: pin_frees_def pin_moves_def rewrite_get invalidate_get)

lemma get_generation: "roots_inv s \<Longrightarrow> roots_get h s = Inr r \<Longrightarrow> ha_generation h \<le> gr_generation s"
  unfolding roots_get_Inr roots_inv_def by (metis nth_mem)

lemma pin_returns:
  assumes "roots_pin a b r s = (Inr h, s')"
  shows "roots_get h s' = Inr r" and "gr_generation s < ha_generation h"
  using assms next_generation_less
  by (auto elim!: roots_pin_Inr simp: roots_get_Inr)

text \<open>
  C22: A pin lives exactly as long as its handle is used as intended. After \<open>pin\<close> returned a
  handle, any sequence of calls leaves it resolving to the pinned root (as moved by the pin
  rewrites on the way) until that handle is unpinned or all pins are invalidated.
\<close>

theorem pin_lifetime:
  assumes "roots_inv s" and "roots_pin a b r s = (Inr h, s')"
    and "\<forall>c \<in> set cs. \<not> pin_frees h c"
  shows "roots_get h (roots_run cs s') = Inr (fold pin_moves cs r)"
proof -
  have "roots_get h (roots_run cs t) = Inr (fold pin_moves cs r)"
    if "roots_inv t" and "roots_get h t = Inr r" and "\<forall>c \<in> set cs. \<not> pin_frees h c" for t r
    using that
  proof (induction cs arbitrary: t r)
    case (Cons c cs)
    note gen = get_generation [OF Cons.prems(1,2)]
    from Cons.prems call_get [OF Cons.prems(1) gen]
    have "roots_get h (snd (roots_call c t)) = Inr (pin_moves c r)" by auto
    with Cons.IH [OF call_inv [OF Cons.prems(1)] this] Cons.prems(3)
    show ?case by (simp add: roots_run_def)
  qed (simp add: roots_run_def)
  from this [OF pin_inv [OF assms(1,2)] pin_returns(1) [OF assms(2)] assms(3)] show ?thesis .
qed

lemma stale_run:
  assumes "roots_inv s" and "ha_generation h \<le> gr_generation s" and "\<forall>r. roots_get h s \<noteq> Inr r"
  shows "roots_get h (roots_run cs s) = Inl GrStaleHandle"
  using assms
proof (induction cs arbitrary: s)
  case Nil
  then show ?case
    by (auto simp: roots_run_def roots_get_def ok_or_def split: option.splits if_splits)
next
  case (Cons c cs)
  from Cons.prems call_get [OF Cons.prems(1,2)]
  have "\<forall>r. roots_get h (snd (roots_call c s)) \<noteq> Inr r" by auto
  with Cons.IH [OF call_inv [OF Cons.prems(1)] order_trans [OF Cons.prems(2) generation_mono]]
  show ?case by (simp add: roots_run_def)
qed

text \<open>
  C33: No handle comes back to life. Once a handle has been unpinned it stays stale, whatever calls
  follow, although its slot is reused by later pins.
\<close>

theorem unpinned_stays_stale:
  assumes "roots_inv s" and "roots_unpin h s = (Inr r, s')"
  shows "roots_get h (roots_run cs s') = Inl GrStaleHandle"
proof (rule stale_run)
  show "roots_inv s'" using unpin_inv [OF assms] .
  from assms(2) have "roots_get h s = Inr r" by (simp add: roots_unpin_Inr)
  with assms get_generation show "ha_generation h \<le> gr_generation s'"
    by (auto simp: roots_unpin_Inr)
  show "\<forall>r. roots_get h s' \<noteq> Inr r" using unpin_get [OF assms(2), of h] by simp
qed

text \<open>
  C25: The root registry keeps its invariant along every sequence of calls from its creation: frames
  tile the slot vector, no generation is ahead of the counter, the free list holds exactly the empty
  pins, the budget is respected; and no call hits an index out of range.
\<close>

theorem roots_reachable_inv:
  "roots_inv (roots_run cs (roots_new limit)) \<and>
   fst (roots_call c (roots_run cs (roots_new limit))) \<noteq> Some GrPanic"
proof -
  let ?s = "roots_run cs (roots_new limit)"
  have inv: "roots_inv ?s" by (rule roots_run_inv [OF roots_new_inv])
  have "fst (roots_call c ?s) \<noteq> Some GrPanic"
  proof (cases c)
    case (OSet f i r)
    from inv have "fr_base f + i < length (gr_slots ?s)" if "roots_current f ?s" "i < fr_count f"
      using that by (auto simp: roots_inv_def dest!: roots_currentD)
    then show ?thesis using OSet by (auto simp: roots_outcome_def roots_set_def)
  next
    case (OPin a b r)
    then show ?thesis using roots_pin_Inl(1) [OF _ inv, of a b r]
      by (auto simp: roots_outcome_def split: prod.splits sum.splits)
  next
    case (OUnpin h)
    then show ?thesis
      by (auto simp: roots_outcome_def roots_unpin_def roots_get_def ok_or_def
          split: option.splits sum.splits if_splits)
  qed (auto simp: roots_outcome_def roots_enter_def roots_leave_def roots_tail_def Let_def
      split: option.splits)
  with inv show ?thesis by blast
qed

section \<open>Frame discipline\<close>

fun frame_view :: "root_frame list \<Rightarrow> gc_root option list \<Rightarrow> gc_root option list list" where
  "frame_view [] slots = []"
| "frame_view (f # fs) slots = drop (fr_base f) slots # frame_view fs (take (fr_base f) slots)"

definition roots_view :: "gc_roots \<Rightarrow> gc_root option list list" where
  "roots_view s = frame_view (gr_frames s) (gr_slots s)"

definition roots_step :: "root_op \<Rightarrow> gc_roots \<Rightarrow> gc_roots option" where
  "roots_step c s = (case roots_call c s of (None, s') \<Rightarrow> Some s' | (Some e, s') \<Rightarrow> None)"

fun roots_effect :: "root_op \<Rightarrow> frame_effect" where
  "roots_effect (OEnter a b n) = Push"
| "roots_effect (OLeave f) = Pop"
| "roots_effect (OSet f i r) = Top"
| "roots_effect (OTail a f rs) = Top"
| "roots_effect _ = Keep"

lemma roots_step_inv: "roots_inv s \<Longrightarrow> roots_step c s = Some s' \<Longrightarrow> roots_inv s'"
  using call_inv [of s c] by (auto simp: roots_step_def split: prod.splits option.splits)

lemma outcome_None: "roots_outcome r = (None, s') \<longleftrightarrow> (\<exists>x. r = (Inr x, s'))"
  by (auto simp: roots_outcome_def split: prod.splits sum.splits)

lemma roots_step_Some: "roots_step c s = Some s' \<longleftrightarrow> roots_call c s = (None, s')"
  by (auto simp: roots_step_def split: prod.splits option.splits)

interpretation root_frames: frame_stack roots_inv roots_view roots_step roots_effect
proof unfold_locales
  fix c s s'
  assume inv: "roots_inv s" and step: "roots_step c s = Some s'"
  show "roots_inv s'" by (rule roots_step_inv [OF inv step])
  show "\<exists>x. roots_view s' = x # roots_view s" if "roots_effect c = Push"
    using that step inv
    by (cases c)
      (auto simp: roots_step_Some outcome_None roots_view_def elim!: roots_enter_Inr)
  show "\<exists>x. roots_view s = x # roots_view s'" if "roots_effect c = Pop"
    using that step inv
    by (cases c)
      (auto simp: roots_step_Some outcome_None roots_view_def roots_leave_Inr dest!: roots_currentD)
  show "roots_view s' = roots_view s" if "roots_effect c = Keep"
    using that step
    by (cases c)
      (auto simp: roots_step_Some outcome_None roots_view_def roots_unpin_Inr
        roots_rewrite_pins_def roots_invalidate_pins_def elim!: roots_pin_Inr)
  show "\<exists>x y r. roots_view s = x # r \<and> roots_view s' = y # r" if "roots_effect c = Top"
    using that step inv
    by (cases c)
      (auto simp: roots_step_Some outcome_None roots_view_def roots_set_Inr roots_inv_def
        dest!: roots_currentD elim!: roots_tail_Inr)
qed

text \<open>
  C27: The slots of a caller survive a call. A well-nested sequence of successful calls (whatever
  it sets, pins, collects or tail-calls on the way) ends with exactly the frames and slots it
  started with.
\<close>

theorem balanced_calls_restore_roots:
  assumes "roots_inv s" and "fold_opt roots_step cs s = Some s'"
    and "nesting (map roots_effect cs) 0 = Some 0"
  shows "roots_view s' = roots_view s"
  using assms by (rule root_frames.balanced_run)

section \<open>An example run\<close>

definition example_root :: gc_root where
  "example_root = \<lparr>rt_reference = 64, rt_kind = RValue 3\<rparr>"

definition example_pinned :: gc_roots where
  "example_pinned = snd (roots_pin True True example_root (roots_new 16))"

lemma example_pin:
  "roots_pin True True example_root (roots_new 16) = (Inr \<lparr>ha_generation = 1, ha_slot = 0\<rparr>, example_pinned)"
  by code_simp

theorem pin_lifetime_witness:
  "roots_get \<lparr>ha_generation = 1, ha_slot = 0\<rparr>
     (roots_run [OEnter True True 2, OPin True True example_root, OUnpin \<lparr>ha_generation = 3, ha_slot = 1\<rparr>]
       example_pinned) = Inr example_root"
  using pin_lifetime [OF roots_new_inv example_pin,
      of "[OEnter True True 2, OPin True True example_root, OUnpin \<lparr>ha_generation = 3, ha_slot = 1\<rparr>]"]
  by (simp add: pin_frees_def pin_moves_def)

lemma example_unpin:
  "roots_unpin \<lparr>ha_generation = 1, ha_slot = 0\<rparr> example_pinned =
    (Inr example_root, snd (roots_unpin \<lparr>ha_generation = 1, ha_slot = 0\<rparr> example_pinned))"
  by code_simp

theorem unpinned_stays_stale_witness:
  "roots_get \<lparr>ha_generation = 1, ha_slot = 0\<rparr>
     (roots_run [OPin True True example_root]
       (snd (roots_unpin \<lparr>ha_generation = 1, ha_slot = 0\<rparr> example_pinned))) = Inl GrStaleHandle"
  by (rule unpinned_stays_stale [OF pin_inv [OF roots_new_inv example_pin] example_unpin])

definition example_calls :: "root_op list" where
  "example_calls =
     (let frame = \<lparr>fr_generation = 2, fr_base = 0, fr_count = 1\<rparr> in
      [OEnter True True 1, OSet frame 0 (Some example_root), OTail True frame [example_root, example_root],
       OLeave \<lparr>fr_generation = 3, fr_base = 0, fr_count = 2\<rparr>])"

theorem balanced_calls_restore_roots_witness:
  "roots_view (the (fold_opt roots_step example_calls example_pinned)) = roots_view example_pinned"
proof (rule balanced_calls_restore_roots)
  show "roots_inv example_pinned" by (rule pin_inv [OF roots_new_inv example_pin])
  have "fold_opt roots_step example_calls example_pinned \<noteq> None" by code_simp
  then show "fold_opt roots_step example_calls example_pinned =
      Some (the (fold_opt roots_step example_calls example_pinned))" by simp
  show "nesting (map roots_effect example_calls) 0 = Some 0" by code_simp
qed

end
