(* ===== verification/Source_Range.thy ===== *)
theory Source_Range
  imports Telora_Prelude
begin

text \<open>
  The inline source ranges of \<^verbatim>\<open>crates/telora-wasm-shared/src/source_range.rs\<close>: a source index of
  14 bits and two byte offsets of 25 bits, packed into one little-endian 64-bit word.
\<close>

section \<open>Model\<close>

record source_range =
  sr_source :: u32
  sr_start :: u32
  sr_end :: u32

definition SOURCE_BITS :: nat where "SOURCE_BITS = 14"
definition OFFSET_BITS :: nat where "OFFSET_BITS = 25"
definition SOURCE_LIMIT :: u32 where "SOURCE_LIMIT = push_bit SOURCE_BITS 1"
definition OFFSET_LIMIT :: u32 where "OFFSET_LIMIT = push_bit OFFSET_BITS 1"
definition SOURCE_RANGE_BYTES :: nat where "SOURCE_RANGE_BYTES = 8"

definition source_range_none :: source_range where
  "source_range_none = \<lparr>sr_source = 0, sr_start = 0, sr_end = 0\<rparr>"

definition source_range_checked :: "u32 \<Rightarrow> u32 \<Rightarrow> u32 \<Rightarrow> u32 \<Rightarrow> source_range option" where
  "source_range_checked source start end source_len =
     (if source \<ge> SOURCE_LIMIT
       \<or> start \<ge> OFFSET_LIMIT
       \<or> end \<ge> OFFSET_LIMIT
       \<or> start > end
       \<or> end > source_len
      then None
      else Some \<lparr>sr_source = source, sr_start = start, sr_end = end\<rparr>)"

definition source_range_packed :: "source_range \<Rightarrow> u64" where
  "source_range_packed r =
     (push_bit (OFFSET_BITS * 2) (ucast (sr_source r))
       OR push_bit OFFSET_BITS (ucast (sr_start r)))
       OR ucast (sr_end r)"

definition source_range_encode :: "source_range \<Rightarrow> bytes" where
  "source_range_encode r = u64_to_le (source_range_packed r)"

definition source_range_unpack :: "u64 \<Rightarrow> source_range option" where
  "source_range_unpack packed =
     (let mask = ucast (OFFSET_LIMIT - 1);
          result = \<lparr>sr_source = ucast (drop_bit (OFFSET_BITS * 2) packed),
                    sr_start = ucast (drop_bit OFFSET_BITS packed AND mask),
                    sr_end = ucast (packed AND mask)\<rparr>
      in if sr_start result \<le> sr_end result then Some result else None)"

definition source_range_decode :: "bytes \<Rightarrow> u32 \<Rightarrow> source_range option" where
  "source_range_decode bs source_len =
     Option.bind (get_range bs 0 SOURCE_RANGE_BYTES) (\<lambda>b.
     Option.bind (source_range_unpack (u64_from_le b)) (\<lambda>r.
       source_range_checked (sr_source r) (sr_start r) (sr_end r) source_len))"

section \<open>The packed fields do not overlap\<close>

text \<open>The ranges the packing represents: every field below its limit, start before end.\<close>

definition source_range_valid :: "source_range \<Rightarrow> bool" where
  "source_range_valid r \<longleftrightarrow>
     sr_source r < SOURCE_LIMIT \<and> sr_start r < OFFSET_LIMIT \<and> sr_end r < OFFSET_LIMIT
       \<and> sr_start r \<le> sr_end r"

lemmas source_range_limits =
  SOURCE_BITS_def OFFSET_BITS_def SOURCE_LIMIT_def OFFSET_LIMIT_def SOURCE_RANGE_BYTES_def

lemma checked_iff_valid:
  "source_range_checked s a b len = Some r \<longleftrightarrow>
     r = \<lparr>sr_source = s, sr_start = a, sr_end = b\<rparr> \<and> source_range_valid r \<and> b \<le> len"
  by (auto simp: source_range_checked_def source_range_valid_def not_le not_less)

lemma word_bit_bound:
  fixes x :: "'a::len word"
  assumes "unat x < 2 ^ k" and "bit x n"
  shows "n < k"
proof (rule ccontr)
  assume "\<not> n < k"
  then have le: "(2::nat) ^ k \<le> 2 ^ n" by simp
  from \<open>bit x n\<close> have "bit (unat x) n"
    by (simp add: bit_unsigned_iff)
  then have "2 ^ n \<le> unat x"
    by (metis bit_nat_def div_less even_zero linorder_not_le)
  with le assms(1) show False by linarith
qed

lemma source_bits_bound: "s < SOURCE_LIMIT \<Longrightarrow> bit s n \<Longrightarrow> n < 14"
  by (rule word_bit_bound) (simp_all add: source_range_limits word_less_nat_alt)

lemma offset_bits_bound: "a < OFFSET_LIMIT \<Longrightarrow> bit a n \<Longrightarrow> n < 25"
  by (rule word_bit_bound) (simp_all add: source_range_limits word_less_nat_alt)

lemma offset_mask: "ucast (OFFSET_LIMIT - 1) = (mask 25 :: u64)"
  by (simp add: source_range_limits mask_eq_exp_minus_1)

lemma packed_fields:
  assumes "source_range_valid r"
  shows "ucast (drop_bit (OFFSET_BITS * 2) (source_range_packed r)) = sr_source r"
    and "ucast (drop_bit OFFSET_BITS (source_range_packed r) AND mask 25) = sr_start r"
    and "ucast (source_range_packed r AND mask 25) = sr_end r"
proof -
  have s: "\<And>n. bit (sr_source r) n \<Longrightarrow> n < 14"
    and a: "\<And>n. bit (sr_start r) n \<Longrightarrow> n < 25"
    and b: "\<And>n. bit (sr_end r) n \<Longrightarrow> n < 25"
    using assms source_bits_bound offset_bits_bound by (auto simp: source_range_valid_def)
  show "ucast (drop_bit (OFFSET_BITS * 2) (source_range_packed r)) = sr_source r"
    by (rule bit_word_eqI)
      (auto simp: source_range_packed_def OFFSET_BITS_def bit_simps dest: s a b)
  show "ucast (drop_bit OFFSET_BITS (source_range_packed r) AND mask 25) = sr_start r"
    by (rule bit_word_eqI)
      (auto simp: source_range_packed_def OFFSET_BITS_def bit_simps dest: s a b)
  show "ucast (source_range_packed r AND mask 25) = sr_end r"
    by (rule bit_word_eqI)
      (auto simp: source_range_packed_def OFFSET_BITS_def bit_simps dest: s a b)
qed

lemma unpack_packed: "source_range_valid r \<Longrightarrow> source_range_unpack (source_range_packed r) = Some r"
  by (simp add: source_range_unpack_def offset_mask packed_fields Let_def)
    (simp add: source_range_valid_def)

lemma unpack_valid:
  assumes "source_range_unpack p = Some r"
  shows "source_range_valid r" and "source_range_packed r = p"
proof -
  have r: "sr_source r = ucast (drop_bit 50 p)" "sr_start r = ucast (drop_bit 25 p AND mask 25)"
      "sr_end r = ucast (p AND mask 25)" "sr_start r \<le> sr_end r"
    using assms
    by (auto simp: source_range_unpack_def offset_mask OFFSET_BITS_def Let_def split: if_splits)
  have m: "\<And>w :: u64. unat (w AND mask 25) < 2 ^ 25"
    using take_bit_nat_less_exp [of 25 "unat w" for w :: u64]
    by (simp add: take_bit_eq_mask [symmetric] unsigned_take_bit_eq)
  have "unat (drop_bit 50 p) < 2 ^ 14"
    using unat_u64 [of p] by (simp add: drop_bit_eq_div unat_div)
  then have "unat (sr_source r) < 2 ^ 14"
    by (simp add: r unsigned_ucast_eq take_bit_nat_def)
  moreover have "unat (sr_start r) < 2 ^ 25" "unat (sr_end r) < 2 ^ 25"
    using m [of "drop_bit 25 p"] m [of p] by (simp_all add: r unsigned_ucast_eq take_bit_nat_def)
  ultimately show "source_range_valid r"
    using r(4) by (simp add: source_range_valid_def source_range_limits word_less_nat_alt)
  show "source_range_packed r = p"
  proof (rule bit_word_eqI)
    fix n
    show "bit (source_range_packed r) n \<longleftrightarrow> bit p n" if "n < LENGTH(64)"
      using that
      by (cases "n < 50"; cases "n < 25")
        (auto simp: source_range_packed_def OFFSET_BITS_def r bit_simps)
  qed
qed

lemma encode_length [codec_simps]: "length (source_range_encode r) = SOURCE_RANGE_BYTES"
  by (simp add: source_range_encode_def SOURCE_RANGE_BYTES_def)

lemma decode_bytes:
  assumes "length bs = 8"
  shows "source_range_decode bs len =
     (case source_range_unpack (u64_from_le bs) of
        None \<Rightarrow> None
      | Some r \<Rightarrow> if sr_end r \<le> len then Some r else None)"
proof (cases "source_range_unpack (u64_from_le bs)")
  case None
  with assms show ?thesis
    by (simp add: source_range_decode_def get_range_def SOURCE_RANGE_BYTES_def)
next
  case (Some r)
  with assms unpack_valid(1) [OF Some] show ?thesis
    by (auto simp: source_range_decode_def get_range_def SOURCE_RANGE_BYTES_def
        source_range_checked_def source_range_valid_def)
qed

section \<open>The codec\<close>

text \<open>
  C38: Packed words and valid ranges correspond one to one: unpacking succeeds exactly on the words
  that pack a valid range, and gives that range.
\<close>

theorem source_range_bijection:
  "source_range_unpack p = Some r \<longleftrightarrow> source_range_valid r \<and> source_range_packed r = p"
  using unpack_packed unpack_valid by auto

text \<open>
  C37: A range accepted for a source decodes from its eight bytes exactly for sources long enough to
  contain it, whatever bytes were appended, and never to another range.
\<close>

theorem source_range_codec:
  assumes "source_range_checked source start end n = Some r"
  shows "length (source_range_encode r) = SOURCE_RANGE_BYTES \<and>
    source_range_decode (source_range_encode r) m = (if end \<le> m then Some r else None)"
proof -
  from assms have r: "source_range_valid r" "sr_end r = end" by (auto simp: checked_iff_valid)
  have "source_range_decode (source_range_encode r) m =
      (case source_range_unpack (u64_from_le (source_range_encode r)) of
         None \<Rightarrow> None | Some r \<Rightarrow> if sr_end r \<le> m then Some r else None)"
    using encode_length by (intro decode_bytes) (simp add: SOURCE_RANGE_BYTES_def)
  also have "\<dots> = (if end \<le> m then Some r else None)"
    using r unpack_packed by (simp add: source_range_encode_def)
  finally show ?thesis by (simp add: encode_length)
qed

theorem source_range_codec_witness:
  "source_range_decode (source_range_encode \<lparr>sr_source = 3, sr_start = 10, sr_end = 20\<rparr>) 20 =
     Some \<lparr>sr_source = 3, sr_start = 10, sr_end = 20\<rparr>"
proof -
  have "source_range_checked 3 10 20 100 = Some \<lparr>sr_source = 3, sr_start = 10, sr_end = 20\<rparr>"
    by (simp add: source_range_checked_def source_range_limits)
  from source_range_codec [OF this, of 20] show ?thesis by simp
qed

end
