(* ===== verification/Content_Bytes.thy ===== *)
theory Content_Bytes
  imports Telora_Prelude
begin

text \<open>
  The 16-byte view of a string or byte value, \<^verbatim>\<open>crates/telora-wasm-shared/src/arena/content.rs\<close>:
  up to 15 bytes inline, or a slice of a raw allocation. The last byte is the tag: 0 to 15 is
  the inline length, 16 a slice.
\<close>

section \<open>Model\<close>

datatype arena_error = ArenaOverflow | ArenaBounds | ArenaPhase

record slice =
  sl_start :: u32
  sl_end :: u32
  sl_raw :: u32

text \<open>The array type \<open>[u8; 15]\<close> of the inline form is a list; \<open>content_wf\<close> fixes its length.\<close>

datatype content =
    Inline (in_data: bytes) (in_len: u8)
  | Slice slice

fun content_wf :: "content \<Rightarrow> bool" where
  "content_wf (Inline data len) = (length data = 15)"
| "content_wf (Slice s) = True"

definition slice_rejected :: "slice \<Rightarrow> bool" where
  "slice_rejected s \<longleftrightarrow>
     sl_raw s = 0 \<or> sl_start s > sl_end s \<or> sl_end s - sl_start s < 16"

text \<open>\<open>result[a .. a + n].copy_from_slice(src)\<close>\<close>

definition splice :: "'a list \<Rightarrow> nat \<Rightarrow> 'a list \<Rightarrow> 'a list" where
  "splice xs at ys = take at xs @ ys @ drop (at + length ys) xs"

definition content_encode :: "content \<Rightarrow> arena_error + bytes" where
  "content_encode c =
     (let result = replicate 16 0
      in case c of
           Inline data len \<Rightarrow>
             (if len \<ge> 16 then Inl ArenaBounds
              else Inr ((splice result 0 (take (unat len) data))[15 := len]))
         | Slice s \<Rightarrow>
             (if slice_rejected s then Inl ArenaBounds
              else Inr ((foldl (\<lambda>out (at, word). splice out (at * 4) (u32_to_le word)) result
                           (zip [0..<3] [sl_raw s, sl_start s, sl_end s]))[15 := 16])))"

definition content_decode :: "bytes \<Rightarrow> arena_error + content" where
  "content_decode bs =
     (if bs ! 15 \<le> 15 then Inr (Inline (take 15 bs) (bs ! 15))
      else if bs ! 15 = 16 then
        (if take 3 (drop 12 bs) \<noteq> [0, 0, 0] then Inl ArenaBounds
         else (let word = (\<lambda>at. u32_from_le (take 4 (drop at bs)));
                   s = \<lparr>sl_start = word 4, sl_end = word 8, sl_raw = word 0\<rparr>
               in if slice_rejected s then Inl ArenaBounds else Inr (Slice s)))
      else Inl ArenaBounds)"

section \<open>The encoded form\<close>

text \<open>The bytes an inline value loses: those behind its length are zero in the encoded form.\<close>

fun content_normal :: "content \<Rightarrow> content" where
  "content_normal (Inline data len) =
     Inline (take (unat len) data @ replicate (15 - unat len) 0) len"
| "content_normal (Slice s) = Slice s"

definition content_valid :: "content \<Rightarrow> bool" where
  "content_valid c \<longleftrightarrow>
     content_wf c \<and> (case c of Inline data len \<Rightarrow> len < 16 | Slice s \<Rightarrow> \<not> slice_rejected s)"

lemma length_splice: "at + length ys \<le> length xs \<Longrightarrow> length (splice xs at ys) = length xs"
  by (simp add: splice_def)

lemma encode_inline:
  assumes "length data = 15" "len < 16"
  shows "content_encode (Inline data len) =
    Inr (take (unat len) data @ replicate (15 - unat len) 0 @ [len])"
proof -
  let ?n = "unat len"
  have n: "?n \<le> 15" using assms(2) by (simp add: word_less_nat_alt)
  then have "16 - ?n = Suc (15 - ?n)" by simp
  then have "(replicate (16 - ?n) 0 :: bytes) = replicate (15 - ?n) 0 @ [0]"
    by (simp add: replicate_append_same)
  then have "(take ?n data @ replicate (16 - ?n) 0)[15 := len] =
      take ?n data @ replicate (15 - ?n) 0 @ [len]"
    using n assms(1) by (simp add: list_update_append min_def)
  then show ?thesis
    using assms n by (simp add: content_encode_def splice_def not_le min_def)
qed

lemma encode_slice:
  assumes "\<not> slice_rejected s"
  shows "content_encode (Slice s) =
    Inr (u32_to_le (sl_raw s) @ u32_to_le (sl_start s) @ u32_to_le (sl_end s) @ [0, 0, 0, 16])"
proof -
  have z: "zip [0..<3] [sl_raw s, sl_start s, sl_end s] =
      [(0, sl_raw s), (1, sl_start s), (2, sl_end s)]"
    by (simp add: numeral_eq_Suc)
  have r: "replicate 16 (0 :: u8) = [0,0,0,0,0,0,0,0,0,0,0,0,0,0,0,0]"
    by (simp add: numeral_eq_Suc)
  show ?thesis
    using assms
    by (simp add: content_encode_def z splice_def r list_update_append)
qed

lemma encode_total:
  "content_wf c \<Longrightarrow> (\<exists>bs. content_encode c = Inr bs \<and> length bs = 16) \<longleftrightarrow> content_valid c"
proof (cases c)
  case (Inline data len)
  assume "content_wf c"
  with Inline have l: "length data = 15" by simp
  show ?thesis
  proof (cases "len < 16")
    case True
    then have "unat len \<le> 15" by (simp add: word_less_nat_alt)
    with True l Inline show ?thesis
      by (auto simp: encode_inline content_valid_def)
  next
    case False
    with Inline show ?thesis by (auto simp: content_encode_def content_valid_def)
  qed
next
  case (Slice s)
  show ?thesis
    using Slice encode_slice [of s]
    by (cases "slice_rejected s") (auto simp: content_encode_def content_valid_def)
qed

lemma decode_encode:
  assumes "content_valid c"
  obtains bs where "content_encode c = Inr bs" "length bs = 16"
    "content_decode bs = Inr (content_normal c)"
proof (cases c)
  case (Inline data len)
  note that = that
  with assms Inline have l: "length data = 15" "len < 16" by (simp_all add: content_valid_def)
  then have u: "unat len \<le> 15" by (simp add: word_less_nat_alt)
  then have "len \<le> 15" by (simp add: word_le_nat_alt)
  moreover from u l have
    "(take (unat len) data @ replicate (15 - unat len) 0 @ [len]) ! 15 = len"
    by (simp add: nth_append)
  ultimately have "content_decode (take (unat len) data @ replicate (15 - unat len) 0 @ [len]) =
      Inr (content_normal c)"
    using l u Inline by (simp add: content_decode_def)
  with l u Inline show ?thesis by (auto simp: encode_inline intro!: that)
next
  case (Slice s)
  with assms have s: "\<not> slice_rejected s" by (simp add: content_valid_def)
  have t: "take 4 (u32_to_le w @ xs) = u32_to_le w" "drop 4 (u32_to_le w @ xs) = xs"
    "take 4 (drop 4 (u32_to_le v @ u32_to_le w @ xs)) = u32_to_le w"
    "take 4 (drop 8 (u32_to_le u @ u32_to_le v @ u32_to_le w @ xs)) = u32_to_le w"
    "take 3 (drop 12 (u32_to_le u @ u32_to_le v @ u32_to_le w @ xs)) = take 3 xs"
    "(u32_to_le u @ u32_to_le v @ u32_to_le w @ [0, 0, 0, 16]) ! 15 = 16"
    for u v w :: u32 and xs
    by (simp_all add: nth_append)
  from s Slice show ?thesis
    by (auto simp: encode_slice content_decode_def t Let_def slice_rejected_def intro!: that)
qed


section \<open>The codec\<close>

text \<open>
  C39: Content views survive encoding: every well-formed view within bounds encodes to 16 bytes, and
  those decode to the same view, with the bytes behind an inline value's length cleared.
\<close>

theorem content_roundtrip:
  assumes "content_valid c"
  shows "\<exists>bs. content_encode c = Inr bs \<and> length bs = 16 \<and> content_decode bs = Inr (content_normal c)"
  using decode_encode [OF assms] by blast

theorem content_roundtrip_witness:
  "\<exists>bs. content_encode (Slice \<lparr>sl_start = 4, sl_end = 40, sl_raw = 1024\<rparr>) = Inr bs \<and>
    content_decode bs = Inr (Slice \<lparr>sl_start = 4, sl_end = 40, sl_raw = 1024\<rparr>)"
  using content_roundtrip [of "Slice \<lparr>sl_start = 4, sl_end = 40, sl_raw = 1024\<rparr>"]
  by (auto simp: content_valid_def slice_rejected_def)



end
