(* ===== verification/Gc_Mark.thy ===== *)
theory Gc_Mark
  imports Trace Gc_Roots Source_Range Content_Bytes
begin

text \<open>
  Reachability discovery of the runtime collector, \<^verbatim>\<open>crates/telora-wasm/rt/gc_mark.rs\<close>, over the
  roots of \<^verbatim>\<open>gc_roots.rs\<close> and the traversal of \<^verbatim>\<open>trace.rs\<close>. The linear memory a mark reads
  (\<open>crate::heap::read\<close>) and the statics of the other runtime modules are the fields of an
  environment, which marking does not change. Sums, where the code does not check them, wrap at 32
  bits. A panic is the error \<^const>\<open>TracePanic\<close>.
\<close>

section \<open>Model\<close>

record mark_env =
  me_byte :: "u32 \<Rightarrow> u8"
  me_types :: u32
  me_demands :: "u32 \<times> u32"
  me_execution_roots :: "(u32 \<times> u32) list"
  me_source_roots :: "u32 list"

definition mem_bytes :: "mark_env \<Rightarrow> u32 \<Rightarrow> nat \<Rightarrow> bytes" where
  "mem_bytes env r n = map (\<lambda>i. me_byte env (r + of_nat i)) [0..<n]"

definition mem_u32 :: "mark_env \<Rightarrow> u32 \<Rightarrow> u32" where
  "mem_u32 env r = u32_from_le (mem_bytes env r 4)"

definition mem_u64 :: "mark_env \<Rightarrow> u32 \<Rightarrow> u64" where
  "mem_u64 env r = u64_from_le (mem_bytes env r 8)"

text \<open>\<open>values::word\<close>: the reference must not wrap.\<close>

definition mem_word :: "mark_env \<Rightarrow> u32 \<Rightarrow> u32 \<Rightarrow> trace_error + u32" where
  "mem_word env pointer offset =
     rbind (ok_or (checked_add pointer offset) TracePanic) (\<lambda>r. Inr (mem_u32 env r))"

type_synonym pending_item = "u32 \<times> u32 \<times> u32 \<times> u32"

record mark =
  mk_storage :: "u32 set"
  mk_objects :: "(u32 \<times> u32 \<times> u32) set"
  mk_sources :: "u32 set"
  mk_values :: "(u32 \<times> u32) set"
  mk_pending :: "pending_item list"
  mk_types :: u32

definition mark_span :: "u32 \<Rightarrow> mark \<Rightarrow> mark" where
  "mark_span reference m = (if reference \<noteq> 0 then m\<lparr>mk_storage := insert reference (mk_storage m)\<rparr> else m)"

definition mark_push :: "pending_item \<Rightarrow> mark \<Rightarrow> mark" where
  "mark_push item m = m\<lparr>mk_pending := item # mk_pending m\<rparr>"

definition mark_value :: "u32 \<Rightarrow> u32 \<Rightarrow> mark \<Rightarrow> mark" where
  "mark_value reference ty m =
     (if reference \<noteq> 0 \<and> (reference, ty) \<notin> mk_values m
      then mark_push (ROOT_VALUE, reference, 0, ty)
             (mark_span reference (m\<lparr>mk_values := insert (reference, ty) (mk_values m)\<rparr>))
      else m)"

definition direct_table :: "u32 \<Rightarrow> bool" where
  "direct_table table \<longleftrightarrow> table \<in> {ARRAYS, RECORDS, VALUES, NEWTYPES, ENVIRONMENTS}"

text \<open>Payload, size and type of a directly referenced object.\<close>

definition direct_object :: "mark_env \<Rightarrow> u32 \<Rightarrow> u32 \<Rightarrow> u32 \<Rightarrow> u32 \<Rightarrow> trace_error + (u32 \<times> u32 \<times> u32)" where
  "direct_object env types table tid ty =
     rbind (mem_word env tid 0) (\<lambda>stored.
       if table = ENVIRONMENTS then
         rbind (ok_or (checked_mul stored 8) TracePanic) (\<lambda>n. Inr (tid, 8 + n, ty))
       else if table = ARRAYS then
         rbind (mem_word env (types + stored * ENTRY_BYTES) VALUE_BYTES) (\<lambda>width.
         rbind (mem_word env tid 8) (\<lambda>len.
         rbind (mem_word env tid 12) (\<lambda>capacity.
           if \<not> len \<le> capacity then Inl TracePanic
           else rbind (mem_word env tid 4) (\<lambda>payload.
                rbind (ok_or (checked_mul len width) TracePanic) (\<lambda>n. Inr (payload, n, stored))))))
       else rbind (mem_word env tid 4) (\<lambda>n. Inr (tid + 8, n, stored)))"

text \<open>The slot of a resource table: payload and size.\<close>

definition resource_slot :: "mark_env \<Rightarrow> u32 \<Rightarrow> u32 \<Rightarrow> trace_error + (u32 \<times> u32)" where
  "resource_slot env table tid =
     (let buffer = mem_u32 env (table_address table); len = mem_u32 env (table_address table + 4) in
      if \<not> tid < len then Inl TracePanic
      else let slot = buffer + tid * 8 in Inr (mem_u32 env slot, mem_u32 env (slot + 4)))"

definition mark_object :: "mark_env \<Rightarrow> u32 \<Rightarrow> u32 \<Rightarrow> u32 \<Rightarrow> mark \<Rightarrow> trace_error + mark" where
  "mark_object env table tid ty m =
     (if direct_table table \<and> tid = 0 \<or> (table, tid, ty) \<in> mk_objects m then Inr m
      else
        let m = m\<lparr>mk_objects := insert (table, tid, ty) (mk_objects m)\<rparr> in
        if direct_table table then
          let m = mark_span tid m in
          rbind (direct_object env (mk_types m) table tid ty) (\<lambda>(payload, n, closed).
            Inr (mark_push (table, payload, n, closed) (if n \<noteq> 0 then mark_span payload m else m)))
        else
          rbind (resource_slot env table tid) (\<lambda>(payload, n).
            Inr (if table \<noteq> REGEXES
                 then mark_push (table, payload, n, ty) (mark_span payload m) else m)))"

definition mark_edge :: "mark_env \<Rightarrow> edge \<Rightarrow> mark \<Rightarrow> trace_error + mark" where
  "mark_edge env e m =
     (case e of
        ESource reference \<Rightarrow>
          rbind (ok_or (source_range_unpack (mem_u64 env reference)) TraceLayout) (\<lambda>range.
            Inr (if sr_source range \<noteq> 0
                 then m\<lparr>mk_sources := insert (sr_source range) (mk_sources m)\<rparr> else m))
      | EContent old _ \<Rightarrow>
          (case content_decode (mem_bytes env old 16) of
             Inl _ \<Rightarrow> Inl TracePanic
           | Inr (Slice s) \<Rightarrow> Inr (mark_span (sl_raw s) m)
           | Inr (Inline _ _) \<Rightarrow> Inr m)
      | EInline old _ ty \<Rightarrow> Inr (mark_value old ty m)
      | EValue reference ty _ \<Rightarrow> Inr (mark_value reference ty m)
      | EObject table tid ty _ \<Rightarrow> mark_object env table tid ty m
      | EStorage reference n _ \<Rightarrow> Inr (if n \<noteq> 0 then mark_span reference m else m)
      | EFunction _ \<Rightarrow> Inr m)"

definition mark_visitor :: "mark_env \<Rightarrow> mark visitor" where
  "mark_visitor env =
     \<lparr>vi_types = mk_types, vi_read = (\<lambda>m r. Inr (mem_u32 env r)), vi_edge = mark_edge env\<rparr>"

definition mark_source :: "mark_env \<Rightarrow> u32 \<Rightarrow> mark \<Rightarrow> trace_error + mark" where
  "mark_source env reference m =
     (if reference \<noteq> 0 then mark_edge env (ESource reference) (mark_span reference m) else Inr m)"

definition mark_rejection :: "mark_env \<Rightarrow> u32 \<Rightarrow> u32 \<Rightarrow> mark \<Rightarrow> trace_error + mark" where
  "mark_rejection env reference string_type m =
     (if reference = 0 then Inr m
      else
        let m = mark_span reference m in
        rbind (mem_word env reference 0) (\<lambda>text.
        let m = mark_value text string_type m in
        rbind (mem_word env reference 4) (\<lambda>source.
        rbind (mark_source env source m) (\<lambda>m.
        rbind (mem_word env reference 8) (\<lambda>blame.
          if blame \<noteq> 0 then
            rbind (mark_source env blame m) (\<lambda>m.
            rbind (mem_word env blame DATA) (\<lambda>tid. mark_object env BLAMES tid u32_max m))
          else Inr m)))))"

text \<open>The rows of a parser packet.\<close>

definition mark_plan_entry :: "mark_env \<Rightarrow> u32 \<Rightarrow> u32 \<Rightarrow> mark \<Rightarrow> trace_error + mark" where
  "mark_plan_entry env payload index m =
     rbind (ok_or (checked_mul index 24) TracePanic) (\<lambda>off.
     let entry = payload + off in
     rbind (mem_word env entry 4) (\<lambda>len.
     rbind (if len \<noteq> 0 then rbind (mem_word env entry 0) (\<lambda>r. Inr (mark_span r m)) else Inr m) (\<lambda>m.
       mark_source env (entry + 12) m)))"

definition mark_plan_row :: "mark_env \<Rightarrow> u32 \<Rightarrow> u32 \<Rightarrow> mark \<Rightarrow> trace_error + mark" where
  "mark_plan_row env rows index m =
     rbind (ok_or (checked_mul index 24) TracePanic) (\<lambda>off.
     let row = rows + off in
     rbind (mark_source env (row + 4) m) (\<lambda>m.
     rbind (mem_word env row 0) (\<lambda>kind.
     rbind (mem_word env row 16) (\<lambda>payload.
     rbind (mem_word env row 20) (\<lambda>len.
     let m = (if len \<noteq> 0 \<and> 5 \<le> kind \<and> kind \<le> 12 then mark_span payload m else m) in
       if kind = 7 then foldm (mark_plan_entry env payload) (u32_upto len) m else Inr m)))))"

definition mark_plan_span :: "mark_env \<Rightarrow> u32 \<Rightarrow> u32 \<Rightarrow> mark \<Rightarrow> trace_error + mark" where
  "mark_plan_span env error offset m =
     rbind (mem_word env error (offset + 4)) (\<lambda>len.
       if len \<noteq> 0 then rbind (mem_word env error offset) (\<lambda>r. Inr (mark_span r m)) else Inr m)"

definition mark_plan :: "mark_env \<Rightarrow> u32 \<Rightarrow> mark \<Rightarrow> trace_error + mark" where
  "mark_plan env packet m =
     rbind (mem_word env packet 0) (\<lambda>rows.
     rbind (mem_word env packet 4) (\<lambda>count.
     let m = mark_span rows m in
     rbind (mem_word env packet 12) (\<lambda>error.
     let m = mark_span error m in
     rbind (if error \<noteq> 0 then foldm (mark_plan_span env error) [0, 8] m else Inr m) (\<lambda>m.
       foldm (mark_plan_row env rows) (u32_upto count) m))))"

definition mark_reference :: "mark_env \<Rightarrow> u32 \<Rightarrow> u32 \<Rightarrow> u32 \<Rightarrow> mark \<Rightarrow> trace_error + mark" where
  "mark_reference env base ty index m =
     rbind (ok_or (checked_mul index 4) TracePanic) (\<lambda>off.
     rbind (mem_word env base off) (\<lambda>r. Inr (mark_value r ty m)))"

definition mark_root :: "mark_env \<Rightarrow> gc_root \<Rightarrow> mark \<Rightarrow> trace_error + mark" where
  "mark_root env root m =
     (let reference = rt_reference root; m = mark_span reference m in
      case rt_kind root of
        RStorage \<Rightarrow> Inr m
      | RParsePlan \<Rightarrow> mark_plan env reference m
      | RContext string_type codec \<Rightarrow>
          rbind (mem_word env reference (if codec then 24 else 4)) (\<lambda>text.
          let m = mark_value text string_type m in
          rbind (mem_word env reference (if codec then 28 else 8)) (\<lambda>error.
          let m = mark_span error m in
          rbind (if error \<noteq> 0
                 then rbind (mem_word env error 0) (\<lambda>r. Inr (mark_value r string_type m))
                 else Inr m) (\<lambda>m.
            if codec then mark_rejection env error string_type m
            else
              rbind (mem_word env reference 16) (\<lambda>source.
              rbind (mark_source env source m) (\<lambda>m.
              rbind (mem_word env reference 20) (\<lambda>r. mark_rejection env r string_type m))))))
      | RValue ty \<Rightarrow> Inr (mark_value reference ty m)
      | RSource \<Rightarrow> mark_edge env (ESource reference) m
      | RObject ty tag initialized \<Rightarrow>
          rbind (if tag = ENVIRONMENTS then
                   rbind (mem_word env reference 0) (\<lambda>count.
                   rbind (ok_or (checked_mul count 8) TracePanic) (\<lambda>n. Inr (8 + n)))
                 else Inr initialized) (\<lambda>n.
            Inr (mark_push (tag, reference, n, ty) m))
      | RReferences ty initialized \<Rightarrow>
          foldm (mark_reference env reference ty) (u32_upto initialized) m)"

definition mark_demand :: "mark_env \<Rightarrow> u32 \<Rightarrow> u32 \<Rightarrow> mark \<Rightarrow> trace_error + mark" where
  "mark_demand env demands index m =
     (let slot = demands + index * DEMAND_BYTES in
      rbind (mem_word env slot 0) (\<lambda>state.
        if state = 2 then
          rbind (mem_word env slot 4) (\<lambda>r.
          rbind (mem_word env slot 8) (\<lambda>ty. Inr (mark_value r ty m)))
        else if state = 3 then
          rbind (mem_word env slot 4) (\<lambda>packet.
            Inr (if packet \<noteq> 0
                 then mark_push (DIAGNOSTICS, packet, DIAGNOSTIC_BYTES, u32_max) (mark_span packet m)
                 else m))
        else Inr m))"

definition mark_table :: "mark_env \<Rightarrow> u32 \<Rightarrow> mark \<Rightarrow> trace_error + mark" where
  "mark_table env table m =
     (let m = mark_span (mem_u32 env (table_address table)) m in
      if table = DIAGNOSTICS \<or> table = DEBUG_EVENTS
      then foldm (\<lambda>tid. mark_object env table tid u32_max)
             (u32_upto (mem_u32 env (table_address table + 4))) m
      else Inr m)"

definition mark_new :: "mark_env \<Rightarrow> mark" where
  "mark_new env =
     \<lparr>mk_storage = {}, mk_objects = {}, mk_sources = {}, mk_values = {}, mk_pending = [],
      mk_types = me_types env\<rparr>"

definition mark_roots :: "mark_env \<Rightarrow> gc_root list \<Rightarrow> trace_error + mark" where
  "mark_roots env roots =
     rbind (foldm (mark_root env) roots (mark_new env)) (\<lambda>m.
     rbind (foldm (mark_demand env (fst (me_demands env))) (u32_upto (snd (me_demands env))) m) (\<lambda>m.
     let m = fold (\<lambda>(r, ty). mark_value r ty) (me_execution_roots env) m;
         m = m\<lparr>mk_sources := mk_sources m \<union> set (me_source_roots env)\<rparr>
     in foldm (mark_table env) (u32_upto TABLE_COUNT) m))"

text \<open>One round of the worklist loop.\<close>

definition scan_item :: "mark_env \<Rightarrow> pending_item \<Rightarrow> mark \<Rightarrow> trace_error + mark" where
  "scan_item env item m =
     (case item of (tag, reference, n, ty) \<Rightarrow>
        if tag = ROOT_VALUE then t_value (mark_visitor env) ty reference reference m
        else t_object (mark_visitor env) tag reference reference n ty m)"

section \<open>What one step adds\<close>

definition value_item :: "u32 \<times> u32 \<Rightarrow> pending_item" where
  "value_item v = (ROOT_VALUE, fst v, 0, snd v)"

text \<open>The storage an object keeps alive and the item that scans its payload.\<close>

definition object_item :: "mark_env \<Rightarrow> u32 \<Rightarrow> u32 \<times> u32 \<times> u32 \<Rightarrow> trace_error + (u32 list \<times> pending_item option)" where
  "object_item env types ob =
     (case ob of (table, tid, ty) \<Rightarrow>
        if direct_table table then
          rbind (direct_object env types table tid ty) (\<lambda>(payload, n, closed).
            Inr (tid # (if n \<noteq> 0 then [payload] else []), Some (table, payload, n, closed)))
        else
          rbind (resource_slot env table tid) (\<lambda>(payload, n).
            Inr (if table \<noteq> REGEXES then ([payload], Some (table, payload, n, ty)) else ([], None))))"

definition storage_holds :: "mark \<Rightarrow> u32 list \<Rightarrow> bool" where
  "storage_holds m rs \<longleftrightarrow> (\<forall>r \<in> set rs. r \<noteq> 0 \<longrightarrow> r \<in> mk_storage m)"

definition mark_weight :: "mark \<Rightarrow> nat" where
  "mark_weight m = 2 * (card (- mk_values m) + card (- mk_objects m)) + length (mk_pending m)"

text \<open>
  \<open>grows env m m'\<close>: \<open>m'\<close> only adds to \<open>m\<close>; every value and object it adds has its storage marked
  and its item on the worklist; and no growth of the worklist is free.
\<close>

definition grows :: "mark_env \<Rightarrow> mark \<Rightarrow> mark \<Rightarrow> bool" where
  "grows env m m' \<longleftrightarrow>
     mk_types m' = mk_types m \<and> mk_storage m \<subseteq> mk_storage m' \<and> mk_sources m \<subseteq> mk_sources m' \<and>
     mk_values m \<subseteq> mk_values m' \<and> mk_objects m \<subseteq> mk_objects m' \<and>
     mark_weight m' \<le> mark_weight m \<and>
     (\<exists>new. mk_pending m' = new @ mk_pending m \<and>
       (\<forall>v \<in> mk_values m' - mk_values m.
          fst v \<noteq> 0 \<and> fst v \<in> mk_storage m' \<and> value_item v \<in> set new) \<and>
       (\<forall>ob \<in> mk_objects m' - mk_objects m. \<exists>spans it.
          object_item env (mk_types m) ob = Inr (spans, it) \<and> storage_holds m' spans \<and>
          (\<forall>i. it = Some i \<longrightarrow> i \<in> set new)))"

lemma storage_holds_mono: "storage_holds m rs \<Longrightarrow> mk_storage m \<subseteq> mk_storage m' \<Longrightarrow> storage_holds m' rs"
  by (auto simp: storage_holds_def)

lemma grows_refl: "grows env m m"
  by (simp add: grows_def)

lemma grows_trans:
  assumes "grows env m m'" and "grows env m' m''"
  shows "grows env m m''"
proof -
  from assms obtain new new' where
    new: "mk_pending m' = new @ mk_pending m" "\<forall>v \<in> mk_values m' - mk_values m.
        fst v \<noteq> 0 \<and> fst v \<in> mk_storage m' \<and> value_item v \<in> set new"
      "\<forall>ob \<in> mk_objects m' - mk_objects m. \<exists>spans it.
        object_item env (mk_types m) ob = Inr (spans, it) \<and> storage_holds m' spans \<and>
        (\<forall>i. it = Some i \<longrightarrow> i \<in> set new)"
    and new': "mk_pending m'' = new' @ mk_pending m'" "\<forall>v \<in> mk_values m'' - mk_values m'.
        fst v \<noteq> 0 \<and> fst v \<in> mk_storage m'' \<and> value_item v \<in> set new'"
      "\<forall>ob \<in> mk_objects m'' - mk_objects m'. \<exists>spans it.
        object_item env (mk_types m') ob = Inr (spans, it) \<and> storage_holds m'' spans \<and>
        (\<forall>i. it = Some i \<longrightarrow> i \<in> set new')"
    unfolding grows_def by blast
  have types: "mk_types m' = mk_types m" and sub: "mk_storage m' \<subseteq> mk_storage m''"
    using assms by (simp_all add: grows_def)
  have "\<forall>v \<in> mk_values m'' - mk_values m.
      fst v \<noteq> 0 \<and> fst v \<in> mk_storage m'' \<and> value_item v \<in> set (new' @ new)"
    using new(2) new'(2) sub by auto
  moreover have "\<forall>ob \<in> mk_objects m'' - mk_objects m. \<exists>spans it.
        object_item env (mk_types m) ob = Inr (spans, it) \<and> storage_holds m'' spans \<and>
        (\<forall>i. it = Some i \<longrightarrow> i \<in> set (new' @ new))"
  proof
    fix ob assume ob: "ob \<in> mk_objects m'' - mk_objects m"
    show "\<exists>spans it. object_item env (mk_types m) ob = Inr (spans, it) \<and> storage_holds m'' spans \<and>
        (\<forall>i. it = Some i \<longrightarrow> i \<in> set (new' @ new))"
    proof (cases "ob \<in> mk_objects m'")
      case True
      with ob new(3) obtain spans it where "object_item env (mk_types m) ob = Inr (spans, it)"
        "storage_holds m' spans" "\<forall>i. it = Some i \<longrightarrow> i \<in> set new" by blast
      with storage_holds_mono [OF _ sub] show ?thesis by auto
    next
      case False
      with ob new'(3) types show ?thesis by fastforce
    qed
  qed
  ultimately show ?thesis
    using assms new(1) new'(1) unfolding grows_def by (intro conjI exI [of _ "new' @ new"]) auto
qed

lemma grows_span: "grows env m (mark_span r m)"
  by (auto simp: grows_def mark_span_def mark_weight_def)

lemma grows_sources: "grows env m (m\<lparr>mk_sources := A \<union> mk_sources m\<rparr>)"
  by (auto simp: grows_def mark_weight_def)

lemma card_Compl_insert:
  fixes x :: "'a::finite"
  assumes "x \<notin> A"
  shows "card (- A) = Suc (card (- insert x A))"
proof -
  have "- A = insert x (- insert x A)" using assms by auto
  moreover have "x \<notin> - insert x A" by simp
  ultimately show ?thesis by (metis card_insert_disjoint finite)
qed

lemma grows_value: "grows env m (mark_value r ty m)"
  using card_Compl_insert [of "(r, ty)" "mk_values m"]
  by (auto simp: grows_def mark_value_def mark_push_def mark_span_def mark_weight_def value_item_def)

lemma grows_object:
  assumes "mark_object env table tid ty m = Inr m'"
  shows "grows env m m'"
proof (cases "direct_table table \<and> tid = 0 \<or> (table, tid, ty) \<in> mk_objects m")
  case True
  with assms grows_refl show ?thesis by (auto simp: mark_object_def)
next
  case False
  then have "card (- mk_objects m) = Suc (card (- insert (table, tid, ty) (mk_objects m)))"
    by (intro card_Compl_insert) simp
  with assms False show ?thesis
    by (auto simp: mark_object_def Let_def grows_def object_item_def mark_push_def mark_span_def
        mark_weight_def storage_holds_def result_simps split: if_splits)
qed

lemma grows_edge: "mark_edge env e m = Inr m' \<Longrightarrow> grows env m m'"
  using grows_sources [of env m "{_}"]
  by (cases e)
    (auto simp: mark_edge_def result_simps split: sum.splits content.splits if_splits
      intro: grows_refl grows_span grows_value grows_object)

section \<open>Scanning one item\<close>

text \<open>What a mark must contain once an edge has been handled.\<close>

definition edge_done :: "mark_env \<Rightarrow> mark \<Rightarrow> edge \<Rightarrow> bool" where
  "edge_done env m e \<longleftrightarrow>
     (case e of
        ESource r \<Rightarrow>
          (\<exists>range. source_range_unpack (mem_u64 env r) = Some range \<and>
            (sr_source range \<noteq> 0 \<longrightarrow> sr_source range \<in> mk_sources m))
      | EContent old _ \<Rightarrow>
          (\<exists>c. content_decode (mem_bytes env old 16) = Inr c \<and>
            (\<forall>s. c = Slice s \<longrightarrow> storage_holds m [sl_raw s]))
      | EInline r _ ty \<Rightarrow> r \<noteq> 0 \<longrightarrow> (r, ty) \<in> mk_values m
      | EValue r ty _ \<Rightarrow> r \<noteq> 0 \<longrightarrow> (r, ty) \<in> mk_values m
      | EObject table tid ty _ \<Rightarrow> direct_table table \<and> tid = 0 \<or> (table, tid, ty) \<in> mk_objects m
      | EStorage r n _ \<Rightarrow> n \<noteq> 0 \<longrightarrow> storage_holds m [r]
      | EFunction _ \<Rightarrow> True)"

lemma grows_sets:
  assumes "grows env m m'"
  shows "mk_storage m \<subseteq> mk_storage m'" and "mk_sources m \<subseteq> mk_sources m'"
    and "mk_values m \<subseteq> mk_values m'" and "mk_objects m \<subseteq> mk_objects m'" and "mk_types m' = mk_types m"
  using assms by (simp_all add: grows_def)

lemma edge_done_mono:
  assumes "edge_done env m e" and "grows env m m'"
  shows "edge_done env m' e"
  using assms(1) grows_sets [OF assms(2)] storage_holds_mono
  by (cases e) (fastforce simp: edge_done_def)+

lemma mark_value_in: "r \<noteq> 0 \<Longrightarrow> (r, ty) \<in> mk_values (mark_value r ty m)"
  by (simp add: mark_value_def mark_push_def mark_span_def)

lemma mark_span_holds: "storage_holds (mark_span r m) [r]"
  by (simp add: storage_holds_def mark_span_def)

lemma mark_object_in:
  "mark_object env table tid ty m = Inr m' \<Longrightarrow>
    direct_table table \<and> tid = 0 \<or> (table, tid, ty) \<in> mk_objects m'"
  by (auto simp: mark_object_def Let_def mark_push_def mark_span_def result_simps split: if_splits)

lemma mark_source_done:
  assumes "mark_edge env (ESource r) m = Inr m'"
  shows "edge_done env m' (ESource r)"
proof -
  from assms obtain range where "source_range_unpack (mem_u64 env r) = Some range"
    and "m' = (if sr_source range \<noteq> 0
      then m\<lparr>mk_sources := insert (sr_source range) (mk_sources m)\<rparr> else m)"
    by (auto simp: mark_edge_def result_simps)
  then show ?thesis by (simp add: edge_done_def)
qed

lemma mark_edge_done: "mark_edge env e m = Inr m' \<Longrightarrow> edge_done env m' e"
proof (cases e)
  case (ESource r)
  assume "mark_edge env e m = Inr m'"
  with ESource mark_source_done show ?thesis by simp
qed (auto simp: mark_edge_def edge_done_def mark_value_in mark_span_holds
      split: sum.splits content.splits if_splits dest: mark_object_in)

definition mark_read :: "mark_env \<Rightarrow> u32 \<Rightarrow> trace_error + u32" where
  "mark_read env r = Inr (mem_u32 env r)"

definition item_edges :: "mark_env \<Rightarrow> u32 \<Rightarrow> pending_item \<Rightarrow> trace_error + edge list" where
  "item_edges env types item =
     (case item of (tag, r, n, ty) \<Rightarrow>
        if tag = ROOT_VALUE then value_edges types (mark_read env) ty r r
        else object_edges types (mark_read env) tag r r n ty)"

definition scanned :: "mark_env \<Rightarrow> mark \<Rightarrow> pending_item \<Rightarrow> bool" where
  "scanned env m item \<longleftrightarrow>
     (\<exists>es. item_edges env (mk_types m) item = Inr es \<and> (\<forall>e \<in> set es. edge_done env m e))"

interpretation marking: stable_visitor "mark_visitor env" "\<lambda>m. mk_types m = types" types
  "mark_read env"
  by unfold_locales
    (auto simp: mark_visitor_def mark_read_def dest: grows_edge grows_sets(5))

lemma mark_fold_edges:
  assumes "foldm (mark_edge env) es m = Inr m'"
  shows "grows env m m'" and "\<forall>e \<in> set es. edge_done env m' e"
proof -
  have "grows env m m' \<and> (\<forall>e \<in> set es. edge_done env m' e)"
    using assms
  proof (induction es arbitrary: m)
    case Nil
    then show ?case by (simp add: grows_refl)
  next
    case (Cons e es)
    then obtain t where t: "mark_edge env e m = Inr t" "foldm (mark_edge env) es t = Inr m'"
      by (auto simp: rbind_eq_Inr)
    with Cons.IH have IH: "grows env t m'" "\<forall>e \<in> set es. edge_done env m' e" by auto
    with edge_done_mono [OF mark_edge_done [OF t(1)]] grows_trans [OF grows_edge [OF t(1)]]
    show ?case by simp
  qed
  then show "grows env m m'" and "\<forall>e \<in> set es. edge_done env m' e" by auto
qed

lemma scan_item_edges:
  "scan_item env item m = Inr m' \<longleftrightarrow>
    (\<exists>es. item_edges env (mk_types m) item = Inr es \<and> foldm (mark_edge env) es m = Inr m')"
proof -
  have "vi_edge (mark_visitor env) = mark_edge env" by (simp add: mark_visitor_def)
  then show ?thesis
    using marking.value_factors [of m "mk_types m" env] marking.object_factors [of m "mk_types m" env]
    by (cases item) (simp add: scan_item_def item_edges_def)
qed

lemma scan_item_result:
  assumes "scan_item env item m = Inr m'"
  shows "grows env m m'" and "scanned env m' item"
  using assms mark_fold_edges grows_sets(5) unfolding scan_item_edges scanned_def by fastforce+

section \<open>The worklist loop\<close>

text \<open>
  The loop ends: every item pushed belongs to a value or object that was not marked before, and
  there are finitely many of those.
\<close>

function mark_drain :: "mark_env \<Rightarrow> mark \<Rightarrow> trace_error + mark" where
  "mark_drain env m =
     (case mk_pending m of
        [] \<Rightarrow> Inr m
      | item # rest \<Rightarrow> rbind (scan_item env item (m\<lparr>mk_pending := rest\<rparr>)) (mark_drain env))"
  by pat_completeness auto
termination
proof (relation "measure (\<lambda>(env, m). mark_weight m)", goal_cases)
  case 1
  show ?case by simp
next
  case (2 env m item rest m')
  then have "mark_weight m' \<le> mark_weight (m\<lparr>mk_pending := rest\<rparr>)"
    using scan_item_result(1) by (fastforce simp: grows_def)
  with 2 show ?case by (simp add: mark_weight_def)
qed

declare mark_drain.simps [simp del]

definition mark_trace :: "mark_env \<Rightarrow> gc_root list \<Rightarrow> trace_error + mark" where
  "mark_trace env roots = rbind (mark_roots env roots) (mark_drain env)"

text \<open>An item that is on the worklist or has been scanned.\<close>

definition settled :: "mark_env \<Rightarrow> mark \<Rightarrow> pending_item \<Rightarrow> bool" where
  "settled env m item \<longleftrightarrow> item \<in> set (mk_pending m) \<or> scanned env m item"

definition mark_inv :: "mark_env \<Rightarrow> mark \<Rightarrow> bool" where
  "mark_inv env m \<longleftrightarrow>
     (\<forall>v \<in> mk_values m. fst v \<noteq> 0 \<and> fst v \<in> mk_storage m \<and> settled env m (value_item v)) \<and>
     (\<forall>ob \<in> mk_objects m. \<exists>spans it.
        object_item env (mk_types m) ob = Inr (spans, it) \<and> storage_holds m spans \<and>
        (\<forall>i. it = Some i \<longrightarrow> settled env m i))"

lemma scanned_mono: "scanned env m item \<Longrightarrow> grows env m m' \<Longrightarrow> scanned env m' item"
  using edge_done_mono grows_sets(5) unfolding scanned_def by fastforce

lemma settled_mono: "settled env m item \<Longrightarrow> grows env m m' \<Longrightarrow> settled env m' item"
  using scanned_mono [of env m item m'] by (auto simp: settled_def grows_def)

lemma settled_new:
  assumes "mk_pending m' = new @ mk_pending m" and "item \<in> set new"
  shows "settled env m' item"
  using assms by (simp add: settled_def)

lemma mark_inv_grows:
  assumes "mark_inv env m" and "grows env m m'"
  shows "mark_inv env m'"
proof -
  from assms(2) obtain new where new: "mk_pending m' = new @ mk_pending m"
    "\<forall>v \<in> mk_values m' - mk_values m.
        fst v \<noteq> 0 \<and> fst v \<in> mk_storage m' \<and> value_item v \<in> set new"
    "\<forall>ob \<in> mk_objects m' - mk_objects m. \<exists>spans it.
        object_item env (mk_types m) ob = Inr (spans, it) \<and> storage_holds m' spans \<and>
        (\<forall>i. it = Some i \<longrightarrow> i \<in> set new)"
    unfolding grows_def by blast
  note sets = grows_sets [OF assms(2)]
  have "fst v \<noteq> 0 \<and> fst v \<in> mk_storage m' \<and> settled env m' (value_item v)" if "v \<in> mk_values m'" for v
  proof (cases "v \<in> mk_values m")
    case True
    with assms(1) settled_mono [OF _ assms(2)] sets show ?thesis by (auto simp: mark_inv_def)
  next
    case False
    with that new settled_new [OF new(1)] show ?thesis by blast
  qed
  moreover have "\<exists>spans it. object_item env (mk_types m') ob = Inr (spans, it) \<and>
      storage_holds m' spans \<and> (\<forall>i. it = Some i \<longrightarrow> settled env m' i)" if "ob \<in> mk_objects m'" for ob
  proof (cases "ob \<in> mk_objects m")
    case True
    with assms(1) obtain spans it where "object_item env (mk_types m) ob = Inr (spans, it)"
      "storage_holds m spans" "\<forall>i. it = Some i \<longrightarrow> settled env m i"
      unfolding mark_inv_def by blast
    with settled_mono [OF _ assms(2)] storage_holds_mono [OF _ sets(1)] sets(5) show ?thesis by auto
  next
    case False
    with that new(3) obtain spans it where "object_item env (mk_types m) ob = Inr (spans, it)"
      "storage_holds m' spans" "\<forall>i. it = Some i \<longrightarrow> i \<in> set new" by blast
    with settled_new [OF new(1)] sets(5) show ?thesis by auto
  qed
  ultimately show ?thesis by (simp add: mark_inv_def)
qed

lemma settled_pop:
  assumes "mk_pending m = item # rest" and "scan_item env item (m\<lparr>mk_pending := rest\<rparr>) = Inr m'"
    and "settled env m i"
  shows "settled env m' i"
proof -
  let ?m = "m\<lparr>mk_pending := rest\<rparr>"
  note scan = scan_item_result [OF assms(2)]
  have done_eq: "edge_done env ?m e = edge_done env m e" for e
    by (cases e) (simp_all add: edge_done_def storage_holds_def)
  show ?thesis
  proof (cases "i = item")
    case True
    with scan(2) show ?thesis by (simp add: settled_def)
  next
    case False
    with assms(1,3) have "settled env ?m i" by (auto simp: settled_def scanned_def done_eq)
    then show ?thesis using settled_mono [OF _ scan(1)] by blast
  qed
qed

section \<open>Marks are exactly what is reachable\<close>

datatype node =
    NValue "u32 \<times> u32" | NObject "u32 \<times> u32 \<times> u32" | NStorage u32 | NSource u32 | NItem pending_item

definition storage_nodes :: "u32 list \<Rightarrow> node set" where
  "storage_nodes rs = NStorage ` {r \<in> set rs. r \<noteq> 0}"

definition edge_targets :: "mark_env \<Rightarrow> edge \<Rightarrow> node set" where
  "edge_targets env e =
     (case e of
        ESource r \<Rightarrow>
          (case source_range_unpack (mem_u64 env r) of
             Some sr \<Rightarrow> if sr_source sr \<noteq> 0 then {NSource (sr_source sr)} else {}
           | None \<Rightarrow> {})
      | EContent old _ \<Rightarrow>
          (case content_decode (mem_bytes env old 16) of
             Inr (Slice s) \<Rightarrow> storage_nodes [sl_raw s]
           | _ \<Rightarrow> {})
      | EInline r _ ty \<Rightarrow> if r \<noteq> 0 then {NValue (r, ty)} else {}
      | EValue r ty _ \<Rightarrow> if r \<noteq> 0 then {NValue (r, ty)} else {}
      | EObject table tid ty _ \<Rightarrow>
          if direct_table table \<and> tid = 0 then {} else {NObject (table, tid, ty)}
      | EStorage r n _ \<Rightarrow> if n \<noteq> 0 then storage_nodes [r] else {}
      | EFunction _ \<Rightarrow> {})"

text \<open>
  Reachability in the object graph, without worklist: a value leads to its storage and its item, an
  object to its storage and the item of its payload, an item to the targets of its edges.
\<close>

inductive reached :: "mark_env \<Rightarrow> u32 \<Rightarrow> node set \<Rightarrow> node \<Rightarrow> bool"
  for env :: mark_env and types :: u32 and start :: "node set"
where
  reached_start: "n \<in> start \<Longrightarrow> reached env types start n"
| reached_value_item: "reached env types start (NValue v) \<Longrightarrow> reached env types start (NItem (value_item v))"
| reached_value_storage: "reached env types start (NValue v) \<Longrightarrow> reached env types start (NStorage (fst v))"
| reached_object_item: "reached env types start (NObject ob) \<Longrightarrow>
    object_item env types ob = Inr (spans, Some i) \<Longrightarrow> reached env types start (NItem i)"
| reached_object_storage: "reached env types start (NObject ob) \<Longrightarrow>
    object_item env types ob = Inr (spans, it) \<Longrightarrow> n \<in> storage_nodes spans \<Longrightarrow> reached env types start n"
| reached_edge: "reached env types start (NItem i) \<Longrightarrow> item_edges env types i = Inr es \<Longrightarrow>
    e \<in> set es \<Longrightarrow> n \<in> edge_targets env e \<Longrightarrow> reached env types start n"

text \<open>The nodes a mark contains; an item counts while it is on the worklist.\<close>

definition mark_nodes :: "mark \<Rightarrow> node set" where
  "mark_nodes m =
     NValue ` mk_values m \<union> NObject ` mk_objects m \<union> NStorage ` mk_storage m \<union>
     NSource ` mk_sources m \<union> NItem ` set (mk_pending m)"

lemma mark_nodes_simps [simp]:
  "NValue v \<in> mark_nodes m \<longleftrightarrow> v \<in> mk_values m"
  "NObject ob \<in> mark_nodes m \<longleftrightarrow> ob \<in> mk_objects m"
  "NStorage r \<in> mark_nodes m \<longleftrightarrow> r \<in> mk_storage m"
  "NSource r \<in> mark_nodes m \<longleftrightarrow> r \<in> mk_sources m"
  "NItem i \<in> mark_nodes m \<longleftrightarrow> i \<in> set (mk_pending m)"
  by (auto simp: mark_nodes_def)

lemma storage_holds_nodes: "storage_holds m rs \<longleftrightarrow> storage_nodes rs \<subseteq> mark_nodes m"
  by (auto simp: storage_holds_def storage_nodes_def)

lemma edge_done_targets: "edge_done env m e \<Longrightarrow> edge_targets env e \<subseteq> mark_nodes m"
  by (cases e)
    (auto simp: edge_done_def edge_targets_def storage_holds_nodes split: if_splits content.splits)

subsection \<open>Soundness: the worklist reaches everything\<close>

lemma mark_drain_result:
  assumes "mark_drain env m = Inr m'" and "mark_inv env m"
  shows "mark_inv env m'" and "mk_pending m' = []" and "mk_types m' = mk_types m"
    and "mark_nodes m - range NItem \<subseteq> mark_nodes m'" and "settled env m i \<Longrightarrow> scanned env m' i"
proof -
  have "mark_inv env m' \<and> mk_pending m' = [] \<and> mk_types m' = mk_types m \<and>
      mark_nodes m - range NItem \<subseteq> mark_nodes m' \<and> (\<forall>i. settled env m i \<longrightarrow> scanned env m' i)"
    using assms
  proof (induction env m arbitrary: m' rule: mark_drain.induct)
    case (1 env m)
    show ?case
    proof (cases "mk_pending m")
      case Nil
      with 1(2,3) show ?thesis by (auto simp: mark_drain.simps settled_def)
    next
      case (Cons item rest)
      let ?m = "m\<lparr>mk_pending := rest\<rparr>"
      from 1(2) Cons obtain t where t: "scan_item env item ?m = Inr t" "mark_drain env t = Inr m'"
        by (auto simp: mark_drain.simps [of env m] rbind_eq_Inr)
      note pop = settled_pop [OF Cons t(1)]
      note grow = scan_item_result(1) [OF t(1)]
      note sets = grows_sets [OF grow]
      from grow obtain new where new: "mk_pending t = new @ rest"
        "\<forall>v \<in> mk_values t - mk_values m.
          fst v \<noteq> 0 \<and> fst v \<in> mk_storage t \<and> value_item v \<in> set new"
        "\<forall>ob \<in> mk_objects t - mk_objects m. \<exists>spans it.
          object_item env (mk_types m) ob = Inr (spans, it) \<and> storage_holds t spans \<and>
          (\<forall>i. it = Some i \<longrightarrow> i \<in> set new)"
        unfolding grows_def by auto
      have inv_t: "mark_inv env t"
        unfolding mark_inv_def
      proof (intro conjI ballI)
        fix v assume "v \<in> mk_values t"
        have "fst v \<noteq> 0 \<and> fst v \<in> mk_storage t \<and> settled env t (value_item v)"
        proof (cases "v \<in> mk_values m")
          case True
          with 1(3) have "fst v \<noteq> 0" "fst v \<in> mk_storage m" "settled env m (value_item v)"
            unfolding mark_inv_def by blast+
          with pop sets(1) show ?thesis by auto
        next
          case False
          with new(1,2) \<open>v \<in> mk_values t\<close> show ?thesis by (simp add: settled_def)
        qed
        then show "fst v \<noteq> 0" and "fst v \<in> mk_storage t" and "settled env t (value_item v)" by auto
      next
        fix ob assume ob: "ob \<in> mk_objects t"
        show "\<exists>spans it. object_item env (mk_types t) ob = Inr (spans, it) \<and> storage_holds t spans \<and>
          (\<forall>i. it = Some i \<longrightarrow> settled env t i)"
        proof (cases "ob \<in> mk_objects m")
          case True
          with 1(3) obtain spans it where "object_item env (mk_types m) ob = Inr (spans, it)"
            "storage_holds m spans" "\<forall>i. it = Some i \<longrightarrow> settled env m i"
            unfolding mark_inv_def by blast
          with pop sets storage_holds_mono [of m spans t] show ?thesis by auto
        next
          case False
          with new(3) ob obtain spans it where "object_item env (mk_types m) ob = Inr (spans, it)"
            "storage_holds t spans" "\<forall>i. it = Some i \<longrightarrow> i \<in> set new" by blast
          with new(1) sets show ?thesis by (auto simp: settled_def)
        qed
      qed
      note IH = 1(1) [OF Cons t(1) t(2) inv_t]
      have "mark_nodes m - range NItem \<subseteq> mark_nodes t - range NItem"
        using sets(1-4) by (auto simp: mark_nodes_def)
      then have "mark_nodes m - range NItem \<subseteq> mark_nodes m'" using IH by blast
      moreover have "\<forall>i. settled env m i \<longrightarrow> scanned env m' i" using IH pop by blast
      ultimately show ?thesis using IH sets(5) by simp
    qed
  qed
  then show "mark_inv env m'" and "mk_pending m' = []" and "mk_types m' = mk_types m"
    and "mark_nodes m - range NItem \<subseteq> mark_nodes m'" and "settled env m i \<Longrightarrow> scanned env m' i"
    by blast+
qed

text \<open>A mark with an empty worklist.\<close>

lemma final_mark:
  assumes "mark_inv env m" and "mk_pending m = []"
  shows "v \<in> mk_values m \<Longrightarrow> fst v \<in> mk_storage m \<and> scanned env m (value_item v)"
    and "ob \<in> mk_objects m \<Longrightarrow> object_item env (mk_types m) ob = Inr (spans, it) \<Longrightarrow>
      storage_holds m spans \<and> (\<forall>i. it = Some i \<longrightarrow> scanned env m i)"
proof -
  show "v \<in> mk_values m \<Longrightarrow> fst v \<in> mk_storage m \<and> scanned env m (value_item v)"
    using assms by (simp add: mark_inv_def settled_def)
  assume ob: "ob \<in> mk_objects m" "object_item env (mk_types m) ob = Inr (spans, it)"
  from assms(1) ob(1) obtain spans' it' where
    "object_item env (mk_types m) ob = Inr (spans', it')" "storage_holds m spans'"
    "\<forall>i. it' = Some i \<longrightarrow> settled env m i"
    unfolding mark_inv_def by blast
  with ob(2) assms(2) show "storage_holds m spans \<and> (\<forall>i. it = Some i \<longrightarrow> scanned env m i)"
    by (simp add: settled_def)
qed

lemma drain_sound:
  assumes drain: "mark_drain env m = Inr m'" and inv: "mark_inv env m"
    and "reached env (mk_types m) (mark_nodes m) n"
  shows "case n of NItem i \<Rightarrow> scanned env m' i | _ \<Rightarrow> n \<in> mark_nodes m'"
proof -
  note final = final_mark [OF mark_drain_result(1,2) [OF drain inv]]
  note types = mark_drain_result(3) [OF drain inv]
  show ?thesis
    using assms(3)
  proof induction
  case (reached_start n)
  then have "n \<in> mark_nodes m'" if "n \<notin> range NItem"
    using that mark_drain_result(4) [OF drain inv] by blast
  with reached_start mark_drain_result(5) [OF drain inv] show ?case
    by (cases n) (auto simp: settled_def)
next
  case (reached_value_item v)
  with final show ?case by simp
next
  case (reached_value_storage v)
  with final show ?case by simp
next
  case (reached_object_item ob spans i)
  with final(2) [of ob spans "Some i"] types show ?case by simp
next
  case (reached_object_storage ob spans it n)
  with final(2) [of ob spans it] types have "storage_holds m' spans" by simp
  with reached_object_storage(2,3) show ?case
    by (auto simp: storage_holds_nodes storage_nodes_def)
next
  case (reached_edge i es e n)
  then have "n \<in> mark_nodes m'" using types edge_done_targets
    by (fastforce simp: scanned_def)
  moreover have "\<nexists>i. n = NItem i" using reached_edge.hyps
    by (auto simp: edge_targets_def storage_nodes_def
        split: edge.splits option.splits sum.splits content.splits if_splits)
  ultimately show ?case by (cases n) auto
  qed
qed

subsection \<open>Precision: nothing else is marked\<close>

lemma nodes_step:
  "mark_nodes (mark_span r m) = mark_nodes m \<union> storage_nodes [r]"
  "mark_nodes (mark_push i m) = insert (NItem i) (mark_nodes m)"
  "mark_nodes (m\<lparr>mk_objects := insert ob (mk_objects m)\<rparr>) = insert (NObject ob) (mark_nodes m)"
  "mark_nodes (m\<lparr>mk_values := insert v (mk_values m)\<rparr>) = insert (NValue v) (mark_nodes m)"
  by (auto simp: mark_nodes_def mark_span_def mark_push_def storage_nodes_def)

lemma storage_nodes_Cons: "rs \<noteq> [] \<Longrightarrow> storage_nodes (r # rs) = storage_nodes [r] \<union> storage_nodes rs"
  "storage_nodes [] = {}"
  by (auto simp: storage_nodes_def)

lemma span_types [simp]: "mk_types (mark_span r m) = mk_types m"
  by (simp add: mark_span_def)

lemma value_nodes:
  assumes "mark_nodes m \<subseteq> {n. reached env types start n}"
    and "r \<noteq> 0 \<Longrightarrow> reached env types start (NValue (r, ty))"
  shows "mark_nodes (mark_value r ty m) \<subseteq> {n. reached env types start n}"
  using assms reached_value_item [of env types start "(r, ty)"]
    reached_value_storage [of env types start "(r, ty)"]
  by (auto simp: mark_nodes_def mark_value_def mark_push_def mark_span_def value_item_def)

lemma span_nodes:
  assumes "mark_nodes m \<subseteq> {n. reached env types start n}"
    and "\<And>n. n \<in> storage_nodes [r] \<Longrightarrow> reached env types start n"
  shows "mark_nodes (mark_span r m) \<subseteq> {n. reached env types start n}"
  using assms by (auto simp: mark_nodes_def mark_span_def storage_nodes_def)

lemma object_nodes:
  assumes "mark_nodes m \<subseteq> {n. reached env (mk_types m) start n}"
    and "\<not> (direct_table table \<and> tid = 0) \<Longrightarrow>
      reached env (mk_types m) start (NObject (table, tid, ty))"
    and "mark_object env table tid ty m = Inr m'"
  shows "mark_nodes m' \<subseteq> {n. reached env (mk_types m) start n}"
proof (cases "direct_table table \<and> tid = 0 \<or> (table, tid, ty) \<in> mk_objects m")
  case True
  with assms show ?thesis by (auto simp: mark_object_def)
next
  case False
  with assms(2) have ob: "reached env (mk_types m) start (NObject (table, tid, ty))" by simp
  have "\<exists>spans it. object_item env (mk_types m) (table, tid, ty) = Inr (spans, it) \<and>
      mark_nodes m' = insert (NObject (table, tid, ty)) (mark_nodes m) \<union> storage_nodes spans \<union>
      (case it of None \<Rightarrow> {} | Some i \<Rightarrow> {NItem i})"
  proof (cases "direct_table table")
    case True
    with False assms(3) obtain payload n closed where
      d: "direct_object env (mk_types m) table tid ty = Inr (payload, n, closed)"
      and m': "m' = (let m = mark_span tid (m\<lparr>mk_objects := insert (table, tid, ty) (mk_objects m)\<rparr>)
        in mark_push (table, payload, n, closed) (if n \<noteq> 0 then mark_span payload m else m))"
      by (auto simp: mark_object_def Let_def result_simps)
    show ?thesis using True d m'
      by (auto simp: object_item_def nodes_step storage_nodes_Cons Let_def)
  next
    case direct: False
    with False assms(3) obtain payload n where
      d: "resource_slot env table tid = Inr (payload, n)"
      and m': "m' = (let m = m\<lparr>mk_objects := insert (table, tid, ty) (mk_objects m)\<rparr>
        in if table \<noteq> REGEXES then mark_push (table, payload, n, ty) (mark_span payload m) else m)"
      by (auto simp: mark_object_def Let_def result_simps)
    show ?thesis using direct d m'
      by (auto simp: object_item_def nodes_step storage_nodes_Cons Let_def)
  qed
  then obtain spans it where item: "object_item env (mk_types m) (table, tid, ty) = Inr (spans, it)"
    and m': "mark_nodes m' \<subseteq> insert (NObject (table, tid, ty)) (mark_nodes m) \<union> storage_nodes spans \<union>
      (case it of None \<Rightarrow> {} | Some i \<Rightarrow> {NItem i})"
    by blast
  have "storage_nodes spans \<subseteq> {n. reached env (mk_types m) start n}"
    using reached_object_storage [OF ob item] by blast
  moreover have "(case it of None \<Rightarrow> {} | Some i \<Rightarrow> {NItem i}) \<subseteq> {n. reached env (mk_types m) start n}"
    using reached_object_item [OF ob] item by (cases it) auto
  ultimately show ?thesis using m' assms(1) ob by blast
qed

lemma edge_nodes:
  assumes "mark_nodes m \<subseteq> {n. reached env (mk_types m) start n}"
    and "edge_targets env e \<subseteq> {n. reached env (mk_types m) start n}"
    and "mark_edge env e m = Inr m'"
  shows "mark_nodes m' \<subseteq> {n. reached env (mk_types m) start n}"
proof (cases e)
  case (ESource r)
  with assms(3) obtain sr where "source_range_unpack (mem_u64 env r) = Some sr"
    and "m' = (if sr_source sr \<noteq> 0 then m\<lparr>mk_sources := insert (sr_source sr) (mk_sources m)\<rparr> else m)"
    by (auto simp: mark_edge_def result_simps)
  with ESource assms(1,2) show ?thesis by (auto simp: edge_targets_def mark_nodes_def)
next
  case (EContent old at)
  with assms show ?thesis
    by (auto simp: mark_edge_def edge_targets_def split: sum.splits content.splits
        dest!: span_nodes [THEN subsetD, rotated 2])
next
  case (EObject table tid ty at)
  with assms object_nodes [OF assms(1), of table tid ty m'] show ?thesis
    by (auto simp: mark_edge_def edge_targets_def split: if_splits)
next
  case (EStorage r n at)
  with assms span_nodes [OF assms(1), of r] show ?thesis
    by (auto simp: mark_edge_def edge_targets_def split: if_splits)
next
  case (EInline r at ty)
  with assms value_nodes [OF assms(1), of r ty] show ?thesis
    by (auto simp: mark_edge_def edge_targets_def split: if_splits)
next
  case (EValue r ty at)
  with assms value_nodes [OF assms(1), of r ty] show ?thesis
    by (auto simp: mark_edge_def edge_targets_def split: if_splits)
next
  case (EFunction f)
  with assms show ?thesis by (simp add: mark_edge_def)
qed

lemma fold_edge_nodes:
  assumes "mark_nodes m \<subseteq> {n. reached env (mk_types m) start n}"
    and "\<forall>e \<in> set es. edge_targets env e \<subseteq> {n. reached env (mk_types m) start n}"
    and "foldm (mark_edge env) es m = Inr m'"
  shows "mark_nodes m' \<subseteq> {n. reached env (mk_types m) start n}"
  using assms
proof (induction es arbitrary: m)
  case (Cons e es)
  then obtain t where t: "mark_edge env e m = Inr t" "foldm (mark_edge env) es t = Inr m'"
    by (auto simp: rbind_eq_Inr)
  have types: "mk_types t = mk_types m" using grows_sets(5) [OF grows_edge [OF t(1)]] .
  have "mark_nodes t \<subseteq> {n. reached env (mk_types m) start n}"
    using edge_nodes [OF Cons.prems(1) _ t(1)] Cons.prems(2) by simp
  with Cons.IH [of t] Cons.prems(2) t(2) types show ?case by simp
qed simp

lemma drain_precise:
  assumes "mark_drain env m = Inr m'" and "mark_nodes m \<subseteq> {n. reached env (mk_types m) start n}"
  shows "mark_nodes m' \<subseteq> {n. reached env (mk_types m) start n}"
  using assms
proof (induction env m arbitrary: m' rule: mark_drain.induct)
  case (1 env m)
  show ?case
  proof (cases "mk_pending m")
    case Nil
    with 1(2,3) show ?thesis by (simp add: mark_drain.simps)
  next
    case (Cons item rest)
    let ?m = "m\<lparr>mk_pending := rest\<rparr>"
    from 1(2) Cons obtain t where t: "scan_item env item ?m = Inr t" "mark_drain env t = Inr m'"
      by (auto simp: mark_drain.simps [of env m] rbind_eq_Inr)
    from t(1) obtain es where es: "item_edges env (mk_types m) item = Inr es"
      "foldm (mark_edge env) es ?m = Inr t"
      unfolding scan_item_edges by auto
    have "NItem item \<in> mark_nodes m" using Cons by (simp add: mark_nodes_def)
    with 1(3) have "reached env (mk_types m) start (NItem item)" by blast
    from reached_edge [OF this es(1)]
    have targets: "\<forall>e \<in> set es. edge_targets env e \<subseteq> {n. reached env (mk_types ?m) start n}" by auto
    have "mark_nodes ?m \<subseteq> {n. reached env (mk_types ?m) start n}"
      using 1(3) Cons by (auto simp: mark_nodes_def)
    from fold_edge_nodes [OF this targets es(2)]
    have "mark_nodes t \<subseteq> {n. reached env (mk_types m) start n}" by simp
    moreover have "mk_types t = mk_types m" using grows_sets(5) [OF scan_item_result(1) [OF t(1)]] by simp
    ultimately show ?thesis using 1(1) [OF Cons t(1) t(2)] by simp
  qed
qed

lemma drain_marks:
  assumes "mark_drain env m = Inr m'" and "mark_inv env m"
  shows "mark_nodes m' = {n. reached env (mk_types m) (mark_nodes m) n} - range NItem"
proof
  have "mark_nodes m \<subseteq> {n. reached env (mk_types m) (mark_nodes m) n}"
    using reached_start by blast
  from drain_precise [OF assms(1) this] mark_drain_result(2) [OF assms]
  show "mark_nodes m' \<subseteq> {n. reached env (mk_types m) (mark_nodes m) n} - range NItem"
    by (auto simp: mark_nodes_def)
  show "{n. reached env (mk_types m) (mark_nodes m) n} - range NItem \<subseteq> mark_nodes m'"
  proof
    fix n assume "n \<in> {n. reached env (mk_types m) (mark_nodes m) n} - range NItem"
    with drain_sound [OF assms, of n] show "n \<in> mark_nodes m'" by (cases n) auto
  qed
qed

section \<open>Roots\<close>

text \<open>Any number of steps later: nothing is lost, and the invariant is kept.\<close>

definition later :: "mark_env \<Rightarrow> mark \<Rightarrow> mark \<Rightarrow> bool" where
  "later env m m' \<longleftrightarrow>
     mark_nodes m \<subseteq> mark_nodes m' \<and> mk_types m' = mk_types m \<and> (mark_inv env m \<longrightarrow> mark_inv env m')"

lemma later_refl [simp]: "later env m m"
  by (simp add: later_def)

lemma later_trans [trans]: "later env m m' \<Longrightarrow> later env m' m'' \<Longrightarrow> later env m m''"
  by (auto simp: later_def)

lemma later_grows: "grows env m m' \<Longrightarrow> later env m m'"
  using mark_inv_grows by (auto simp: later_def grows_def mark_nodes_def)

lemma later_push: "later env m (mark_push i m)"
proof -
  have "edge_done env (mark_push i m) e = edge_done env m e" for e
    by (cases e) (simp_all add: edge_done_def storage_holds_def mark_push_def)
  moreover have "mk_types (mark_push i m) = mk_types m" by (simp add: mark_push_def)
  ultimately have "scanned env (mark_push i m) = scanned env m"
    by (intro ext) (simp add: scanned_def)
  then have "settled env m j \<Longrightarrow> settled env (mark_push i m) j" for j
    by (auto simp: settled_def) (simp add: mark_push_def)
  moreover have "storage_holds (mark_push i m) = storage_holds m"
    by (intro ext) (simp add: storage_holds_def mark_push_def)
  moreover have "mk_values (mark_push i m) = mk_values m" "mk_objects (mark_push i m) = mk_objects m"
    "mk_storage (mark_push i m) = mk_storage m" "mk_types (mark_push i m) = mk_types m"
    by (simp_all add: mark_push_def)
  ultimately have "mark_inv env m \<Longrightarrow> mark_inv env (mark_push i m)"
    unfolding mark_inv_def by metis
  then show ?thesis by (auto simp: later_def mark_nodes_def mark_push_def)
qed

lemmas later_steps =
  later_refl later_push
  grows_span [THEN later_grows] grows_value [THEN later_grows] grows_object [THEN later_grows]
  grows_edge [THEN later_grows] grows_sources [THEN later_grows]

definition keeps :: "mark_env \<Rightarrow> (mark \<Rightarrow> trace_error + mark) \<Rightarrow> bool" where
  "keeps env f \<longleftrightarrow> (\<forall>m m'. f m = Inr m' \<longrightarrow> later env m m')"

lemma keeps_Inr: "(\<And>m. later env m (g m)) \<Longrightarrow> keeps env (\<lambda>m. Inr (g m))"
  by (auto simp: keeps_def)

lemma keeps_Inl: "keeps env (\<lambda>m. Inl e)"
  by (simp add: keeps_def)

lemma keeps_seq: "keeps env f \<Longrightarrow> keeps env g \<Longrightarrow> keeps env (\<lambda>m. rbind (f m) g)"
  unfolding keeps_def rbind_eq_Inr using later_trans by blast

lemma keeps_pure: "(\<And>x. keeps env (g x)) \<Longrightarrow> keeps env (\<lambda>m. rbind p (\<lambda>x. g x m))"
  by (auto simp: keeps_def rbind_eq_Inr)

lemma keeps_let: "(\<And>m. later env m (h m)) \<Longrightarrow> keeps env g \<Longrightarrow> keeps env (\<lambda>m. Let (h m) g)"
  unfolding keeps_def Let_def using later_trans by blast

lemma keeps_let_pure: "keeps env (g x) \<Longrightarrow> keeps env (\<lambda>m. Let x (\<lambda>y. g y m))"
  by (simp add: keeps_def)

lemma keeps_if: "keeps env f \<Longrightarrow> keeps env g \<Longrightarrow> keeps env (\<lambda>m. if b then f m else g m)"
  by (simp add: keeps_def)

lemma keeps_foldm: "(\<And>x. keeps env (f x)) \<Longrightarrow> keeps env (foldm f xs)"
proof (induction xs)
  case Nil
  then show ?case by (simp add: keeps_def)
next
  case (Cons x xs)
  have "foldm f (x # xs) = (\<lambda>m. rbind (f x m) (foldm f xs))" by auto
  with keeps_seq [OF Cons.prems Cons.IH [OF Cons.prems]] show ?case by simp
qed

lemma later_if: "(\<And>m. later env m (f m)) \<Longrightarrow> (\<And>m. later env m (g m)) \<Longrightarrow>
    later env m (if b then f m else g m)"
  by simp

lemma keeps_calls: "keeps env (mark_edge env e)" "keeps env (mark_object env table tid ty)"
  by (auto simp: keeps_def intro: later_steps)

lemmas keeps_intros =
  keeps_Inl keeps_let_pure keeps_let keeps_if keeps_foldm keeps_calls keeps_pure keeps_seq keeps_Inr
  later_steps later_if

lemma keeps_source: "keeps env (mark_source env r)"
  unfolding mark_source_def [abs_def]
  by (auto simp: keeps_def intro: later_steps later_trans split: if_splits)

lemma keeps_rejection: "keeps env (mark_rejection env r ty)"
  unfolding mark_rejection_def [abs_def] by (intro keeps_source keeps_intros)

lemma keeps_plan_entry: "keeps env (mark_plan_entry env p i)"
  unfolding mark_plan_entry_def [abs_def] by (intro keeps_source keeps_intros)

lemma keeps_plan_row: "keeps env (mark_plan_row env rows i)"
  unfolding mark_plan_row_def [abs_def] by (intro keeps_plan_entry keeps_source keeps_intros)

lemma keeps_plan_span: "keeps env (mark_plan_span env e off)"
  unfolding mark_plan_span_def [abs_def] by (intro keeps_intros)

lemma keeps_plan: "keeps env (mark_plan env packet)"
  unfolding mark_plan_def [abs_def] by (intro keeps_plan_row keeps_plan_span keeps_intros)

lemma keeps_reference: "keeps env (mark_reference env base ty i)"
  unfolding mark_reference_def [abs_def] by (intro keeps_intros)

lemma keeps_root: "keeps env (mark_root env root)"
  unfolding mark_root_def [abs_def]
  by (cases "rt_kind root"; simp only: root_kind.case;
      intro keeps_plan keeps_rejection keeps_source keeps_reference keeps_intros)

lemma keeps_demand: "keeps env (mark_demand env d i)"
  unfolding mark_demand_def [abs_def]
  by (intro keeps_intros later_push [THEN later_trans [rotated]])

lemma keeps_table: "keeps env (mark_table env table)"
  unfolding mark_table_def [abs_def] by (intro keeps_intros)

lemma later_values: "later env m (fold (\<lambda>(r, ty). mark_value r ty) rs m)"
proof (induction rs arbitrary: m)
  case (Cons v rs)
  then show ?case
    using later_trans [OF later_steps(4) [of env m "fst v" "snd v"] Cons.IH] by (simp add: split_beta)
qed simp

text \<open>What a published root of each kind must have marked.\<close>

definition root_nodes :: "mark_env \<Rightarrow> gc_root \<Rightarrow> node set" where
  "root_nodes env root =
     (let r = rt_reference root in
      storage_nodes [r] \<union>
      (case rt_kind root of
         RValue ty \<Rightarrow> if r \<noteq> 0 then {NValue (r, ty)} else {}
       | RSource \<Rightarrow> edge_targets env (ESource r)
       | RObject ty tag initialized \<Rightarrow>
           {NItem (tag, r, if tag = ENVIRONMENTS then 8 + mem_u32 env r * 8 else initialized, ty)}
       | RReferences ty initialized \<Rightarrow>
           {NValue (x, ty) |x. x \<noteq> 0 \<and> (\<exists>i < unat initialized. x = mem_u32 env (r + of_nat i * 4))}
       | RContext ty codec \<Rightarrow>
           (let text = mem_u32 env (r + (if codec then 24 else 4))
            in if text \<noteq> 0 then {NValue (text, ty)} else {}) \<union>
           storage_nodes [mem_u32 env (r + (if codec then 28 else 8))]
       | RParsePlan \<Rightarrow> storage_nodes [mem_u32 env r, mem_u32 env (r + 12)]
       | RStorage \<Rightarrow> {}))"

lemma keepsD: "keeps env f \<Longrightarrow> f m = Inr m' \<Longrightarrow> mark_nodes m \<subseteq> mark_nodes m'"
  by (simp add: keeps_def later_def)

lemma mem_word_Inr: "mem_word env r off = Inr x \<Longrightarrow> x = mem_u32 env (r + off)"
  by (auto simp: mem_word_def result_simps checked_add_def split: if_splits)

lemma foldm_visit:
  assumes "\<And>x. keeps env (f x)" and "foldm f xs m = Inr m'" and "x \<in> set xs"
  shows "\<exists>u v. f x u = Inr v \<and> mark_nodes v \<subseteq> mark_nodes m'"
proof -
  from assms(3) obtain ys zs where "xs = ys @ x # zs" by (auto dest: split_list)
  with assms(2) obtain u v where "f x u = Inr v" "foldm f zs v = Inr m'"
    by (auto simp: foldm_append rbind_eq_Inr)
  with keepsD [OF keeps_foldm [of env f zs, OF assms(1)]] show ?thesis by blast
qed

lemma mark_value_nodes: "r \<noteq> 0 \<Longrightarrow> NValue (r, ty) \<in> mark_nodes (mark_value r ty m)"
  by (simp add: mark_value_in)

lemma later_nodes: "later env m m' \<Longrightarrow> mark_nodes m \<subseteq> mark_nodes m'"
  by (simp add: later_def)

lemma checked_mul_value: "checked_mul a b = Some c \<Longrightarrow> c = a * (b :: 'a::len word)"
  by (auto simp: checked_mul_def split: if_splits)

lemma storage_nodes_two: "storage_nodes [a, b] = storage_nodes [a] \<union> storage_nodes [b]"
  by (auto simp: storage_nodes_def)

lemma references_nodes:
  assumes "foldm (mark_reference env r ty) (u32_upto n) m = Inr m'"
  shows "{NValue (x, ty) |x. x \<noteq> 0 \<and> (\<exists>i < unat n. x = mem_u32 env (r + of_nat i * 4))} \<subseteq> mark_nodes m'"
proof clarify
  fix i assume i: "i < unat n" and x: "mem_u32 env (r + word_of_nat i * 4) \<noteq> 0"
  then have "of_nat i \<in> set (u32_upto n)" by (auto simp: u32_upto_def)
  with foldm_visit [OF keeps_reference assms] obtain u v where
    "mark_reference env r ty (of_nat i) u = Inr v" "mark_nodes v \<subseteq> mark_nodes m'" by blast
  moreover from this(1) have "v = mark_value (mem_u32 env (r + of_nat i * 4)) ty u"
    by (auto simp: mark_reference_def result_simps dest!: mem_word_Inr checked_mul_value)
  ultimately show "NValue (mem_u32 env (r + word_of_nat i * 4), ty) \<in> mark_nodes m'"
    using mark_value_nodes [OF x] by blast
qed

lemma plan_nodes:
  assumes "mark_plan env r m = Inr m'"
  shows "storage_nodes [mem_u32 env r, mem_u32 env (r + 12)] \<subseteq> mark_nodes m'"
proof -
  from assms obtain rows count error where w: "mem_word env r 0 = Inr rows" "mem_word env r 12 = Inr error"
    and rest: "rbind (if error \<noteq> 0 then foldm (mark_plan_span env error) [0, 8]
        (mark_span error (mark_span rows m)) else Inr (mark_span error (mark_span rows m)))
      (\<lambda>m. foldm (mark_plan_row env rows) (u32_upto count) m) = Inr m'"
    unfolding mark_plan_def Let_def rbind_eq_Inr [of "mem_word env _ _"] by blast
  have "keeps env (\<lambda>m. rbind (if error \<noteq> 0 then foldm (mark_plan_span env error) [0, 8] m else Inr m)
      (\<lambda>m. foldm (mark_plan_row env rows) (u32_upto count) m))"
    by (intro keeps_plan_row keeps_plan_span keeps_intros)
  from keepsD [OF this rest] w [THEN mem_word_Inr] show ?thesis
    by (simp add: nodes_step storage_nodes_two)
qed

lemma context_nodes:
  assumes "mark_root env root m = Inr m'" and "rt_kind root = RContext ty codec"
  shows "root_nodes env root \<subseteq> mark_nodes m'"
proof -
  let ?r = "rt_reference root"
  from assms obtain str error where
    w: "mem_word env ?r (if codec then 24 else 4) = Inr str"
       "mem_word env ?r (if codec then 28 else 8) = Inr error"
    and rest: "rbind (if error \<noteq> 0 then rbind (mem_word env error 0) (\<lambda>r. Inr (mark_value r ty
          (mark_span error (mark_value str ty (mark_span ?r m)))))
        else Inr (mark_span error (mark_value str ty (mark_span ?r m)))) (\<lambda>m.
      if codec then mark_rejection env error ty m
      else rbind (mem_word env ?r 16) (\<lambda>source. rbind (mark_source env source m) (\<lambda>m.
           rbind (mem_word env ?r 20) (\<lambda>r. mark_rejection env r ty m)))) = Inr m'"
    unfolding mark_root_def assms(2) root_kind.case Let_def rbind_eq_Inr [of "mem_word env ?r _"]
    by blast
  have "keeps env (\<lambda>m. rbind (if error \<noteq> 0 then rbind (mem_word env error 0) (\<lambda>r. Inr (mark_value r ty m))
        else Inr m) (\<lambda>m.
      if codec then mark_rejection env error ty m
      else rbind (mem_word env ?r 16) (\<lambda>source. rbind (mark_source env source m) (\<lambda>m.
           rbind (mem_word env ?r 20) (\<lambda>r. mark_rejection env r ty m)))))"
    by (intro keeps_rejection keeps_source keeps_intros)
  from keepsD [OF this rest] have sub: "mark_nodes (mark_span error (mark_value str ty (mark_span ?r m)))
    \<subseteq> mark_nodes m'" .
  have "storage_nodes [?r] \<subseteq> mark_nodes (mark_value str ty (mark_span ?r m))"
    using later_nodes [OF later_steps(4), of "mark_span ?r m" str ty] by (simp add: nodes_step)
  moreover have "str \<noteq> 0 \<Longrightarrow> NValue (str, ty) \<in> mark_nodes (mark_value str ty (mark_span ?r m))"
    by (rule mark_value_nodes)
  moreover have "mark_nodes (mark_value str ty (mark_span ?r m)) \<union> storage_nodes [error] \<subseteq> mark_nodes m'"
    using sub by (simp add: nodes_step)
  ultimately have "storage_nodes [?r] \<subseteq> mark_nodes m'" "storage_nodes [error] \<subseteq> mark_nodes m'"
    "str \<noteq> 0 \<Longrightarrow> NValue (str, ty) \<in> mark_nodes m'" by blast+
  then show ?thesis
    using w [THEN mem_word_Inr] assms(2) by (simp add: root_nodes_def Let_def)
qed

lemma root_marked:
  assumes "mark_root env root m = Inr m'"
  shows "root_nodes env root \<subseteq> mark_nodes m'"
proof (cases "rt_kind root")
  case RStorage
  with assms show ?thesis by (auto simp: mark_root_def root_nodes_def nodes_step Let_def)
next
  case RParsePlan
  with assms have "mark_plan env (rt_reference root) (mark_span (rt_reference root) m) = Inr m'"
    by (simp add: mark_root_def Let_def)
  with plan_nodes [OF this] keepsD [OF keeps_plan this] RParsePlan show ?thesis
    by (simp add: root_nodes_def nodes_step Let_def)
next
  case (RContext ty codec)
  with assms show ?thesis by (rule context_nodes)
next
  case (RReferences ty n)
  with assms have f: "foldm (mark_reference env (rt_reference root) ty) (u32_upto n)
      (mark_span (rt_reference root) m) = Inr m'"
    by (simp add: mark_root_def Let_def)
  with references_nodes [OF f]
    keepsD [OF keeps_foldm [where f = "mark_reference env (rt_reference root) ty", OF keeps_reference] f] RReferences
  show ?thesis by (simp add: root_nodes_def nodes_step Let_def)
next
  case (RValue ty)
  with assms have "m' = mark_value (rt_reference root) ty (mark_span (rt_reference root) m)"
    by (simp add: mark_root_def Let_def)
  with RValue later_nodes [OF later_steps(4), of "mark_span (rt_reference root) m" "rt_reference root" ty]
  show ?thesis by (auto simp: root_nodes_def nodes_step Let_def mark_value_in)
next
  case (RObject ty tag n)
  with assms obtain k where "m' = mark_push (tag, rt_reference root, k, ty) (mark_span (rt_reference root) m)"
    and "k = (if tag = ENVIRONMENTS then 8 + mem_u32 env (rt_reference root) * 8 else n)"
    by (auto simp: mark_root_def Let_def result_simps split: if_splits
        dest!: mem_word_Inr checked_mul_value)
  with RObject show ?thesis by (auto simp: root_nodes_def nodes_step Let_def)
next
  case RSource
  with assms have e: "mark_edge env (ESource (rt_reference root)) (mark_span (rt_reference root) m) = Inr m'"
    by (simp add: mark_root_def Let_def)
  with edge_done_targets [OF mark_edge_done [OF e]] keepsD [OF keeps_calls(1) e] RSource
  show ?thesis by (simp add: root_nodes_def nodes_step Let_def)
qed

lemma mark_new_inv: "mark_inv env (mark_new env)" "mk_types (mark_new env) = me_types env"
  by (simp_all add: mark_inv_def mark_new_def)

lemma mark_roots_result:
  assumes "mark_roots env roots = Inr m"
  shows "mark_inv env m" and "mk_types m = me_types env"
    and "root \<in> set roots \<Longrightarrow> root_nodes env root \<subseteq> mark_nodes m"
    and "(r, ty) \<in> set (me_execution_roots env) \<Longrightarrow> r \<noteq> 0 \<Longrightarrow> NValue (r, ty) \<in> mark_nodes m"
    and "set (me_source_roots env) \<subseteq> mk_sources m"
proof -
  from assms obtain m1 m2 where
    m1: "foldm (mark_root env) roots (mark_new env) = Inr m1" and
    m2: "foldm (mark_demand env (fst (me_demands env))) (u32_upto (snd (me_demands env))) m1 = Inr m2"
    and m: "foldm (mark_table env) (u32_upto TABLE_COUNT)
      ((fold (\<lambda>(r, ty). mark_value r ty) (me_execution_roots env) m2)\<lparr>mk_sources :=
         mk_sources (fold (\<lambda>(r, ty). mark_value r ty) (me_execution_roots env) m2) \<union>
         set (me_source_roots env)\<rparr>) = Inr m"
    (is "foldm _ _ (?m3\<lparr>mk_sources := _\<rparr>) = _")
    by (auto simp: mark_roots_def Let_def rbind_eq_Inr)
  let ?m4 = "?m3\<lparr>mk_sources := mk_sources ?m3 \<union> set (me_source_roots env)\<rparr>"
  have l1: "later env (mark_new env) m1" using keeps_foldm [where f = "mark_root env", OF keeps_root] m1 by (simp add: keeps_def)
  have l2: "later env m1 m2" using keeps_foldm [where f = "mark_demand env (fst (me_demands env))", OF keeps_demand] m2 by (simp add: keeps_def)
  have l3: "later env m2 ?m3" by (rule later_values)
  have l4: "later env ?m3 ?m4" using later_steps(7) [of env ?m3 "set (me_source_roots env)"]
    by (simp add: Un_commute)
  have l5: "later env ?m4 m" using keeps_foldm [where f = "mark_table env", OF keeps_table] m by (simp add: keeps_def)
  note all = later_trans [OF l1 later_trans [OF l2 later_trans [OF l3 later_trans [OF l4 l5]]]]
  show "mark_inv env m" and "mk_types m = me_types env"
    using all mark_new_inv by (simp_all add: later_def)
  show "root_nodes env root \<subseteq> mark_nodes m" if "root \<in> set roots"
    using foldm_visit [OF keeps_root m1 that] root_marked
      later_nodes [OF later_trans [OF l2 later_trans [OF l3 later_trans [OF l4 l5]]]] by blast
  show "NValue (r, ty) \<in> mark_nodes m" if "(r, ty) \<in> set (me_execution_roots env)" "r \<noteq> 0"
  proof -
    from that(1) obtain ys zs where split: "me_execution_roots env = ys @ (r, ty) # zs"
      by (auto dest: split_list)
    have "NValue (r, ty) \<in> mark_nodes (mark_value r ty u)" for u by (rule mark_value_nodes [OF that(2)])
    then have "NValue (r, ty) \<in> mark_nodes (fold (\<lambda>(r, ty). mark_value r ty) zs (mark_value r ty u))" for u
      using later_nodes [OF later_values, of _ zs] by blast
    then have "NValue (r, ty) \<in> mark_nodes ?m3" unfolding split by simp
    with later_nodes [OF later_trans [OF l4 l5]] show ?thesis by blast
  qed
  have "NSource ` set (me_source_roots env) \<subseteq> mark_nodes ?m4" by (auto simp: mark_nodes_def)
  with later_nodes [OF l5] have "NSource ` set (me_source_roots env) \<subseteq> mark_nodes m" by blast
  then show "set (me_source_roots env) \<subseteq> mk_sources m" by auto
qed

lemma mark_trace_nodes:
  assumes "mark_trace env roots = Inr m"
  shows "\<exists>m0. mark_roots env roots = Inr m0 \<and>
    mark_nodes m = {n. reached env (me_types env) (mark_nodes m0) n} - range NItem"
proof -
  from assms obtain m0 where m0: "mark_roots env roots = Inr m0" "mark_drain env m0 = Inr m"
    by (auto simp: mark_trace_def rbind_eq_Inr)
  note inv = mark_roots_result(1,2) [OF m0(1)]
  from drain_marks [OF m0(2) inv(1)] inv(2) m0(1) show ?thesis by auto
qed

text \<open>
  C2: Marking computes reachability. When \<open>Mark::trace\<close> returns, it has marked exactly the values,
  objects, storage and sources reachable from what the published roots marked, following every edge
  of every layout on the way: nothing live is missed, and nothing else is kept.
\<close>

theorem mark_trace_exact:
  assumes "mark_trace env roots = Inr m"
  shows "\<exists>m0. mark_roots env roots = Inr m0 \<and>
    mk_values m = {v. reached env (me_types env) (mark_nodes m0) (NValue v)} \<and>
    mk_objects m = {ob. reached env (me_types env) (mark_nodes m0) (NObject ob)} \<and>
    mk_storage m = {r. reached env (me_types env) (mark_nodes m0) (NStorage r)} \<and>
    mk_sources m = {x. reached env (me_types env) (mark_nodes m0) (NSource x)}"
proof -
  from mark_trace_nodes [OF assms] obtain m0 where m0: "mark_roots env roots = Inr m0"
    and nodes: "n \<in> mark_nodes m \<longleftrightarrow> reached env (me_types env) (mark_nodes m0) n \<and> n \<notin> range NItem" for n
    by blast
  from nodes [of "NValue _"] nodes [of "NObject _"] nodes [of "NStorage _"] nodes [of "NSource _"] m0
  show ?thesis by (intro exI [of _ m0]) auto
qed



section \<open>An example memory\<close>

text \<open>
  Type 0 is an array of type 1, a scalar; the value at 2048 holds a single element at 4096. Both
  carry the source in their location word.
\<close>

definition example_words :: "(u32 \<times> u32) list" where
  "example_words =
     [(1024, 4), (1028, 24), (1044, 64), (1048, 1), (1056, 0), (1060, 24), (1088, 1),
      (2052, 1835008), (2056, 4096), (2064, 1), (2068, 1), (4100, 2359296)]"

definition example_memory :: "u32 \<Rightarrow> u8" where
  "example_memory r =
     (case map_of example_words (r AND NOT 3) of
        None \<Rightarrow> 0
      | Some w \<Rightarrow> ucast (drop_bit (8 * unat (r AND 3)) w))"

definition example_env :: mark_env where
  "example_env =
     \<lparr>me_byte = example_memory, me_types = 1024, me_demands = (0, 0), me_execution_roots = [],
      me_source_roots = []\<rparr>"

definition example_array :: gc_root where
  "example_array = \<lparr>rt_reference = 2048, rt_kind = RValue 0\<rparr>"

definition example_start :: mark where
  "example_start =
     \<lparr>mk_storage = {2048}, mk_objects = {}, mk_sources = {}, mk_values = {(2048, 0)},
      mk_pending = [value_item (2048, 0)], mk_types = 1024\<rparr>"

definition example_mark :: mark where
  "example_mark =
     \<lparr>mk_storage = {2048, 4096}, mk_objects = {}, mk_sources = {7, 9},
      mk_values = {(2048, 0), (4096, 1)}, mk_pending = [], mk_types = 1024\<rparr>"

lemma example_memory_words:
  "mem_u32 example_env 64 = 0" "mem_u32 example_env 68 = 0" "mem_u32 example_env 80 = 0"
  "mem_u32 example_env 84 = 0" "mem_u32 example_env 96 = 0" "mem_u32 example_env 100 = 0"
  "mem_u32 example_env 112 = 0" "mem_u32 example_env 128 = 0" "mem_u32 example_env 144 = 0"
  "mem_u32 example_env 160 = 0" "mem_u32 example_env 164 = 0"
  "mem_u32 example_env 1024 = 4" "mem_u32 example_env 1044 = 64" "mem_u32 example_env 1048 = 1"
  "mem_u32 example_env 1056 = 0" "mem_u32 example_env 1088 = 1"
  "mem_u32 example_env 2056 = 4096" "mem_u32 example_env 2060 = 0" "mem_u32 example_env 2064 = 1"
  "mem_u32 example_env 2068 = 1"
  "mem_u64 example_env 2048 = 7881299347898368" "mem_u64 example_env 4096 = 10133099161583616"
  by (simp_all add: mem_u32_def mem_u64_def mem_bytes_def example_env_def upt_rec example_memory_def
      example_words_def u32_from_le_def u64_from_le_def)

lemma example_env_fields:
  "me_types example_env = 1024" "me_demands example_env = (0, 0)" "me_execution_roots example_env = []"
  "me_source_roots example_env = []" "u32_upto 7 = [0, 1, 2, 3, 4, 5, 6]" "u32_upto 0 = []"
  by (simp_all add: example_env_def u32_upto_def upt_rec)

lemma rbind_cong_weak: "r = r' \<Longrightarrow> rbind r f = rbind r' f"
  by simp

lemmas example_eval =
  mark_span_def mark_value_def mark_push_def Let_def value_item_def table_tags TABLE_COUNT_def
  table_address_def TABLE_BASE_def TABLE_BYTES_def example_env_fields example_memory_words

lemma example_roots: "mark_roots example_env [example_array] = Inr example_start"
  by (simp add: example_eval mark_roots_def mark_root_def mark_new_def mark_table_def example_array_def
      example_start_def cong: rbind_cong_weak)

lemma example_drain: "mark_drain example_env example_start = Inr example_mark"
  by (simp add: example_eval example_start_def example_mark_def mark_drain.simps scan_item_def t_value_def
      t_data.simps mark_visitor_def mark_edge_def HEADER_BYTES_def t_word_def t_add_def t_mul_def
      t_desc_def ok_or_def checked_add_def checked_mul_def checked_simps ENTRY_BYTES_def KIND_def
      kind_decode_def source_range_unpack_def OFFSET_LIMIT_def OFFSET_BITS_def t_array_def
      ARRAY_SINGLE_def ARRAY_EMPTY_def t_detail_type_def t_indirect_def t_detail_def DETAIL_COUNT_def
      DETAIL_OFFSET_def DETAIL_BYTES_def DETAIL_TYPE_def NO_TYPE_def insert_commute
      cong: rbind_cong_weak)

lemma example_trace: "mark_trace example_env [example_array] = Inr example_mark"
  by (simp add: mark_trace_def example_roots example_drain)

theorem mark_trace_exact_witness:
  "{x. reached example_env 1024 (mark_nodes example_start) (NSource x)} = {7, 9}"
  using mark_trace_exact [OF example_trace]
  by (auto simp: example_roots example_mark_def example_env_fields)


end
