(* ===== verification/Mark_Sweep.thy ===== *)
theory Mark_Sweep
  imports Telora_Prelude
begin

text \<open>
  The contract between a collector and the heap it collects: marking adds the block that owns a
  reference, sweeping keeps exactly the marked blocks and releases the others. What it gives: one
  collection keeps exactly the blocks some traced reference points into.
\<close>

locale mark_sweep =
  fixes inv :: "'h \<Rightarrow> bool"
    and blocks :: "'h \<Rightarrow> 'b set"
    and marked :: "'h \<Rightarrow> 'b set"
    and owns :: "'b \<Rightarrow> nat \<Rightarrow> bool"
    and mark :: "nat \<Rightarrow> 'h \<Rightarrow> 'e + 'h"
    and sweep :: "'h \<Rightarrow> 'b list \<times> 'h"
  assumes mark_inv: "inv h \<Longrightarrow> mark r h = Inr h' \<Longrightarrow> inv h'"
    and mark_blocks: "inv h \<Longrightarrow> mark r h = Inr h' \<Longrightarrow> blocks h' = blocks h"
    and mark_marked: "inv h \<Longrightarrow> mark r h = Inr h' \<Longrightarrow>
      marked h' = marked h \<union> {b \<in> blocks h. owns b r}"
    and mark_owned: "inv h \<Longrightarrow> (\<exists>h'. mark r h = Inr h') \<longleftrightarrow> (\<exists>b \<in> blocks h. owns b r)"
    and marked_blocks: "inv h \<Longrightarrow> marked h \<subseteq> blocks h"
    and sweep_inv: "inv h \<Longrightarrow> inv (snd (sweep h))"
    and sweep_blocks: "inv h \<Longrightarrow> blocks (snd (sweep h)) = marked h"
    and sweep_marked: "inv h \<Longrightarrow> marked (snd (sweep h)) = {}"
    and sweep_freed: "inv h \<Longrightarrow> set (fst (sweep h)) = blocks h - marked h"
begin

lemma marks_result:
  assumes "inv h" and "foldm mark rs h = Inr h'"
  shows "inv h'" and "blocks h' = blocks h"
    and "marked h' = marked h \<union> {b \<in> blocks h. \<exists>r \<in> set rs. owns b r}"
proof -
  have "inv h' \<and> blocks h' = blocks h \<and>
      marked h' = marked h \<union> {b \<in> blocks h. \<exists>r \<in> set rs. owns b r}"
    using assms
  proof (induction rs arbitrary: h)
    case (Cons r rs)
    then obtain t where t: "mark r h = Inr t" "foldm mark rs t = Inr h'"
      by (auto simp: rbind_eq_Inr)
    from Cons.IH [OF mark_inv [OF Cons.prems(1) t(1)] t(2)] show ?case
      using mark_blocks [OF Cons.prems(1) t(1)] mark_marked [OF Cons.prems(1) t(1)] by auto
  qed auto
  then show "inv h'" and "blocks h' = blocks h"
    and "marked h' = marked h \<union> {b \<in> blocks h. \<exists>r \<in> set rs. owns b r}" by auto
qed

lemma marks_total:
  assumes "inv h"
  shows "(\<exists>h'. foldm mark rs h = Inr h') \<longleftrightarrow> (\<forall>r \<in> set rs. \<exists>b \<in> blocks h. owns b r)"
  using assms
proof (induction rs arbitrary: h)
  case (Cons r rs)
  show ?case
  proof (cases "mark r h")
    case (Inl e)
    with mark_owned [OF Cons.prems, of r] show ?thesis by auto
  next
    case (Inr t)
    with mark_owned [OF Cons.prems, of r] Cons.IH [OF mark_inv [OF Cons.prems Inr]]
      mark_blocks [OF Cons.prems Inr]
    show ?thesis by auto
  qed
qed simp

text \<open>One collection of a heap without marks.\<close>

lemma collection:
  assumes "inv h" and "marked h = {}" and "foldm mark rs h = Inr h'"
  shows "inv (snd (sweep h'))" and "marked (snd (sweep h')) = {}"
    and "blocks (snd (sweep h')) = {b \<in> blocks h. \<exists>r \<in> set rs. owns b r}"
    and "set (fst (sweep h')) = {b \<in> blocks h. \<forall>r \<in> set rs. \<not> owns b r}"
  using marks_result [OF assms(1,3)] assms(2) sweep_inv sweep_marked sweep_blocks sweep_freed
  by auto

end

end
