(* ===== verification/Direct_Heap.thy ===== *)
theory Direct_Heap
  imports Mark_Sweep "HOL-Library.Multiset"
begin

text \<open>
  The registry of individually allocated blocks with marks, sweep and budgets,
  \<^verbatim>\<open>crates/telora-wasm-shared/src/direct_heap.rs\<close>. The default allocator and the growth of the
  registry vector are not in the repository: the pointer \<open>alloc_zeroed\<close> returns and the capacity
  after a successful \<open>try_reserve_exact\<close> are arguments, as is the byte width of a registry entry.
  Sizes are \<open>usize\<close> values of the wasm32 runtime.
\<close>

section \<open>Model\<close>

datatype heap_error = HeapOverflow | HeapLimit | HeapAllocation | HeapInvalidReference

record block =
  bl_address :: nat
  bl_bytes :: nat
  bl_descriptor :: u32

record heap_usage =
  us_allocated :: nat
  us_storage :: nat
  us_metadata :: nat
  us_objects :: nat

record allocation =
  al_pointer :: nat
  al_size :: nat
  al_bytes :: nat
  al_descriptor :: u32
  al_marked :: bool

definition al_block :: "allocation \<Rightarrow> block" where
  "al_block a = \<lparr>bl_address = al_pointer a, bl_bytes = al_bytes a, bl_descriptor = al_descriptor a\<rparr>"

record heap =
  hp_allocations :: "allocation list"
  hp_capacity :: nat
  hp_sorted :: bool
  hp_allocated :: nat
  hp_storage :: nat
  hp_limit :: nat

definition heap_new :: "nat \<Rightarrow> heap" where
  "heap_new limit =
     \<lparr>hp_allocations = [], hp_capacity = 0, hp_sorted = True, hp_allocated = 0, hp_storage = 0,
      hp_limit = limit\<rparr>"

definition heap_usage :: "nat \<Rightarrow> heap \<Rightarrow> heap_usage" where
  "heap_usage width h =
     \<lparr>us_allocated = hp_allocated h, us_storage = hp_storage h,
      us_metadata = hp_capacity h * width, us_objects = length (hp_allocations h)\<rparr>"

definition heap_set_limit :: "nat \<Rightarrow> nat \<Rightarrow> heap \<Rightarrow> heap_error + heap" where
  "heap_set_limit width limit h =
     rbind (ok_or (checked_add_usize (hp_storage h) (us_metadata (heap_usage width h))) HeapOverflow)
       (\<lambda>used. if used > limit then Inl HeapLimit else Inr (h\<lparr>hp_limit := limit\<rparr>))"

definition isize_max :: nat where
  "isize_max = 2147483647"

text \<open>\<open>Layout::from_size_align(bytes, 8)\<close> followed by \<open>pad_to_align\<close>: the padded size.\<close>

definition layout_size :: "nat \<Rightarrow> nat option" where
  "layout_size bytes = (let padded = (bytes + 7) div 8 * 8 in if padded > isize_max then None else Some padded)"

text \<open>
  The reservation target of a full registry, and the outcome of a registration: an error, or the
  capacity afterwards.
\<close>

definition growth_target :: "nat \<Rightarrow> nat \<Rightarrow> nat" where
  "growth_target capacity available =
     min (max (min (capacity + max (capacity div 2) 4) usize_max) (capacity + 1)) available"

definition reserve_registration :: "nat \<Rightarrow> (nat \<Rightarrow> nat option) \<Rightarrow> nat \<Rightarrow> heap \<Rightarrow> (heap_error + unit) \<times> heap" where
  "reserve_registration width reserve storage h =
     (case checked_sub_usize (hp_limit h) storage of
        None \<Rightarrow> (Inl HeapLimit, h)
      | Some room \<Rightarrow>
          let capacity = hp_capacity h; available = room div width in
          if capacity > available then (Inl HeapLimit, h)
          else if length (hp_allocations h) = capacity then
            (case checked_add_usize capacity 1 of
               None \<Rightarrow> (Inl HeapOverflow, h)
             | Some required \<Rightarrow>
                 if required > available then (Inl HeapLimit, h)
                 else (case reserve (growth_target capacity available) of
                     None \<Rightarrow> (Inl HeapAllocation, h)
                   | Some capacity' \<Rightarrow>
                       (if capacity' > available then Inl HeapLimit else Inr (),
                        h\<lparr>hp_capacity := capacity'\<rparr>)))
          else (Inr (), h))"

definition heap_allocate ::
  "nat \<Rightarrow> (nat \<Rightarrow> nat option) \<Rightarrow> nat option \<Rightarrow> nat \<Rightarrow> u32 \<Rightarrow> heap \<Rightarrow> (heap_error + nat) \<times> heap" where
  "heap_allocate width reserve pointer bytes descriptor h =
     (let bytes = max bytes 1 in
      case layout_size bytes of
        None \<Rightarrow> (Inl HeapOverflow, h)
      | Some padded \<Rightarrow>
          (case checked_add_usize (hp_storage h) padded of
             None \<Rightarrow> (Inl HeapOverflow, h)
           | Some storage \<Rightarrow>
               (case reserve_registration width reserve storage h of
                  (Inl e, h) \<Rightarrow> (Inl e, h)
                | (Inr _, h) \<Rightarrow>
                    (case pointer of
                       None \<Rightarrow> (Inl HeapAllocation, h)
                     | Some address \<Rightarrow>
                         (Inr address,
                          h\<lparr>hp_allocations := hp_allocations h @
                              [\<lparr>al_pointer = address, al_size = padded, al_bytes = bytes,
                                al_descriptor = descriptor, al_marked = False\<rparr>],
                            hp_storage := storage, hp_allocated := hp_allocated h + bytes,
                            hp_sorted := False\<rparr>)))))"

text \<open>
  \<open>index\<close>: sort if needed, then the last entry at or below the address, which must contain it.
  The sort leaves the registry sorted for later calls, also when the lookup fails.
\<close>

definition heap_index :: "nat \<Rightarrow> heap \<Rightarrow> (heap_error + nat) \<times> heap" where
  "heap_index address h =
     (let h = (if hp_sorted h then h
               else h\<lparr>hp_allocations := sort_key al_pointer (hp_allocations h), hp_sorted := True\<rparr>);
          point = length (takeWhile (\<lambda>a. al_pointer a \<le> address) (hp_allocations h))
      in (rbind (ok_or (checked_sub_usize point 1) HeapInvalidReference) (\<lambda>index.
            let a = hp_allocations h ! index
            in if address - al_pointer a \<ge> al_bytes a then Inl HeapInvalidReference else Inr index),
          h))"

definition heap_block :: "nat \<Rightarrow> heap \<Rightarrow> (heap_error + block) \<times> heap" where
  "heap_block address h =
     (case heap_index address h of
        (r, h) \<Rightarrow> (rbind r (\<lambda>index. Inr (al_block (hp_allocations h ! index))), h))"

definition heap_mark :: "nat \<Rightarrow> heap \<Rightarrow> (heap_error + block option) \<times> heap" where
  "heap_mark address h =
     (case heap_index address h of
        (Inl e, h) \<Rightarrow> (Inl e, h)
      | (Inr index, h) \<Rightarrow>
          let a = hp_allocations h ! index in
          if al_marked a then (Inr None, h)
          else (Inr (Some (al_block a)),
                h\<lparr>hp_allocations := (hp_allocations h)[index := a\<lparr>al_marked := True\<rparr>]\<rparr>))"

text \<open>\<open>sweep\<close> returns the blocks it hands to the release callback, in order.\<close>

fun retain_marked :: "allocation list \<Rightarrow> nat \<Rightarrow> nat \<Rightarrow> allocation list \<times> block list \<times> nat \<times> nat" where
  "retain_marked [] allocated storage = ([], [], allocated, storage)"
| "retain_marked (a # as) allocated storage =
     (if al_marked a then
        (case retain_marked as allocated storage of
           (kept, freed, m, n) \<Rightarrow> (a\<lparr>al_marked := False\<rparr> # kept, freed, m, n))
      else
        (case retain_marked as (allocated - al_bytes a) (storage - al_size a) of
           (kept, freed, m, n) \<Rightarrow> (kept, al_block a # freed, m, n)))"

definition heap_sweep :: "heap \<Rightarrow> block list \<times> heap" where
  "heap_sweep h =
     (case retain_marked (hp_allocations h) (hp_allocated h) (hp_storage h) of
        (kept, freed, allocated, storage) \<Rightarrow>
          (freed, h\<lparr>hp_allocations := kept, hp_allocated := allocated, hp_storage := storage\<rparr>))"

text \<open>
  \<open>bytes\<close> and \<open>bytes_mut\<close>: the checked span a slice is made from, as its pointer and length.
\<close>

definition heap_bytes :: "nat \<Rightarrow> nat \<Rightarrow> heap \<Rightarrow> (heap_error + (nat \<times> nat)) \<times> heap" where
  "heap_bytes address len h =
     (case heap_index address h of
        (r, h) \<Rightarrow>
          (rbind r (\<lambda>index.
             let a = hp_allocations h ! index; offset = address - al_pointer a in
             rbind (ok_or (checked_add_usize offset len) HeapOverflow) (\<lambda>end.
               if end > al_bytes a then Inl HeapInvalidReference
               else Inr (al_pointer a + offset, len))), h))"

section \<open>Invariant\<close>

definition al_ok :: "allocation \<Rightarrow> bool" where
  "al_ok a \<longleftrightarrow> 0 < al_bytes a \<and> layout_size (al_bytes a) = Some (al_size a)"

definition heap_inv :: "heap \<Rightarrow> bool" where
  "heap_inv h \<longleftrightarrow>
     (\<forall>a \<in> set (hp_allocations h). al_ok a) \<and>
     distinct (map al_pointer (hp_allocations h)) \<and>
     (\<forall>a \<in> set (hp_allocations h). \<forall>b \<in> set (hp_allocations h).
        al_pointer a < al_pointer b \<longrightarrow> al_pointer a + al_size a \<le> al_pointer b) \<and>
     (hp_sorted h \<longrightarrow> sorted (map al_pointer (hp_allocations h))) \<and>
     hp_allocated h = sum_list (map al_bytes (hp_allocations h)) \<and>
     hp_storage h = sum_list (map al_size (hp_allocations h)) \<and>
     length (hp_allocations h) \<le> hp_capacity h"

definition covers :: "nat \<Rightarrow> block \<Rightarrow> bool" where
  "covers address b \<longleftrightarrow> bl_address b \<le> address \<and> address < bl_address b + bl_bytes b"

definition heap_blocks :: "heap \<Rightarrow> block set" where
  "heap_blocks h = al_block ` set (hp_allocations h)"

definition heap_marked :: "heap \<Rightarrow> block set" where
  "heap_marked h = al_block ` {a \<in> set (hp_allocations h). al_marked a}"

lemma al_ok_size: "al_ok a \<Longrightarrow> 0 < al_bytes a \<and> al_bytes a \<le> al_size a"
  by (auto simp: al_ok_def layout_size_def Let_def split: if_splits)

lemma block_simps [simp]:
  "bl_address (al_block a) = al_pointer a" "bl_bytes (al_block a) = al_bytes a"
  "bl_descriptor (al_block a) = al_descriptor a"
  "al_block (a\<lparr>al_marked := m\<rparr>) = al_block a"
  by (simp_all add: al_block_def)

lemma covers_unique:
  assumes "heap_inv h" and "a \<in> set (hp_allocations h)" and "b \<in> set (hp_allocations h)"
    and "covers x (al_block a)" and "covers x (al_block b)"
  shows "a = b"
proof -
  have "al_pointer a = al_pointer b"
    using assms al_ok_size [of a] al_ok_size [of b]
    by (cases "al_pointer a" "al_pointer b" rule: linorder_cases)
      (fastforce simp: heap_inv_def covers_def)+
  with assms show ?thesis
    by (auto simp: heap_inv_def distinct_map dest: inj_onD)
qed

definition heap_sorted :: "heap \<Rightarrow> heap" where
  "heap_sorted h =
     (if hp_sorted h then h
      else h\<lparr>hp_allocations := sort_key al_pointer (hp_allocations h), hp_sorted := True\<rparr>)"

lemma heap_sorted_inv:
  assumes "heap_inv h"
  shows "heap_inv (heap_sorted h)" and "set (hp_allocations (heap_sorted h)) = set (hp_allocations h)"
    and "hp_sorted (heap_sorted h)"
proof -
  have "mset (map f (sort_key al_pointer xs)) = mset (map f xs)" for f :: "allocation \<Rightarrow> nat" and xs
    by simp
  then have "sum_list (map f (sort_key al_pointer xs)) = sum_list (map f xs)"
    and "distinct (map f (sort_key al_pointer xs)) = distinct (map f xs)"
    for f :: "allocation \<Rightarrow> nat" and xs
    by (metis sum_mset_sum_list, metis mset_eq_imp_distinct_iff)
  then show "heap_inv (heap_sorted h)"
    using assms by (simp add: heap_inv_def heap_sorted_def)
qed (simp_all add: heap_sorted_def)

lemma heap_index_state: "snd (heap_index x h) = heap_sorted h"
  by (simp add: heap_index_def heap_sorted_def Let_def)

lemma heap_index_sound:
  assumes "heap_inv h" and "heap_index x h = (Inr i, h')"
  shows "i < length (hp_allocations h')" and "covers x (al_block (hp_allocations h' ! i))"
proof -
  let ?xs = "hp_allocations (heap_sorted h)"
  let ?n = "length (takeWhile (\<lambda>a. al_pointer a \<le> x) ?xs)"
  from assms(2) heap_index_state [of x h] have h': "h' = heap_sorted h" by simp
  from assms(2) have i: "?n \<ge> 1" "i = ?n - 1" "x - al_pointer (?xs ! i) < al_bytes (?xs ! i)"
    by (auto simp: heap_index_def heap_sorted_def [symmetric] Let_def result_simps checked_simps
        split: if_splits)
  have sorted: "sorted (map al_pointer ?xs)"
    using heap_sorted_inv [OF assms(1)] by (simp add: heap_inv_def)
  have "?n \<le> length ?xs" by (rule length_takeWhile_le)
  with i h' show len: "i < length (hp_allocations h')" by simp
  with i takeWhile_partition [OF sorted, of i x] h' have "al_pointer (?xs ! i) \<le> x" by simp
  with i h' show "covers x (al_block (hp_allocations h' ! i))" by (auto simp: covers_def)
qed

lemma heap_index_complete:
  assumes "heap_inv h" and "a \<in> set (hp_allocations h)" and "covers x (al_block a)"
  shows "\<exists>i. heap_index x h = (Inr i, heap_sorted h) \<and> i < length (hp_allocations (heap_sorted h)) \<and>
    hp_allocations (heap_sorted h) ! i = a"
proof -
  let ?xs = "hp_allocations (heap_sorted h)"
  let ?n = "length (takeWhile (\<lambda>a. al_pointer a \<le> x) ?xs)"
  note inv = heap_sorted_inv [OF assms(1)]
  have sorted: "sorted (map al_pointer ?xs)" using inv by (simp add: heap_inv_def)
  note part = takeWhile_partition [OF sorted, of _ x]
  from assms(2) inv have "a \<in> set ?xs" by simp
  then obtain j where j: "j < length ?xs" "?xs ! j = a"
    by (auto simp: in_set_conv_nth)
  with part [of j] assms(3) have "j < ?n" by (auto simp: covers_def)
  have "j = ?n - 1"
  proof (rule ccontr)
    let ?b = "?xs ! (?n - 1)"
    assume "j \<noteq> ?n - 1"
    with \<open>j < ?n\<close> have lt: "j < ?n - 1" "?n - 1 < length ?xs" using length_takeWhile_le [of "\<lambda>a. al_pointer a \<le> x" ?xs] by linarith+
    then have "al_pointer a \<le> al_pointer ?b"
      using sorted_nth_mono [OF sorted, of j "?n - 1"] j by simp
    moreover have "al_pointer a \<noteq> al_pointer ?b"
      using inv(1) lt j nth_eq_iff_index_eq [of "map al_pointer ?xs" j "?n - 1"]
      by (auto simp: heap_inv_def)
    ultimately have "al_pointer a + al_size a \<le> al_pointer ?b"
      using inv(1) lt j by (auto simp: heap_inv_def)
    moreover have "al_pointer ?b \<le> x" using part [of "?n - 1"] lt by simp
    moreover have "al_ok a" using assms by (simp add: heap_inv_def)
    ultimately show False using assms(3) al_ok_size [of a] by (auto simp: covers_def)
  qed
  with j \<open>j < ?n\<close> have "?n \<ge> 1" "?xs ! (?n - 1) = a" by auto
  then have "heap_index x h = (Inr (?n - 1), heap_sorted h)"
    using assms(3)
    by (auto simp: heap_index_def heap_sorted_def [symmetric] Let_def checked_sub_usize_def covers_def)
  with j \<open>j = ?n - 1\<close> show ?thesis by auto
qed

lemma heap_index_error: "heap_index x h = (Inl e, h') \<Longrightarrow> e = HeapInvalidReference \<and> h' = heap_sorted h"
  using heap_index_state [of x h]
  by (auto simp: heap_index_def Let_def result_simps split: if_splits)

section \<open>Lookup\<close>

lemma heap_sorted_blocks:
  assumes "heap_inv h"
  shows "heap_blocks (heap_sorted h) = heap_blocks h" and "heap_marked (heap_sorted h) = heap_marked h"
  using heap_sorted_inv(2) [OF assms] by (simp_all add: heap_blocks_def heap_marked_def)

lemma heap_index_eq: "heap_index x h = (fst (heap_index x h), heap_sorted h)"
  using heap_index_state [of x h] by (metis prod.collapse)

lemma heap_index_none:
  assumes "heap_inv h" and "\<forall>b \<in> heap_blocks h. \<not> covers x b"
  shows "heap_index x h = (Inl HeapInvalidReference, heap_sorted h)"
proof (cases "fst (heap_index x h)")
  case (Inl e)
  with heap_index_eq [of x h] have "heap_index x h = (Inl e, heap_sorted h)" by simp
  with heap_index_error [OF this] show ?thesis by simp
next
  case (Inr i)
  with heap_index_eq [of x h] have i: "heap_index x h = (Inr i, heap_sorted h)" by simp
  from heap_index_sound [OF assms(1) i] heap_sorted_inv(2) [OF assms(1)] assms(2) show ?thesis
    by (auto simp: heap_blocks_def)
qed

text \<open>
  C26: A reference resolves to the live block that contains it, interior references included, and to
  nothing else: the sort and binary search of the registry implement the lookup in the set of
  blocks, and the lookup changes neither blocks nor marks.
\<close>

theorem heap_block_lookup:
  assumes "heap_inv h"
  shows "(fst (heap_block x h) = Inr b \<longleftrightarrow> b \<in> heap_blocks h \<and> covers x b) \<and>
    (fst (heap_block x h) = Inl e \<longleftrightarrow>
      e = HeapInvalidReference \<and> (\<forall>b \<in> heap_blocks h. \<not> covers x b)) \<and>
    heap_blocks (snd (heap_block x h)) = heap_blocks h \<and>
    heap_marked (snd (heap_block x h)) = heap_marked h \<and> heap_inv (snd (heap_block x h))"
proof (cases "\<exists>a \<in> set (hp_allocations h). covers x (al_block a)")
  case True
  then obtain a where a: "a \<in> set (hp_allocations h)" "covers x (al_block a)" by blast
  then have "heap_block x h = (Inr (al_block a), heap_sorted h)"
    using heap_index_complete [OF assms] by (fastforce simp: heap_block_def)
  moreover have "b \<in> heap_blocks h \<and> covers x b \<longleftrightarrow> b = al_block a" for b
    using a covers_unique [OF assms] by (auto simp: heap_blocks_def)
  ultimately show ?thesis
    using heap_sorted_blocks [OF assms] heap_sorted_inv [OF assms] by auto
next
  case False
  then have "\<forall>b \<in> heap_blocks h. \<not> covers x b" by (simp add: heap_blocks_def)
  then show ?thesis
    using heap_index_none [OF assms] heap_sorted_blocks [OF assms] heap_sorted_inv [OF assms]
    by (auto simp: heap_block_def)
qed

section \<open>Marking and sweeping\<close>

lemma heap_same [simp]: "h\<lparr>hp_allocations := hp_allocations h\<rparr> = h"
  by (cases h) simp

lemma heap_mark_Inr:
  assumes "heap_inv h" and "heap_mark x h = (Inr m, h')"
  obtains i where "i < length (hp_allocations (heap_sorted h))"
    and "covers x (al_block (hp_allocations (heap_sorted h) ! i))"
    and "h' = (heap_sorted h)\<lparr>hp_allocations := (hp_allocations (heap_sorted h))
      [i := (hp_allocations (heap_sorted h) ! i)\<lparr>al_marked := True\<rparr>]\<rparr>"
    and "m = (if al_marked (hp_allocations (heap_sorted h) ! i) then None
              else Some (al_block (hp_allocations (heap_sorted h) ! i)))"
proof -
  let ?h = "heap_sorted h"
  from assms(2) heap_index_eq [of x h] obtain i where i: "heap_index x h = (Inr i, ?h)"
    by (cases "fst (heap_index x h)") (auto simp: heap_mark_def)
  note at = heap_index_sound [OF assms(1) i]
  show ?thesis
  proof (cases "al_marked (hp_allocations ?h ! i)")
    case True
    then have "(hp_allocations ?h ! i)\<lparr>al_marked := True\<rparr> = hp_allocations ?h ! i"
      by (cases "hp_allocations ?h ! i") simp
    moreover from True assms(2) i have "h' = ?h" "m = None" by (simp_all add: heap_mark_def)
    ultimately have "h' = ?h\<lparr>hp_allocations := (hp_allocations ?h)
        [i := (hp_allocations ?h ! i)\<lparr>al_marked := True\<rparr>]\<rparr>"
      by simp
    with True \<open>m = None\<close> that at show ?thesis by simp
  next
    case False
    with assms(2) i that at show ?thesis by (auto simp: heap_mark_def Let_def)
  qed
qed

lemma mark_update_inv:
  assumes "heap_inv h" and "i < length (hp_allocations h)"
  shows "heap_inv (h\<lparr>hp_allocations := (hp_allocations h)[i := (hp_allocations h ! i)\<lparr>al_marked := m\<rparr>]\<rparr>)"
proof -
  let ?xs = "hp_allocations h"
  let ?a = "(?xs ! i)\<lparr>al_marked := m\<rparr>"
  have same: "map f (?xs[i := ?a]) = map f ?xs" if "f ?a = f (?xs ! i)" for f :: "allocation \<Rightarrow> nat"
    using that assms(2) by (metis list_update_id map_update)
  have ok: "\<forall>a \<in> set (?xs[i := ?a]). \<exists>b \<in> set ?xs. al_pointer a = al_pointer b \<and>
      al_size a = al_size b \<and> al_bytes a = al_bytes b"
    using assms(2) set_update_subset_insert [of ?xs i ?a] by fastforce
  show ?thesis unfolding heap_inv_def
  proof (intro conjI ballI impI, goal_cases)
    case (1 a)
    with ok assms(1) show ?case by (fastforce simp: heap_inv_def al_ok_def)
  next
    case (3 a b)
    then have "a \<in> set (?xs[i := ?a])" "b \<in> set (?xs[i := ?a])" by simp_all
    with ok obtain a' b' where "a' \<in> set ?xs" "b' \<in> set ?xs" "al_pointer a = al_pointer a'"
      "al_size a = al_size a'" "al_pointer b = al_pointer b'" by metis
    with 3 assms(1) show ?case by (simp add: heap_inv_def)
  qed (use assms(1) in \<open>simp_all add: heap_inv_def same\<close>)
qed

lemma mark_update_blocks:
  assumes "i < length (hp_allocations h)"
  defines "h' \<equiv> h\<lparr>hp_allocations := (hp_allocations h)[i := (hp_allocations h ! i)\<lparr>al_marked := True\<rparr>]\<rparr>"
  shows "heap_blocks h' = heap_blocks h"
    and "heap_marked h' = insert (al_block (hp_allocations h ! i)) (heap_marked h)"
proof -
  let ?xs = "hp_allocations h"
  have at: "h' = h\<lparr>hp_allocations := take i ?xs @ (?xs ! i)\<lparr>al_marked := True\<rparr> # drop (Suc i) ?xs\<rparr>"
    using assms by (simp add: upd_conv_take_nth_drop)
  have xs: "set ?xs = set (take i ?xs @ ?xs ! i # drop (Suc i) ?xs)"
    using assms(1) by (simp flip: id_take_nth_drop)
  show "heap_blocks h' = heap_blocks h" unfolding heap_blocks_def xs by (simp add: at)
  show "heap_marked h' = insert (al_block (?xs ! i)) (heap_marked h)"
    unfolding heap_marked_def xs
    by (auto simp: at intro: rev_image_eqI [where x = "(?xs ! i)\<lparr>al_marked := True\<rparr>"])
qed

lemma retain_marked_result:
  assumes "\<forall>a \<in> set as. al_ok a"
    and "allocated = sum_list (map al_bytes as) + r" and "storage = sum_list (map al_size as) + q"
  shows "retain_marked as allocated storage =
    (map (\<lambda>a. a\<lparr>al_marked := False\<rparr>) (filter al_marked as),
     map al_block (filter (\<lambda>a. \<not> al_marked a) as),
     sum_list (map al_bytes (filter al_marked as)) + r,
     sum_list (map al_size (filter al_marked as)) + q)"
  using assms
proof (induction as arbitrary: allocated storage r q)
  case (Cons a as)
  then have IH: "retain_marked as (sum_list (map al_bytes as) + r) (sum_list (map al_size as) + q) =
    (map (\<lambda>a. a\<lparr>al_marked := False\<rparr>) (filter al_marked as),
     map al_block (filter (\<lambda>a. \<not> al_marked a) as),
     sum_list (map al_bytes (filter al_marked as)) + r,
     sum_list (map al_size (filter al_marked as)) + q)" for r q by simp
  show ?case
  proof (cases "al_marked a")
    case True
    then show ?thesis using IH [of "al_bytes a + r" "al_size a + q"] Cons.prems
      by (simp add: ac_simps)
  next
    case False
    then show ?thesis using IH [of r q] Cons.prems by (simp add: ac_simps)
  qed
qed simp

lemma heap_sweep_result:
  assumes "heap_inv h"
  shows "heap_sweep h =
    (map al_block (filter (\<lambda>a. \<not> al_marked a) (hp_allocations h)),
     h\<lparr>hp_allocations := map (\<lambda>a. a\<lparr>al_marked := False\<rparr>) (filter al_marked (hp_allocations h)),
       hp_allocated := sum_list (map al_bytes (filter al_marked (hp_allocations h))),
       hp_storage := sum_list (map al_size (filter al_marked (hp_allocations h)))\<rparr>)"
  using assms retain_marked_result [of "hp_allocations h" "hp_allocated h" 0 "hp_storage h" 0]
  by (simp add: heap_sweep_def heap_inv_def)

lemma sweep_heap_inv:
  assumes "heap_inv h"
  shows "heap_inv (snd (heap_sweep h))"
proof -
  let ?kept = "filter al_marked (hp_allocations h)"
  let ?new = "map (\<lambda>a. a\<lparr>al_marked := False\<rparr>) ?kept"
  have fields: "map al_pointer ?new = map al_pointer ?kept" "map al_bytes ?new = map al_bytes ?kept"
    "map al_size ?new = map al_size ?kept" by simp_all
  have "length ?kept \<le> hp_capacity h"
    using assms length_filter_le [of al_marked "hp_allocations h"] unfolding heap_inv_def by linarith
  moreover have "distinct (map al_pointer ?kept)"
    using assms by (simp add: heap_inv_def distinct_map_filter)
  moreover have "hp_sorted h \<Longrightarrow> sorted (map al_pointer ?kept)"
    using assms by (simp add: heap_inv_def sorted_filter)
  ultimately show ?thesis
    unfolding heap_sweep_result [OF assms] heap_inv_def
    using assms by (simp add: fields del: map_map) (simp add: heap_inv_def al_ok_def)
qed

text \<open>A mark as the collector uses it: the registry afterwards, or the error.\<close>

definition heap_mark_step :: "nat \<Rightarrow> heap \<Rightarrow> heap_error + heap" where
  "heap_mark_step x h = (case heap_mark x h of (Inl e, _) \<Rightarrow> Inl e | (Inr _, h') \<Rightarrow> Inr h')"

lemma heap_mark_step_Inr:
  assumes "heap_inv h" and "heap_mark_step x h = Inr h'"
  shows "heap_inv h'" and "heap_blocks h' = heap_blocks h"
    and "heap_marked h' = heap_marked h \<union> {b \<in> heap_blocks h. covers x b}"
proof -
  let ?s = "heap_sorted h"
  from assms(2) obtain m where "heap_mark x h = (Inr m, h')"
    by (auto simp: heap_mark_step_def split: prod.splits sum.splits)
  with assms(1) obtain i where i: "i < length (hp_allocations ?s)"
    and cov: "covers x (al_block (hp_allocations ?s ! i))"
    and h': "h' = ?s\<lparr>hp_allocations := (hp_allocations ?s)
      [i := (hp_allocations ?s ! i)\<lparr>al_marked := True\<rparr>]\<rparr>"
    by (auto elim: heap_mark_Inr)
  note sorted = heap_sorted_inv [OF assms(1)] heap_sorted_blocks [OF assms(1)]
  show "heap_inv h'" using mark_update_inv [OF sorted(1) i] h' by simp
  show "heap_blocks h' = heap_blocks h" using mark_update_blocks(1) [OF i] h' sorted by simp
  from i sorted(2) have "hp_allocations ?s ! i \<in> set (hp_allocations h)" by (metis nth_mem)
  then have "{b \<in> heap_blocks h. covers x b} = {al_block (hp_allocations ?s ! i)}"
    using cov covers_unique [OF assms(1)] by (auto simp: heap_blocks_def)
  then show "heap_marked h' = heap_marked h \<union> {b \<in> heap_blocks h. covers x b}"
    using mark_update_blocks(2) [OF i] h' sorted by simp
qed

lemma heap_mark_step_owned:
  assumes "heap_inv h"
  shows "(\<exists>h'. heap_mark_step x h = Inr h') \<longleftrightarrow> (\<exists>b \<in> heap_blocks h. covers x b)"
proof (cases "\<exists>b \<in> heap_blocks h. covers x b")
  case True
  then obtain a where "a \<in> set (hp_allocations h)" "covers x (al_block a)"
    by (auto simp: heap_blocks_def)
  with heap_index_complete [OF assms] have "\<exists>h'. heap_mark_step x h = Inr h'"
    by (fastforce simp: heap_mark_step_def heap_mark_def Let_def)
  with True show ?thesis by blast
next
  case False
  with heap_index_none [OF assms] show ?thesis
    by (auto simp: heap_mark_step_def heap_mark_def)
qed

interpretation direct_heap: mark_sweep heap_inv heap_blocks heap_marked "\<lambda>b r. covers r b"
  heap_mark_step heap_sweep
proof unfold_locales
  fix h :: heap
  assume inv: "heap_inv h"
  show "heap_marked h \<subseteq> heap_blocks h" by (auto simp: heap_marked_def heap_blocks_def)
  show "heap_inv (snd (heap_sweep h))" using inv by (rule sweep_heap_inv)
  show "heap_blocks (snd (heap_sweep h)) = heap_marked h"
    by (auto simp: heap_sweep_result [OF inv] heap_blocks_def heap_marked_def image_image)
  show "heap_marked (snd (heap_sweep h)) = {}"
    by (auto simp: heap_sweep_result [OF inv] heap_marked_def)
  have "al_block a \<noteq> al_block b" if "a \<in> set (hp_allocations h)" "b \<in> set (hp_allocations h)"
    "al_marked a" "\<not> al_marked b" for a b
  proof
    assume "al_block a = al_block b"
    then have "al_pointer a = al_pointer b" by (simp add: al_block_def)
    with that inv have "a = b" by (auto simp: heap_inv_def distinct_map dest: inj_onD)
    with that show False by simp
  qed
  then show "set (fst (heap_sweep h)) = heap_blocks h - heap_marked h"
    by (fastforce simp: heap_sweep_result [OF inv] heap_blocks_def heap_marked_def)
qed (fact heap_mark_step_Inr heap_mark_step_owned)+

text \<open>
  C21: One collection keeps exactly the blocks some traced reference points into (interior
  references included), releases all others, clears the marks, and fails only on a reference into
  no live block.
\<close>

theorem heap_collection:
  assumes "heap_inv h" and "heap_marked h = {}"
  shows "((\<exists>h'. foldm heap_mark_step rs h = Inr h') \<longleftrightarrow>
      (\<forall>r \<in> set rs. \<exists>b \<in> heap_blocks h. covers r b)) \<and>
    (\<forall>h'. foldm heap_mark_step rs h = Inr h' \<longrightarrow>
      heap_inv (snd (heap_sweep h')) \<and> heap_marked (snd (heap_sweep h')) = {} \<and>
      heap_blocks (snd (heap_sweep h')) = {b \<in> heap_blocks h. \<exists>r \<in> set rs. covers r b} \<and>
      set (fst (heap_sweep h')) = {b \<in> heap_blocks h. \<forall>r \<in> set rs. \<not> covers r b})"
  using direct_heap.marks_total [OF assms(1)] direct_heap.collection [OF assms] by blast

section \<open>Allocation\<close>

lemma reserve_registration_Inr:
  assumes "reserve_registration w reserve storage h = (Inr u, h')"
  shows "storage \<le> hp_limit h" and "\<exists>c. h' = h\<lparr>hp_capacity := c\<rparr> \<and>
    c \<le> (hp_limit h - storage) div w \<and>
    (c = hp_capacity h \<and> length (hp_allocations h) \<noteq> c \<or>
     reserve (growth_target (hp_capacity h) ((hp_limit h - storage) div w)) = Some c \<and>
     length (hp_allocations h) = hp_capacity h \<and> hp_capacity h < (hp_limit h - storage) div w)"
proof -
  show "storage \<le> hp_limit h"
    using assms by (auto simp: reserve_registration_def checked_simps split: option.splits)
  have "h = h\<lparr>hp_capacity := hp_capacity h\<rparr>" by (cases h) simp
  with assms show "\<exists>c. h' = h\<lparr>hp_capacity := c\<rparr> \<and>
    c \<le> (hp_limit h - storage) div w \<and>
    (c = hp_capacity h \<and> length (hp_allocations h) \<noteq> c \<or>
     reserve (growth_target (hp_capacity h) ((hp_limit h - storage) div w)) = Some c \<and>
     length (hp_allocations h) = hp_capacity h \<and> hp_capacity h < (hp_limit h - storage) div w)"
    by (auto simp: reserve_registration_def checked_simps Let_def split: option.splits if_splits)
qed

text \<open>
  What the code relies on: \<open>try_reserve_exact\<close> gives at least the capacity asked for, and
  \<open>alloc_zeroed\<close> gives storage that overlaps no live block.
\<close>

definition reserves :: "(nat \<Rightarrow> nat option) \<Rightarrow> bool" where
  "reserves reserve \<longleftrightarrow> (\<forall>n c. reserve n = Some c \<longrightarrow> n \<le> c)"

definition fresh_storage :: "nat \<Rightarrow> nat \<Rightarrow> heap \<Rightarrow> bool" where
  "fresh_storage address padded h \<longleftrightarrow>
     (\<forall>a \<in> set (hp_allocations h).
        al_pointer a + al_size a \<le> address \<or> address + padded \<le> al_pointer a)"

lemma growth_target_enough: "c < available \<Longrightarrow> c < growth_target c available"
  by (auto simp: growth_target_def)

lemma heap_allocate_Inr:
  assumes "heap_allocate w reserve pointer bytes descriptor h = (Inr address, h')"
  obtains padded c where "layout_size (max bytes 1) = Some padded" and "pointer = Some address"
    and "hp_storage h + padded \<le> hp_limit h"
    and "c \<le> (hp_limit h - (hp_storage h + padded)) div w"
    and "reserves reserve \<Longrightarrow> length (hp_allocations h) \<le> hp_capacity h \<Longrightarrow>
      length (hp_allocations h) < c"
    and "h' = h\<lparr>hp_capacity := c, hp_allocations := hp_allocations h @
        [\<lparr>al_pointer = address, al_size = padded, al_bytes = max bytes 1,
          al_descriptor = descriptor, al_marked = False\<rparr>],
      hp_storage := hp_storage h + padded, hp_allocated := hp_allocated h + max bytes 1,
      hp_sorted := False\<rparr>"
proof -
  from assms obtain padded t where p: "layout_size (max bytes 1) = Some padded"
    and t: "reserve_registration w reserve (hp_storage h + padded) h = (Inr (), t)"
    and rest: "pointer = Some address" "h' = t\<lparr>hp_allocations := hp_allocations t @
        [\<lparr>al_pointer = address, al_size = padded, al_bytes = max bytes 1,
          al_descriptor = descriptor, al_marked = False\<rparr>],
      hp_storage := hp_storage h + padded, hp_allocated := hp_allocated t + max bytes 1,
      hp_sorted := False\<rparr>"
    by (auto simp: heap_allocate_def Let_def checked_simps
        split: option.splits prod.splits sum.splits)
  note reg = reserve_registration_Inr [OF t]
  from reg(2) obtain c where c: "t = h\<lparr>hp_capacity := c\<rparr>"
    "c \<le> (hp_limit h - (hp_storage h + padded)) div w"
    "c = hp_capacity h \<and> length (hp_allocations h) \<noteq> c \<or>
     reserve (growth_target (hp_capacity h) ((hp_limit h - (hp_storage h + padded)) div w)) = Some c \<and>
     length (hp_allocations h) = hp_capacity h \<and>
     hp_capacity h < (hp_limit h - (hp_storage h + padded)) div w"
    by blast
  have "length (hp_allocations h) < c"
    if "reserves reserve" "length (hp_allocations h) \<le> hp_capacity h"
    using c(3) that growth_target_enough unfolding reserves_def by fastforce
  with that p rest reg(1) c show ?thesis by simp
qed

text \<open>
  C32: A successful allocation adds one unmarked block of the requested size at the address it
  returns, keeps every other block and mark, and keeps storage and registry together within the
  budget; the registry stays consistent.
\<close>

theorem heap_allocation:
  assumes "heap_inv h" and "heap_allocate w reserve pointer bytes descriptor h = (Inr address, h')"
    and "reserves reserve" and "0 < w"
    and "\<forall>padded. layout_size (max bytes 1) = Some padded \<longrightarrow> fresh_storage address padded h"
  shows "heap_inv h' \<and>
    heap_blocks h' = insert \<lparr>bl_address = address, bl_bytes = max bytes 1, bl_descriptor = descriptor\<rparr>
      (heap_blocks h) \<and>
    (\<forall>b \<in> heap_blocks h. \<not> covers address b) \<and>
    heap_marked h' = heap_marked h \<and>
    us_storage (heap_usage w h') + us_metadata (heap_usage w h') \<le> hp_limit h"
  using assms(2)
proof (cases rule: heap_allocate_Inr)
  case (1 padded c)
  let ?a = "\<lparr>al_pointer = address, al_size = padded, al_bytes = max bytes 1,
    al_descriptor = descriptor, al_marked = False\<rparr>"
  have ok: "al_ok ?a" using 1(1) by (simp add: al_ok_def)
  note size = al_ok_size [OF ok, simplified]
  have apart: "al_pointer b + al_size b \<le> address \<or> address + padded \<le> al_pointer b"
    "0 < al_bytes b" "al_bytes b \<le> al_size b" if "b \<in> set (hp_allocations h)" for b
    using assms(1,5) 1(1) that al_ok_size [of b] by (auto simp: fresh_storage_def heap_inv_def)
  have "al_pointer b \<noteq> address" if "b \<in> set (hp_allocations h)" for b
    using apart [OF that] size by auto
  then have new: "address \<notin> al_pointer ` set (hp_allocations h)" by blast
  have inv: "heap_inv h'"
    unfolding heap_inv_def
  proof (intro conjI ballI impI, goal_cases)
    case (1 a)
    with assms(1) ok \<open>h' = _\<close> show ?case by (auto simp: heap_inv_def)
  next
    case (3 a b)
    with \<open>h' = _\<close> have "a \<in> set (hp_allocations h) \<or> a = ?a"
      "b \<in> set (hp_allocations h) \<or> b = ?a" by auto
    moreover have ?case if "a \<in> set (hp_allocations h)" "b \<in> set (hp_allocations h)"
      using assms(1) that 3(3) by (simp add: heap_inv_def)
    moreover have ?case if "a \<in> set (hp_allocations h)" "b = ?a"
      using apart [OF that(1)] 3(3) that(2) size by simp
    moreover have ?case if "a = ?a" "b \<in> set (hp_allocations h)"
      using apart [OF that(2)] 3(3) that(1) size by simp
    ultimately show ?case using 3(3) by auto
  next
    case 7
    have "length (hp_allocations h) \<le> hp_capacity h" using assms(1) by (simp add: heap_inv_def)
    with 1(5) assms(3) show ?case using \<open>h' = _\<close> by simp
  qed (use assms(1) new \<open>h' = _\<close> in \<open>simp_all add: heap_inv_def\<close>)
  have "c * w \<le> hp_limit h - (hp_storage h + padded)"
    using 1(4) assms(4) by (simp add: less_eq_div_iff_mult_less_eq)
  with 1(3) have "us_storage (heap_usage w h') + us_metadata (heap_usage w h') \<le> hp_limit h"
    by (simp add: heap_usage_def 1(6))
  moreover have "\<not> covers address b" if "b \<in> heap_blocks h" for b
    using that apart size by (fastforce simp: heap_blocks_def covers_def)
  ultimately show ?thesis
    using inv by (auto simp: heap_blocks_def heap_marked_def 1(6) al_block_def)
qed

section \<open>An example registry\<close>

definition example_heap :: heap where
  "example_heap =
     \<lparr>hp_allocations =
        [\<lparr>al_pointer = 64, al_size = 16, al_bytes = 12, al_descriptor = 1, al_marked = False\<rparr>,
         \<lparr>al_pointer = 16, al_size = 8, al_bytes = 8, al_descriptor = 2, al_marked = False\<rparr>],
      hp_capacity = 4, hp_sorted = False, hp_allocated = 20, hp_storage = 24, hp_limit = 1000\<rparr>"

lemma example_heap_inv: "heap_inv example_heap" "heap_marked example_heap = {}"
  by (auto simp: heap_inv_def example_heap_def al_ok_def layout_size_def isize_max_def heap_marked_def)

theorem heap_block_lookup_witness:
  "fst (heap_block 70 example_heap) = Inr \<lparr>bl_address = 64, bl_bytes = 12, bl_descriptor = 1\<rparr>"
  using heap_block_lookup [OF example_heap_inv(1), of 70 "\<lparr>bl_address = 64, bl_bytes = 12, bl_descriptor = 1\<rparr>"]
  by (simp add: heap_blocks_def example_heap_def al_block_def covers_def)

theorem heap_collection_witness:
  "\<exists>h'. foldm heap_mark_step [70, 66] example_heap = Inr h' \<and>
    heap_blocks (snd (heap_sweep h')) = {\<lparr>bl_address = 64, bl_bytes = 12, bl_descriptor = 1\<rparr>}"
proof -
  note collected = heap_collection [OF example_heap_inv, of "[70, 66]"]
  have "\<forall>r \<in> set [70, 66 :: nat]. \<exists>b \<in> heap_blocks example_heap. covers r b"
    by (simp add: heap_blocks_def example_heap_def al_block_def covers_def)
  with collected obtain h' where h': "foldm heap_mark_step [70, 66] example_heap = Inr h'" by blast
  moreover have "{b \<in> heap_blocks example_heap. \<exists>r \<in> set [70, 66]. covers r b} =
      {\<lparr>bl_address = 64, bl_bytes = 12, bl_descriptor = 1\<rparr>}"
    by (auto simp: heap_blocks_def example_heap_def al_block_def covers_def)
  ultimately show ?thesis using collected by auto
qed

definition example_heap_grown :: heap where
  "example_heap_grown =
     snd (heap_allocate 20 (\<lambda>n. Some n) (Some 128) 5 7 example_heap)"

theorem heap_allocation_witness:
  "heap_inv example_heap_grown \<and> card (heap_blocks example_heap_grown) = 3"
proof -
  have step: "heap_allocate 20 (\<lambda>n. Some n) (Some 128) 5 7 example_heap = (Inr 128, example_heap_grown)"
    by code_simp
  from heap_allocation [OF example_heap_inv(1) step] show ?thesis
    by (simp add: reserves_def fresh_storage_def layout_size_def isize_max_def)
      (simp add: heap_blocks_def example_heap_def al_block_def)
qed

end
