(* ===== verification/Frame_Scratch.thy ===== *)
theory Frame_Scratch
  imports Frame_Stack
begin

text \<open>
  Function-local scratch storage and tail-call packets,
  \<^verbatim>\<open>crates/telora-wasm-shared/src/frame_scratch.rs\<close>. Lengths are \<open>usize\<close> values of the wasm32
  runtime. The frame stack keeps its top first. A reservation the allocator may refuse is a
  boolean argument; error strings are constructors.
\<close>

section \<open>Model\<close>

definition SCRATCH_BASE :: u32 where "SCRATCH_BASE = 0x80000000"
definition TRANSFER :: u32 where "TRANSFER = 0xc0000000"

datatype scratch_error =
    InvalidTailAdoption | InvalidTailValue | ScratchOverflow | ScratchNamespaceExhausted
  | ScratchFramesExhausted | ScratchExhausted | ScratchFrameUnderflow | InvalidTailPacket
  | TailPacketOverflow | TailOutsideFrame | InvalidTailExtent | TailStorageExhausted
  | NotScratch | InvalidScratchReference | ScratchPanic

record scratch =
  sc_words :: "u64 list"
  sc_frames :: "nat list"
  sc_transfer :: "u64 list"
  sc_pending :: "u32 option"

definition scratch_new :: scratch where
  "scratch_new = \<lparr>sc_words = [], sc_frames = [], sc_transfer = [], sc_pending = None\<rparr>"

text \<open>The \<open>i\<close>-th 32-bit pointer of a packet of 64-bit words.\<close>

definition half :: "u64 \<Rightarrow> nat \<Rightarrow> u32" where
  "half w i = ucast (drop_bit ((i mod 2) * 32) w)"

definition set_half :: "u64 \<Rightarrow> nat \<Rightarrow> u32 \<Rightarrow> u64" where
  "set_half w i r =
     (let shift = (i mod 2) * 32; mask = push_bit shift (ucast u32_max)
      in (w AND NOT mask) OR push_bit shift (ucast r))"

text \<open>First loop of \<open>enter\<close>: every pointer into the packet stays inside it.\<close>

definition tail_value_ok :: "u64 list \<Rightarrow> nat \<Rightarrow> nat \<Rightarrow> bool option" where
  "tail_value_ok transfer len i =
     (case get_at transfer (i div 2) of None \<Rightarrow> None
      | Some w \<Rightarrow>
          let reference = half w i
          in Some (\<not> (reference \<ge> TRANSFER \<and> unat (reference - TRANSFER) \<ge> len * 8)))"

fun tail_values_ok :: "u64 list \<Rightarrow> nat \<Rightarrow> nat list \<Rightarrow> scratch_error + unit" where
  "tail_values_ok transfer len [] = Inr ()"
| "tail_values_ok transfer len (i # xs) =
     (case tail_value_ok transfer len i of
        None \<Rightarrow> Inl ScratchPanic
      | Some False \<Rightarrow> Inl InvalidTailValue
      | Some True \<Rightarrow> tail_values_ok transfer len xs)"

text \<open>Second loop: those pointers are moved to where the packet now lies.\<close>

definition relocate :: "nat \<Rightarrow> u32 \<Rightarrow> u32" where
  "relocate base reference =
     (if reference \<ge> TRANSFER then SCRATCH_BASE + of_nat (base * 8) + (reference - TRANSFER)
      else reference)"

definition relocate_at :: "nat \<Rightarrow> nat \<Rightarrow> u64 list \<Rightarrow> u64 list" where
  "relocate_at base i packet =
     (let reference = half (packet ! (i div 2)) i
      in if reference \<ge> TRANSFER
         then packet[i div 2 := set_half (packet ! (i div 2)) i (relocate base reference)]
         else packet)"

definition relocate_packet :: "nat \<Rightarrow> u32 \<Rightarrow> u64 list \<Rightarrow> u64 list" where
  "relocate_packet base count packet = fold (relocate_at base) [0..<unat count] packet"

definition scratch_enter :: "bool \<Rightarrow> bool \<Rightarrow> u32 \<Rightarrow> u32 \<Rightarrow> scratch \<Rightarrow> scratch_error + (u32 \<times> scratch)" where
  "scratch_enter frames_ok words_ok nbytes args s =
     (let adopted = (args = TRANSFER) in
      if adopted \<noteq> (sc_pending s \<noteq> None) then Inl InvalidTailAdoption else
      let len = (if adopted then length (sc_transfer s) else 0) in
      rbind (case sc_pending s of
               Some count \<Rightarrow> tail_values_ok (sc_transfer s) len [0..<unat count]
             | None \<Rightarrow> Inr ()) (\<lambda>_.
      let base = length (sc_words s) in
      rbind (ok_or (case checked_add_usize base len of None \<Rightarrow> None | Some n \<Rightarrow> checked_add_usize n 1)
               ScratchOverflow) (\<lambda>locals.
      rbind (ok_or (checked_add_usize locals ((unat nbytes + 7) div 8)) ScratchOverflow) (\<lambda>end.
      if end \<ge> unat ((TRANSFER - SCRATCH_BASE) div 8) then Inl ScratchNamespaceExhausted
      else if \<not> frames_ok then Inl ScratchFramesExhausted
      else if \<not> words_ok then Inl ScratchExhausted
      else
        (let fill = replicate (end - base) 0;
             (arguments, region, s') =
               (case sc_pending s of
                  Some count \<Rightarrow>
                    (SCRATCH_BASE + of_nat (base * 8),
                     relocate_packet base count (sc_transfer s) @ drop len fill,
                     s\<lparr>sc_transfer := [], sc_pending := None\<rparr>)
                | None \<Rightarrow> (args, fill, s))
         in Inr (SCRATCH_BASE + of_nat (locals * 8),
              s'\<lparr>sc_words := sc_words s @ region[locals - 1 - base := ucast arguments],
                 sc_frames := base # sc_frames s\<rparr>))))))"

definition scratch_leave :: "scratch \<Rightarrow> scratch_error + scratch" where
  "scratch_leave s =
     (case sc_frames s of
        [] \<Rightarrow> Inl ScratchFrameUnderflow
      | base # rest \<Rightarrow> Inr (s\<lparr>sc_words := take base (sc_words s), sc_frames := rest\<rparr>))"

definition scratch_tail :: "bool \<Rightarrow> u32 \<Rightarrow> u32 \<Rightarrow> u32 \<Rightarrow> scratch \<Rightarrow> scratch_error + (u32 \<times> scratch)" where
  "scratch_tail transfer_ok packet nbytes count s =
     (if sc_pending s \<noteq> None \<or> \<not> (SCRATCH_BASE \<le> packet \<and> packet < TRANSFER) \<or> nbytes mod 8 \<noteq> 0
      then Inl InvalidTailPacket
      else
      let start = unat ((packet - SCRATCH_BASE) div 8); len = unat (nbytes div 8) in
      rbind (ok_or (checked_add_usize start len) TailPacketOverflow) (\<lambda>end.
      case sc_frames s of
        [] \<Rightarrow> Inl TailOutsideFrame
      | frame # rest \<Rightarrow>
          if packet mod 8 \<noteq> 0 \<or> start < frame \<or> end > length (sc_words s) \<or> count > nbytes div 4
          then Inl InvalidTailExtent
          else if \<not> transfer_ok then Inl TailStorageExhausted
          else rbind (scratch_leave (s\<lparr>sc_transfer := take len (drop start (sc_words s))\<rparr>)) (\<lambda>s.
               Inr (TRANSFER, s\<lparr>sc_pending := Some count\<rparr>))))"

text \<open>The byte offset of a reference into the words; \<open>address\<close> adds it to their pointer.\<close>

definition scratch_offset :: "u32 \<Rightarrow> scratch \<Rightarrow> scratch_error + nat" where
  "scratch_offset reference s =
     rbind (ok_or (checked_sub reference SCRATCH_BASE) NotScratch) (\<lambda>offset.
       if reference \<ge> TRANSFER \<or> unat offset > length (sc_words s) * 8
       then Inl InvalidScratchReference else Inr (unat offset))"

definition scratch_reset :: "scratch \<Rightarrow> scratch" where
  "scratch_reset s = \<lparr>sc_words = [], sc_frames = [], sc_transfer = [], sc_pending = None\<rparr>"

definition scratch_depth :: "scratch \<Rightarrow> nat" where
  "scratch_depth s = length (sc_frames s)"

section \<open>Halves of a word\<close>

lemma half_cases:
  "half w i = (if even i then ucast w else ucast (drop_bit 32 w))"
  by (auto simp: half_def even_iff_mod_2_eq_zero odd_iff_mod_2_eq_one)

lemma set_half_cases:
  "set_half w i r =
     (if even i then (w AND NOT 0xffffffff) OR ucast r
      else (w AND NOT 0xffffffff00000000) OR push_bit 32 (ucast r))"
  by (auto simp: set_half_def Let_def u32_max_def even_iff_mod_2_eq_zero odd_iff_mod_2_eq_one)

lemma low_mask: "0xffffffff = (mask 32 :: u64)" "0xffffffff00000000 = (push_bit 32 (mask 32) :: u64)"
  by (simp_all add: mask_eq_exp_minus_1)

lemma half_set_half: "half (set_half w i r) j = (if even i = even j then r else half w j)"
proof (rule bit_word_eqI)
  fix n assume "n < LENGTH(32)"
  then show "bit (half (set_half w i r) j) n = bit (if even i = even j then r else half w j) n"
    unfolding half_cases set_half_cases low_mask
    by (auto simp: bit_simps dest: bit_imp_le_length)
qed

definition packet_half :: "u64 list \<Rightarrow> nat \<Rightarrow> u32" where
  "packet_half packet i = half (packet ! (i div 2)) i"

lemma length_relocate_at [simp]: "length (relocate_at base i p) = length p"
  by (simp add: relocate_at_def Let_def)

lemma relocate_at_half:
  assumes "i < 2 * length p"
  shows "packet_half (relocate_at base i p) j =
    (if j = i then relocate base (packet_half p i) else packet_half p j)"
proof -
  have "i div 2 < length p" using assms by linarith
  moreover have "j = i \<longleftrightarrow> j div 2 = i div 2 \<and> (even i = even j)"
    by (metis div_mult_mod_eq odd_iff_mod_2_eq_one even_iff_mod_2_eq_zero)
  ultimately show ?thesis
    by (auto simp: packet_half_def relocate_at_def relocate_def Let_def nth_list_update half_set_half)
qed

lemma relocate_packet_half:
  assumes "unat count \<le> 2 * length p"
  shows "length (relocate_packet base count p) = length p"
    and "packet_half (relocate_packet base count p) j =
      (if j < unat count then relocate base (packet_half p j) else packet_half p j)"
proof -
  have "length (fold (relocate_at base) [0..<k] p) = length p \<and>
      packet_half (fold (relocate_at base) [0..<k] p) j =
        (if j < k then relocate base (packet_half p j) else packet_half p j)"
    if "k \<le> 2 * length p" for k
    using that by (induction k) (auto simp: relocate_at_half less_Suc_eq)
  from this [OF assms] show "length (relocate_packet base count p) = length p"
    and "packet_half (relocate_packet base count p) j =
      (if j < unat count then relocate base (packet_half p j) else packet_half p j)"
    by (simp_all add: relocate_packet_def)
qed

lemma tail_values_ok_Inr:
  "tail_values_ok transfer len xs = Inr u \<longleftrightarrow>
    (\<forall>i \<in> set xs. i div 2 < length transfer \<and>
      (packet_half transfer i \<ge> TRANSFER \<longrightarrow> unat (packet_half transfer i - TRANSFER) < len * 8))"
  by (induction xs)
    (auto simp: tail_value_ok_def get_at_def packet_half_def Let_def not_le
      split: option.splits bool.splits)

section \<open>Invariant\<close>

text \<open>
  Every frame owns at least the word before its locals; the words fit the namespace; only a pending
  tail call holds a packet, and the packet has the pointers it claims.
\<close>

fun stacked :: "nat list \<Rightarrow> nat \<Rightarrow> bool" where
  "stacked [] n \<longleftrightarrow> n = 0"
| "stacked (b # bs) n \<longleftrightarrow> b < n \<and> stacked bs b"

definition scratch_inv :: "scratch \<Rightarrow> bool" where
  "scratch_inv s \<longleftrightarrow>
     stacked (sc_frames s) (length (sc_words s)) \<and> length (sc_words s) < 134217728 \<and>
     (case sc_pending s of
        None \<Rightarrow> sc_transfer s = []
      | Some count \<Rightarrow> unat count \<le> 2 * length (sc_transfer s))"

lemma namespace_words: "unat ((TRANSFER - SCRATCH_BASE) div 8) = 134217728"
  by (simp add: TRANSFER_def SCRATCH_BASE_def)

lemma scratch_new_inv: "scratch_inv scratch_new" "scratch_inv (scratch_reset s)"
  by (simp_all add: scratch_inv_def scratch_new_def scratch_reset_def)

lemma scratch_leave_Inr:
  "scratch_leave s = Inr s' \<longleftrightarrow> (\<exists>base rest. sc_frames s = base # rest \<and>
     s' = s\<lparr>sc_words := take base (sc_words s), sc_frames := rest\<rparr>)"
  by (auto simp: scratch_leave_def split: list.splits)

lemma scratch_enter_fresh:
  assumes "scratch_enter fok wok nbytes args s = Inr (r, s')" and "args \<noteq> TRANSFER"
  shows "sc_pending s = None"
    and "s' = s\<lparr>sc_words := sc_words s @ ucast args # replicate ((unat nbytes + 7) div 8) 0,
                sc_frames := length (sc_words s) # sc_frames s\<rparr>"
    and "r = SCRATCH_BASE + of_nat ((length (sc_words s) + 1) * 8)"
    and "length (sc_words s) + 1 + (unat nbytes + 7) div 8 < 134217728"
  using assms
  by (auto simp: scratch_enter_def Let_def result_simps checked_simps namespace_words
      split: if_splits option.splits)

lemma scratch_enter_adopted:
  assumes "scratch_enter fok wok nbytes TRANSFER s = Inr (r, s')"
  obtains count where "sc_pending s = Some count"
    and "tail_values_ok (sc_transfer s) (length (sc_transfer s)) [0..<unat count] = Inr ()"
    and "length (sc_words s) + length (sc_transfer s) + 1 + (unat nbytes + 7) div 8 < 134217728"
    and "r = SCRATCH_BASE + of_nat ((length (sc_words s) + length (sc_transfer s) + 1) * 8)"
    and "s' = s\<lparr>sc_words := sc_words s @
          (relocate_packet (length (sc_words s)) count (sc_transfer s) @
           replicate (1 + (unat nbytes + 7) div 8) 0)
             [length (sc_transfer s) := ucast (SCRATCH_BASE + of_nat (length (sc_words s) * 8))],
        sc_frames := length (sc_words s) # sc_frames s, sc_transfer := [], sc_pending := None\<rparr>"
  using assms
  by (auto simp: scratch_enter_def Let_def result_simps checked_simps namespace_words
      split: if_splits option.splits)

lemma scratch_tail_Inr:
  assumes "scratch_tail ok packet nbytes count s = Inr (r, s')"
  obtains base rest where "sc_pending s = None" and "r = TRANSFER"
    and "sc_frames s = base # rest" and "SCRATCH_BASE \<le> packet" and "packet < TRANSFER"
    and "base \<le> unat ((packet - SCRATCH_BASE) div 8)"
    and "unat ((packet - SCRATCH_BASE) div 8) + unat (nbytes div 8) \<le> length (sc_words s)"
    and "nbytes mod 8 = 0" and "count \<le> nbytes div 4"
    and "s' = s\<lparr>sc_words := take base (sc_words s), sc_frames := rest,
      sc_transfer := take (unat (nbytes div 8))
        (drop (unat ((packet - SCRATCH_BASE) div 8)) (sc_words s)),
      sc_pending := Some count\<rparr>"
  using assms
  by (auto simp: scratch_tail_def Let_def result_simps checked_simps scratch_leave_Inr not_le not_less
      split: if_splits list.splits)

lemma enter_scratch_inv:
  assumes "scratch_inv s" and "scratch_enter fok wok nbytes args s = Inr (r, s')"
  shows "scratch_inv s'"
proof (cases "args = TRANSFER")
  case False
  from scratch_enter_fresh [OF assms(2) this] assms(1) show ?thesis
    by (auto simp: scratch_inv_def)
next
  case True
  with assms(2) have enter: "scratch_enter fok wok nbytes TRANSFER s = Inr (r, s')" by simp
  then show ?thesis
  proof (cases rule: scratch_enter_adopted)
    case (1 count)
    with assms(1) show ?thesis by (auto simp: scratch_inv_def relocate_packet_half)
  qed
qed

lemma leave_scratch_inv: "scratch_inv s \<Longrightarrow> scratch_leave s = Inr s' \<Longrightarrow> scratch_inv s'"
  by (auto simp: scratch_inv_def scratch_leave_Inr min_def split: option.splits)

lemma packet_pointers:
  fixes nbytes count :: u32
  assumes "count \<le> nbytes div 4" and "nbytes mod 8 = 0"
  shows "unat count \<le> 2 * unat (nbytes div 8)"
proof -
  have "unat count \<le> unat nbytes div 4"
    using assms(1) by (simp add: word_le_nat_alt unat_div)
  moreover have "unat nbytes mod 8 = 0"
    using arg_cong [OF assms(2), of unat] unfolding unat_mod_distrib by simp
  moreover have "n \<le> N div 4 \<Longrightarrow> N mod 8 = 0 \<Longrightarrow> n \<le> 2 * (N div 8)" for n N :: nat
    by presburger
  moreover have "unat (nbytes div 8) = unat nbytes div 8"
    by (simp add: unat_div)
  ultimately show ?thesis by simp
qed

lemma tail_scratch_inv:
  assumes "scratch_inv s" and "scratch_tail ok packet nbytes count s = Inr (r, s')"
  shows "scratch_inv s'"
  using assms(2)
proof (cases rule: scratch_tail_Inr)
  case (1 base rest)
  with assms(1) packet_pointers [of count nbytes] show ?thesis
    by (auto simp: scratch_inv_def min_def)
qed

section \<open>Tail calls\<close>

text \<open>
  C24: A tail call hands its packet to the next frame. \<open>tail\<close> followed by the adopting \<open>enter\<close>
  replaces the top frame: the words below it are kept, the new frame starts with the packet the
  old frame named, its pointers into the packet moved to the new place and all other words
  unchanged, followed by the word that owns the argument pointer and by zeroed locals.
\<close>

theorem tail_adoption:
  assumes inv: "scratch_inv s"
    and tail: "scratch_tail ok packet nbytes count s = Inr (t, s1)"
    and enter: "scratch_enter fok wok want t s1 = Inr (r, s2)"
  defines "base \<equiv> hd (sc_frames s)" and "len \<equiv> unat (nbytes div 8)"
    and "start \<equiv> unat ((packet - SCRATCH_BASE) div 8)"
  shows "\<exists>moved. length moved = len \<and>
      sc_words s2 = take base (sc_words s) @ moved @
        ucast (SCRATCH_BASE + of_nat (base * 8)) # replicate ((unat want + 7) div 8) 0 \<and>
      (\<forall>j < 2 * len. packet_half moved j =
        (let p = packet_half (drop start (sc_words s)) j
         in if j < unat count then relocate base p else p)) \<and>
      sc_frames s2 = sc_frames s \<and> r = SCRATCH_BASE + of_nat ((base + len + 1) * 8)"
proof -
  have "\<exists>rest. t = TRANSFER \<and> sc_frames s = base # rest \<and> start + len \<le> length (sc_words s) \<and>
      s1 = s\<lparr>sc_words := take base (sc_words s), sc_frames := rest,
        sc_transfer := take len (drop start (sc_words s)), sc_pending := Some count\<rparr> \<and>
      unat count \<le> 2 * len"
    using tail
  proof (cases rule: scratch_tail_Inr)
    case (1 b rest)
    then show ?thesis using packet_pointers [OF 1(9,8)]
      by (intro exI [of _ rest]) (simp add: base_def len_def start_def)
  qed
  then obtain rest where t: "t = TRANSFER" and fr: "sc_frames s = base # rest"
    and fit: "start + len \<le> length (sc_words s)" and s1: "s1 = s\<lparr>sc_words := take base (sc_words s),
      sc_frames := rest, sc_transfer := take len (drop start (sc_words s)), sc_pending := Some count\<rparr>"
    and pointers: "unat count \<le> 2 * len"
    by blast
  have words: "base < length (sc_words s)" using inv fr by (simp add: scratch_inv_def)
  have packet: "length (sc_transfer s1) = len" "sc_pending s1 = Some count"
    "sc_words s1 = take base (sc_words s)" "length (sc_words s1) = base" "sc_frames s1 = rest"
    using fit words by (simp_all add: s1)
  define moved where "moved = relocate_packet base count (sc_transfer s1)"
  have moved: "length moved = len" "packet_half moved j =
      (if j < unat count then relocate base (packet_half (sc_transfer s1) j)
       else packet_half (sc_transfer s1) j)" for j
    using relocate_packet_half [of count "sc_transfer s1" base] pointers
    by (simp_all add: moved_def packet)
  have same: "packet_half (sc_transfer s1) j = packet_half (drop start (sc_words s)) j"
    if "j < 2 * len" for j
  proof -
    from that have "j div 2 < len" by linarith
    then show ?thesis using fit by (simp add: packet_half_def s1)
  qed
  from enter [unfolded t] show ?thesis
  proof (cases rule: scratch_enter_adopted)
    case (1 c)
    then have s2: "sc_words s2 = take base (sc_words s) @ moved @
        ucast (SCRATCH_BASE + of_nat (base * 8)) # replicate ((unat want + 7) div 8) 0"
      "sc_frames s2 = sc_frames s" "r = SCRATCH_BASE + of_nat ((base + len + 1) * 8)"
      using packet fr moved(1) by (simp_all add: moved_def list_update_append)
    with moved same show ?thesis by (intro exI [of _ moved]) (simp add: Let_def)
  qed
qed

text \<open>
  C34: After adoption no pointer of the packet is left relative to the transfer area: each of the
  claimed pointers that was now lies inside the packet's words in the new frame.
\<close>

theorem adopted_pointers_inside:
  assumes inv: "scratch_inv s" and enter: "scratch_enter fok wok nbytes TRANSFER s = Inr (r, s')"
    and pend: "sc_pending s = Some count" and i: "i < unat count"
  defines "base \<equiv> length (sc_words s)" and "p \<equiv> packet_half (sc_transfer s) i"
  defines "q \<equiv> packet_half (drop base (sc_words s')) i"
  shows "if p < TRANSFER then q = p
    else unat q = unat SCRATCH_BASE + 8 * base + unat (p - TRANSFER) \<and>
      unat q < unat SCRATCH_BASE + 8 * (base + length (sc_transfer s)) \<and> q < TRANSFER"
proof -
  have cnt: "unat count \<le> 2 * length (sc_transfer s)" using inv pend by (simp add: scratch_inv_def)
  note moved = relocate_packet_half [OF cnt]
  from enter show ?thesis
  proof (cases rule: scratch_enter_adopted)
    case (1 c)
    with pend have ok: "tail_values_ok (sc_transfer s) (length (sc_transfer s)) [0..<unat count] = Inr ()"
      by simp
    have idx: "i div 2 < length (sc_transfer s)" using i cnt by linarith
    have q: "q = relocate base p"
      using 1 pend idx i moved(1) moved(2) [of base i]
      by (simp add: q_def p_def base_def packet_half_def nth_append list_update_append)
    show ?thesis
    proof (cases "p < TRANSFER")
      case True
      then have "q = p" by (simp add: q relocate_def not_le [symmetric])
      with True show ?thesis by simp
    next
      case False
      with ok i have inside: "unat (p - TRANSFER) < length (sc_transfer s) * 8"
        by (auto simp: tail_values_ok_Inr p_def not_less)
      have "base + length (sc_transfer s) < 134217728" using 1(3) by (simp add: base_def)
      with inside have "unat q = unat SCRATCH_BASE + 8 * base + unat (p - TRANSFER)"
        using False by (simp add: q relocate_def not_less unat_word_ariths SCRATCH_BASE_def unat_of_nat)
      with inside \<open>base + _ < _\<close> False show ?thesis
        by (simp add: word_less_nat_alt TRANSFER_def SCRATCH_BASE_def)
    qed
  qed
qed

section \<open>Frame discipline\<close>

datatype scratch_op =
    SEnter bool bool u32 u32 | SLeave | STail bool u32 u32 u32

fun scratch_step :: "scratch_op \<Rightarrow> scratch \<Rightarrow> scratch option" where
  "scratch_step (SEnter a b n args) s =
     (case scratch_enter a b n args s of Inl _ \<Rightarrow> None | Inr (_, s') \<Rightarrow> Some s')"
| "scratch_step SLeave s = (case scratch_leave s of Inl _ \<Rightarrow> None | Inr s' \<Rightarrow> Some s')"
| "scratch_step (STail a p n c) s =
     (case scratch_tail a p n c s of Inl _ \<Rightarrow> None | Inr (_, s') \<Rightarrow> Some s')"

fun scratch_effect :: "scratch_op \<Rightarrow> frame_effect" where
  "scratch_effect (SEnter a b n args) = Push"
| "scratch_effect SLeave = Pop"
| "scratch_effect (STail a p n c) = Pop"

fun word_view :: "nat list \<Rightarrow> u64 list \<Rightarrow> u64 list list" where
  "word_view [] ws = []"
| "word_view (b # bs) ws = drop b ws # word_view bs (take b ws)"

definition scratch_view :: "scratch \<Rightarrow> u64 list list" where
  "scratch_view s = word_view (sc_frames s) (sc_words s)"

lemma enter_view:
  assumes "scratch_enter a b n args s = Inr (r, s')"
  shows "\<exists>x. scratch_view s' = x # scratch_view s"
proof (cases "args = TRANSFER")
  case False
  from scratch_enter_fresh(2) [OF assms this] show ?thesis by (simp add: scratch_view_def)
next
  case True
  from assms [unfolded True] show ?thesis
    by (cases rule: scratch_enter_adopted) (simp add: scratch_view_def)
qed

interpretation scratch_frames: frame_stack scratch_inv scratch_view scratch_step scratch_effect
proof unfold_locales
  fix c s s'
  assume inv: "scratch_inv s" and step: "scratch_step c s = Some s'"
  show "scratch_inv s'"
    using inv step
    by (cases c) (auto split: sum.splits
        intro: enter_scratch_inv leave_scratch_inv tail_scratch_inv)
  show "\<exists>x. scratch_view s' = x # scratch_view s" if "scratch_effect c = Push"
    using that step by (cases c) (auto split: sum.splits dest: enter_view)
  show "\<exists>x. scratch_view s = x # scratch_view s'" if "scratch_effect c = Pop"
    using that step
    by (cases c)
      (auto simp: scratch_leave_Inr scratch_view_def split: sum.splits elim!: scratch_tail_Inr)
qed (use scratch_effect.elims in \<open>blast+\<close>)

text \<open>
  C28: Scratch frames nest: whatever a well-nested sequence of entries, exits and tail calls does,
  the frames that were there before hold the same words afterwards.
\<close>

theorem balanced_calls_restore_scratch:
  assumes "scratch_inv s" and "fold_opt scratch_step cs s = Some s'"
    and "nesting (map scratch_effect cs) 0 = Some 0"
  shows "scratch_view s' = scratch_view s"
  using assms by (rule scratch_frames.balanced_run)

section \<open>An example tail call\<close>

text \<open>
  A frame with three local words (one of them a pointer to another) tail-calls with two of them.
\<close>

definition example_scratch :: scratch where
  "example_scratch =
     \<lparr>sc_words = [5, 0, 0x80000018, 77], sc_frames = [1, 0], sc_transfer = [], sc_pending = None\<rparr>"

definition example_tail :: scratch where
  "example_tail =
     \<lparr>sc_words = [5], sc_frames = [0], sc_transfer = [0xc0000008, 77], sc_pending = Some 1\<rparr>"

definition example_packet :: scratch where
  "example_packet =
     \<lparr>sc_words = [5, 0, 0xc0000008, 77], sc_frames = [1, 0], sc_transfer = [], sc_pending = None\<rparr>"

definition example_adopted :: scratch where
  "example_adopted =
     \<lparr>sc_words = [5, 0x80000010, 77, 0x80000008, 0], sc_frames = [1, 0], sc_transfer = [],
      sc_pending = None\<rparr>"

lemma example_packet_inv: "scratch_inv example_packet"
  by (simp add: scratch_inv_def example_packet_def)

lemma example_tail_step: "scratch_tail True 0x80000010 16 1 example_packet = Inr (TRANSFER, example_tail)"
  by code_simp

lemma example_enter_step:
  "scratch_enter True True 8 TRANSFER example_tail = Inr (0x80000020, example_adopted)"
  by code_simp

theorem tail_adoption_witness:
  "sc_frames example_adopted = sc_frames example_packet \<and> take 1 (sc_words example_adopted) = [5]"
  using tail_adoption [OF example_packet_inv example_tail_step example_enter_step]
  by (auto simp: example_packet_def)

theorem adopted_pointers_inside_witness:
  "unat (packet_half (drop 1 (sc_words example_adopted)) 0) = unat SCRATCH_BASE + 8 + 8"
proof -
  have "scratch_inv example_tail" by (simp add: scratch_inv_def example_tail_def)
  from adopted_pointers_inside [OF this example_enter_step, of 1 0] show ?thesis
    by (simp add: example_tail_def packet_half_def half_def TRANSFER_def)
qed

theorem balanced_calls_restore_scratch_witness:
  "scratch_view (the (fold_opt scratch_step
       [SEnter True True 16 0, STail True 0x80000028 16 0, SEnter True True 8 TRANSFER, SLeave] example_scratch)) =
     scratch_view example_scratch"
proof (rule balanced_calls_restore_scratch)
  let ?cs = "[SEnter True True 16 0, STail True 0x80000028 16 0, SEnter True True 8 TRANSFER, SLeave]"
  show "scratch_inv example_scratch" by (simp add: scratch_inv_def example_scratch_def)
  have "fold_opt scratch_step ?cs example_scratch \<noteq> None" by code_simp
  then show "fold_opt scratch_step ?cs example_scratch = Some (the (fold_opt scratch_step ?cs example_scratch))"
    by simp
  show "nesting (map scratch_effect ?cs) 0 = Some 0" by code_simp
qed

end
