(* ===== verification/Gc_Runtime.thy ===== *)
theory Gc_Runtime
  imports Gc_Mark Direct_Heap Frame_Scratch
begin

text \<open>
  The runtime around the collector: generated shadow frames, host pins and safepoints of
  \<^verbatim>\<open>crates/telora-wasm/rt/gc_runtime.rs\<close>, and the managed heap with its sweep of
  \<^verbatim>\<open>crates/telora-wasm/rt/heap.rs\<close> in its dynamic mode (an image being packed is never
  collected). The statics are one state record; a panic is \<open>None\<close>.
\<close>

section \<open>The managed heap\<close>

record rt_heap =
  rh_heap :: heap
  rh_origin :: u32
  rh_limit :: u32
  rh_clock :: u64
  rh_content :: u32

definition sat_sub_u64 :: "u64 \<Rightarrow> u64 \<Rightarrow> u64" where
  "sat_sub_u64 a b = (if b \<le> a then a - b else 0)"

text \<open>\<open>collection_interval\<close>, from the allocated and the committed bytes.\<close>

definition collection_interval :: "u64 \<Rightarrow> u64 \<Rightarrow> u32 \<Rightarrow> u32 \<Rightarrow> u64" where
  "collection_interval live committed limit minimum =
     (let headroom = sat_sub_u64 (ucast limit) committed;
          floor = max (min (ucast minimum) (ucast limit div 16)) 1
      in min (max (ucast minimum) (live div 2)) (max (headroom div 4) floor))"

text \<open>The references of a mark that name managed storage, in the order of the set.\<close>

definition managed :: "u32 \<Rightarrow> u32 \<Rightarrow> bool" where
  "managed origin r \<longleftrightarrow> origin \<le> r \<and> r < SCRATCH_BASE"

text \<open>A swept content block returns its bytes to the content usage (\<open>content::release\<close>).\<close>

definition release_content :: "block list \<Rightarrow> u32 \<Rightarrow> u32 option" where
  "release_content bs content =
     fold_opt (\<lambda>b c. if bl_descriptor b = CONTENT_VIEW
                     then (if bl_bytes b \<le> unat u32_max then checked_sub c (of_nat (bl_bytes b)) else None)
                     else Some c) bs content"

definition rt_sweep :: "u32 set \<Rightarrow> rt_heap \<Rightarrow> rt_heap option" where
  "rt_sweep references s =
     (case foldm heap_mark_step (map unat (sorted_list_of_set {r \<in> references. managed (rh_origin s) r}))
             (rh_heap s) of
        Inl _ \<Rightarrow> None
      | Inr h \<Rightarrow>
          (case heap_sweep h of (freed, h) \<Rightarrow>
             (case release_content freed (rh_content s) of
                None \<Rightarrow> None
              | Some c \<Rightarrow> Some (s\<lparr>rh_heap := h, rh_content := c\<rparr>))))"


text \<open>
  \<open>allocate_tagged\<close>: an address that would reach into the scratch namespace is refused after the
  allocation, so a panic leaves no state behind.
\<close>

definition rt_allocate ::
  "nat \<Rightarrow> (nat \<Rightarrow> nat option) \<Rightarrow> nat option \<Rightarrow> u32 \<Rightarrow> u32 \<Rightarrow> rt_heap \<Rightarrow> (u32 \<times> rt_heap) option" where
  "rt_allocate width reserve pointer nbytes descriptor s =
     (case heap_allocate width reserve pointer (unat nbytes) descriptor (rh_heap s) of
        (Inl _, _) \<Rightarrow> None
      | (Inr address, h) \<Rightarrow>
          (let reference = of_nat address in
           case checked_add reference (max nbytes 1) of
             None \<Rightarrow> None
           | Some end \<Rightarrow>
               if end \<ge> SCRATCH_BASE then None
               else (case checked_add (rh_clock s) (ucast (max nbytes 1)) of
                   None \<Rightarrow> None
                 | Some clock \<Rightarrow> Some (reference, s\<lparr>rh_heap := h, rh_clock := clock\<rparr>))))"

text \<open>\<open>telora_gc_heap_limit\<close>: the status it returns and the state.\<close>

definition rt_heap_limit :: "nat \<Rightarrow> u32 \<Rightarrow> rt_heap \<Rightarrow> u32 \<times> rt_heap" where
  "rt_heap_limit width limit s =
     (case heap_set_limit width (unat limit) (rh_heap s) of
        Inl _ \<Rightarrow> (1, s)
      | Inr h \<Rightarrow> (0, s\<lparr>rh_heap := h, rh_limit := limit\<rparr>))"

section \<open>Shadow frames and pins\<close>

record gc_rt =
  gt_roots :: gc_roots
  gt_frames :: "root_frame list"
  gt_pins :: "u64 \<rightharpoonup> root_handle"

definition gc_rt_new :: gc_rt where
  "gc_rt_new = \<lparr>gt_roots = roots_new 16777216, gt_frames = [], gt_pins = Map.empty\<rparr>"

definition rt_roots_enter :: "bool \<Rightarrow> bool \<Rightarrow> u32 \<Rightarrow> gc_rt \<Rightarrow> gc_rt option" where
  "rt_roots_enter slots_ok frames_ok slots s =
     (case roots_enter slots_ok frames_ok (unat slots) (gt_roots s) of
        (Inl _, _) \<Rightarrow> None
      | (Inr frame, r) \<Rightarrow> Some (s\<lparr>gt_roots := r, gt_frames := frame # gt_frames s\<rparr>))"


text \<open>The role word of \<open>telora_roots_set\<close>.\<close>

definition root_role :: "u32 \<Rightarrow> u32 \<Rightarrow> u32 \<Rightarrow> root_kind option" where
  "root_role role ty initialized =
     (if role = ROOT_VALUE then Some (RValue ty)
      else if role = ROOT_STORAGE then Some RStorage
      else if role = ROOT_PARSE_PLAN then Some RParsePlan
      else if role = ROOT_PARSE_CONTEXT \<or> role = ROOT_CODEC_CONTEXT
        then Some (RContext ty (role = ROOT_CODEC_CONTEXT))
      else if role = ROOT_SOURCE then Some RSource
      else if role = ROOT_REFERENCES then Some (RReferences ty initialized)
      else if role < TABLE_COUNT \<or> role \<in> {RECORDS, ARRAYS, VALUES, NEWTYPES, ENVIRONMENTS}
        then Some (RObject ty role initialized)
      else None)"

definition rt_roots_set :: "u32 \<Rightarrow> u32 \<Rightarrow> u32 \<Rightarrow> u32 \<Rightarrow> u32 \<Rightarrow> gc_rt \<Rightarrow> gc_rt option" where
  "rt_roots_set slot reference role ty initialized s =
     (case root_role role ty initialized of
        None \<Rightarrow> None
      | Some kind \<Rightarrow>
          (case gt_frames s of
             [] \<Rightarrow> None
           | frame # _ \<Rightarrow>
               (case roots_set frame (unat slot)
                       (Some \<lparr>rt_reference = reference, rt_kind = kind\<rparr>) (gt_roots s) of
                  (Inl _, _) \<Rightarrow> None
                | (Inr _, r) \<Rightarrow> Some (s\<lparr>gt_roots := r\<rparr>))))"



definition rt_gc_pin :: "bool \<Rightarrow> bool \<Rightarrow> u32 \<Rightarrow> u32 \<Rightarrow> gc_rt \<Rightarrow> (u64 \<times> gc_rt) option" where
  "rt_gc_pin pins_ok free_ok reference ty s =
     (if reference = 0 then Some (0, s)
      else (case roots_pin pins_ok free_ok \<lparr>rt_reference = reference, rt_kind = RValue ty\<rparr> (gt_roots s) of
          (Inl _, r) \<Rightarrow> Some (0, s\<lparr>gt_roots := r\<rparr>)
        | (Inr handle, r) \<Rightarrow>
            (let token = ha_generation handle in
             if gt_pins s token \<noteq> None then None
             else Some (token, s\<lparr>gt_roots := r, gt_pins := (gt_pins s)(token \<mapsto> handle)\<rparr>))))"

definition rt_gc_pinned :: "u64 \<Rightarrow> gc_rt \<Rightarrow> u32" where
  "rt_gc_pinned token s =
     (case gt_pins s token of
        None \<Rightarrow> 0
      | Some handle \<Rightarrow> (case roots_get handle (gt_roots s) of Inl _ \<Rightarrow> 0 | Inr root \<Rightarrow> rt_reference root))"

definition rt_gc_unpin :: "u64 \<Rightarrow> gc_rt \<Rightarrow> u32 \<times> gc_rt" where
  "rt_gc_unpin token s =
     (case gt_pins s token of
        None \<Rightarrow> (0, s)
      | Some handle \<Rightarrow>
          (let s = s\<lparr>gt_pins := (gt_pins s)(token := None)\<rparr> in
           case roots_unpin handle (gt_roots s) of
             (Inl _, r) \<Rightarrow> (0, s\<lparr>gt_roots := r\<rparr>)
           | (Inr root, r) \<Rightarrow> (rt_reference root, s\<lparr>gt_roots := r\<rparr>)))"

section \<open>Collection\<close>

lemma rt_sweep_Some:
  assumes "rt_sweep references s = Some s'"
  obtains h where "foldm heap_mark_step
      (map unat (sorted_list_of_set {r \<in> references. managed (rh_origin s) r})) (rh_heap s) = Inr h"
    and "rh_heap s' = snd (heap_sweep h)" and "rh_origin s' = rh_origin s"
    and "release_content (fst (heap_sweep h)) (rh_content s) = Some (rh_content s')"
  using assms by (auto simp: rt_sweep_def split: sum.splits prod.splits option.splits)

lemma set_managed: "set (map unat (sorted_list_of_set {r \<in> A. managed o' r})) =
    unat ` {r \<in> A. managed o' r}" for A :: "u32 set"
  by simp

text \<open>
  C1: A collection keeps exactly the live blocks. After \<open>Mark::trace\<close> and the sweep of the heap,
  a block survives if and only if some storage reference reachable from the published roots points
  into it, the registry is consistent and no mark is left for the next collection.
\<close>

theorem collection_keeps_reachable:
  assumes "mark_trace env roots = Inr m" and "heap_inv (rh_heap s)" and "heap_marked (rh_heap s) = {}"
    and "rt_sweep (mk_storage m) s = Some s'"
  shows "\<exists>m0. mark_roots env roots = Inr m0 \<and>
    heap_blocks (rh_heap s') = {b \<in> heap_blocks (rh_heap s). \<exists>r.
      reached env (me_types env) (mark_nodes m0) (NStorage r) \<and> managed (rh_origin s) r \<and>
      covers (unat r) b} \<and>
    heap_inv (rh_heap s') \<and> heap_marked (rh_heap s') = {}"
proof -
  from mark_trace_nodes [OF assms(1)] obtain m0 where m0: "mark_roots env roots = Inr m0"
    and nodes: "n \<in> mark_nodes m \<longleftrightarrow> reached env (me_types env) (mark_nodes m0) n \<and> n \<notin> range NItem" for n
    by blast
  have reach: "r \<in> mk_storage m \<longleftrightarrow> reached env (me_types env) (mark_nodes m0) (NStorage r)" for r
    using nodes [of "NStorage r"] by auto
  from assms(4) obtain h where "foldm heap_mark_step
      (map unat (sorted_list_of_set {r \<in> mk_storage m. managed (rh_origin s) r})) (rh_heap s) = Inr h"
    and "rh_heap s' = snd (heap_sweep h)"
    by (rule rt_sweep_Some)
  with direct_heap.collection [OF assms(2,3) this(1)] m0 show ?thesis
    by (intro exI [of _ m0]) (auto simp: reach)
qed


text \<open>
  The allocation interval to the next collection is positive and bounded: at least a sixteenth
  of the heap limit or the configured minimum, whichever is less, so that pressure cannot cause a
  collection at every allocation; at most half the live bytes or the minimum, whichever is more;
  and, beyond that floor, at most a quarter of the room that is left.
\<close>

theorem collection_interval_bounds:
  fixes live committed :: u64 and limit minimum :: u32
  assumes "minimum \<noteq> 0"
  defines "interval \<equiv> collection_interval live committed limit minimum"
    and "least \<equiv> max (min (ucast minimum) (ucast limit div 16)) 1"
  shows "0 < interval \<and> least \<le> interval \<and> interval \<le> max (ucast minimum) (live div 2) \<and>
    interval \<le> max (sat_sub_u64 (ucast limit) committed div 4) least"
proof -
  have "unat minimum \<noteq> 0" using assms(1) by (simp add: unat_eq_zero)
  then have "1 \<le> (ucast minimum :: u64)" by (simp add: word_le_nat_alt)
  then have "least \<le> ucast minimum" by (simp add: least_def)
  then have le: "least \<le> interval \<and> interval \<le> max (ucast minimum) (live div 2) \<and>
      interval \<le> max (sat_sub_u64 (ucast limit) committed div 4) least"
    unfolding interval_def collection_interval_def Let_def least_def [symmetric]
    by (auto simp: min_le_iff_disj le_max_iff_disj)
  have "0 < (1 :: u64)" and "1 \<le> least" by (simp_all add: least_def)
  with le have "0 < interval" by (meson less_le_trans order_trans)
  with le show ?thesis by simp
qed

section \<open>Frames and pins stay in step\<close>

definition gc_rt_inv :: "gc_rt \<Rightarrow> bool" where
  "gc_rt_inv s \<longleftrightarrow>
     roots_inv (gt_roots s) \<and> gr_frames (gt_roots s) = gt_frames s \<and>
     (\<forall>t h. gt_pins s t = Some h \<longrightarrow> ha_generation h = t \<and> t \<le> gr_generation (gt_roots s))"

lemma gc_rt_new_inv: "gc_rt_inv gc_rt_new"
  by (simp add: gc_rt_inv_def gc_rt_new_def roots_new_inv) (simp add: roots_new_def)

lemma rt_enter_inv: "gc_rt_inv s \<Longrightarrow> rt_roots_enter a b n s = Some s' \<Longrightarrow> gc_rt_inv s'"
proof -
  assume inv: "gc_rt_inv s" and "rt_roots_enter a b n s = Some s'"
  then obtain f r where e: "roots_enter a b (unat n) (gt_roots s) = (Inr f, r)"
    and s': "s' = s\<lparr>gt_roots := r, gt_frames := f # gt_frames s\<rparr>"
    by (auto simp: rt_roots_enter_def split: prod.splits sum.splits)
  from e show ?thesis
  proof (cases rule: roots_enter_Inr)
    case (1 g)
    have "t \<le> g" if "t \<le> gr_generation (gt_roots s)" for t
      using that next_generation_less [OF 1(1)] by simp
    with inv enter_inv [OF _ e] 1 show ?thesis by (auto simp: gc_rt_inv_def s')
  qed
qed



lemma rt_set_inv: "gc_rt_inv s \<Longrightarrow> rt_roots_set slot r role ty n s = Some s' \<Longrightarrow> gc_rt_inv s'"
  by (auto simp: rt_roots_set_def gc_rt_inv_def roots_set_Inr intro: set_inv
      split: option.splits list.splits prod.splits sum.splits)
    (auto simp: roots_inv_def)



text \<open>
  A token the host gets for a pinned value gives that reference back until it is unpinned, and
  from then on nothing; unpinning returns the reference once.
\<close>

theorem pin_tokens:
  assumes "gc_rt_inv s" and "rt_gc_pin a b reference ty s = Some (token, s')" and "token \<noteq> 0"
  shows "rt_gc_pinned token s' = reference \<and> fst (rt_gc_unpin token s') = reference \<and>
    rt_gc_pinned token (snd (rt_gc_unpin token s')) = 0 \<and>
    rt_gc_unpin token (snd (rt_gc_unpin token s')) = (0, snd (rt_gc_unpin token s'))"
proof -
  from assms(2,3) obtain h r where pin: "roots_pin a b \<lparr>rt_reference = reference, rt_kind = RValue ty\<rparr>
      (gt_roots s) = (Inr h, r)" and "token = ha_generation h"
    and "s' = s\<lparr>gt_roots := r, gt_pins := (gt_pins s)(token \<mapsto> h)\<rparr>"
    by (auto simp: rt_gc_pin_def Let_def split: prod.splits sum.splits if_splits)
  with pin_returns(1) [OF pin] show ?thesis
    by (simp add: rt_gc_pinned_def rt_gc_unpin_def roots_unpin_def Let_def)
qed

section \<open>An example collection\<close>

text \<open>The heap holds the array and its element of the example memory and one block of garbage.\<close>

definition example_rt :: rt_heap where
  "example_rt =
     \<lparr>rh_heap =
        \<lparr>hp_allocations =
           [\<lparr>al_pointer = 2048, al_size = 24, al_bytes = 24, al_descriptor = 1, al_marked = False\<rparr>,
            \<lparr>al_pointer = 3072, al_size = 16, al_bytes = 16, al_descriptor = 1, al_marked = False\<rparr>,
            \<lparr>al_pointer = 4096, al_size = 16, al_bytes = 16, al_descriptor = 1, al_marked = False\<rparr>],
         hp_capacity = 4, hp_sorted = False, hp_allocated = 56, hp_storage = 56, hp_limit = 10000\<rparr>,
      rh_origin = 2048, rh_limit = 10000, rh_clock = 56, rh_content = 0\<rparr>"

lemma example_rt_inv: "heap_inv (rh_heap example_rt)" "heap_marked (rh_heap example_rt) = {}"
  by (auto simp: heap_inv_def example_rt_def al_ok_def layout_size_def isize_max_def heap_marked_def)

lemma example_rt_blocks:
  "heap_blocks (rh_heap example_rt) =
    {\<lparr>bl_address = 2048, bl_bytes = 24, bl_descriptor = 1\<rparr>,
     \<lparr>bl_address = 3072, bl_bytes = 16, bl_descriptor = 1\<rparr>,
     \<lparr>bl_address = 4096, bl_bytes = 16, bl_descriptor = 1\<rparr>}"
  by (simp add: heap_blocks_def example_rt_def al_block_def)



lemma example_sweep: "rt_sweep (mk_storage example_mark) example_rt \<noteq> None"
proof -
  have "\<not> Option.is_none (rt_sweep {2048, 4096} example_rt)" by code_simp
  then show ?thesis by (simp add: Option.is_none_def example_mark_def)
qed

theorem collection_keeps_reachable_witness:
  "card (heap_blocks (rh_heap (the (rt_sweep (mk_storage example_mark) example_rt)))) = 2"
proof -
  let ?s = "the (rt_sweep (mk_storage example_mark) example_rt)"
  from example_sweep have sweep: "rt_sweep (mk_storage example_mark) example_rt = Some ?s" by simp
  have nodes: "reached example_env 1024 (mark_nodes example_start) (NStorage r) \<longleftrightarrow> r \<in> {2048, 4096}" for r
    using mark_trace_nodes [OF example_trace] by (auto simp: example_roots example_mark_def example_env_fields mark_nodes_def)
  have "managed (rh_origin example_rt) 2048" "managed (rh_origin example_rt) 4096"
    by (simp_all add: managed_def example_rt_def SCRATCH_BASE_def)
  with collection_keeps_reachable [OF example_trace example_rt_inv sweep]
  have "heap_blocks (rh_heap ?s) = {b \<in> heap_blocks (rh_heap example_rt). covers 2048 b \<or> covers 4096 b}"
    by (auto simp: example_roots example_env_fields nodes)
  also have "\<dots> = {\<lparr>bl_address = 2048, bl_bytes = 24, bl_descriptor = 1\<rparr>,
      \<lparr>bl_address = 4096, bl_bytes = 16, bl_descriptor = 1\<rparr>}"
    by (auto simp: example_rt_blocks covers_def)
  finally show ?thesis by simp
qed

theorem collection_interval_bounds_witness:
  "65536 \<le> collection_interval 1000 16700000 16777216 65536"
  using collection_interval_bounds [of 65536 1000 16700000 16777216]
  by (simp add: min_def max_def word_le_nat_alt)

definition example_gc_rt :: gc_rt where
  "example_gc_rt = the (rt_roots_enter True True 2 gc_rt_new)"

lemma example_gc_rt_inv: "gc_rt_inv example_gc_rt" "gt_frames example_gc_rt \<noteq> []"
proof -
  have "rt_roots_enter True True 2 gc_rt_new \<noteq> None" and f: "gt_frames example_gc_rt \<noteq> []" by code_simp+
  then have "rt_roots_enter True True 2 gc_rt_new = Some example_gc_rt"
    by (auto simp: example_gc_rt_def)
  from rt_enter_inv [OF gc_rt_new_inv this] show "gc_rt_inv example_gc_rt" .
  show "gt_frames example_gc_rt \<noteq> []" by (rule f)
qed


definition example_token_state :: gc_rt where
  "example_token_state = snd (the (rt_gc_pin True True 64 3 example_gc_rt))"

lemma example_token: "rt_gc_pin True True 64 3 example_gc_rt = Some (2, example_token_state)"
proof -
  have "rt_gc_pin True True 64 3 example_gc_rt \<noteq> None"
    and "fst (the (rt_gc_pin True True 64 3 example_gc_rt)) = 2" by code_simp+
  then show ?thesis by (auto simp: example_token_state_def)
qed

theorem pin_tokens_witness:
  "rt_gc_pinned 2 example_token_state = 64 \<and> rt_gc_pinned 2 (snd (rt_gc_unpin 2 example_token_state)) = 0"
  using pin_tokens [OF example_gc_rt_inv(1) example_token] by simp

end
