(* ===== verification/Json_Lexer.thy ===== *)
theory Json_Lexer
  imports Telora_Prelude
begin

text \<open>
  The JSON scanner, \<^verbatim>\<open>crates/telora-data/src/json/lexer.rs\<close>. Text is a list of UTF-8 bytes, cut
  into chunks. The three lexers are the regular expressions of the source with Logos' longest
  match; how many bytes Logos consumes for input that matches nothing is not in the repository and
  is the argument \<open>bad\<close>. A panic is \<open>LexPanic\<close>.
\<close>

section \<open>Bytes and characters\<close>

definition ascii :: "char \<Rightarrow> u8" where
  "ascii c = of_char c"

definition ascii_text :: "string \<Rightarrow> bytes" where
  "ascii_text s = map ascii s"

definition between :: "u8 \<Rightarrow> u8 \<Rightarrow> u8 \<Rightarrow> bool" where
  "between a b x \<longleftrightarrow> a \<le> x \<and> x \<le> b"

definition is_digit :: "u8 \<Rightarrow> bool" where
  "is_digit b = between 0x30 0x39 b"

definition is_atom_byte :: "u8 \<Rightarrow> bool" where
  "is_atom_byte b \<longleftrightarrow>
     between 0x61 0x7a b \<or> between 0x41 0x5a b \<or> is_digit b \<or>
     b = ascii CHR ''_'' \<or> b = ascii CHR ''.'' \<or> b = ascii CHR ''+'' \<or> b = ascii CHR ''-''"

definition is_space :: "u8 \<Rightarrow> bool" where
  "is_space b \<longleftrightarrow> b = 0x20 \<or> b = 0x09 \<or> b = 0x0d \<or> b = 0x0a"

definition is_text_byte :: "u8 \<Rightarrow> bool" where
  "is_text_byte b \<longleftrightarrow> b \<noteq> 0x22 \<and> b \<noteq> 0x5c \<and> b > 0x1f"

definition is_continuation :: "u8 \<Rightarrow> bool" where
  "is_continuation b = between 0x80 0xbf b"

text \<open>\<open>char::len_utf8\<close> of the character that starts with a byte.\<close>

definition utf8_len :: "u8 \<Rightarrow> nat" where
  "utf8_len b = (if b < 0x80 then 1 else if b < 0xe0 then 2 else if b < 0xf0 then 3 else 4)"

text \<open>\<open>char::to_digit(16)\<close>; every hexadecimal digit is an ASCII character.\<close>

definition hex_digit :: "u8 \<Rightarrow> nat option" where
  "hex_digit b =
     (if is_digit b then Some (unat (b - 0x30))
      else if between 0x61 0x66 b then Some (unat (b - 0x61) + 10)
      else if between 0x41 0x46 b then Some (unat (b - 0x41) + 10)
      else None)"

section \<open>The three lexers\<close>

datatype normal_token = NLBrace | NRBrace | NLBracket | NRBracket | NComma | NColon | NQuote | NSpace | NAtom

definition normal_lex :: "(bytes \<Rightarrow> nat) \<Rightarrow> bytes \<Rightarrow> normal_token option \<times> nat" where
  "normal_lex bad s =
     (let b = hd s in
      if b = ascii CHR ''{'' then (Some NLBrace, 1)
      else if b = ascii CHR ''}'' then (Some NRBrace, 1)
      else if b = ascii CHR ''['' then (Some NLBracket, 1)
      else if b = ascii CHR '']'' then (Some NRBracket, 1)
      else if b = ascii CHR '','' then (Some NComma, 1)
      else if b = ascii CHR '':'' then (Some NColon, 1)
      else if b = 0x22 then (Some NQuote, 1)
      else if is_space b then (Some NSpace, length (takeWhile is_space s))
      else if is_atom_byte b then (Some NAtom, length (takeWhile is_atom_byte s))
      else (None, bad s))"

datatype quoted_token = QEndTok | QEscape | QText

definition quoted_lex :: "(bytes \<Rightarrow> nat) \<Rightarrow> bytes \<Rightarrow> quoted_token option \<times> nat" where
  "quoted_lex bad s =
     (let b = hd s in
      if b = 0x22 then (Some QEndTok, 1)
      else if b = 0x5c then (Some QEscape, 1)
      else if is_text_byte b then (Some QText, length (takeWhile is_text_byte s))
      else (None, bad s))"

datatype atom_token = ATrue | AFalse | ANull | AInteger | AFloat

text \<open>
  A complete match of an atom; a shorter match, like no match, is the same error in the source.
\<close>

definition digits1 :: "bytes \<Rightarrow> bool" where
  "digits1 s \<longleftrightarrow> s \<noteq> [] \<and> list_all is_digit s"

definition exponent :: "bytes \<Rightarrow> bool" where
  "exponent s =
     (case s of
        [] \<Rightarrow> False
      | e # r \<Rightarrow> (e = ascii CHR ''e'' \<or> e = ascii CHR ''E'') \<and>
          digits1 (case r of [] \<Rightarrow> [] | b # r' \<Rightarrow> if b = ascii CHR ''+'' \<or> b = ascii CHR ''-'' then r' else r))"

definition float_tail :: "bytes \<Rightarrow> bool" where
  "float_tail s =
     (case s of
        [] \<Rightarrow> False
      | b # r \<Rightarrow>
          if b = ascii CHR ''.'' then
            takeWhile is_digit r \<noteq> [] \<and> (dropWhile is_digit r = [] \<or> exponent (dropWhile is_digit r))
          else exponent s)"

definition integer_part :: "bytes \<Rightarrow> bytes option" where
  "integer_part s =
     (case s of
        [] \<Rightarrow> None
      | b # r \<Rightarrow>
          if b = ascii CHR ''0'' then Some r
          else if is_digit b then Some (dropWhile is_digit r) else None)"

definition atom_lex :: "bytes \<Rightarrow> atom_token option" where
  "atom_lex s =
     (if s = ascii_text ''true'' then Some ATrue
      else if s = ascii_text ''false'' then Some AFalse
      else if s = ascii_text ''null'' then Some ANull
      else
        (case integer_part (case s of [] \<Rightarrow> [] | b # r \<Rightarrow> if b = ascii CHR ''-'' then r else s) of
           None \<Rightarrow> None
         | Some [] \<Rightarrow> Some AInteger
         | Some (b # r) \<Rightarrow> if float_tail (b # r) then Some AFloat else None))"

section \<open>The scanner\<close>

type_synonym span = "nat \<times> nat"

datatype token_kind =
    TLBrace | TRBrace | TLBracket | TRBracket | TComma | TColon
  | TQStart | TQEnd | TText bytes | TEscChar u32 | TEscUtf16 u16
  | TTrue | TFalse | TNull | TNumber bool | TEof

record token =
  tk_kind :: token_kind
  tk_span :: span

datatype lex_error = LexPanic | LexError string span

datatype scan_mode = ModeNormal | ModeString

record scanner =
  sn_chunks :: "bytes list"
  sn_remaining :: bytes
  sn_offset :: nat
  sn_mode :: scan_mode

definition scanner_new :: "bytes list \<Rightarrow> scanner" where
  "scanner_new chunks = \<lparr>sn_chunks = chunks, sn_remaining = [], sn_offset = 0, sn_mode = ModeNormal\<rparr>"

text \<open>The input still to be read.\<close>

definition scanner_input :: "scanner \<Rightarrow> bytes" where
  "scanner_input s = sn_remaining s @ concat (sn_chunks s)"

function scan_ready :: "scanner \<Rightarrow> bool \<times> scanner" where
  "scan_ready s =
     (if sn_remaining s \<noteq> [] then (True, s)
      else (case sn_chunks s of
          [] \<Rightarrow> (False, s)
        | c # cs \<Rightarrow> scan_ready (s\<lparr>sn_chunks := cs, sn_remaining := c\<rparr>)))"
  by pat_completeness auto
termination by (relation "measure (\<lambda>s. length (sn_chunks s))") auto

declare scan_ready.simps [simp del]

definition scan_take :: "nat \<Rightarrow> scanner \<Rightarrow> bytes \<times> scanner" where
  "scan_take n s =
     (take n (sn_remaining s),
      s\<lparr>sn_remaining := drop n (sn_remaining s), sn_offset := sn_offset s + n\<rparr>)"

text \<open>\<open>character\<close>: the leading byte stands for the character; every one the code compares is ASCII.\<close>

definition scan_character :: "scanner \<Rightarrow> u8 option \<times> scanner" where
  "scan_character s =
     (case scan_ready s of
        (False, s) \<Rightarrow> (None, s)
      | (True, s) \<Rightarrow>
          (let b = hd (sn_remaining s) in (Some b, snd (scan_take (utf8_len b) s))))"

definition scan_error :: "scanner \<Rightarrow> nat \<Rightarrow> string \<Rightarrow> lex_error" where
  "scan_error s start message = LexError message (start, sn_offset s)"

text \<open>The loop of \<open>atom\<close> that joins an atom cut by chunk boundaries.\<close>

function join_atom :: "scanner \<Rightarrow> bytes \<Rightarrow> bytes \<times> scanner" where
  "join_atom s acc =
     (if sn_remaining s \<noteq> [] then (acc, s)
      else (case scan_ready s of
          (False, s) \<Rightarrow> (acc, s)
        | (True, s) \<Rightarrow>
            (let n = length (takeWhile is_atom_byte (sn_remaining s)) in
             if n = 0 then (acc, s)
             else join_atom (snd (scan_take n s)) (acc @ fst (scan_take n s)))))"
  by pat_completeness auto

lemma scan_ready_props:
  "scanner_input (snd (scan_ready s)) = scanner_input s \<and>
   sn_offset (snd (scan_ready s)) = sn_offset s \<and> sn_mode (snd (scan_ready s)) = sn_mode s \<and>
   (fst (scan_ready s) \<longleftrightarrow> scanner_input s \<noteq> []) \<and>
   (fst (scan_ready s) \<longleftrightarrow> sn_remaining (snd (scan_ready s)) \<noteq> [])"
proof (induction s rule: scan_ready.induct)
  case (1 s)
  show ?case
  proof (cases "sn_remaining s")
    case Nil
    show ?thesis
    proof (cases "sn_chunks s")
      case Nil
      with \<open>sn_remaining s = []\<close> show ?thesis
        by (simp add: scan_ready.simps [of s] scanner_input_def)
    next
      case (Cons c cs)
      with 1 [OF _ Cons] \<open>sn_remaining s = []\<close> show ?thesis
        by (auto simp: scan_ready.simps [of s] scanner_input_def)
    qed
  qed (simp add: scan_ready.simps [of s] scanner_input_def)
qed

lemma scan_ready_True:
  assumes "scan_ready s = (True, t)"
  shows "scanner_input t = scanner_input s" and "sn_offset t = sn_offset s" and "sn_mode t = sn_mode s"
    and "sn_remaining t \<noteq> []"
  using scan_ready_props [of s] assms by simp_all

lemma scan_ready_False:
  assumes "scan_ready s = (False, t)"
  shows "scanner_input t = []" and "scanner_input s = []" and "sn_offset t = sn_offset s"
    and "sn_mode t = sn_mode s"
  using scan_ready_props [of s] assms by simp_all

lemma scan_take_props:
  assumes "n \<le> length (sn_remaining s)" and "scan_take n s = (str, t)"
  shows "scanner_input s = str @ scanner_input t" and "length str = n"
    and "sn_offset t = sn_offset s + n" and "sn_mode t = sn_mode s" and "sn_chunks t = sn_chunks s"
  using assms by (auto simp: scan_take_def scanner_input_def)

termination join_atom
proof (relation "measure (\<lambda>(s, acc). length (scanner_input s))", goal_cases)
  case (2 s acc b t n)
  then have "scan_ready s = (True, t)" by simp
  note ready = scan_ready_True [OF this]
  have "n \<le> length (sn_remaining t)" using 2(4) by (simp add: length_takeWhile_le)
  from scan_take_props(1,2) [OF this, of "fst (scan_take n t)" "snd (scan_take n t)"] ready(1) 2(5)
  show ?case by simp
qed simp

declare join_atom.simps [simp del]

definition scan_atom :: "nat \<Rightarrow> bytes \<Rightarrow> scanner \<Rightarrow> (lex_error + token_kind) \<times> scanner" where
  "scan_atom start text s =
     (case join_atom s text of
        (whole, s) \<Rightarrow>
          (case atom_lex whole of
             Some ATrue \<Rightarrow> Inr TTrue
           | Some AFalse \<Rightarrow> Inr TFalse
           | Some ANull \<Rightarrow> Inr TNull
           | Some AInteger \<Rightarrow> Inr (TNumber False)
           | Some AFloat \<Rightarrow> Inr (TNumber True)
           | None \<Rightarrow> Inl (scan_error s start ''invalid JSON literal or number''), s))"

fun scan_hex :: "nat \<Rightarrow> nat \<Rightarrow> u16 \<Rightarrow> scanner \<Rightarrow> (lex_error + u16) \<times> scanner" where
  "scan_hex start 0 v s = (Inr v, s)"
| "scan_hex start (Suc k) v s =
     (case scan_character s of
        (c, s) \<Rightarrow>
          (case (case c of None \<Rightarrow> None | Some b \<Rightarrow> hex_digit b) of
             None \<Rightarrow> (Inl (scan_error s start ''Unicode escape requires four hex digits''), s)
           | Some digit \<Rightarrow> scan_hex start k (v * 16 + of_nat digit) s))"

definition scan_escape :: "nat \<Rightarrow> scanner \<Rightarrow> (lex_error + token_kind) \<times> scanner" where
  "scan_escape start s =
     (case scan_character s of
        (None, s) \<Rightarrow> (Inl (scan_error s start ''unterminated JSON escape''), s)
      | (Some c, s) \<Rightarrow>
          if c = 0x22 then (Inr (TEscChar 0x22), s)
          else if c = 0x5c then (Inr (TEscChar 0x5c), s)
          else if c = ascii CHR ''/'' then (Inr (TEscChar 0x2f), s)
          else if c = ascii CHR ''b'' then (Inr (TEscChar 0x08), s)
          else if c = ascii CHR ''f'' then (Inr (TEscChar 0x0c), s)
          else if c = ascii CHR ''n'' then (Inr (TEscChar 0x0a), s)
          else if c = ascii CHR ''r'' then (Inr (TEscChar 0x0d), s)
          else if c = ascii CHR ''t'' then (Inr (TEscChar 0x09), s)
          else if c = ascii CHR ''u'' then
            (case scan_hex start 4 0 s of (r, s) \<Rightarrow> (rbind r (\<lambda>v. Inr (TEscUtf16 v)), s))
          else (Inl (scan_error s start ''unknown JSON escape''), s))"

text \<open>The largest character boundary at or below \<open>n\<close>.\<close>

fun char_floor :: "bytes \<Rightarrow> nat \<Rightarrow> nat" where
  "char_floor s 0 = 0"
| "char_floor s (Suc n) =
     (if Suc n \<ge> length s \<or> \<not> is_continuation (s ! Suc n) then Suc n else char_floor s n)"

definition quoted_window :: "bytes \<Rightarrow> bytes" where
  "quoted_window s = take (char_floor s (min (length s) 4096)) s"

definition normal_kind :: "normal_token \<Rightarrow> token_kind" where
  "normal_kind t =
     (case t of
        NLBrace \<Rightarrow> TLBrace | NRBrace \<Rightarrow> TRBrace | NLBracket \<Rightarrow> TLBracket | NRBracket \<Rightarrow> TRBracket
      | NComma \<Rightarrow> TComma | NColon \<Rightarrow> TColon | _ \<Rightarrow> TQStart)"

text \<open>
  One lexeme of the normal mode: \<open>None\<close> for white space, which the loop of \<open>next\<close> skips.
\<close>

definition scan_normal :: "(bytes \<Rightarrow> nat) \<Rightarrow> nat \<Rightarrow> scanner \<Rightarrow> (lex_error + token_kind) option \<times> scanner" where
  "scan_normal bad start s =
     (case normal_lex bad (sn_remaining s) of
        (tok, n) \<Rightarrow>
          (case scan_take n s of
             (str, s) \<Rightarrow>
               (case tok of
                  None \<Rightarrow> (Some (Inl (scan_error s start ''invalid JSON token'')), s)
                | Some NSpace \<Rightarrow> (None, s)
                | Some NAtom \<Rightarrow> (case scan_atom start str s of (r, s) \<Rightarrow> (Some r, s))
                | Some NQuote \<Rightarrow> (Some (Inr TQStart), s\<lparr>sn_mode := ModeString\<rparr>)
                | Some t \<Rightarrow> (Some (Inr (normal_kind t)), s))))"

definition scan_string :: "(bytes \<Rightarrow> nat) \<Rightarrow> nat \<Rightarrow> scanner \<Rightarrow> (lex_error + token_kind) \<times> scanner" where
  "scan_string bad start s =
     (let window = quoted_window (sn_remaining s) in
      if window = [] then (Inl LexPanic, s)
      else (case quoted_lex bad window of
          (tok, n) \<Rightarrow>
            (case scan_take n s of
               (str, s) \<Rightarrow>
                 (case tok of
                    None \<Rightarrow> (Inl (scan_error s start ''unescaped control character in JSON string''), s)
                  | Some QEndTok \<Rightarrow> (Inr TQEnd, s\<lparr>sn_mode := ModeNormal\<rparr>)
                  | Some QText \<Rightarrow> (Inr (TText str), s)
                  | Some QEscape \<Rightarrow> scan_escape start s))))"

lemma normal_lex_length:
  assumes "s \<noteq> []" and "normal_lex bad s = (Some t, n)"
  shows "0 < n" and "n \<le> length s"
  using assms
  by (cases s; auto simp: normal_lex_def Let_def length_takeWhile_le split: if_splits)+

function scan_next :: "(bytes \<Rightarrow> nat) \<Rightarrow> scanner \<Rightarrow> (lex_error + token) \<times> scanner" where
  "scan_next bad s =
     (case scan_ready s of
        (False, s) \<Rightarrow> (Inr \<lparr>tk_kind = TEof, tk_span = (sn_offset s, sn_offset s)\<rparr>, s)
      | (True, s) \<Rightarrow>
          (let start = sn_offset s in
           case sn_mode s of
             ModeNormal \<Rightarrow>
               (case scan_normal bad start s of
                  (None, s) \<Rightarrow> scan_next bad s
                | (Some r, s) \<Rightarrow>
                    (rbind r (\<lambda>k. Inr \<lparr>tk_kind = k, tk_span = (start, sn_offset s)\<rparr>), s))
           | ModeString \<Rightarrow>
               (case scan_string bad start s of
                  (r, s) \<Rightarrow> (rbind r (\<lambda>k. Inr \<lparr>tk_kind = k, tk_span = (start, sn_offset s)\<rparr>), s))))"
  by pat_completeness auto

lemma scan_normal_skip:
  assumes "scan_normal bad start s = (None, t)" and "sn_remaining s \<noteq> []"
  shows "length (scanner_input t) < length (scanner_input s)"
proof -
  obtain tok n where lex: "normal_lex bad (sn_remaining s) = (tok, n)" by force
  with assms(1) have "tok = Some NSpace" and t: "t = snd (scan_take n s)"
    by (auto simp: scan_normal_def split: prod.splits option.splits normal_token.splits)
  with normal_lex_length [OF assms(2)] lex have "0 < n" "n \<le> length (sn_remaining s)" by auto
  with scan_take_props(1,2) [OF this(2), of "fst (scan_take n s)" t] t show ?thesis by simp
qed

termination scan_next
proof (relation "measure (\<lambda>(bad, s). length (scanner_input s))", goal_cases)
  case (2 bad s b t start r u)
  then have ready: "scan_ready s = (True, t)" by simp
  with 2 scan_normal_skip [of bad start t u] scan_ready_True [OF ready] show ?case by simp
qed simp

declare scan_next.simps [simp del]

end
