(* ===== verification/Json_Tokens.thy ===== *)
theory Json_Tokens
  imports Json_Lexer
begin

text \<open>
  What the parser relies on of the scanner of \<^verbatim>\<open>Json_Lexer\<close>: every token but the last consumes
  input, offsets follow the input, and the mode decides which tokens can come.
\<close>

section \<open>Progress\<close>

definition shorter :: "scanner \<Rightarrow> scanner \<Rightarrow> bool" where
  "shorter t s \<longleftrightarrow> length (scanner_input t) \<le> length (scanner_input s)"

lemma shorter_refl [simp]: "shorter s s"
  by (simp add: shorter_def)

lemma shorter_trans [trans]: "shorter u t \<Longrightarrow> shorter t s \<Longrightarrow> shorter u s"
  by (simp add: shorter_def)

lemma shorter_take: "scan_take n s = (str, t) \<Longrightarrow> shorter t s"
  by (auto simp: scan_take_def shorter_def scanner_input_def)

lemma shorter_ready: "scan_ready s = (b, t) \<Longrightarrow> shorter t s"
  using scan_ready_props [of s] by (simp add: shorter_def)

lemma shorter_character: "scan_character s = (c, t) \<Longrightarrow> shorter t s"
  by (auto simp: scan_character_def Let_def split: prod.splits bool.splits
      dest!: shorter_ready intro: shorter_trans shorter_take [OF prod.collapse [symmetric]])

lemma shorter_join: "join_atom s acc = (str, t) \<Longrightarrow> shorter t s"
proof (induction s acc arbitrary: str t rule: join_atom.induct)
  case (1 s acc)
  show ?case
  proof (cases "sn_remaining s \<noteq> []")
    case True
    with 1(2) show ?thesis by (simp add: join_atom.simps [of s])
  next
    case False
    obtain b u where ready: "scan_ready s = (b, u)" by force
    note u = shorter_ready [OF ready]
    let ?n = "length (takeWhile is_atom_byte (sn_remaining u))"
    show ?thesis
    proof (cases "b \<and> ?n \<noteq> 0")
      case True
      with 1(2) False ready have "join_atom (snd (scan_take ?n u)) (acc @ fst (scan_take ?n u)) = (str, t)"
        by (simp add: join_atom.simps [of s] Let_def)
      with 1(1) False ready True have "shorter t (snd (scan_take ?n u))" by simp
      with shorter_take [of ?n u] u show ?thesis by (metis prod.collapse shorter_trans)
    next
      case no: False
      with 1(2) False ready u show ?thesis
        by (auto simp: join_atom.simps [of s] Let_def split: bool.splits)
    qed
  qed
qed

lemma shorter_atom: "scan_atom start str s = (r, t) \<Longrightarrow> shorter t s"
  by (auto simp: scan_atom_def split: prod.splits dest: shorter_join)

lemma shorter_hex: "scan_hex start k v s = (r, t) \<Longrightarrow> shorter t s"
proof (induction k arbitrary: v s)
  case (Suc k)
  obtain c u where u: "scan_character s = (c, u)" by force
  from Suc.prems Suc.IH have "shorter t u" by (auto simp: u split: option.splits)
  with shorter_character [OF u] show ?case by (rule shorter_trans [rotated])
qed simp

lemma shorter_escape: "scan_escape start s = (r, t) \<Longrightarrow> shorter t s"
  by (auto simp: scan_escape_def split: prod.splits option.splits if_splits
      dest!: shorter_character shorter_hex intro: shorter_trans)

lemma quoted_window_length: "length (quoted_window s) \<le> length s"
  by (simp add: quoted_window_def)

lemma quoted_lex_length:
  assumes "s \<noteq> []" and "quoted_lex bad s = (Some k, n)"
  shows "0 < n" and "n \<le> length s"
  using assms
  by (cases s; auto simp: quoted_lex_def Let_def length_takeWhile_le split: if_splits)+

lemma take_consumes:
  assumes "scan_take n s = (str, t)" and "0 < n" and "n \<le> length (sn_remaining s)"
  shows "length (scanner_input t) < length (scanner_input s)"
  using scan_take_props(1,2) [OF assms(3,1)] assms(2) by simp

lemma shorter_less: "shorter u t \<Longrightarrow> length (scanner_input t) < n \<Longrightarrow> length (scanner_input u) < n"
  by (simp add: shorter_def)

lemma scan_normal_progress:
  assumes "scan_normal bad start s = (Some (Inr k), t)" and "sn_remaining s \<noteq> []"
  shows "length (scanner_input t) < length (scanner_input s)"
proof -
  obtain tok n where lex: "normal_lex bad (sn_remaining s) = (tok, n)" by force
  obtain str u where u: "scan_take n s = (str, u)" by force
  from assms(1) lex u obtain a where a: "tok = Some a"
    by (auto simp: scan_normal_def split: option.splits)
  from normal_lex_length [OF assms(2)] lex a take_consumes [OF u]
  have less: "length (scanner_input u) < length (scanner_input s)" by simp
  have "shorter t u"
    using assms(1) lex u a
    by (auto simp: scan_normal_def shorter_def scanner_input_def split: normal_token.splits prod.splits
        dest!: shorter_atom)
  with less show ?thesis by (rule shorter_less [rotated])
qed

lemma scan_string_progress:
  assumes "scan_string bad start s = (Inr k, t)"
  shows "length (scanner_input t) < length (scanner_input s)"
proof -
  let ?w = "quoted_window (sn_remaining s)"
  from assms have ne: "?w \<noteq> []" by (auto simp: scan_string_def Let_def split: if_splits)
  obtain tok n where lex: "quoted_lex bad ?w = (tok, n)" by force
  obtain str u where u: "scan_take n s = (str, u)" by force
  from assms lex u ne obtain a where a: "tok = Some a"
    by (auto simp: scan_string_def Let_def split: option.splits)
  have "n \<le> length (sn_remaining s)" "0 < n"
    using quoted_lex_length [OF ne] lex a quoted_window_length [of "sn_remaining s"] by force+
  with take_consumes [OF u]
  have less: "length (scanner_input u) < length (scanner_input s)" by simp
  have "shorter t u"
    using assms lex u a ne
    by (auto simp: scan_string_def Let_def shorter_def scanner_input_def split: quoted_token.splits
        dest!: shorter_escape)
  with less show ?thesis by (rule shorter_less [rotated])
qed

text \<open>Every token but the end of the input consumes some of it.\<close>

lemma scan_next_progress:
  assumes "scan_next bad s = (Inr tok, t)" and "tk_kind tok \<noteq> TEof"
  shows "length (scanner_input t) < length (scanner_input s)"
  using assms
proof (induction bad s arbitrary: t rule: scan_next.induct)
  case (1 bad s)
  obtain b u where ready: "scan_ready s = (b, u)" by force
  show ?case
  proof (cases b)
    case False
    with 1(2,3) ready show ?thesis by (auto simp: scan_next.simps [of bad s])
  next
    case True
    with ready have r: "scan_ready s = (True, u)" by simp
    note u = scan_ready_True [OF r]
    show ?thesis
    proof (cases "sn_mode u")
      case ModeNormal
      obtain o' v where v: "scan_normal bad (sn_offset u) u = (o', v)" by force
      show ?thesis
      proof (cases o')
        case None
        from 1(2) r ModeNormal v None have "scan_next bad v = (Inr tok, t)"
          by (simp add: scan_next.simps [of bad s] Let_def)
        with 1(1) [OF r [symmetric] refl refl ModeNormal, of o' v] 1(3) v None
        have "length (scanner_input t) < length (scanner_input v)" by simp
        moreover have "length (scanner_input v) < length (scanner_input u)"
          using scan_normal_skip u(4) v None by blast
        ultimately show ?thesis using u(1) by simp
      next
        case (Some a)
        with 1(2) r ModeNormal v obtain k where "a = Inr k" "t = v"
          by (auto simp: scan_next.simps [of bad s] Let_def result_simps)
        with Some v scan_normal_progress [OF _ u(4)] u(1) show ?thesis by simp
      qed
    next
      case ModeString
      obtain r' v where v: "scan_string bad (sn_offset u) u = (r', v)" by force
      with 1(2) r ModeString obtain k where "r' = Inr k" "t = v"
        by (auto simp: scan_next.simps [of bad s] Let_def result_simps)
      with v scan_string_progress [of bad "sn_offset u" u k v] u(1) show ?thesis by simp
    qed
  qed
qed


text \<open>The end of the input is only reported when nothing is left.\<close>

lemma scan_normal_not_eof: "scan_normal bad start s \<noteq> (Some (Inr TEof), t)"
proof -
  have "scan_atom start str u \<noteq> (Inr TEof, t)" for str u
    by (auto simp: scan_atom_def split: prod.splits option.splits atom_token.splits)
  then show ?thesis
    by (auto simp: scan_normal_def normal_kind_def split: prod.splits option.splits normal_token.splits)
qed

lemma scan_string_not_eof: "scan_string bad start s \<noteq> (Inr TEof, t)"
  by (auto simp: scan_string_def scan_escape_def rbind_eq_Inr Let_def
      split: prod.splits option.splits quoted_token.splits if_splits)

lemma scan_next_eof: "scan_next bad s = (Inr tok, t) \<Longrightarrow> tk_kind tok = TEof \<Longrightarrow> scanner_input t = []"
proof (induction bad s rule: scan_next.induct)
  case (1 bad s)
  obtain b u where ready: "scan_ready s = (b, u)" by force
  show ?case
  proof (cases b)
    case False
    with 1(2) ready scan_ready_False(1) [of s u] show ?thesis by (auto simp: scan_next.simps [of bad s])
  next
    case True
    with ready have rd: "scan_ready s = (True, u)" by simp
    show ?thesis
    proof (cases "sn_mode u")
      case ModeNormal
      obtain o' v where v: "scan_normal bad (sn_offset u) u = (o', v)" by force
      show ?thesis
      proof (cases o')
        case None
        with 1(2) rd ModeNormal v have "scan_next bad v = (Inr tok, t)"
          by (simp add: scan_next.simps [of bad s] Let_def)
        with 1(1) [OF rd [symmetric] refl refl ModeNormal, of o' v] 1(3) v None show ?thesis by simp
      next
        case (Some a)
        with 1(2,3) rd ModeNormal v scan_normal_not_eof [of bad "sn_offset u" u v] show ?thesis
          by (auto simp: scan_next.simps [of bad s] Let_def rbind_eq_Inr)
      qed
    next
      case ModeString
      obtain r' v where v: "scan_string bad (sn_offset u) u = (r', v)" by force
      with 1(2,3) rd ModeString scan_string_not_eof [of bad "sn_offset u" u v] show ?thesis
        by (auto simp: scan_next.simps [of bad s] Let_def rbind_eq_Inr)
    qed
  qed
qed

section \<open>Offsets and character boundaries\<close>

text \<open>
  A chunk is a \<open>str\<close>: characters are complete, so that its cuts are at character boundaries.
\<close>

fun utf8_ok :: "bytes \<Rightarrow> bool" where
  "utf8_ok [] = True"
| "utf8_ok (b # r) =
     (\<not> is_continuation b \<and> utf8_len b - 1 \<le> length r \<and>
      list_all is_continuation (take (utf8_len b - 1) r) \<and> utf8_ok (drop (utf8_len b - 1) r))"

text \<open>What the code relies on of Logos: the span of an unmatched lexeme lies in the text.\<close>

definition bad_ok :: "(bytes \<Rightarrow> nat) \<Rightarrow> bool" where
  "bad_ok bad \<longleftrightarrow> (\<forall>s. s \<noteq> [] \<longrightarrow> bad s \<le> length s)"

definition boundary_at :: "bytes \<Rightarrow> nat \<Rightarrow> bool" where
  "boundary_at s n \<longleftrightarrow> n = length s \<or> n < length s \<and> \<not> is_continuation (s ! n)"

lemma utf8_len_pos: "0 < utf8_len b" "utf8_len b \<le> 4"
  by (simp_all add: utf8_len_def)

lemma inside_char:
  assumes "utf8_ok (b # r)" and "m < utf8_len b - 1"
  shows "\<not> boundary_at (b # r) (Suc m)"
proof -
  let ?k = "utf8_len b - 1"
  have k: "?k \<le> length r" and all: "list_all is_continuation (take ?k r)" using assms(1) by simp_all
  from all have "is_continuation (take ?k r ! m)"
    using k assms(2) unfolding list_all_length by simp
  with k assms(2) show ?thesis by (simp add: boundary_at_def)
qed

lemma utf8_drop: "utf8_ok s \<Longrightarrow> boundary_at s n \<Longrightarrow> utf8_ok (drop n s)"
proof (induction s arbitrary: n rule: utf8_ok.induct)
  case 1
  then show ?case by (simp add: boundary_at_def)
next
  case (2 b r)
  let ?k = "utf8_len b - 1"
  show ?case
  proof (cases n)
    case 0
    with 2(2) show ?thesis by simp
  next
    case (Suc m)
    have "?k \<le> m" using inside_char [OF 2(2), of m] 2(3) Suc by (meson not_le)
    with 2(3) Suc have "boundary_at (drop ?k r) (m - ?k)" by (auto simp: boundary_at_def)
    with 2(1) [of "m - ?k"] 2(2) \<open>?k \<le> m\<close> Suc show ?thesis by simp
  qed
qed

lemma boundary_takeWhile:
  assumes "\<And>b. is_continuation b \<Longrightarrow> P b"
  shows "boundary_at s (length (takeWhile P s))"
  using assms nth_length_takeWhile [of P s] length_takeWhile_le [of P s]
  by (auto simp: boundary_at_def le_less)

lemma utf8_takeWhile_ascii:
  assumes "utf8_ok s" and "\<And>b. P b \<Longrightarrow> utf8_len b = 1"
  shows "utf8_ok (drop (length (takeWhile P s)) s)"
  using assms(1)
proof (induction s rule: utf8_ok.induct)
  case (2 b r)
  then show ?case using assms(2) [of b] by (cases "P b") auto
qed simp

lemma utf8_take: "utf8_ok s \<Longrightarrow> boundary_at s n \<Longrightarrow> utf8_ok (take n s)"
proof (induction s arbitrary: n rule: utf8_ok.induct)
  case (2 b r)
  let ?k = "utf8_len b - 1"
  show ?case
  proof (cases n)
    case (Suc m)
    have "?k \<le> m" using inside_char [OF 2(2), of m] 2(3) Suc by (meson not_le)
    with 2(3) Suc have b: "boundary_at (drop ?k r) (m - ?k)" by (auto simp: boundary_at_def)
    from 2(1) [OF _ b] 2(2) have "utf8_ok (drop ?k (take m r))" by (simp add: drop_take)
    moreover have "?k \<le> length (take m r)" using 2(2) \<open>?k \<le> m\<close> by simp
    ultimately show ?thesis using 2(2) Suc \<open>?k \<le> m\<close> by (simp add: min_def)
  qed simp
qed simp

text \<open>A nonempty text has a character boundary within its first four bytes.\<close>

lemma char_floor_boundary: "n \<le> length s \<Longrightarrow> utf8_ok s \<Longrightarrow> boundary_at s (char_floor s n)"
proof (induction n)
  case 0
  then show ?case by (cases s) (auto simp: boundary_at_def)
next
  case (Suc n)
  then show ?case by (auto simp: boundary_at_def)
qed

lemma char_floor_greatest: "boundary_at s k \<Longrightarrow> k \<le> n \<Longrightarrow> n \<le> length s \<Longrightarrow> k \<le> char_floor s n"
proof (induction n)
  case (Suc n)
  then show ?case by (cases "k = Suc n") (auto simp: boundary_at_def)
qed simp

lemma char_floor_le: "char_floor s n \<le> n"
  by (induction n) auto

lemma first_boundary:
  assumes "utf8_ok (b # r)"
  shows "boundary_at (b # r) (utf8_len b)"
proof -
  let ?k = "utf8_len b - 1"
  from assms have "utf8_ok (drop ?k r)" "?k \<le> length r" by simp_all
  moreover obtain k where "utf8_len b = Suc k" using utf8_len_pos(1) [of b] gr0_implies_Suc by blast
  ultimately show ?thesis
    by (cases "drop k r") (auto simp: boundary_at_def Cons_nth_drop_Suc [symmetric] split: if_splits
        dest!: sym [of _ "drop k r"] nth_via_drop)
qed

lemma quoted_window_ok:
  assumes "utf8_ok s" and "s \<noteq> []"
  shows "quoted_window s \<noteq> []" and "utf8_ok (quoted_window s)"
    and "boundary_at s (length (quoted_window s))"
proof -
  obtain b r where s: "s = b # r" using assms(2) by (cases s) auto
  let ?n = "char_floor s (min (length s) 4096)"
  have bd: "boundary_at s ?n" using assms(1) by (intro char_floor_boundary) auto
  have first: "boundary_at s (utf8_len b)" using first_boundary assms(1) s by simp
  then have "utf8_len b \<le> length s" by (auto simp: boundary_at_def)
  with utf8_len_pos(2) [of b] char_floor_greatest [OF first, of "min (length s) 4096"]
  have "utf8_len b \<le> ?n" by simp
  with utf8_len_pos(1) [of b] have "0 < ?n" by simp
  then show "quoted_window s \<noteq> []" using assms(2) by (simp add: quoted_window_def)
  show "utf8_ok (quoted_window s)" using utf8_take [OF assms(1) bd] by (simp add: quoted_window_def)
  have "?n \<le> length s" using bd by (auto simp: boundary_at_def)
  then have "length (quoted_window s) = ?n" by (simp add: quoted_window_def)
  with bd show "boundary_at s (length (quoted_window s))" by simp
qed


section \<open>The scanner invariant\<close>

text \<open>\<open>N\<close> is the length of the whole input.\<close>

definition scan_ok :: "nat \<Rightarrow> scanner \<Rightarrow> bool" where
  "scan_ok N s \<longleftrightarrow>
     sn_offset s + length (scanner_input s) = N \<and> utf8_ok (sn_remaining s) \<and>
     list_all utf8_ok (sn_chunks s)"

definition follows :: "nat \<Rightarrow> scanner \<Rightarrow> scanner \<Rightarrow> bool" where
  "follows N s t \<longleftrightarrow> scan_ok N t \<and> sn_offset s \<le> sn_offset t \<and> sn_mode t = sn_mode s"

lemma scan_ok_new: "list_all utf8_ok chunks \<Longrightarrow> scan_ok (length (concat chunks)) (scanner_new chunks)"
  by (simp add: scan_ok_def scanner_new_def scanner_input_def)

lemma scan_ok_offset: "scan_ok N s \<Longrightarrow> sn_offset s \<le> N"
  by (simp add: scan_ok_def)

lemma scan_ok_mode [simp]: "scan_ok N (s\<lparr>sn_mode := m\<rparr>) = scan_ok N s"
  by (simp add: scan_ok_def scanner_input_def)

lemma follows_refl: "scan_ok N s \<Longrightarrow> follows N s s"
  by (simp add: follows_def)

lemma follows_trans: "follows N s t \<Longrightarrow> follows N t u \<Longrightarrow> follows N s u"
  by (simp add: follows_def)

lemma followsD: "follows N s t \<Longrightarrow> scan_ok N t" "follows N s t \<Longrightarrow> sn_offset s \<le> sn_offset t"
  "follows N s t \<Longrightarrow> sn_offset t \<le> N" "follows N s t \<Longrightarrow> sn_mode t = sn_mode s"
  by (auto simp: follows_def scan_ok_def)

lemma ready_follows: "scan_ok N s \<Longrightarrow> scan_ready s = (b, t) \<Longrightarrow> follows N s t"
proof (induction s arbitrary: t rule: scan_ready.induct)
  case (1 s)
  show ?case
  proof (cases "sn_remaining s = [] \<and> sn_chunks s \<noteq> []")
    case False
    with 1(2,3) show ?thesis
      by (auto simp: scan_ready.simps [of s] follows_refl split: list.splits if_splits)
  next
    case True
    then obtain c cs where c: "sn_chunks s = c # cs" by (cases "sn_chunks s") auto
    let ?s = "s\<lparr>sn_chunks := cs, sn_remaining := c\<rparr>"
    have "scan_ok N ?s" using 1(2) True c by (simp add: scan_ok_def scanner_input_def)
    moreover have "scan_ready ?s = (b, t)" using 1(3) True c by (simp add: scan_ready.simps [of s])
    ultimately have "follows N ?s t" using 1(1) True c by simp
    then show ?thesis by (simp add: follows_def)
  qed
qed

lemma take_follows:
  assumes "scan_ok N s" and "n \<le> length (sn_remaining s)" and "utf8_ok (drop n (sn_remaining s))"
    and "scan_take n s = (str, t)"
  shows "follows N s t" and "sn_offset t = sn_offset s + n"
  using assms scan_take_props(1,2) [OF assms(2,4)]
  by (auto simp: follows_def scan_ok_def scan_take_def)

lemma boundary_le: "boundary_at s n \<Longrightarrow> n \<le> length s"
  by (auto simp: boundary_at_def)

lemma character_follows:
  assumes "scan_ok N s" and "scan_character s = (c, t)"
  shows "follows N s t"
proof -
  obtain b u where ready: "scan_ready s = (b, u)" by force
  note u = ready_follows [OF assms(1) ready]
  show ?thesis
  proof (cases b)
    case False
    with assms(2) ready u show ?thesis by (simp add: scan_character_def)
  next
    case True
    then obtain x r where r: "sn_remaining u = x # r"
      using scan_ready_True(4) [of s u] ready by (cases "sn_remaining u") auto
    have ok: "utf8_ok (x # r)" using followsD(1) [OF u] r by (simp add: scan_ok_def)
    note bd = first_boundary [OF ok]
    have t: "scan_take (utf8_len x) u = (fst (scan_take (utf8_len x) u), t)"
      using assms(2) ready True r by (auto simp: scan_character_def Let_def)
    have "follows N u t"
      using take_follows(1) [OF followsD(1) [OF u] _ _ t] boundary_le [OF bd] utf8_drop [OF ok bd] r by simp
    with u show ?thesis by (rule follows_trans)
  qed
qed

lemma atom_byte_ascii: "is_atom_byte b \<Longrightarrow> utf8_len b = 1"
  and space_ascii: "is_space b \<Longrightarrow> utf8_len b = 1"
  by (auto simp: is_atom_byte_def is_space_def between_def is_digit_def ascii_def utf8_len_def
      word_le_nat_alt word_less_nat_alt)

lemma join_follows: "scan_ok N s \<Longrightarrow> join_atom s acc = (str, t) \<Longrightarrow> follows N s t"
proof (induction s acc arbitrary: str t rule: join_atom.induct)
  case (1 s acc)
  show ?case
  proof (cases "sn_remaining s \<noteq> []")
    case True
    with 1(2,3) show ?thesis by (simp add: join_atom.simps [of s] follows_refl)
  next
    case False
    obtain b u where ready: "scan_ready s = (b, u)" by force
    note u = ready_follows [OF 1(2) ready]
    let ?n = "length (takeWhile is_atom_byte (sn_remaining u))"
    show ?thesis
    proof (cases "b \<and> ?n \<noteq> 0")
      case True
      obtain str' v where v: "scan_take ?n u = (str', v)" by force
      have uok: "scan_ok N u" using followsD(1) [OF u] .
      have "utf8_ok (drop ?n (sn_remaining u))"
        using utf8_takeWhile_ascii [OF _ atom_byte_ascii] uok by (simp add: scan_ok_def)
      from take_follows(1) [OF uok length_takeWhile_le this v] have uv: "follows N u v" .
      with 1(1) [of b u ?n] 1(3) False ready True v have "follows N v t"
        by (simp add: join_atom.simps [of s] Let_def followsD(1))
      with u uv show ?thesis by (meson follows_trans)
    next
      case no: False
      with 1(3) False ready u show ?thesis
        by (auto simp: join_atom.simps [of s] Let_def split: bool.splits)
    qed
  qed
qed

text \<open>The span of an error lies in the input.\<close>

definition error_inside :: "nat \<Rightarrow> nat \<Rightarrow> lex_error \<Rightarrow> bool" where
  "error_inside N start e \<longleftrightarrow> (\<exists>m b. e = LexError m (start, b) \<and> start \<le> b \<and> b \<le> N)"

lemma scan_error_inside: "follows N s t \<Longrightarrow> start \<le> sn_offset s \<Longrightarrow> error_inside N start (scan_error t start m)"
  using followsD [of N s t] by (auto simp: error_inside_def scan_error_def)

lemma atom_follows:
  assumes "scan_ok N s" and "scan_atom start str s = (r, t)" and "start \<le> sn_offset s"
  shows "follows N s t" and "r = Inl e \<Longrightarrow> error_inside N start e"
    and "r = Inr k \<Longrightarrow> k = TTrue \<or> k = TFalse \<or> k = TNull \<or> (\<exists>f. k = TNumber f)"
proof -
  obtain w u where j: "join_atom s str = (w, u)" by force
  note f = join_follows [OF assms(1) j]
  from assms(2) j have t: "t = u" by (simp add: scan_atom_def)
  with f show "follows N s t" by simp
  show "error_inside N start e" if "r = Inl e"
    using that assms(2) j scan_error_inside [OF f assms(3)]
    by (auto simp: scan_atom_def split: option.splits atom_token.splits)
  show "k = TTrue \<or> k = TFalse \<or> k = TNull \<or> (\<exists>f. k = TNumber f)" if "r = Inr k"
    using that assms(2) j by (auto simp: scan_atom_def split: option.splits atom_token.splits)
qed

lemma hex_follows:
  assumes "scan_ok N s" and "scan_hex start k v s = (r, t)" and "start \<le> sn_offset s"
  shows "follows N s t \<and> (\<forall>e. r = Inl e \<longrightarrow> error_inside N start e)"
  using assms
proof (induction k arbitrary: v s)
  case (Suc k)
  obtain c u where u: "scan_character s = (c, u)" by force
  note f = character_follows [OF Suc.prems(1) u]
  show ?case
  proof (cases "case c of None \<Rightarrow> None | Some b \<Rightarrow> hex_digit b")
    case None
    with Suc.prems u f scan_error_inside [OF f Suc.prems(3)] show ?thesis by auto
  next
    case (Some d)
    with Suc.prems(2) u have "scan_hex start k (v * 16 + of_nat d) u = (r, t)" by simp
    from Suc.IH [OF followsD(1) [OF f] this] Suc.prems(3) followsD(2) [OF f] follows_trans [OF f]
    show ?thesis by auto
  qed
qed (auto simp: follows_refl)

lemma escape_follows:
  assumes "scan_ok N s" and "scan_escape start s = (r, t)" and "start \<le> sn_offset s"
  shows "follows N s t" and "r = Inl e \<Longrightarrow> error_inside N start e"
    and "r = Inr k \<Longrightarrow> (\<exists>c. k = TEscChar c) \<or> (\<exists>v. k = TEscUtf16 v)"
proof -
  obtain c u where u: "scan_character s = (c, u)" by force
  note f = character_follows [OF assms(1) u]
  obtain h v where h: "scan_hex start 4 0 u = (h, v)" by force
  have hf: "follows N u v \<and> (\<forall>e. h = Inl e \<longrightarrow> error_inside N start e)"
    using hex_follows [OF followsD(1) [OF f] h] followsD(2) [OF f] assms(3) by simp
  note err = scan_error_inside [OF f assms(3)]
  have main: "follows N s t \<and> (\<forall>e. r = Inl e \<longrightarrow> error_inside N start e) \<and>
      (\<forall>k. r = Inr k \<longrightarrow> (\<exists>c. k = TEscChar c) \<or> (\<exists>v. k = TEscUtf16 v))"
  proof (cases c)
    case None
    with assms(2) u f err show ?thesis by (auto simp: scan_escape_def)
  next
    case (Some x)
    show ?thesis
    proof (cases "t = v \<and> r = rbind h (\<lambda>v. Inr (TEscUtf16 v))")
      case True
      with hf f follows_trans show ?thesis by (auto simp: result_simps)
    next
      case False
      with assms(2) u Some f err h show ?thesis
        by (auto simp: scan_escape_def split: if_splits)
    qed
  qed
  then show "follows N s t" and "r = Inl e \<Longrightarrow> error_inside N start e"
    and "r = Inr k \<Longrightarrow> (\<exists>c. k = TEscChar c) \<or> (\<exists>v. k = TEscUtf16 v)" by auto
qed


text \<open>Which tokens each mode gives, and the mode they leave.\<close>

definition normal_result :: "token_kind \<Rightarrow> scan_mode \<Rightarrow> bool" where
  "normal_result k m \<longleftrightarrow>
     (case k of TQEnd \<Rightarrow> False | TText _ \<Rightarrow> False | TEscChar _ \<Rightarrow> False | TEscUtf16 _ \<Rightarrow> False
      | TQStart \<Rightarrow> m = ModeString | _ \<Rightarrow> m = ModeNormal)"

definition string_result :: "token_kind \<Rightarrow> scan_mode \<Rightarrow> bool" where
  "string_result k m \<longleftrightarrow>
     (case k of TQEnd \<Rightarrow> m = ModeNormal | TText _ \<Rightarrow> m = ModeString | TEscChar _ \<Rightarrow> m = ModeString
      | TEscUtf16 _ \<Rightarrow> m = ModeString | TEof \<Rightarrow> m = ModeString | _ \<Rightarrow> False)"

definition advances :: "nat \<Rightarrow> nat \<Rightarrow> scanner \<Rightarrow> bool" where
  "advances N start t \<longleftrightarrow> scan_ok N t \<and> start \<le> sn_offset t"

lemma follows_advances: "follows N s t \<Longrightarrow> start \<le> sn_offset s \<Longrightarrow> advances N start t"
  by (simp add: advances_def follows_def)

lemma advances_mode [simp]: "advances N start (s\<lparr>sn_mode := m\<rparr>) = advances N start s"
  by (simp add: advances_def)

lemma normal_lex_boundary:
  assumes "s \<noteq> []" and "utf8_ok s" and "bad_ok bad" and "normal_lex bad s = (tok, n)"
  shows "n \<le> length s" and "tok \<noteq> None \<Longrightarrow> utf8_ok (drop n s)"
    and "tok = Some NQuote \<or> tok = Some NComma \<or> tok = Some NColon \<Longrightarrow> n = 1"
proof -
  obtain b r where s: "s = b # r" using assms(1) by (cases s) auto
  have le: "length (takeWhile P s) \<le> length s" for P :: "u8 \<Rightarrow> bool" by (rule length_takeWhile_le)
  show "n \<le> length s"
    using assms(1,3,4) le [of is_space] le [of is_atom_byte] s
    by (auto simp: normal_lex_def Let_def bad_ok_def split: if_splits)
  show "n = 1" if "tok = Some NQuote \<or> tok = Some NComma \<or> tok = Some NColon"
    using that assms(4) by (auto simp: normal_lex_def Let_def split: if_splits)
  have one: "utf8_ok r" if "utf8_len b = 1" using that assms(2) s by simp
  have sp: "utf8_ok (drop (length (takeWhile is_space s)) s)"
    and at: "utf8_ok (drop (length (takeWhile is_atom_byte s)) s)"
    using utf8_takeWhile_ascii [OF assms(2) space_ascii] utf8_takeWhile_ascii [OF assms(2) atom_byte_ascii]
    by auto
  show "utf8_ok (drop n s)" if "tok \<noteq> None"
    using that assms(4) sp at one s
    by (auto simp: normal_lex_def Let_def ascii_def utf8_len_def split: if_splits)
qed

lemma scan_normal_ok:
  assumes "scan_ok N s" and "sn_remaining s \<noteq> []" and "bad_ok bad" and "sn_mode s = ModeNormal"
    and "scan_normal bad (sn_offset s) s = (r, t)"
  shows "advances N (sn_offset s) t \<or> (\<exists>e. r = Some (Inl e))"
    and "r = None \<Longrightarrow> sn_mode t = ModeNormal"
    and "r = Some (Inl e) \<Longrightarrow> error_inside N (sn_offset s) e"
    and "r = Some (Inr k) \<Longrightarrow> normal_result k (sn_mode t) \<and> (k = TQStart \<longrightarrow> sn_offset t = sn_offset s + 1)"
proof -
  obtain tok n where lex: "normal_lex bad (sn_remaining s) = (tok, n)" by force
  obtain str u where u: "scan_take n s = (str, u)" by force
  have "utf8_ok (sn_remaining s)" using assms(1) by (simp add: scan_ok_def)
  note lx = normal_lex_boundary [OF assms(2) this assms(3) lex]
  have off: "sn_offset u = sn_offset s + n" and mode: "sn_mode u = ModeNormal"
    using u assms(4) by (auto simp: scan_take_def)
  have N: "sn_offset s + n \<le> N" using lx(1) assms(1) by (simp add: scan_ok_def scanner_input_def)
  have "(advances N (sn_offset s) t \<or> (\<exists>e. r = Some (Inl e))) \<and> (r = None \<longrightarrow> sn_mode t = ModeNormal) \<and>
    (\<forall>e. r = Some (Inl e) \<longrightarrow> error_inside N (sn_offset s) e) \<and>
    (\<forall>k. r = Some (Inr k) \<longrightarrow> normal_result k (sn_mode t) \<and> (k = TQStart \<longrightarrow> sn_offset t = sn_offset s + 1))"
  proof (cases tok)
    case None
    with assms(5) lex u have "r = Some (Inl (scan_error u (sn_offset s) ''invalid JSON token''))"
      by (auto simp: scan_normal_def)
    with off N show ?thesis by (simp add: error_inside_def scan_error_def)
  next
    case (Some a)
    with take_follows(1) [OF assms(1) lx(1) _ u] lx(2) have f: "follows N s u" by simp
    then have adv: "advances N (sn_offset s) u" by (rule follows_advances) simp
    show ?thesis
    proof (cases "a = NAtom")
      case True
      obtain r' v where v: "scan_atom (sn_offset s) str u = (r', v)" by force
      note af = atom_follows [OF followsD(1) [OF f] v followsD(2) [OF f]]
      from assms(5) lex u Some True v have "r = Some r'" "t = v" by (simp_all add: scan_normal_def)
      with af follows_advances [OF af(1) followsD(2) [OF f]] mode followsD(4) [OF af(1)]
      show ?thesis by (auto simp: normal_result_def)
    next
      case False
      with assms(5) lex u Some adv mode off lx(3) show ?thesis
        by (cases a) (auto simp: scan_normal_def normal_kind_def normal_result_def)
    qed
  qed
  then show "advances N (sn_offset s) t \<or> (\<exists>e. r = Some (Inl e))"
    and "r = None \<Longrightarrow> sn_mode t = ModeNormal"
    and "r = Some (Inl e) \<Longrightarrow> error_inside N (sn_offset s) e"
    and "r = Some (Inr k) \<Longrightarrow> normal_result k (sn_mode t) \<and> (k = TQStart \<longrightarrow> sn_offset t = sn_offset s + 1)"
    by auto
qed

lemma quoted_lex_boundary:
  assumes "s \<noteq> []" and "utf8_ok s" and "bad_ok bad" and "quoted_lex bad s = (tok, n)"
  shows "n \<le> length s" and "tok \<noteq> None \<Longrightarrow> boundary_at s n"
proof -
  obtain b r where s: "s = b # r" using assms(1) by (cases s) auto
  have le: "length (takeWhile P s) \<le> length s" for P :: "u8 \<Rightarrow> bool" by (rule length_takeWhile_le)
  show "n \<le> length s"
    using assms(1,3,4) le [of is_text_byte] s
    by (auto simp: quoted_lex_def Let_def bad_ok_def split: if_splits)
  have "is_text_byte c" if "is_continuation c" for c
    using that by (auto simp: is_text_byte_def is_continuation_def between_def word_le_nat_alt word_less_nat_alt)
  then have bt: "boundary_at s (length (takeWhile is_text_byte s))" by (rule boundary_takeWhile)
  have one: "boundary_at s 1" if "utf8_len b = 1" using first_boundary [of b r] assms(2) s that by simp
  show "boundary_at s n" if "tok \<noteq> None"
    using that assms(4) bt one s
    by (auto simp: quoted_lex_def Let_def utf8_len_def split: if_splits)
qed

lemma window_boundary:
  assumes "utf8_ok s" and "s \<noteq> []" and "boundary_at (quoted_window s) n"
  shows "boundary_at s n"
proof (cases "n = length (quoted_window s)")
  case True
  with quoted_window_ok(3) [OF assms(1,2)] show ?thesis by simp
next
  case False
  with assms(3) quoted_window_length [of s] show ?thesis
    by (auto simp: boundary_at_def quoted_window_def)
qed

lemma scan_string_ok:
  assumes "scan_ok N s" and "sn_remaining s \<noteq> []" and "bad_ok bad" and "sn_mode s = ModeString"
    and "scan_string bad (sn_offset s) s = (r, t)"
  shows "r = Inl e \<Longrightarrow> error_inside N (sn_offset s) e"
    and "r = Inr k \<Longrightarrow> advances N (sn_offset s) t \<and> string_result k (sn_mode t)"
proof -
  let ?w = "quoted_window (sn_remaining s)"
  have ok: "utf8_ok (sn_remaining s)" using assms(1) by (simp add: scan_ok_def)
  note w = quoted_window_ok [OF ok assms(2)]
  obtain tok n where lex: "quoted_lex bad ?w = (tok, n)" by force
  obtain str u where u: "scan_take n s = (str, u)" by force
  note lx = quoted_lex_boundary [OF w(1,2) assms(3) lex]
  have n: "n \<le> length (sn_remaining s)" using lx(1) quoted_window_length [of "sn_remaining s"] by simp
  have off: "sn_offset u = sn_offset s + n" and mode: "sn_mode u = ModeString"
    using u assms(4) by (auto simp: scan_take_def)
  have N: "sn_offset s + n \<le> N" using n assms(1) by (simp add: scan_ok_def scanner_input_def)
  have "(\<forall>e. r = Inl e \<longrightarrow> error_inside N (sn_offset s) e) \<and>
    (\<forall>k. r = Inr k \<longrightarrow> advances N (sn_offset s) t \<and> string_result k (sn_mode t))"
  proof (cases tok)
    case None
    with assms(5) lex u w(1) have
      "r = Inl (scan_error u (sn_offset s) ''unescaped control character in JSON string'')"
      by (auto simp: scan_string_def Let_def)
    with off N show ?thesis by (simp add: error_inside_def scan_error_def)
  next
    case (Some a)
    then have "utf8_ok (drop n (sn_remaining s))"
      using utf8_drop [OF ok window_boundary [OF ok assms(2)]] lx(2) by simp
    from take_follows(1) [OF assms(1) n this u] have f: "follows N s u" .
    then have adv: "advances N (sn_offset s) u" by (rule follows_advances) simp
    show ?thesis
    proof (cases "a = QEscape")
      case True
      with assms(5) lex u w(1) Some have e: "scan_escape (sn_offset s) u = (r, t)"
        by (simp add: scan_string_def Let_def)
      note ef = escape_follows [OF followsD(1) [OF f] e followsD(2) [OF f]]
      from ef follows_advances [OF ef(1) followsD(2) [OF f]] mode followsD(4) [OF ef(1)]
      show ?thesis by (auto simp: string_result_def)
    next
      case False
      with assms(5) lex u w(1) Some adv mode show ?thesis
        by (cases a) (auto simp: scan_string_def Let_def string_result_def)
    qed
  qed
  then show "r = Inl e \<Longrightarrow> error_inside N (sn_offset s) e"
    and "r = Inr k \<Longrightarrow> advances N (sn_offset s) t \<and> string_result k (sn_mode t)" by auto
qed

text \<open>
  The contract of \<open>next\<close>: no panic, errors inside the input, spans in order, and tokens that fit
  the mode.
\<close>

definition next_error_ok :: "nat \<Rightarrow> lex_error \<Rightarrow> bool" where
  "next_error_ok N e \<longleftrightarrow> (\<exists>m a b. e = LexError m (a, b) \<and> a \<le> b \<and> b \<le> N)"

definition next_token_ok :: "nat \<Rightarrow> scanner \<Rightarrow> token \<Rightarrow> scanner \<Rightarrow> bool" where
  "next_token_ok N s tok t \<longleftrightarrow>
     scan_ok N t \<and> sn_offset s \<le> fst (tk_span tok) \<and> fst (tk_span tok) \<le> snd (tk_span tok) \<and>
     snd (tk_span tok) = sn_offset t \<and>
     (case sn_mode s of
        ModeNormal \<Rightarrow> normal_result (tk_kind tok) (sn_mode t) \<and>
          (tk_kind tok = TQStart \<longrightarrow> snd (tk_span tok) = fst (tk_span tok) + 1)
      | ModeString \<Rightarrow> string_result (tk_kind tok) (sn_mode t))"

lemma next_token_earlier:
  "next_token_ok N v tok t \<Longrightarrow> sn_offset s \<le> sn_offset v \<Longrightarrow> sn_mode v = sn_mode s \<Longrightarrow> next_token_ok N s tok t"
  by (auto simp: next_token_ok_def)

lemma scan_next_ok:
  assumes "scan_ok N s" and "bad_ok bad" and "scan_next bad s = (r, t)"
  shows "case r of Inl e \<Rightarrow> next_error_ok N e | Inr tok \<Rightarrow> next_token_ok N s tok t"
  using assms
proof (induction bad s arbitrary: r t rule: scan_next.induct)
  case (1 bad s)
  obtain b u where ready: "scan_ready s = (b, u)" by force
  note f = ready_follows [OF 1(2) ready]
  note fD = followsD [OF f]
  show ?case
  proof (cases b)
    case False
    with 1(4) ready f show ?thesis
      by (cases "sn_mode s")
        (auto simp: scan_next.simps [of bad s] next_token_ok_def follows_def normal_result_def string_result_def)
  next
    case True
    with ready have rd: "scan_ready s = (True, u)" by simp
    note ne = scan_ready_True(4) [OF rd]
    show ?thesis
    proof (cases "sn_mode u")
      case ModeNormal
      obtain o' v where v: "scan_normal bad (sn_offset u) u = (o', v)" by force
      note nf = scan_normal_ok [OF fD(1) ne 1(3) ModeNormal v]
      show ?thesis
      proof (cases o')
        case None
        from 1(4) rd ModeNormal v None have "scan_next bad v = (r, t)"
          by (simp add: scan_next.simps [of bad s] Let_def)
        moreover from nf None have adv: "advances N (sn_offset u) v" by simp
        ultimately have IH: "case r of Inl e \<Rightarrow> next_error_ok N e | Inr tok \<Rightarrow> next_token_ok N v tok t"
          using 1(1) [OF rd [symmetric] refl refl ModeNormal, of o' v] 1(3) v None
          by (simp add: advances_def)
        from adv fD(2) have "sn_offset s \<le> sn_offset v" by (simp add: advances_def)
        moreover have "sn_mode v = sn_mode s" using nf(2) None ModeNormal fD(4) by simp
        ultimately show ?thesis using IH next_token_earlier by (auto split: sum.splits)
      next
        case (Some a)
        with 1(4) rd ModeNormal v have r: "r = rbind a (\<lambda>k. Inr \<lparr>tk_kind = k, tk_span = (sn_offset u, sn_offset v)\<rparr>)"
          and "t = v" by (auto simp: scan_next.simps [of bad s] Let_def)
        with nf Some fD ModeNormal show ?thesis
          by (cases a) (auto simp: next_error_ok_def error_inside_def next_token_ok_def advances_def)
      qed
    next
      case ModeString
      obtain r' v where v: "scan_string bad (sn_offset u) u = (r', v)" by force
      with 1(4) rd ModeString have r: "r = rbind r' (\<lambda>k. Inr \<lparr>tk_kind = k, tk_span = (sn_offset u, sn_offset v)\<rparr>)"
        and "t = v" by (auto simp: scan_next.simps [of bad s] Let_def)
      with scan_string_ok [OF fD(1) ne 1(3) ModeString v] fD ModeString show ?thesis
        by (cases r') (auto simp: next_error_ok_def error_inside_def next_token_ok_def advances_def)
    qed
  qed
qed

end
