(* ===== verification/Source_Coords.thy ===== *)
theory Source_Coords
  imports Telora_Prelude
begin

text \<open>
  Sources, byte ranges and line coordinates, \<^verbatim>\<open>crates/telora-data/src/source.rs\<close> and
  \<^verbatim>\<open>crates/telora-data/src/source/coordinates.rs\<close>. Text is a list of UTF-8 bytes; \<open>usize\<close> is \<open>nat\<close>.
  A source that is kept in an editor rope (the third-party crate \<^verbatim>\<open>crop\<close>) is not modelled; data
  sources are contiguous.
\<close>

section \<open>Ranges and locations\<close>

datatype location_error =
    CoordinateCapacity | OffsetTooLarge | SourceTooLarge | ReversedRange u32 u32

record text_range =
  tr_start :: u32
  tr_end :: u32

definition u32_try_from :: "nat \<Rightarrow> u32 option" where
  "u32_try_from n = (if n \<le> unat u32_max then Some (of_nat n) else None)"

definition text_range_new :: "u32 \<Rightarrow> u32 \<Rightarrow> location_error + text_range" where
  "text_range_new start end =
     (if start > end then Inl (ReversedRange start end)
      else Inr \<lparr>tr_start = start, tr_end = end\<rparr>)"

definition text_range_from_usize :: "nat \<times> nat \<Rightarrow> location_error + text_range" where
  "text_range_from_usize r =
     rbind (ok_or (u32_try_from (fst r)) OffsetTooLarge) (\<lambda>start.
     rbind (ok_or (u32_try_from (snd r)) OffsetTooLarge) (\<lambda>end. text_range_new start end))"

definition text_range_to_usize :: "text_range \<Rightarrow> nat \<times> nat" where
  "text_range_to_usize r = (unat (tr_start r), unat (tr_end r))"

type_synonym source_id = u32

record loc =
  lc_source :: source_id
  lc_start :: u32
  lc_end :: u32

definition loc_new :: "source_id \<Rightarrow> text_range \<Rightarrow> loc" where
  "loc_new source r = \<lparr>lc_source = source, lc_start = tr_start r, lc_end = tr_end r\<rparr>"

definition loc_from_usize :: "source_id \<Rightarrow> nat \<times> nat \<Rightarrow> location_error + loc" where
  "loc_from_usize source r = rbind (text_range_from_usize r) (\<lambda>t. Inr (loc_new source t))"

definition loc_range :: "loc \<Rightarrow> nat \<times> nat" where
  "loc_range l = (unat (lc_start l), unat (lc_end l))"

lemma unat_u32_max: "unat u32_max = 4294967295"
  by (simp add: u32_max_def)

lemma u32_try_from_Some: "u32_try_from n = Some w \<longleftrightarrow> unat w = n"
proof -
  have "unat (of_nat n :: u32) = n" if "n \<le> 4294967295" using that by (simp add: unat_of_nat)
  then show ?thesis using unat_u32 [of w] by (auto simp: u32_try_from_def unat_u32_max)
qed

text \<open>A span converts exactly when it is not reversed and fits 32 bits, and then it is kept.\<close>

lemma loc_from_usize_unat:
  "loc_from_usize source (unat a, unat b) =
    (if a > b then Inl (ReversedRange a b) else Inr \<lparr>lc_source = source, lc_start = a, lc_end = b\<rparr>)"
  using u32_try_from_Some [of "unat a" a] u32_try_from_Some [of "unat b" b]
  by (simp add: loc_from_usize_def text_range_from_usize_def text_range_new_def loc_new_def)

lemma loc_from_usize_Inr:
  "loc_from_usize source r = Inr l \<longleftrightarrow> loc_range l = r \<and> lc_source l = source \<and> fst r \<le> snd r"
proof (cases "\<exists>(a :: u32) (b :: u32). r = (unat a, unat b)")
  case True
  then obtain a b :: u32 where "r = (unat a, unat b)" by blast
  then show ?thesis
    by (cases l) (auto simp: loc_from_usize_unat loc_range_def word_le_nat_alt word_less_nat_alt
        word_unat_eq_iff not_less)
next
  case False
  then have "loc_from_usize source r \<noteq> Inr l" and "loc_range l \<noteq> r"
    by (auto simp: loc_from_usize_def text_range_from_usize_def loc_range_def result_simps
        u32_try_from_Some) (metis prod.collapse)
  then show ?thesis by blast
qed

lemma loc_from_usize_total:
  assumes "fst r \<le> snd r" and "snd r \<le> unat u32_max"
  shows "\<exists>l. loc_from_usize source r = Inr l"
proof -
  let ?l = "\<lparr>lc_source = source, lc_start = of_nat (fst r), lc_end = of_nat (snd r)\<rparr>"
  have "loc_range ?l = r" using assms
    by (cases r) (simp add: loc_range_def unat_of_nat unat_u32_max)
  with assms show ?thesis by (intro exI [of _ ?l]) (simp add: loc_from_usize_Inr)
qed

section \<open>Line index\<close>

record line_index =
  li_starts :: "u32 list"
  li_ends :: "u32 list"

text \<open>The loop over the bytes: lines seen so far, and the offset of the rest.\<close>

fun line_scan :: "bytes \<Rightarrow> nat \<Rightarrow> u32 list \<Rightarrow> u32 list \<Rightarrow> line_index" where
  "line_scan [] at starts ends = \<lparr>li_starts = starts, li_ends = ends @ [of_nat at]\<rparr>"
| "line_scan (b # rest) at starts ends =
     (if b = 0x0d \<or> b = 0x0a then
        (case (if b = 0x0d then rest else []) of
           c # rest' \<Rightarrow>
             if c = 0x0a then line_scan rest' (at + 2) (starts @ [of_nat (at + 2)]) (ends @ [of_nat at])
             else line_scan rest (at + 1) (starts @ [of_nat (at + 1)]) (ends @ [of_nat at])
         | [] \<Rightarrow> line_scan rest (at + 1) (starts @ [of_nat (at + 1)]) (ends @ [of_nat at]))
      else line_scan rest (at + 1) starts ends)"

definition line_index_new :: "bytes \<Rightarrow> location_error + line_index" where
  "line_index_new str =
     (if length str > unat u32_max then Inl SourceTooLarge else Inr (line_scan str 0 [0] []))"

definition line_ranges :: "line_index \<Rightarrow> (u32 \<times> u32) list" where
  "line_ranges li = zip (li_starts li) (li_ends li)"

definition line_of :: "line_index \<Rightarrow> u32 \<Rightarrow> nat" where
  "line_of li byte = length (takeWhile (\<lambda>start. start \<le> byte) (li_starts li)) - 1"

definition line_point :: "line_index \<Rightarrow> u32 \<Rightarrow> u64" where
  "line_point li byte =
     (let line = line_of li byte in
      push_bit 32 (of_nat line) OR ucast (min byte (li_ends li ! line) - li_starts li ! line))"

definition point_position :: "u64 \<Rightarrow> u32 \<times> u32" where
  "point_position p = (ucast (drop_bit 32 p), ucast p)"

definition line_byte :: "line_index \<Rightarrow> u64 \<Rightarrow> u32 option" where
  "line_byte li p =
     (case point_position p of
        (line, column) \<Rightarrow>
          (case get_at (li_starts li) (unat line) of
             None \<Rightarrow> None
           | Some start \<Rightarrow>
               (case get_at (li_ends li) (unat line) of
                  None \<Rightarrow> None
                | Some end \<Rightarrow> if column \<le> end - start then Some (start + column) else None)))"

text \<open>The five words of \<open>SourceCoordinates\<close>, with the two points they encode.\<close>

record source_coordinates =
  co_source :: u32
  co_start_line :: u32
  co_start_column :: u32
  co_end_line :: u32
  co_end_column :: u32

definition coordinates_start :: "source_coordinates \<Rightarrow> u64" where
  "coordinates_start c = push_bit 32 (ucast (co_start_line c)) OR ucast (co_start_column c)"

definition coordinates_end :: "source_coordinates \<Rightarrow> u64" where
  "coordinates_end c = push_bit 32 (ucast (co_end_line c)) OR ucast (co_end_column c)"

definition coordinates_new :: "u32 \<Rightarrow> u64 \<Rightarrow> u64 \<Rightarrow> location_error + source_coordinates" where
  "coordinates_new source start end =
     (if source = 0 \<or> start > end then Inl CoordinateCapacity
      else Inr \<lparr>co_source = source,
        co_start_line = ucast (drop_bit 32 start), co_start_column = ucast start,
        co_end_line = ucast (drop_bit 32 end), co_end_column = ucast end\<rparr>)"

definition line_pack :: "line_index \<Rightarrow> loc \<Rightarrow> location_error + source_coordinates" where
  "line_pack li l = coordinates_new (lc_source l) (line_point li (lc_start l)) (line_point li (lc_end l))"

text \<open>\<open>SourceFile::byte_location\<close> for the file \<open>source\<close>.\<close>

definition byte_location :: "source_id \<Rightarrow> line_index \<Rightarrow> source_coordinates \<Rightarrow> loc option" where
  "byte_location source li c =
     (if co_source c \<noteq> source \<or> coordinates_start c > coordinates_end c then None
      else (case line_byte li (coordinates_start c) of
          None \<Rightarrow> None
        | Some start \<Rightarrow>
            (case line_byte li (coordinates_end c) of
               None \<Rightarrow> None
             | Some end \<Rightarrow> Some \<lparr>lc_source = source, lc_start = start, lc_end = end\<rparr>)))"

section \<open>Lines tile the text\<close>

text \<open>The same loop on natural numbers, as a list of the completed lines and the open one.\<close>

fun line_breaks :: "bytes \<Rightarrow> nat \<Rightarrow> nat \<Rightarrow> (nat \<times> nat) list" where
  "line_breaks [] start at = [(start, at)]"
| "line_breaks (b # rest) start at =
     (if b = 0x0d then
        (case rest of
           c # rest' \<Rightarrow>
             if c = 0x0a then (start, at) # line_breaks rest' (at + 2) (at + 2)
             else (start, at) # line_breaks rest (at + 1) (at + 1)
         | [] \<Rightarrow> (start, at) # line_breaks rest (at + 1) (at + 1))
      else if b = 0x0a then (start, at) # line_breaks rest (at + 1) (at + 1)
      else line_breaks rest start (at + 1))"

lemma line_scan_breaks:
  "line_scan str at (starts @ [of_nat start]) ends =
    \<lparr>li_starts = starts @ map (of_nat \<circ> fst) (line_breaks str start at),
     li_ends = ends @ map (of_nat \<circ> snd) (line_breaks str start at)\<rparr>"
proof (induction str start at arbitrary: starts ends rule: line_breaks.induct)
  case (1 start at)
  then show ?case by simp
next
  case (2 b rest start at)
  show ?case
  proof (cases "b = 0x0d")
    case True
    show ?thesis
    proof (cases rest)
      case Nil
      with True 2(1) [OF True Nil, of "starts @ [of_nat start]" "ends @ [of_nat at]"]
      show ?thesis by simp
    next
      case (Cons c rest')
      show ?thesis
      proof (cases "c = 0x0a")
        case lf: True
        with True Cons 2(2) [OF True Cons lf, of "starts @ [of_nat start]" "ends @ [of_nat at]"]
        show ?thesis by simp
      next
        case False
        with True Cons 2(3) [OF True Cons False, of "starts @ [of_nat start]" "ends @ [of_nat at]"]
        show ?thesis by simp
      qed
    qed
  next
    case cr: False
    show ?thesis
    proof (cases "b = 0x0a")
      case True
      with cr 2(4) [OF cr True, of "starts @ [of_nat start]" "ends @ [of_nat at]"]
      show ?thesis by simp
    next
      case False
      with cr 2(5) [OF cr False] show ?thesis by simp
    qed
  qed
qed

text \<open>
  Every line ends at or after its start, and the next line starts one or two bytes after the end.
\<close>

fun tiled :: "(nat \<times> nat) list \<Rightarrow> bool" where
  "tiled [] = False"
| "tiled [l] = (fst l \<le> snd l)"
| "tiled (l # l' # ls) = (fst l \<le> snd l \<and> snd l < fst l' \<and> fst l' \<le> snd l + 2 \<and> tiled (l' # ls))"

lemma line_breaks_head: "\<exists>e ls. line_breaks str start at = (start, e) # ls"
  by (induction str start at rule: line_breaks.induct) (auto split: list.splits)

lemma tiled_Cons: "fst l \<le> snd l \<Longrightarrow> tiled ((snd l + d, e) # ls) \<Longrightarrow> 0 < d \<Longrightarrow> d \<le> 2 \<Longrightarrow>
    tiled (l # (snd l + d, e) # ls)"
  by simp

lemma line_breaks_tiled:
  assumes "start \<le> at"
  shows "tiled (line_breaks str start at) \<and> snd (last (line_breaks str start at)) = at + length str"
  using assms
proof (induction str start at rule: line_breaks.induct)
  case (1 start at)
  then show ?case by simp
next
  case (2 b rest start at)
  have step: "tiled ((start, at) # line_breaks r (at + d) (at + d)) \<and>
      snd (last ((start, at) # line_breaks r (at + d) (at + d))) = at + length (b # rest)"
    if "tiled (line_breaks r (at + d) (at + d))" "0 < d" "d \<le> 2"
      "snd (last (line_breaks r (at + d) (at + d))) = at + length (b # rest)" for r d
  proof -
    obtain e ls where "line_breaks r (at + d) (at + d) = (at + d, e) # ls"
      using line_breaks_head by blast
    with that 2(6) show ?thesis by simp
  qed
  show ?case
  proof (cases "b = 0x0d")
    case True
    show ?thesis
    proof (cases rest)
      case Nil
      with True 2(1) [OF True Nil] step [of rest 1] show ?thesis by simp
    next
      case (Cons c rest')
      show ?thesis
      proof (cases "c = 0x0a")
        case lf: True
        with True Cons 2(2) [OF True Cons lf] step [of rest' 2] show ?thesis by simp
      next
        case False
        with True Cons 2(3) [OF True Cons False] step [of rest 1] show ?thesis by simp
      qed
    qed
  next
    case cr: False
    show ?thesis
    proof (cases "b = 0x0a")
      case True
      with cr 2(4) [OF cr True] step [of rest 1] show ?thesis by simp
    next
      case False
      with cr 2(5) [OF cr False] 2(6) show ?thesis by simp
    qed
  qed
qed

lemma tiled_nth_both:
  "tiled ls \<Longrightarrow> i < length ls \<Longrightarrow> fst (ls ! i) \<le> snd (ls ! i) \<and>
    (Suc i < length ls \<longrightarrow> snd (ls ! i) < fst (ls ! Suc i) \<and> fst (ls ! Suc i) \<le> snd (ls ! i) + 2)"
proof (induction ls arbitrary: i rule: tiled.induct)
  case (3 l l' ls)
  show ?case
  proof (cases i)
    case 0
    with 3(2) show ?thesis by simp
  next
    case (Suc j)
    with 3(1) [of j] 3(2,3) show ?thesis by simp
  qed
qed auto

lemma tiled_nth:
  assumes "tiled ls" and "i < length ls"
  shows "fst (ls ! i) \<le> snd (ls ! i)"
    and "Suc i < length ls \<Longrightarrow> snd (ls ! i) < fst (ls ! Suc i) \<and> fst (ls ! Suc i) \<le> snd (ls ! i) + 2"
  using tiled_nth_both [OF assms] by auto

lemma tiled_sorted:
  assumes "tiled ls"
  shows "sorted (map fst ls)" and "l \<in> set ls \<Longrightarrow> snd l \<le> snd (last ls)"
proof -
  have "sorted (map fst ls) \<and> (\<forall>l \<in> set ls. fst (hd ls) \<le> fst l \<and> snd l \<le> snd (last ls))"
    using assms
  proof (induction ls rule: tiled.induct)
    case (3 l l' ls)
    then have IH: "sorted (map fst (l' # ls))" "\<forall>x \<in> set (l' # ls). fst l' \<le> fst x"
      "\<forall>x \<in> set (l' # ls). snd x \<le> snd (last (l' # ls))" by simp_all
    have "fst l \<le> fst l'" "snd l \<le> snd l'"
      using 3(2) tiled_nth(1) [of "l' # ls" 0] by auto
    moreover from this(2) IH(3) have "snd l \<le> snd (last (l' # ls))" by (auto intro: order_trans)
    ultimately show ?case using IH order_trans by auto
  qed auto
  then show "sorted (map fst ls)" and "l \<in> set ls \<Longrightarrow> snd l \<le> snd (last ls)" by auto
qed

lemma tiled_length: "tiled ls \<Longrightarrow> fst (hd ls) + length ls \<le> Suc (snd (last ls))"
  by (induction ls rule: tiled.induct) auto

definition index_ok :: "line_index \<Rightarrow> nat \<Rightarrow> (nat \<times> nat) list \<Rightarrow> bool" where
  "index_ok li n ls \<longleftrightarrow>
     tiled ls \<and> fst (hd ls) = 0 \<and> snd (last ls) = n \<and> n \<le> 4294967295 \<and>
     li_starts li = map (of_nat \<circ> fst) ls \<and> li_ends li = map (of_nat \<circ> snd) ls"

lemma line_index_new_ok:
  assumes "line_index_new str = Inr li"
  shows "\<exists>ls. index_ok li (length str) ls"
proof -
  obtain e rest where head: "line_breaks str 0 0 = (0, e) # rest" using line_breaks_head by blast
  from line_scan_breaks [of str 0 "[]" 0 "[]"] assms
  have "index_ok li (length str) (line_breaks str 0 0)"
    using line_breaks_tiled [of 0 0 str]
    by (auto simp: index_ok_def line_index_new_def unat_u32_max head split: if_splits)
  then show ?thesis ..
qed

lemma index_ok_nth:
  assumes "index_ok li n ls" and "i < length ls"
  shows "unat (li_starts li ! i) = fst (ls ! i)" and "unat (li_ends li ! i) = snd (ls ! i)"
    and "fst (ls ! i) \<le> snd (ls ! i)" and "snd (ls ! i) \<le> n"
proof -
  from assms tiled_nth(1) [of ls i] tiled_sorted(2) [of ls "ls ! i"]
  show le: "fst (ls ! i) \<le> snd (ls ! i)" "snd (ls ! i) \<le> n" by (auto simp: index_ok_def)
  with assms show "unat (li_starts li ! i) = fst (ls ! i)" and "unat (li_ends li ! i) = snd (ls ! i)"
    by (simp_all add: index_ok_def unat_of_nat)
qed

lemma line_of_props:
  fixes byte :: u32
  assumes "index_ok li n ls"
  defines "k \<equiv> line_of li byte"
  shows "k < length ls" and "fst (ls ! k) \<le> unat byte"
    and "Suc k < length ls \<Longrightarrow> unat byte < fst (ls ! Suc k)"
proof -
  let ?p = "\<lambda>l. fst l \<le> unat byte"
  from assms(1) have ne: "ls \<noteq> []" by (auto simp: index_ok_def)
  have "map (of_nat \<circ> fst) ls = (map (of_nat \<circ> fst) ls :: u32 list)" by (rule refl)
  have sorted: "sorted (map fst ls)" using assms(1) tiled_sorted by (simp add: index_ok_def)
  have starts: "(li_starts li ! i \<le> byte) = ?p (ls ! i)" if "i < length ls" for i
    using index_ok_nth(1) [OF assms(1) that] by (simp add: word_le_nat_alt)
  have "length (takeWhile (\<lambda>start. start \<le> byte) (li_starts li)) = length (takeWhile ?p ls)"
  proof -
    have "takeWhile (\<lambda>start. start \<le> byte) (map (of_nat \<circ> fst) ls) =
        map (of_nat \<circ> fst) (takeWhile ((\<lambda>start. start \<le> byte) \<circ> (of_nat \<circ> fst)) ls)"
      by (rule takeWhile_map)
    moreover have "((\<lambda>start. start \<le> byte) \<circ> (of_nat \<circ> fst)) l = ?p l" if "l \<in> set ls" for l
      using that assms(1) starts by (auto simp: in_set_conv_nth index_ok_def)
    then have "takeWhile ((\<lambda>start. start \<le> byte) \<circ> (of_nat \<circ> fst)) ls = takeWhile ?p ls"
      by (intro takeWhile_cong) auto
    ultimately show ?thesis using assms(1) by (simp add: index_ok_def)
  qed
  then have k: "k = length (takeWhile ?p ls) - 1" by (simp add: k_def line_of_def)
  note part = takeWhile_partition [OF sorted, of _ "unat byte"]
  have "fst (ls ! 0) = 0" using assms(1) ne by (simp add: index_ok_def hd_conv_nth)
  with part [of 0] ne have "0 < length (takeWhile ?p ls)" by simp
  moreover have "length (takeWhile ?p ls) \<le> length ls" by (rule length_takeWhile_le)
  ultimately show len: "k < length ls" using k by linarith
  show "fst (ls ! k) \<le> unat byte" using part [OF len] k \<open>0 < length _\<close> by simp
  show "unat byte < fst (ls ! Suc k)" if "Suc k < length ls"
    using part [OF that] k by (simp add: not_le [symmetric])
qed

text \<open>Packing two 32-bit words into a point and back.\<close>

lemma point_halves:
  fixes a b :: u32
  shows "point_position (push_bit 32 (ucast a) OR ucast b) = (a, b)"
proof -
  have "ucast (drop_bit 32 (push_bit 32 (ucast a) OR ucast b :: u64)) = a"
    by (rule bit_word_eqI) (auto simp: bit_simps dest: bit_imp_le_length)
  moreover have "ucast (push_bit 32 (ucast a) OR ucast b :: u64) = b"
    by (rule bit_word_eqI) (auto simp: bit_simps dest: bit_imp_le_length)
  ultimately show ?thesis by (simp add: point_position_def)
qed

lemma point_rebuild:
  fixes p :: u64
  shows "push_bit 32 (ucast (ucast (drop_bit 32 p) :: u32)) OR ucast (ucast p :: u32) = p"
  by (rule bit_word_eqI) (auto simp: bit_simps dest: bit_imp_le_length)

lemma point_value:
  fixes a b :: u32
  shows "unat (push_bit 32 (ucast a) OR ucast b :: u64) = unat a * 4294967296 + unat b"
proof -
  have "push_bit 32 (ucast a) AND (ucast b :: u64) = 0"
    by (rule bit_word_eqI) (auto simp: bit_simps dest: bit_imp_le_length)
  then have "push_bit 32 (ucast a) OR ucast b = push_bit 32 (ucast a) + (ucast b :: u64)"
    by (simp add: disjunctive_add_eq_or)
  moreover have "unat (push_bit 32 (ucast a) :: u64) = unat a * 4294967296"
    using unat_u32 [of a] by (simp add: push_bit_eq_mult unat_word_ariths)
  ultimately show ?thesis
    using unat_u32 [of a] unat_u32 [of b] by (simp add: unat_word_ariths)
qed

text \<open>Where a byte offset is shown: the interior of a line break, and anything past the text, is
  shown at the end of the line.\<close>

definition clamp :: "line_index \<Rightarrow> u32 \<Rightarrow> u32" where
  "clamp li byte = min byte (li_ends li ! line_of li byte)"

lemma line_bound:
  assumes "index_ok li n ls" and "k < length ls"
  shows "unat (of_nat k :: u32) = k"
proof -
  have "length ls \<le> Suc n" using assms(1) tiled_length [of ls] by (simp add: index_ok_def)
  with assms show ?thesis by (simp add: index_ok_def unat_of_nat)
qed

lemma ucast_line:
  assumes "unat (of_nat k :: u32) = k"
  shows "(of_nat k :: u64) = ucast (of_nat k :: u32)"
proof -
  have "k < 4294967296" using unat_u32 [of "of_nat k"] assms by simp
  then have "unat (of_nat k :: u64) = k" by (simp add: unat_of_nat)
  then show ?thesis using assms by (simp add: word_unat_eq_iff)
qed

lemma line_point_eq:
  fixes byte :: u32
  assumes "index_ok li n ls"
  defines "k \<equiv> line_of li byte"
  shows "line_point li byte = push_bit 32 (ucast (of_nat k :: u32)) OR ucast (clamp li byte - li_starts li ! k)"
  unfolding line_point_def Let_def k_def clamp_def
    ucast_line [OF line_bound [OF assms(1) line_of_props(1) [OF assms(1), of byte]]]
  by (rule refl)

lemma clamp_start:
  assumes "index_ok li n ls"
  shows "li_starts li ! line_of li byte \<le> clamp li byte"
  using index_ok_nth [OF assms line_of_props(1) [OF assms, of byte]] line_of_props(2) [OF assms, of byte]
  by (simp add: clamp_def min_def word_le_nat_alt)

lemma line_byte_point:
  assumes "index_ok li n ls"
  shows "line_byte li (line_point li byte) = Some (clamp li byte)"
proof -
  let ?k = "line_of li byte"
  note k = line_of_props(1) [OF assms, of byte]
  have len: "length (li_starts li) = length ls" "length (li_ends li) = length ls"
    using assms by (simp_all add: index_ok_def)
  have "clamp li byte \<le> li_ends li ! ?k" by (simp add: clamp_def)
  then have "clamp li byte - li_starts li ! ?k \<le> li_ends li ! ?k - li_starts li ! ?k"
    using clamp_start [OF assms, of byte] by (simp add: word_le_nat_alt unat_sub diff_le_mono)
  then show ?thesis
    using k len line_bound [OF assms k]
    by (simp add: line_byte_def line_point_eq [OF assms] point_halves get_at_def)
qed

lemma line_of_mono:
  assumes "index_ok li n ls" and "a \<le> b"
  shows "line_of li a \<le> line_of li b"
proof (rule ccontr)
  assume "\<not> line_of li a \<le> line_of li b"
  then have lt: "Suc (line_of li b) \<le> line_of li a" by simp
  with line_of_props(1) [OF assms(1), of a] have len: "Suc (line_of li b) < length ls" by simp
  from line_of_props(3) [OF assms(1) len] have "unat b < fst (ls ! Suc (line_of li b))" .
  also have "fst (ls ! Suc (line_of li b)) \<le> fst (ls ! line_of li a)"
    using sorted_nth_mono [of "map fst ls" "Suc (line_of li b)" "line_of li a"] lt
      tiled_sorted(1) [of ls] line_of_props(1) [OF assms(1), of a] assms(1) len
    by (simp add: index_ok_def)
  also have "fst (ls ! line_of li a) \<le> unat a" using line_of_props(2) [OF assms(1)] .
  finally show False using assms(2) by (simp add: word_le_nat_alt)
qed

lemma line_point_unat:
  assumes "index_ok li n ls"
  shows "unat (line_point li byte) =
    line_of li byte * 4294967296 + (unat (clamp li byte) - fst (ls ! line_of li byte))"
  using line_bound [OF assms line_of_props(1) [OF assms]] clamp_start [OF assms]
    index_ok_nth(1) [OF assms line_of_props(1) [OF assms]]
  by (simp add: line_point_eq [OF assms] point_value unat_sub)

lemma line_point_mono:
  assumes "index_ok li n ls" and "a \<le> b"
  shows "line_point li a \<le> line_point li b"
proof (cases "line_of li a = line_of li b")
  case True
  with assms(2) have "clamp li a \<le> clamp li b" by (simp add: clamp_def min_def word_le_nat_alt)
  with True show ?thesis
    by (simp add: word_le_nat_alt line_point_unat [OF assms(1)] diff_le_mono)
next
  case False
  with line_of_mono [OF assms] have "line_of li a + 1 \<le> line_of li b" by simp
  then have "line_of li a * 4294967296 + 4294967296 \<le> line_of li b * 4294967296" by linarith
  moreover have "unat (clamp li a) < 4294967296" using unat_u32 .
  ultimately show ?thesis
    by (simp add: word_le_nat_alt line_point_unat [OF assms(1)])
qed

lemma clamp_inside:
  assumes "index_ok li n ls" and "(s, e) \<in> set (line_ranges li)" and "s \<le> byte" and "byte \<le> e"
  shows "clamp li byte = byte"
proof -
  let ?k = "line_of li byte"
  from assms(1,2) obtain i where i: "i < length ls" "s = li_starts li ! i" "e = li_ends li ! i"
    by (auto simp: line_ranges_def set_zip index_ok_def)
  note k = line_of_props [OF assms(1), of byte]
  have tiled: "tiled ls" using assms(1) by (simp add: index_ok_def)
  have s: "fst (ls ! i) \<le> unat byte" and e: "unat byte \<le> snd (ls ! i)"
    using assms(3,4) i index_ok_nth [OF assms(1) i(1)] by (simp_all add: word_le_nat_alt)
  have "\<not> ?k < i"
  proof
    assume "?k < i"
    then have "Suc ?k < length ls" "fst (ls ! Suc ?k) \<le> fst (ls ! i)"
      using i(1) sorted_nth_mono [OF tiled_sorted(1) [OF tiled], of "Suc ?k" i] by simp_all
    with k(3) s show False by simp
  qed
  moreover have "\<not> i < ?k"
  proof
    assume "i < ?k"
    then have "Suc i < length ls" "fst (ls ! Suc i) \<le> fst (ls ! ?k)"
      using k(1) sorted_nth_mono [OF tiled_sorted(1) [OF tiled], of "Suc i" ?k] by simp_all
    with k(2) e tiled_nth(2) [OF tiled i(1)] show False by simp
  qed
  ultimately show ?thesis using assms(4) i by (simp add: clamp_def min_def)
qed

lemma coordinates_new_points:
  assumes "source \<noteq> 0" and "start \<le> end"
  shows "\<exists>c. coordinates_new source start end = Inr c \<and> co_source c = source \<and>
    coordinates_start c = start \<and> coordinates_end c = end"
  using assms point_rebuild
  by (simp add: coordinates_new_def coordinates_start_def coordinates_end_def)

text \<open>
  C23: The coordinates of a registered location always exist and lead back to it: \<open>pack\<close> never fails
  on a proper range, and \<open>byte_location\<close> of the packed coordinates is the range, its ends moved at
  most to the end of their line (the interior of a line break, or past the text); an offset inside
  a line is not moved.
\<close>

theorem coordinates_roundtrip:
  assumes "line_index_new str = Inr li" and "lc_source l \<noteq> 0" and "lc_start l \<le> lc_end l"
  shows "(\<exists>c. line_pack li l = Inr c \<and>
    byte_location (lc_source l) li c =
      Some \<lparr>lc_source = lc_source l, lc_start = clamp li (lc_start l), lc_end = clamp li (lc_end l)\<rparr>) \<and>
    (\<forall>(s, e) \<in> set (line_ranges li). \<forall>b. s \<le> b \<and> b \<le> e \<longrightarrow> clamp li b = b)"
proof -
  from line_index_new_ok [OF assms(1)] obtain ls where ok: "index_ok li (length str) ls" by blast
  note mono = line_point_mono [OF ok assms(3)]
  obtain c where c: "line_pack li l = Inr c" and co: "co_source c = lc_source l"
    "coordinates_start c = line_point li (lc_start l)" "coordinates_end c = line_point li (lc_end l)"
    using coordinates_new_points [OF assms(2) mono] unfolding line_pack_def by blast
  with mono line_byte_point [OF ok] have "\<exists>c. line_pack li l = Inr c \<and>
    byte_location (lc_source l) li c =
      Some \<lparr>lc_source = lc_source l, lc_start = clamp li (lc_start l), lc_end = clamp li (lc_end l)\<rparr>"
    by (simp add: byte_location_def)
  with clamp_inside [OF ok] show ?thesis by auto
qed

text \<open>
  Coordinates order locations as byte offsets do: a later offset never has an earlier point.
\<close>

theorem line_points_monotone:
  assumes "line_index_new str = Inr li" and "a \<le> b"
  shows "line_point li a \<le> line_point li b"
  using line_index_new_ok [OF assms(1)] line_point_mono assms(2) by blast

section \<open>The source database\<close>

record source_file =
  sf_id :: source_id
  sf_name :: string
  sf_text :: bytes
  sf_lines :: line_index

type_synonym source_database = "source_file list"

definition source_next_id :: "source_database \<Rightarrow> location_error + source_id" where
  "source_next_id db =
     (if length db \<ge> unat u32_max then Inl CoordinateCapacity
      else ok_or (case u32_try_from (length db) of None \<Rightarrow> None | Some n \<Rightarrow>
             (case checked_add n 1 of None \<Rightarrow> None | Some i \<Rightarrow> if i = 0 then None else Some i))
             SourceTooLarge)"

definition source_try_add_data :: "string \<Rightarrow> bytes \<Rightarrow> source_database \<Rightarrow> location_error + (source_id \<times> source_database)" where
  "source_try_add_data name str db =
     rbind (source_next_id db) (\<lambda>i.
     rbind (line_index_new str) (\<lambda>lines.
       Inr (i, db @ [\<lparr>sf_id = i, sf_name = name, sf_text = str, sf_lines = lines\<rparr>])))"

text \<open>\<open>get\<close>: an unknown identity panics.\<close>

definition source_get :: "source_id \<Rightarrow> source_database \<Rightarrow> source_file option" where
  "source_get i db = get_at db (unat (i - 1))"

definition source_replace_data :: "source_id \<Rightarrow> string \<Rightarrow> bytes \<Rightarrow> source_database \<Rightarrow> location_error + source_database option" where
  "source_replace_data i name str db =
     rbind (line_index_new str) (\<lambda>lines.
       Inr (if unat (i - 1) < length db
            then Some (db[unat (i - 1) := \<lparr>sf_id = i, sf_name = name, sf_text = str, sf_lines = lines\<rparr>])
            else None))"

text \<open>\<open>SourceFile::slice\<close> of a contiguous text; \<open>boundary\<close> is \<open>str::is_char_boundary\<close>.\<close>

definition char_boundary :: "bytes \<Rightarrow> nat \<Rightarrow> bool" where
  "char_boundary str n \<longleftrightarrow> n = length str \<or> n < length str \<and> \<not> (0x80 \<le> str ! n \<and> str ! n \<le> 0xbf)"

definition source_slice :: "loc \<Rightarrow> source_file \<Rightarrow> bytes option" where
  "source_slice l f =
     (if lc_source l \<noteq> sf_id f then None
      else (let (a, b) = loc_range l in
            if char_boundary (sf_text f) a \<and> char_boundary (sf_text f) b then get_range (sf_text f) a b
            else None))"

definition database_ok :: "source_database \<Rightarrow> bool" where
  "database_ok db \<longleftrightarrow>
     length db \<le> unat u32_max \<and>
     (\<forall>i < length db. unat (sf_id (db ! i)) = Suc i \<and>
        line_index_new (sf_text (db ! i)) = Inr (sf_lines (db ! i)))"

lemma source_next_id_Inr:
  "source_next_id db = Inr i \<longleftrightarrow> length db < unat u32_max \<and> unat i = Suc (length db)"
proof (cases "length db < unat u32_max")
  case True
  then have "length db < 4294967295" by (simp add: unat_u32_max)
  then have db: "u32_try_from (length db) = Some (of_nat (length db))"
    and u: "unat (of_nat (length db) :: u32) = length db"
    by (simp_all add: u32_try_from_def unat_u32_max unat_of_nat)
  then have add: "checked_add (of_nat (length db) :: u32) 1 = Some i \<longleftrightarrow> unat i = Suc (length db)"
    for i by (simp add: checked_add_Some)
  have n: "unat (of_nat (Suc (length db)) :: u32) = Suc (length db)"
    unfolding unat_of_nat using \<open>length db < 4294967295\<close> by simp
  then have "checked_add (of_nat (length db) :: u32) 1 = Some (of_nat (Suc (length db)))"
    by (simp only: add)
  moreover have "(of_nat (Suc (length db)) :: u32) \<noteq> 0" using n by (metis nat.simps(3) unat_0)
  ultimately show ?thesis
    using db True n
    by (simp add: source_next_id_def ok_or_def word_unat_eq_iff del: of_nat_Suc) (auto simp: n del: of_nat_Suc)
qed (simp add: source_next_id_def)

text \<open>
  Source identities are stable. Adding a data source returns a new identity under which exactly
  its name, text and index are found; every source registered before is still found unchanged; and
  the database stays consistent.
\<close>

theorem source_add_get:
  assumes "database_ok db" and "source_try_add_data name str db = Inr (i, db')"
  shows "database_ok db' \<and>
    (\<exists>f. source_get i db' = Some f \<and> sf_id f = i \<and> sf_name f = name \<and> sf_text f = str) \<and>
    source_get i db = None \<and>
    (\<forall>j f. j \<noteq> 0 \<longrightarrow> source_get j db = Some f \<longrightarrow> source_get j db' = Some f \<and> j \<noteq> i)"
proof -
  from assms(2) obtain lines where i: "source_next_id db = Inr i" and l: "line_index_new str = Inr lines"
    and db': "db' = db @ [\<lparr>sf_id = i, sf_name = name, sf_text = str, sf_lines = lines\<rparr>]"
    by (auto simp: source_try_add_data_def rbind_eq_Inr)
  from i have len: "length db < unat u32_max" and u: "unat i = Suc (length db)"
    by (simp_all add: source_next_id_Inr)
  have pos: "unat (i - 1) = length db"
  proof -
    have "1 \<le> i" using u by (simp add: word_le_nat_alt)
    then show ?thesis using u by (simp add: unat_sub)
  qed
  have "database_ok db'"
    using assms(1) len l u by (auto simp: database_ok_def db' nth_append less_Suc_eq)
  moreover have "source_get i db = None" by (simp add: source_get_def get_at_def pos)
  ultimately show ?thesis
    by (auto simp: source_get_def get_at_def db' pos nth_append split: if_splits)
qed

section \<open>An example text\<close>

definition example_text :: bytes where
  "example_text = [0x61, 0x62, 0x0d, 0x0a, 0x63, 0x0a]"

definition example_index :: line_index where
  "example_index = \<lparr>li_starts = [0, 4, 6], li_ends = [2, 5, 6]\<rparr>"

lemma example_lines: "line_index_new example_text = Inr example_index"
  by (simp add: line_index_new_def unat_u32_max example_text_def example_index_def)

theorem coordinates_roundtrip_witness:
  "\<exists>c. line_pack example_index \<lparr>lc_source = 1, lc_start = 3, lc_end = 5\<rparr> = Inr c \<and>
    byte_location 1 example_index c = Some \<lparr>lc_source = 1, lc_start = 2, lc_end = 5\<rparr>"
proof -
  have "clamp example_index 3 = 2" and "clamp example_index 5 = 5"
    by (simp_all add: clamp_def line_of_def example_index_def)
  with coordinates_roundtrip [OF example_lines, of "\<lparr>lc_source = 1, lc_start = 3, lc_end = 5\<rparr>"]
  show ?thesis by simp
qed

theorem line_points_monotone_witness: "line_point example_index 3 \<le> line_point example_index 4"
  by (rule line_points_monotone [OF example_lines]) simp

theorem source_add_get_witness:
  "\<exists>i db'. source_try_add_data ''b'' example_text [] = Inr (i, db') \<and> database_ok db' \<and>
    source_get i [] = None"
proof -
  have "source_next_id [] = Inr 1" by (simp add: source_next_id_Inr unat_u32_max)
  then have add: "source_try_add_data ''b'' example_text [] =
      Inr (1, [\<lparr>sf_id = 1, sf_name = ''b'', sf_text = example_text, sf_lines = example_index\<rparr>])"
    by (simp add: source_try_add_data_def example_lines)
  from source_add_get [OF _ add] add show ?thesis by (auto simp: database_ok_def)
qed

end
