(* ===== verification/Json_Parse.thy ===== *)
theory Json_Parse
  imports Json_Tokens Source_Coords
begin

text \<open>
  The structural JSON parser, \<^verbatim>\<open>crates/telora-data/src/json/parse.rs\<close>, with its flat out of
  \<^verbatim>\<open>json/structure.rs\<close>. The frame stack keeps its top first; every other vector keeps its order. A
  message is a constructor with the values the code formats into it. The parser is consumed by an
  error, so an error carries no state; a panic is \<open>JPanic\<close>.
\<close>

section \<open>The plan\<close>

datatype json_message =
    Msg string
  | LimitMsg string nat nat
  | DuplicateKey bytes
  | Secondary json_message string nat

text \<open>Every diagnostic of the parser has severity \<open>Error\<close>.\<close>

record json_diagnostic =
  dg_message :: json_message
  dg_locs :: "loc list"

definition diagnostic_error :: "json_message \<Rightarrow> loc \<Rightarrow> json_diagnostic" where
  "diagnostic_error m l = \<lparr>dg_message = m, dg_locs = [l]\<rparr>"

definition with_secondary :: "string \<Rightarrow> loc \<Rightarrow> json_diagnostic \<Rightarrow> json_diagnostic" where
  "with_secondary m l d =
     \<lparr>dg_message = Secondary (dg_message d) m (length (dg_locs d)), dg_locs = dg_locs d @ [l]\<rparr>"

record data_limits =
  dl_file_size :: nat
  dl_nodes :: nat
  dl_depth :: nat
  dl_container_size :: nat
  dl_bytes_len :: nat
  dl_string_len :: nat
  dl_payloads_bytes :: nat

record string_span =
  st_range :: span
  st_escaped :: bool

record data_field =
  df_key_location :: loc
  df_value :: nat

datatype raw_kind =
    RawString string_span
  | RawNumber span bool
  | RawNull
  | RawBool bool
  | RawArray "nat list"
  | RawObject "(string_span \<times> data_field) list"

record raw_node =
  rn_kind :: raw_kind
  rn_location :: loc

record raw_plan =
  rp_nodes :: "raw_node list"
  rp_root :: "nat option"
  rp_diagnostics :: "json_diagnostic list"

definition plan_push :: "raw_kind \<Rightarrow> loc \<Rightarrow> raw_plan \<Rightarrow> nat \<times> raw_plan" where
  "plan_push kind l p =
     (length (rp_nodes p), p\<lparr>rp_nodes := rp_nodes p @ [\<lparr>rn_kind = kind, rn_location = l\<rparr>]\<rparr>)"

section \<open>The parser\<close>

datatype expect = ExValue | ExValueOrEnd | ExKey | ExKeyOrEnd | ExColon | ExSeparator

datatype json_container =
    CArray "nat list"
  | CObject "(string_span \<times> data_field) list" "(string_span \<times> loc) option"

record json_frame =
  jf_start :: nat
  jf_expect :: expect
  jf_container :: json_container
  jf_separator :: "span option"
  jf_skipped :: nat

record parser =
  ps_source :: source_id
  ps_scanner :: scanner
  ps_frames :: "json_frame list"
  ps_plan :: raw_plan
  ps_root :: "nat option"
  ps_limits :: data_limits
  ps_nodes :: nat
  ps_payload :: nat

datatype json_fail = JPanic | JDiag json_diagnostic

definition parser_new :: "source_id \<Rightarrow> bytes list \<Rightarrow> data_limits \<Rightarrow> parser" where
  "parser_new source chunks limits =
     \<lparr>ps_source = source, ps_scanner = scanner_new chunks, ps_frames = [],
      ps_plan = \<lparr>rp_nodes = [], rp_root = None, rp_diagnostics = []\<rparr>, ps_root = None,
      ps_limits = limits, ps_nodes = 0, ps_payload = 0\<rparr>"

definition p_location :: "parser \<Rightarrow> span \<Rightarrow> json_fail + loc" where
  "p_location p span =
     (case loc_from_usize (ps_source p) span of Inl _ \<Rightarrow> Inl JPanic | Inr l \<Rightarrow> Inr l)"

text \<open>\<open>error\<close> gives the diagnostic; \<open>p_fail\<close> returns it as the error.\<close>

definition p_error :: "parser \<Rightarrow> span \<Rightarrow> json_message \<Rightarrow> json_fail + json_diagnostic" where
  "p_error p span m = rbind (p_location p span) (\<lambda>l. Inr (diagnostic_error m l))"

definition p_fail :: "parser \<Rightarrow> span \<Rightarrow> json_message \<Rightarrow> json_fail + 'a" where
  "p_fail p span m = rbind (p_error p span m) (\<lambda>d. Inl (JDiag d))"

definition p_next :: "(bytes \<Rightarrow> nat) \<Rightarrow> parser \<Rightarrow> json_fail + (token \<times> parser)" where
  "p_next bad p =
     (case scan_next bad (ps_scanner p) of
        (Inl LexPanic, _) \<Rightarrow> Inl JPanic
      | (Inl (LexError m span), _) \<Rightarrow> p_fail p span (Msg m)
      | (Inr tok, s) \<Rightarrow> Inr (tok, p\<lparr>ps_scanner := s\<rparr>))"

definition p_limit :: "parser \<Rightarrow> span \<Rightarrow> string \<Rightarrow> nat \<Rightarrow> nat \<Rightarrow> json_fail + unit" where
  "p_limit p span name v lim =
     (if v > lim then p_fail p span (LimitMsg name v lim) else Inr ())"

definition container_len :: "json_container \<Rightarrow> nat" where
  "container_len c = (case c of CArray items \<Rightarrow> length items | CObject members _ \<Rightarrow> length members)"

definition p_container_slot :: "parser \<Rightarrow> span \<Rightarrow> json_fail + unit" where
  "p_container_slot p span =
     (case ps_frames p of
        [] \<Rightarrow> Inr ()
      | f # _ \<Rightarrow>
          p_limit p span ''container_size'' (container_len (jf_container f) + jf_skipped f + 1)
            (dl_container_size (ps_limits p)))"

definition p_reserve_value :: "span \<Rightarrow> parser \<Rightarrow> json_fail + parser" where
  "p_reserve_value span p =
     rbind (p_container_slot p span) (\<lambda>_.
     rbind (p_limit p span ''depth'' (length (ps_frames p) + 1) (dl_depth (ps_limits p))) (\<lambda>_.
     rbind (p_limit p span ''nodes'' (ps_nodes p + 1) (dl_nodes (ps_limits p))) (\<lambda>_.
       Inr (p\<lparr>ps_nodes := ps_nodes p + 1\<rparr>))))"

definition p_push :: "raw_kind \<Rightarrow> loc \<Rightarrow> parser \<Rightarrow> nat \<times> parser" where
  "p_push kind l p =
     (case plan_push kind l (ps_plan p) of (i, plan) \<Rightarrow> (i, p\<lparr>ps_plan := plan\<rparr>))"

definition p_report :: "span \<Rightarrow> json_message \<Rightarrow> parser \<Rightarrow> json_fail + parser" where
  "p_report span m p =
     rbind (p_error p span m) (\<lambda>d.
       Inr (p\<lparr>ps_plan := (ps_plan p)\<lparr>rp_diagnostics := rp_diagnostics (ps_plan p) @ [d]\<rparr>\<rparr>))"

definition p_skip_comma :: "span \<Rightarrow> parser \<Rightarrow> json_fail + parser" where
  "p_skip_comma span p =
     rbind (p_reserve_value span p) (\<lambda>p.
       case ps_frames p of
         [] \<Rightarrow> Inl JPanic
       | f # fs \<Rightarrow>
           p_report span (Msg ''unexpected extra JSON comma'')
             (p\<lparr>ps_frames := f\<lparr>jf_skipped := jf_skipped f + 1\<rparr> # fs\<rparr>))"

definition p_trailing_comma :: "parser \<Rightarrow> json_fail + parser" where
  "p_trailing_comma p =
     (case ps_frames p of
        [] \<Rightarrow> Inl JPanic
      | f # _ \<Rightarrow>
          (case jf_separator f of
             None \<Rightarrow> Inl JPanic
           | Some span \<Rightarrow> p_report span (Msg ''trailing JSON comma is not allowed'') p))"

definition p_attach :: "nat \<Rightarrow> parser \<Rightarrow> json_fail + parser" where
  "p_attach i p =
     (case ps_frames p of
        [] \<Rightarrow> Inr (p\<lparr>ps_root := Some i\<rparr>)
      | f # fs \<Rightarrow>
          (case jf_container f of
             CArray items \<Rightarrow>
               Inr (p\<lparr>ps_frames := f\<lparr>jf_container := CArray (items @ [i]), jf_expect := ExSeparator\<rparr> # fs\<rparr>)
           | CObject members None \<Rightarrow> Inl JPanic
           | CObject members (Some (name, l)) \<Rightarrow>
               Inr (p\<lparr>ps_frames :=
                 f\<lparr>jf_container := CObject (members @ [(name, \<lparr>df_key_location = l, df_value = i\<rparr>)]) None,
                   jf_expect := ExSeparator\<rparr> # fs\<rparr>)))"

definition p_close :: "span \<Rightarrow> parser \<Rightarrow> json_fail + parser" where
  "p_close span p =
     (case ps_frames p of
        [] \<Rightarrow> Inl JPanic
      | f # fs \<Rightarrow>
          rbind (p_location p (jf_start f, snd span)) (\<lambda>l.
            case p_push (case jf_container f of CArray items \<Rightarrow> RawArray items
                         | CObject members _ \<Rightarrow> RawObject members) l (p\<lparr>ps_frames := fs\<rparr>) of
              (i, p) \<Rightarrow> p_attach i p))"

section \<open>Strings\<close>

definition char_len :: "u32 \<Rightarrow> nat" where
  "char_len c = (if c < 0x80 then 1 else if c < 0x800 then 2 else if c < 0x10000 then 3 else 4)"

text \<open>\<open>char::from_u32\<close>\<close>

definition char_from_u32 :: "u32 \<Rightarrow> u32 option" where
  "char_from_u32 c = (if c < 0xd800 \<or> 0xe000 \<le> c \<and> c < 0x110000 then Some c else None)"

definition surrogate_pair :: "u16 \<Rightarrow> u16 \<Rightarrow> u32" where
  "surrogate_pair first second =
     0x10000 + push_bit 10 (ucast first - 0xd800) + ucast second - 0xdc00"

text \<open>\<open>append\<close>, with the decoded length so far as \<open>output\<close>; only the length of the text counts.\<close>

definition p_append :: "nat \<Rightarrow> nat \<Rightarrow> span \<Rightarrow> parser \<Rightarrow> json_fail + (nat \<times> parser)" where
  "p_append out len span p =
     (case checked_add_usize out len of
        None \<Rightarrow> p_fail p span (Msg ''JSON string length overflow'')
      | Some n \<Rightarrow>
          (case checked_add_usize (ps_payload p) len of
             None \<Rightarrow> p_fail p span (Msg ''JSON payload accounting overflow'')
           | Some payload \<Rightarrow>
               rbind (p_limit p span ''string_len'' n (dl_string_len (ps_limits p))) (\<lambda>_.
               rbind (p_limit p span ''payloads_bytes'' payload (dl_payloads_bytes (ps_limits p))) (\<lambda>_.
                 Inr (n, p\<lparr>ps_payload := payload\<rparr>)))))"

text \<open>
  One round of the loop of \<open>string\<close>: the end of the string, or the values of \<open>output\<close>, \<open>escaped\<close>
  and \<open>high\<close> for the next round.
\<close>

datatype string_round =
    StringEnd string_span loc
  | StringMore nat bool "(u16 \<times> span) option"

definition string_text :: "nat \<Rightarrow> nat \<Rightarrow> span \<Rightarrow> bool \<Rightarrow> parser \<Rightarrow> json_fail + (string_round \<times> parser)" where
  "string_text out len span escaped p =
     rbind (p_append out len span p) (\<lambda>(n, p). Inr (StringMore n escaped None, p))"

definition string_char :: "u32 option \<Rightarrow> nat \<Rightarrow> span \<Rightarrow> bool \<Rightarrow> parser \<Rightarrow> json_fail + (string_round \<times> parser)" where
  "string_char ch out span escaped p =
     (case ch of None \<Rightarrow> Inl JPanic | Some c \<Rightarrow> string_text out (char_len c) span escaped p)"

definition p_string_round ::
  "nat \<Rightarrow> nat \<Rightarrow> bool \<Rightarrow> (u16 \<times> span) option \<Rightarrow> token \<Rightarrow> parser \<Rightarrow> json_fail + (string_round \<times> parser)" where
  "p_string_round start out escaped high tok p =
     (let escaped = (escaped \<or> (case tk_kind tok of TEscChar _ \<Rightarrow> True | TEscUtf16 _ \<Rightarrow> True | _ \<Rightarrow> False));
          span = tk_span tok
      in case high of
           Some (first, origin) \<Rightarrow>
             (case tk_kind tok of
                TEscUtf16 second \<Rightarrow>
                  if 0xdc00 \<le> second \<and> second \<le> 0xdfff
                  then string_char (char_from_u32 (surrogate_pair first second)) out
                         (fst origin, snd span) escaped p
                  else p_fail p origin (Msg ''high surrogate requires a low surrogate'')
              | _ \<Rightarrow> p_fail p origin (Msg ''high surrogate requires a low surrogate''))
         | None \<Rightarrow>
             (case tk_kind tok of
                TQEnd \<Rightarrow>
                  rbind (p_location p (start, snd span)) (\<lambda>l.
                    Inr (StringEnd \<lparr>st_range = (start + 1, fst span), st_escaped = escaped\<rparr> l, p))
              | TText str \<Rightarrow> string_text out (length str) span escaped p
              | TEscChar c \<Rightarrow> string_text out (char_len c) span escaped p
              | TEscUtf16 v \<Rightarrow>
                  if 0xd800 \<le> v \<and> v \<le> 0xdbff then Inr (StringMore out escaped (Some (v, span)), p)
                  else if 0xdc00 \<le> v \<and> v \<le> 0xdfff then p_fail p span (Msg ''unexpected low surrogate'')
                  else string_char (char_from_u32 (ucast v)) out span escaped p
              | TEof \<Rightarrow> p_fail p (start, snd span) (Msg ''unclosed JSON string'')
              | _ \<Rightarrow> Inl JPanic))"

lemma p_fail_not_Inr [simp]: "p_fail p span m \<noteq> Inr x"
  by (simp add: p_fail_def result_simps)

lemma p_limit_Inr [result_simps]: "p_limit p span name v lim = Inr u \<longleftrightarrow> v \<le> lim"
  by (auto simp: p_limit_def)

lemma p_next_Inr:
  "p_next bad p = Inr (tok, p') \<longleftrightarrow>
    (\<exists>s. scan_next bad (ps_scanner p) = (Inr tok, s) \<and> p' = p\<lparr>ps_scanner := s\<rparr>)"
  by (auto simp: p_next_def split: prod.splits sum.splits lex_error.splits)

lemma p_append_Inr:
  assumes "p_append out len span p = Inr (n, p')"
  shows "n = out + len" and "p' = p\<lparr>ps_payload := ps_payload p + len\<rparr>"
    and "n \<le> dl_string_len (ps_limits p)" and "ps_payload p' \<le> dl_payloads_bytes (ps_limits p)"
  using assms
  by (auto simp: p_append_def rbind_eq_Inr p_limit_Inr checked_simps split: option.splits)

lemma string_text_Inr:
  assumes "string_text out len span escaped p = Inr (r, p')"
  shows "r = StringMore (out + len) escaped None \<and> p' = p\<lparr>ps_payload := ps_payload p + len\<rparr> \<and>
    out + len \<le> dl_string_len (ps_limits p) \<and> ps_payload p + len \<le> dl_payloads_bytes (ps_limits p)"
proof -
  from assms obtain n where a: "p_append out len span p = Inr (n, p')"
    and r: "r = StringMore n escaped None"
    by (auto simp: string_text_def rbind_eq_Inr)
  from p_append_Inr [OF a] r show ?thesis by simp
qed

text \<open>
  A round ends the string at its closing quote, remembers a high surrogate, or accounts for text;
  the state is otherwise unchanged.
\<close>

definition accounted :: "parser \<Rightarrow> parser \<Rightarrow> bool" where
  "accounted p p' \<longleftrightarrow>
     p' = p \<or> (\<exists>n \<le> dl_payloads_bytes (ps_limits p). p' = p\<lparr>ps_payload := n\<rparr>)"

lemma string_char_Inr:
  "string_char c out span escaped p = Inr (r, p') \<Longrightarrow> \<exists>n. string_text out n span escaped p = Inr (r, p')"
  by (auto simp: string_char_def split: option.splits)

lemma p_string_round_Inr:
  assumes "p_string_round start out escaped high tok p = Inr (r, p')"
  obtains (stop) l where "tk_kind tok = TQEnd" and "high = None"
      and "p_location p (start, snd (tk_span tok)) = Inr l"
      and "r = StringEnd \<lparr>st_range = (start + 1, fst (tk_span tok)), st_escaped = escaped\<rparr> l" and "p' = p"
    | (high) v e where "tk_kind tok = TEscUtf16 v" and "r = StringMore out e (Some (v, tk_span tok))"
      and "p' = p" and "high = None"
    | (more) n e where "tk_kind tok \<noteq> TEof" and "tk_kind tok \<noteq> TQEnd"
      and "r = StringMore (out + n) e None" and "p' = p\<lparr>ps_payload := ps_payload p + n\<rparr>"
      and "out + n \<le> dl_string_len (ps_limits p)" and "ps_payload p + n \<le> dl_payloads_bytes (ps_limits p)"
proof -
  have plain: thesis if "string_text out n sp e p = Inr (r, p')" "tk_kind tok \<noteq> TEof" "tk_kind tok \<noteq> TQEnd"
    for n sp e using string_text_Inr [OF that(1)] that(2,3) more by blast
  have char: thesis if "string_char c out sp e p = Inr (r, p')" "tk_kind tok \<noteq> TEof" "tk_kind tok \<noteq> TQEnd"
    for c sp e using string_char_Inr [OF that(1)] that(2,3) plain by blast
  show thesis
  proof (cases high)
    case None
    note round = assms [unfolded p_string_round_def Let_def None option.case]
    show ?thesis
    proof (cases "tk_kind tok")
      case TQEnd
      with round None stop show ?thesis by (auto simp: rbind_eq_Inr)
    next
      case (TText str)
      with round show ?thesis by (intro plain) auto
    next
      case (TEscChar c)
      with round show ?thesis by (intro plain) auto
    next
      case (TEscUtf16 v)
      show ?thesis
      proof (cases "0xd800 \<le> v \<and> v \<le> 0xdbff")
        case True
        with TEscUtf16 round None high show ?thesis by auto
      next
        case False
        with TEscUtf16 round show ?thesis by (intro char) (auto split: if_splits)
      qed
    qed (use round in auto)
  next
    case (Some h)
    note round = assms [unfolded p_string_round_def Let_def Some option.case]
    obtain first origin where h: "h = (first, origin)" by (cases h)
    from round h obtain v where "tk_kind tok = TEscUtf16 v" by (cases "tk_kind tok") auto
    with round h show ?thesis by (intro char) (auto split: if_splits)
  qed
qed

lemma string_round_more:
  assumes "p_string_round start out escaped high tok p = Inr (StringMore a b c, p')"
  shows "tk_kind tok \<noteq> TEof" and "accounted p p'"
  using assms by (cases rule: p_string_round_Inr; auto simp: accounted_def)+

lemma accounted_scanner [simp]: "accounted p p' \<Longrightarrow> ps_scanner p' = ps_scanner p"
  by (auto simp: accounted_def)

function p_string_loop ::
  "(bytes \<Rightarrow> nat) \<Rightarrow> nat \<Rightarrow> nat \<Rightarrow> bool \<Rightarrow> (u16 \<times> span) option \<Rightarrow> parser \<Rightarrow>
     json_fail + (string_span \<times> loc \<times> parser)" where
  "p_string_loop bad start out escaped high p =
     rbind (p_next bad p) (\<lambda>(tok, p).
     rbind (p_string_round start out escaped high tok p) (\<lambda>(r, p).
       case r of
         StringEnd str l \<Rightarrow> Inr (str, l, p)
       | StringMore out escaped high \<Rightarrow> p_string_loop bad start out escaped high p))"
  by pat_completeness auto
termination
proof (relation "measure (\<lambda>(bad, start, out, escaped, high, p). length (scanner_input (ps_scanner p)))",
    goal_cases)
  case 1
  show ?case by simp
next
  case (2 bad start out escaped high p r tok q r' rnd t o' e' h')
  then have nx: "p_next bad p = Inr (tok, q)"
    and round: "p_string_round start out escaped high tok q = Inr (StringMore o' e' h', t)" by auto
  then have "tk_kind tok \<noteq> TEof" and "ps_scanner t = ps_scanner q"
    using string_round_more [OF round] by auto
  with nx scan_next_progress show ?case by (fastforce simp: p_next_Inr)
qed

declare p_string_loop.simps [simp del]

definition p_string :: "(bytes \<Rightarrow> nat) \<Rightarrow> nat \<Rightarrow> parser \<Rightarrow> json_fail + (string_span \<times> loc \<times> parser)" where
  "p_string bad start p = p_string_loop bad start 0 False None p"


section \<open>The machine\<close>

definition p_scalar :: "raw_kind \<Rightarrow> span \<Rightarrow> parser \<Rightarrow> json_fail + parser" where
  "p_scalar kind span p =
     rbind (p_reserve_value span p) (\<lambda>p.
     rbind (p_location p span) (\<lambda>l.
       case p_push kind l p of (i, p) \<Rightarrow> p_attach i p))"

definition p_open :: "json_container \<Rightarrow> expect \<Rightarrow> span \<Rightarrow> parser \<Rightarrow> json_fail + parser" where
  "p_open container expect span p =
     rbind (p_reserve_value span p) (\<lambda>p.
       Inr (p\<lparr>ps_frames :=
         \<lparr>jf_start = fst span, jf_expect = expect, jf_container = container, jf_separator = None,
          jf_skipped = 0\<rparr> # ps_frames p\<rparr>))"

definition p_value :: "(bytes \<Rightarrow> nat) \<Rightarrow> token \<Rightarrow> parser \<Rightarrow> json_fail + parser" where
  "p_value bad tok p =
     (case tk_kind tok of
        TLBracket \<Rightarrow> p_open (CArray []) ExValueOrEnd (tk_span tok) p
      | TLBrace \<Rightarrow> p_open (CObject [] None) ExKeyOrEnd (tk_span tok) p
      | TQStart \<Rightarrow>
          rbind (p_reserve_value (tk_span tok) p) (\<lambda>p.
          rbind (p_string bad (fst (tk_span tok)) p) (\<lambda>(str, l, p).
            case p_push (RawString str) l p of (i, p) \<Rightarrow> p_attach i p))
      | TNull \<Rightarrow> p_scalar RawNull (tk_span tok) p
      | TTrue \<Rightarrow> p_scalar (RawBool True) (tk_span tok) p
      | TFalse \<Rightarrow> p_scalar (RawBool False) (tk_span tok) p
      | TNumber float \<Rightarrow> p_scalar (RawNumber (tk_span tok) float) (tk_span tok) p
      | _ \<Rightarrow> p_fail p (tk_span tok) (Msg ''expected a JSON value''))"

definition set_top :: "json_frame \<Rightarrow> parser \<Rightarrow> parser" where
  "set_top f p = p\<lparr>ps_frames := f # tl (ps_frames p)\<rparr>"

definition is_array :: "json_container \<Rightarrow> bool" where
  "is_array c = (case c of CArray _ \<Rightarrow> True | CObject _ _ \<Rightarrow> False)"

text \<open>The arms of the loop of \<open>parse\<close>, by what is expected.\<close>

definition p_expect_value :: "(bytes \<Rightarrow> nat) \<Rightarrow> expect \<Rightarrow> token \<Rightarrow> parser \<Rightarrow> json_fail + parser" where
  "p_expect_value bad expected tok p =
     (if tk_kind tok = TComma \<and> ps_frames p \<noteq> [] then p_skip_comma (tk_span tok) p
      else if tk_kind tok = TRBracket \<and>
          (case ps_frames p of [] \<Rightarrow> False | f # _ \<Rightarrow> is_array (jf_container f)) then
        rbind (if expected = ExValue then p_trailing_comma p else Inr p) (p_close (tk_span tok))
      else p_value bad tok p)"

definition p_set_key :: "string_span \<Rightarrow> loc \<Rightarrow> parser \<Rightarrow> json_fail + parser" where
  "p_set_key key l p =
     (case ps_frames p of
        [] \<Rightarrow> Inl JPanic
      | f # _ \<Rightarrow>
          (case jf_container f of
             CArray _ \<Rightarrow> Inl JPanic
           | CObject members _ \<Rightarrow>
               Inr (set_top (f\<lparr>jf_container := CObject members (Some (key, l)),
                              jf_expect := ExColon\<rparr>) p)))"

definition p_expect_key :: "(bytes \<Rightarrow> nat) \<Rightarrow> expect \<Rightarrow> token \<Rightarrow> parser \<Rightarrow> json_fail + parser" where
  "p_expect_key bad expected tok p =
     (if tk_kind tok = TComma then p_skip_comma (tk_span tok) p
      else if tk_kind tok = TRBrace then
        rbind (if expected = ExKey then p_trailing_comma p else Inr p) (p_close (tk_span tok))
      else if tk_kind tok \<noteq> TQStart then p_fail p (tk_span tok) (Msg ''JSON object key must be a string'')
      else
        rbind (p_container_slot p (tk_span tok)) (\<lambda>_.
        rbind (p_string bad (fst (tk_span tok)) p) (\<lambda>(key, l, p). p_set_key key l p)))"

definition p_expect_colon :: "token \<Rightarrow> parser \<Rightarrow> json_fail + parser" where
  "p_expect_colon tok p =
     (if tk_kind tok \<noteq> TColon then p_fail p (tk_span tok) (Msg ''expected ':' after JSON object key'')
      else (case ps_frames p of
          [] \<Rightarrow> Inl JPanic
        | f # _ \<Rightarrow> Inr (set_top (f\<lparr>jf_expect := ExValue\<rparr>) p)))"

definition p_expect_separator :: "token \<Rightarrow> parser \<Rightarrow> json_fail + parser" where
  "p_expect_separator tok p =
     (case ps_frames p of
        [] \<Rightarrow> Inl JPanic
      | f # _ \<Rightarrow>
          if tk_kind tok = TComma then
            Inr (set_top (f\<lparr>jf_separator := Some (tk_span tok),
                            jf_expect := (if is_array (jf_container f) then ExValue else ExKey)\<rparr>) p)
          else if tk_kind tok = (if is_array (jf_container f) then TRBracket else TRBrace)
          then p_close (tk_span tok) p
          else p_fail p (tk_span tok) (Msg ''expected ',' or closing JSON delimiter''))"

text \<open>One round of the loop: the finished plan or the next state.\<close>

definition parse_round :: "(bytes \<Rightarrow> nat) \<Rightarrow> token \<Rightarrow> parser \<Rightarrow> json_fail + (raw_plan + parser)" where
  "parse_round bad tok p =
     (if ps_frames p = [] \<and> ps_root p \<noteq> None then
        (if tk_kind tok \<noteq> TEof then p_fail p (tk_span tok) (Msg ''expected end of JSON input'')
         else Inr (Inl ((ps_plan p)\<lparr>rp_root := ps_root p\<rparr>)))
      else
        (let expected = (case ps_frames p of [] \<Rightarrow> ExValue | f # _ \<Rightarrow> jf_expect f) in
         rbind (if expected = ExValue \<or> expected = ExValueOrEnd then p_expect_value bad expected tok p
                else if expected = ExKey \<or> expected = ExKeyOrEnd then p_expect_key bad expected tok p
                else if expected = ExColon then p_expect_colon tok p
                else p_expect_separator tok p) (\<lambda>p. Inr (Inr p))))"


section \<open>The machine stops\<close>

lemma p_report_Inr:
  "p_report span m p = Inr p' \<longleftrightarrow> (\<exists>l. p_location p span = Inr l \<and>
     p' = p\<lparr>ps_plan := (ps_plan p)\<lparr>rp_diagnostics := rp_diagnostics (ps_plan p) @ [diagnostic_error m l]\<rparr>\<rparr>)"
  by (auto simp: p_report_def p_error_def rbind_eq_Inr)

lemma p_reserve_value_Inr:
  "p_reserve_value span p = Inr p' \<longleftrightarrow>
    (\<forall>f fs. ps_frames p = f # fs \<longrightarrow>
       container_len (jf_container f) + jf_skipped f + 1 \<le> dl_container_size (ps_limits p)) \<and>
    length (ps_frames p) + 1 \<le> dl_depth (ps_limits p) \<and> ps_nodes p + 1 \<le> dl_nodes (ps_limits p) \<and>
    p' = p\<lparr>ps_nodes := ps_nodes p + 1\<rparr>"
  by (cases "ps_frames p") (auto simp: p_reserve_value_def p_container_slot_def rbind_eq_Inr p_limit_Inr)

lemma p_attach_scanner: "p_attach i p = Inr p' \<Longrightarrow> ps_scanner p' = ps_scanner p"
  by (auto simp: p_attach_def split: list.splits json_container.splits option.splits)

lemma p_push_scanner: "p_push k l p = (i, p') \<Longrightarrow> ps_scanner p' = ps_scanner p"
  by (auto simp: p_push_def split: prod.splits)

lemma p_close_scanner: "p_close span p = Inr p' \<Longrightarrow> ps_scanner p' = ps_scanner p"
  by (auto simp: p_close_def p_push_def plan_push_def rbind_eq_Inr split: list.splits
      dest!: p_attach_scanner)

lemma p_set_key_Inr:
  "p_set_key key l p = Inr p' \<longleftrightarrow>
    (\<exists>f fs members old. ps_frames p = f # fs \<and> jf_container f = CObject members old \<and>
      p' = p\<lparr>ps_frames := f\<lparr>jf_container := CObject members (Some (key, l)), jf_expect := ExColon\<rparr> # fs\<rparr>)"
  by (auto simp: p_set_key_def set_top_def split: list.splits json_container.splits)

lemma p_string_loop_Inr:
  assumes "p_string_loop bad start out escaped high p = Inr (str, l, p')"
  obtains (stop) tok q where "p_next bad p = Inr (tok, q)"
      and "p_string_round start out escaped high tok q = Inr (StringEnd str l, p')"
    | (more) tok q o' e' h' t where "p_next bad p = Inr (tok, q)"
      and "p_string_round start out escaped high tok q = Inr (StringMore o' e' h', t)"
      and "p_string_loop bad start o' e' h' t = Inr (str, l, p')"
proof -
  from assms obtain tok q r t where nx: "p_next bad p = Inr (tok, q)"
    and round: "p_string_round start out escaped high tok q = Inr (r, t)"
    and rest: "(case r of StringEnd str l \<Rightarrow> Inr (str, l, t)
      | StringMore out escaped high \<Rightarrow> p_string_loop bad start out escaped high t) = Inr (str, l, p')"
    by (auto simp: p_string_loop.simps [of bad start out] rbind_eq_Inr)
  show thesis
  proof (cases r)
    case (StringEnd str' l')
    with nx round rest stop show ?thesis by auto
  next
    case (StringMore o' e' h')
    with nx round rest more show ?thesis by auto
  qed
qed

lemma p_next_shorter:
  assumes "p_next bad p = Inr (tok, p')"
  shows "shorter (ps_scanner p') (ps_scanner p)"
    and "tk_kind tok \<noteq> TEof \<Longrightarrow> length (scanner_input (ps_scanner p')) < length (scanner_input (ps_scanner p))"
proof -
  from assms obtain s where s: "scan_next bad (ps_scanner p) = (Inr tok, s)" "p' = p\<lparr>ps_scanner := s\<rparr>"
    by (auto simp: p_next_Inr)
  show less: "length (scanner_input (ps_scanner p')) < length (scanner_input (ps_scanner p))"
    if "tk_kind tok \<noteq> TEof" using scan_next_progress [OF s(1) that] s(2) by simp
  have "scanner_input s = []" if "tk_kind tok = TEof"
    using scan_next_eof [OF s(1) that] .
  with less s(2) show "shorter (ps_scanner p') (ps_scanner p)"
    by (cases "tk_kind tok = TEof") (auto simp: shorter_def)
qed

lemma p_string_loop_shorter:
  "p_string_loop bad start out escaped high p = Inr (str, l, p') \<Longrightarrow>
    shorter (ps_scanner p') (ps_scanner p)"
proof (induction bad start out escaped high p rule: p_string_loop.induct)
  case (1 bad start out escaped high p)
  from 1(2) show ?case
  proof (cases rule: p_string_loop_Inr)
    case (stop tok q)
    then have "ps_scanner p' = ps_scanner q" by (auto elim: p_string_round_Inr)
    with p_next_shorter(1) [OF stop(1)] show ?thesis by simp
  next
    case (more tok q o' e' h' t)
    have "shorter (ps_scanner p') (ps_scanner t)"
      using 1(1) [OF more(1) refl more(2)] more(3) by simp
    moreover have "ps_scanner t = ps_scanner q" using string_round_more(2) [OF more(2)] by simp
    ultimately show ?thesis using p_next_shorter(1) [OF more(1)] shorter_trans by metis
  qed
qed

lemma p_value_shorter: "p_value bad tok p = Inr p' \<Longrightarrow> tk_kind tok \<noteq> TEof \<and> shorter (ps_scanner p') (ps_scanner p)"
  by (cases "tk_kind tok")
    (auto simp: p_value_def p_open_def p_scalar_def p_string_def p_push_def plan_push_def rbind_eq_Inr
      p_reserve_value_Inr dest!: p_attach_scanner p_string_loop_shorter)

lemma parse_round_shorter:
  assumes "parse_round bad tok p = Inr (Inr p')"
  shows "tk_kind tok \<noteq> TEof" and "shorter (ps_scanner p') (ps_scanner p)"
proof -
  have "tk_kind tok \<noteq> TEof \<and> shorter (ps_scanner p') (ps_scanner p)"
    if "p_expect_value bad e tok p = Inr p'" for e
    using that p_value_shorter [of bad tok p p']
    by (auto simp: p_expect_value_def p_skip_comma_def p_trailing_comma_def p_report_Inr rbind_eq_Inr
        p_reserve_value_Inr dest!: p_close_scanner split: if_splits list.splits option.splits)
  moreover have "tk_kind tok \<noteq> TEof \<and> shorter (ps_scanner p') (ps_scanner p)"
    if "p_expect_key bad e tok p = Inr p'" for e
    using that
    by (auto simp: p_expect_key_def p_skip_comma_def p_trailing_comma_def p_report_Inr rbind_eq_Inr
        p_reserve_value_Inr p_string_def p_set_key_Inr dest!: p_close_scanner p_string_loop_shorter
        split: if_splits list.splits option.splits)
  moreover have "tk_kind tok \<noteq> TEof \<and> shorter (ps_scanner p') (ps_scanner p)"
    if "p_expect_colon tok p = Inr p' \<or> p_expect_separator tok p = Inr p'"
    using that
    by (auto simp: p_expect_colon_def p_expect_separator_def set_top_def dest!: p_close_scanner
        split: if_splits list.splits)
  ultimately show "tk_kind tok \<noteq> TEof" and "shorter (ps_scanner p') (ps_scanner p)"
    using assms by (auto simp: parse_round_def Let_def rbind_eq_Inr split: if_splits)
qed

text \<open>The loop ends because a round that goes on has consumed a token.\<close>

function parse_loop :: "(bytes \<Rightarrow> nat) \<Rightarrow> parser \<Rightarrow> json_fail + raw_plan" where
  "parse_loop bad p =
     rbind (p_next bad p) (\<lambda>(tok, p).
     rbind (parse_round bad tok p) (\<lambda>r. case r of Inl plan \<Rightarrow> Inr plan | Inr p \<Rightarrow> parse_loop bad p))"
  by pat_completeness auto
termination
proof (relation "measure (\<lambda>(bad, p). length (scanner_input (ps_scanner p)))", goal_cases)
  case 1
  show ?case by simp
next
  case (2 bad p x tok q r t)
  then have nx: "p_next bad p = Inr (tok, q)" and round: "parse_round bad tok q = Inr (Inr t)" by auto
  from parse_round_shorter [OF round] p_next_shorter(2) [OF nx] show ?case
    by (simp add: shorter_less)
qed

declare parse_loop.simps [simp del]

text \<open>\<open>parse\<close> of the file size \<open>n\<close>, and \<open>parse_structure\<close> of a contiguous input.\<close>

definition parser_parse :: "(bytes \<Rightarrow> nat) \<Rightarrow> nat \<Rightarrow> parser \<Rightarrow> json_fail + raw_plan" where
  "parser_parse bad n p =
     rbind (p_limit p (0, n) ''file_size'' n (dl_file_size (ps_limits p))) (\<lambda>_. parse_loop bad p)"

record json_structure =
  js_src :: bytes
  js_raw :: raw_plan

definition parse_structure ::
  "(bytes \<Rightarrow> nat) \<Rightarrow> source_id \<Rightarrow> bytes \<Rightarrow> data_limits \<Rightarrow> json_fail + json_structure" where
  "parse_structure bad source inp limits =
     rbind (parser_parse bad (length inp) (parser_new source [inp] limits)) (\<lambda>raw.
       Inr \<lparr>js_src = inp, js_raw = raw\<rparr>)"

definition default_limits :: data_limits where
  "default_limits =
     \<lparr>dl_file_size = 268435456, dl_nodes = 1000000, dl_depth = 256, dl_container_size = 1000000,
      dl_bytes_len = 67108864, dl_string_len = 67108864, dl_payloads_bytes = 268435456\<rparr>"

end
