(* ===== verification/Json_Admission.thy ===== *)
theory Json_Admission
  imports Json_Parse
begin

text \<open>
  What the parser guarantees: it never panics on a registered input, its plan is a tree in
  child-before-parent order, and the plan respects the limits of the data source.
\<close>

section \<open>The shape of a plan\<close>

definition kind_children :: "raw_kind \<Rightarrow> nat list" where
  "kind_children k =
     (case k of RawArray items \<Rightarrow> items | RawObject members \<Rightarrow> map (\<lambda>m. df_value (snd m)) members | _ \<Rightarrow> [])"

definition container_items :: "json_container \<Rightarrow> nat list" where
  "container_items c =
     (case c of CArray items \<Rightarrow> items | CObject members _ \<Rightarrow> map (\<lambda>m. df_value (snd m)) members)"

abbreviation node_children :: "raw_node \<Rightarrow> nat list" where
  "node_children n \<equiv> kind_children (rn_kind n)"

abbreviation frame_items :: "json_frame \<Rightarrow> nat list" where
  "frame_items f \<equiv> container_items (jf_container f)"

text \<open>The height of the subtree of every node, in the order of the nodes.\<close>

definition push_height :: "nat list \<Rightarrow> raw_node \<Rightarrow> nat list" where
  "push_height hs n = hs @ [Suc (fold max (map ((!) hs) (node_children n)) 0)]"

definition node_heights :: "raw_node list \<Rightarrow> nat list" where
  "node_heights ns = foldl push_height [] ns"

lemma length_container_items [simp]: "length (container_items c) = container_len c"
  by (cases c) (simp_all add: container_items_def container_len_def)

lemma node_heights_snoc: "node_heights (ns @ [n]) = push_height (node_heights ns) n"
  by (simp add: node_heights_def)

lemma length_node_heights [simp]: "length (node_heights ns) = length ns"
  by (induction ns rule: rev_induct) (simp_all add: node_heights_snoc push_height_def node_heights_def)

lemma height_kept: "i < length ns \<Longrightarrow> node_heights (ns @ [n]) ! i = node_heights ns ! i"
  by (simp add: node_heights_snoc push_height_def nth_append)

lemma height_new: "node_heights (ns @ [n]) ! length ns =
    Suc (fold max (map ((!) (node_heights ns)) (node_children n)) 0)"
  by (simp add: node_heights_snoc push_height_def nth_append)

lemma fold_max_le: "fold max xs (b :: nat) \<le> k \<longleftrightarrow> b \<le> k \<and> (\<forall>x \<in> set xs. x \<le> k)"
  by (induction xs arbitrary: b) auto

text \<open>The items of the frames at level 1, 2, ... from the bottom fit under the depth limit.\<close>

fun levels_ok :: "nat list \<Rightarrow> nat \<Rightarrow> json_frame list \<Rightarrow> bool" where
  "levels_ok hs d [] = True"
| "levels_ok hs d (f # fs) =
     (length (f # fs) \<le> d \<and> (\<forall>i \<in> set (frame_items f). hs ! i + length (f # fs) \<le> d) \<and> levels_ok hs d fs)"

definition root_items :: "nat option \<Rightarrow> nat list" where
  "root_items r = (case r of None \<Rightarrow> [] | Some i \<Rightarrow> [i])"

text \<open>Every node in the plan, in an open frame, detached (\<open>cs\<close>) or the root, exactly once.\<close>

definition references :: "nat list \<Rightarrow> raw_node list \<Rightarrow> json_frame list \<Rightarrow> nat option \<Rightarrow> nat list" where
  "references cs ns fs root =
     concat (map node_children ns) @ cs @ concat (map frame_items fs) @ root_items root"

definition slot_free :: "data_limits \<Rightarrow> json_frame \<Rightarrow> bool" where
  "slot_free lim f \<longleftrightarrow> container_len (jf_container f) + jf_skipped f + 1 \<le> dl_container_size lim"

definition parents_ok :: "raw_node list \<Rightarrow> bool" where
  "parents_ok ns \<longleftrightarrow> (\<forall>i < length ns. \<forall>c \<in> set (node_children (ns ! i)). c < i)"

definition refs_ok :: "nat list \<Rightarrow> raw_node list \<Rightarrow> json_frame list \<Rightarrow> nat option \<Rightarrow> bool" where
  "refs_ok cs ns fs root \<longleftrightarrow>
     distinct (references cs ns fs root) \<and> set (references cs ns fs root) = {..<length ns} \<and>
     (fs \<noteq> [] \<longrightarrow> root = None)"

definition sizes_ok :: "nat list \<Rightarrow> raw_node list \<Rightarrow> json_frame list \<Rightarrow> data_limits \<Rightarrow> bool" where
  "sizes_ok cs ns fs lim \<longleftrightarrow>
     (\<forall>n \<in> set ns. length (node_children n) \<le> dl_container_size lim) \<and>
     (\<forall>f \<in> set fs. container_len (jf_container f) + jf_skipped f \<le> dl_container_size lim) \<and>
     (\<forall>f \<in> set (tl fs). slot_free lim f) \<and> length cs \<le> dl_container_size lim"

definition depth_ok :: "nat list \<Rightarrow> raw_node list \<Rightarrow> json_frame list \<Rightarrow> nat option \<Rightarrow> data_limits \<Rightarrow> bool" where
  "depth_ok cs ns fs root lim \<longleftrightarrow>
     levels_ok (node_heights ns) (dl_depth lim) fs \<and>
     (\<forall>r. root = Some r \<longrightarrow> node_heights ns ! r \<le> dl_depth lim) \<and>
     (\<forall>c \<in> set cs. node_heights ns ! c + length fs + 1 \<le> dl_depth lim)"

definition plan_core ::
  "nat list \<Rightarrow> raw_node list \<Rightarrow> json_frame list \<Rightarrow> nat option \<Rightarrow> data_limits \<Rightarrow> nat \<Rightarrow> bool" where
  "plan_core cs ns fs root lim reserved \<longleftrightarrow>
     parents_ok ns \<and> refs_ok cs ns fs root \<and> sizes_ok cs ns fs lim \<and> depth_ok cs ns fs root lim \<and>
     length ns + length fs \<le> reserved \<and> reserved \<le> dl_nodes lim"

text \<open>Room for one more value below the top frame.\<close>

definition room :: "raw_node list \<Rightarrow> json_frame list \<Rightarrow> nat option \<Rightarrow> data_limits \<Rightarrow> nat \<Rightarrow> bool" where
  "room ns fs root lim reserved \<longleftrightarrow>
     (fs \<noteq> [] \<longrightarrow> slot_free lim (hd fs)) \<and> length fs + 1 \<le> dl_depth lim \<and>
     length ns + length fs + 1 \<le> reserved \<and> root = None"

lemma core_new: "plan_core [] [] [] None lim 0"
  by (simp add: plan_core_def parents_ok_def refs_ok_def sizes_ok_def depth_ok_def references_def
      root_items_def)

text \<open>A value is admitted.\<close>

lemma core_reserve:
  assumes "plan_core [] ns fs root lim r" and "fs = [] \<longrightarrow> root = None"
    and "\<forall>f fs'. fs = f # fs' \<longrightarrow> slot_free lim f" and "length fs + 1 \<le> dl_depth lim"
    and "r + 1 \<le> dl_nodes lim"
  shows "plan_core [] ns fs root lim (r + 1)" and "room ns fs root lim (r + 1)"
  using assms by (auto simp: plan_core_def room_def refs_ok_def neq_Nil_conv)

text \<open>A container is opened: an empty frame on top.\<close>

lemma core_open:
  assumes "plan_core [] ns fs root lim r" and "room ns fs root lim r"
    and "frame_items f = []" and "jf_skipped f = 0"
  shows "plan_core [] ns (f # fs) root lim r"
proof -
  have "container_len (jf_container f) = 0"
    using assms(3) length_container_items [of "jf_container f"] by simp
  then have "sizes_ok [] ns (f # fs) lim"
    using assms by (cases fs) (auto simp: plan_core_def sizes_ok_def room_def)
  with assms show ?thesis
    by (auto simp: plan_core_def room_def refs_ok_def references_def depth_ok_def)
qed

text \<open>A frame is closed: its items become the children of a node still to be pushed.\<close>

lemma core_pop:
  assumes "plan_core [] ns (f # fs) root lim r"
  shows "plan_core (frame_items f) ns fs root lim r" and "room ns fs root lim r"
proof -
  have "refs_ok (frame_items f) ns fs root" "root = None"
    using assms by (auto simp: plan_core_def refs_ok_def references_def)
  moreover have "sizes_ok (frame_items f) ns fs lim"
    using assms by (cases fs) (auto simp: plan_core_def sizes_ok_def)
  moreover have "depth_ok (frame_items f) ns fs root lim"
    using assms by (auto simp: plan_core_def depth_ok_def)
  ultimately show "plan_core (frame_items f) ns fs root lim r"
    using assms by (simp add: plan_core_def)
  show "room ns fs root lim r"
    using assms \<open>root = None\<close> by (cases fs) (auto simp: plan_core_def room_def sizes_ok_def depth_ok_def)
qed

text \<open>A node is pushed with the detached items as children, and attached to the top frame or as root.\<close>

lemma levels_ok_kept:
  assumes "levels_ok (node_heights ns) d fs" and "\<forall>f \<in> set fs. \<forall>i \<in> set (frame_items f). i < length ns"
  shows "levels_ok (node_heights (ns @ [n])) d fs"
  using assms by (induction fs) (auto simp: height_kept)

lemma parents_push:
  assumes "parents_ok ns" and "\<forall>c \<in> set (node_children n). c < length ns"
  shows "parents_ok (ns @ [n])"
  using assms by (auto simp: parents_ok_def nth_append less_Suc_eq)

lemma refs_bound: "refs_ok cs ns fs root \<Longrightarrow> c \<in> set (references cs ns fs root) \<Longrightarrow> c < length ns"
  by (auto simp: refs_ok_def)

lemma new_height:
  assumes "depth_ok cs ns fs root lim" and "node_children n = cs" and "length fs + 1 \<le> dl_depth lim"
  shows "node_heights (ns @ [n]) ! length ns + length fs \<le> dl_depth lim"
proof -
  have "fold max (map ((!) (node_heights ns)) cs) 0 \<le> dl_depth lim - (length fs + 1)"
    using assms(1) by (auto simp: fold_max_le depth_ok_def)
  with assms(2,3) show ?thesis by (simp add: height_new)
qed

lemma core_attach:
  assumes "plan_core cs ns fs root lim r" and "room ns fs root lim r" and "node_children n = cs"
  shows "fs = [] \<Longrightarrow> plan_core [] (ns @ [n]) [] (Some (length ns)) lim r"
    and "fs = f # fs' \<Longrightarrow> frame_items f' = frame_items f @ [length ns] \<Longrightarrow>
      jf_skipped f' = jf_skipped f \<Longrightarrow> plan_core [] (ns @ [n]) (f' # fs') root lim r"
proof -
  note core = assms(1) [unfolded plan_core_def] and rm = assms(2) [unfolded room_def]
  have bound: "c < length ns" if "c \<in> set cs \<or> c \<in> set (concat (map frame_items fs))" for c
    using refs_bound [of cs ns fs root c] core that by (auto simp: references_def)
  have par: "parents_ok (ns @ [n])" using core assms(3) bound by (intro parents_push) auto
  have fresh: "length ns \<notin> set (references cs ns fs root)" using core by (auto simp: refs_ok_def)
  have height: "node_heights (ns @ [n]) ! length ns + length fs \<le> dl_depth lim"
    using new_height assms(3) core rm by blast
  show "plan_core [] (ns @ [n]) [] (Some (length ns)) lim r" if "fs = []"
  proof -
    have "refs_ok [] (ns @ [n]) [] (Some (length ns))"
      using core rm fresh assms(3) that
      by (auto simp: refs_ok_def references_def root_items_def lessThan_Suc)
    moreover have "sizes_ok [] (ns @ [n]) [] lim" using core assms(3) by (auto simp: sizes_ok_def)
    moreover have "depth_ok [] (ns @ [n]) [] (Some (length ns)) lim"
      using height that by (simp add: depth_ok_def)
    ultimately show ?thesis using par core rm that by (simp add: plan_core_def)
  qed
  show "plan_core [] (ns @ [n]) (f' # fs') root lim r"
    if "fs = f # fs'" "frame_items f' = frame_items f @ [length ns]" "jf_skipped f' = jf_skipped f"
  proof -
    have len: "container_len (jf_container f') = container_len (jf_container f) + 1"
      using arg_cong [OF that(2), of length] by simp
    have "refs_ok [] (ns @ [n]) (f' # fs') root"
      using core rm fresh assms(3) that(1,2)
      by (auto simp: refs_ok_def references_def root_items_def lessThan_Suc)
    moreover have "sizes_ok [] (ns @ [n]) (f' # fs') lim"
      using core rm assms(3) len that by (auto simp: sizes_ok_def slot_free_def)
    moreover have "depth_ok [] (ns @ [n]) (f' # fs') root lim"
    proof -
      have "levels_ok (node_heights (ns @ [n])) (dl_depth lim) fs"
        using core bound by (intro levels_ok_kept) (auto simp: depth_ok_def)
      with height rm that(1,2) show ?thesis by (auto simp: depth_ok_def)
    qed
    ultimately show ?thesis using par core rm that(1) by (simp add: plan_core_def)
  qed
qed

text \<open>An extra comma uses up a slot of the top frame.\<close>

lemma refs_top:
  assumes "frame_items f' = frame_items f" and "refs_ok cs ns (f # fs) root"
  shows "refs_ok cs ns (f' # fs) root"
proof -
  have eq: "references cs ns (f' # fs) root = references cs ns (f # fs) root"
    by (simp add: references_def assms(1))
  from assms(2) show ?thesis unfolding refs_ok_def eq by (metis list.distinct(1))
qed

lemma depth_top:
  "frame_items f' = frame_items f \<Longrightarrow> depth_ok cs ns (f # fs) root lim \<Longrightarrow> depth_ok cs ns (f' # fs) root lim"
  by (simp add: depth_ok_def)

lemma core_skip:
  assumes "plan_core [] ns (f # fs) root lim r" and "slot_free lim f"
  shows "plan_core [] ns (f\<lparr>jf_skipped := jf_skipped f + 1\<rparr> # fs) root lim r"
proof -
  let ?f = "f\<lparr>jf_skipped := jf_skipped f + 1\<rparr>"
  have "sizes_ok [] ns (?f # fs) lim"
    using assms by (auto simp: plan_core_def sizes_ok_def slot_free_def)
  moreover have "frame_items ?f = frame_items f" by simp
  ultimately show ?thesis
    using assms refs_top [of ?f f] depth_top [of ?f f] unfolding plan_core_def by simp
qed

lemma core_top:
  assumes "plan_core [] ns (f # fs) root lim r" and "frame_items f' = frame_items f"
    and "jf_skipped f' = jf_skipped f"
  shows "plan_core [] ns (f' # fs) root lim r"
proof -
  have len: "container_len (jf_container f') = container_len (jf_container f)"
    using arg_cong [OF assms(2), of length] by simp
  with assms(1,3) have "sizes_ok [] ns (f' # fs) lim" by (simp add: plan_core_def sizes_ok_def)
  with assms(1) refs_top [OF assms(2)] depth_top [OF assms(2)] show ?thesis
    unfolding plan_core_def by simp
qed

section \<open>Operations do not panic\<close>

text \<open>The outcome of an operation: no panic, and a postcondition on success.\<close>

definition ok :: "json_fail + 'a \<Rightarrow> ('a \<Rightarrow> bool) \<Rightarrow> bool" where
  "ok r P = (case r of Inl e \<Rightarrow> e \<noteq> JPanic | Inr x \<Rightarrow> P x)"

lemma ok_simps [simp]: "ok (Inl e) P \<longleftrightarrow> e \<noteq> JPanic" "ok (Inr x) P \<longleftrightarrow> P x"
  by (simp_all add: ok_def)

lemma ok_bind: "ok r P \<Longrightarrow> (\<And>x. P x \<Longrightarrow> ok (f x) Q) \<Longrightarrow> ok (rbind r f) Q"
  by (cases r) simp_all

lemma ok_mono: "ok r P \<Longrightarrow> (\<And>x. P x \<Longrightarrow> Q x) \<Longrightarrow> ok r Q"
  by (cases r) simp_all

lemma okD: "ok r P \<Longrightarrow> r = Inr x \<Longrightarrow> P x"
  by simp

definition span_ok :: "nat \<Rightarrow> span \<Rightarrow> bool" where
  "span_ok N s \<longleftrightarrow> fst s \<le> snd s \<and> snd s \<le> N \<and> N \<le> 4294967295"

lemma location_ok:
  assumes "span_ok N s"
  shows "ok (p_location p s) (\<lambda>l. loc_range l = s \<and> lc_source l = ps_source p)"
proof -
  obtain l where "loc_from_usize (ps_source p) s = Inr l"
    using loc_from_usize_total [of s "ps_source p"] assms by (auto simp: span_ok_def unat_u32_max)
  moreover from this have "loc_range l = s \<and> lc_source l = ps_source p"
    by (simp add: loc_from_usize_Inr)
  ultimately show ?thesis by (simp add: p_location_def)
qed

lemma fail_ok: "span_ok N s \<Longrightarrow> ok (p_fail p s m) Q"
  unfolding p_fail_def p_error_def 
  by (rule ok_bind [where P = "\<lambda>_. True"], rule ok_bind, erule location_ok) auto

lemma limit_ok: "span_ok N s \<Longrightarrow> ok (p_limit p s name v lim) (\<lambda>_. v \<le> lim)"
  using fail_ok [of N s] by (auto simp: p_limit_def not_less)

lemma report_ok:
  assumes "span_ok N s"
  shows "ok (p_report s m p) (\<lambda>q. \<exists>ds. q = p\<lparr>ps_plan := (ps_plan p)\<lparr>rp_diagnostics := ds\<rparr>\<rparr>)"
  unfolding p_report_def p_error_def
  by (rule ok_bind [where P = "\<lambda>_. True"], rule ok_bind, rule location_ok [OF assms]) auto

lemma slot_ok:
  assumes "span_ok N s"
  shows "ok (p_container_slot p s) (\<lambda>_. \<forall>f fs. ps_frames p = f # fs \<longrightarrow> slot_free (ps_limits p) f)"
proof (cases "ps_frames p")
  case (Cons f fs)
  then show ?thesis
    using limit_ok [OF assms] by (auto simp: p_container_slot_def slot_free_def intro: ok_mono)
qed (simp add: p_container_slot_def)


section \<open>Strings\<close>

lemma unat_ucast_u16: "unat (ucast (v :: u16) :: u32) = unat v"
proof -
  have "unat v < 2 ^ 32" using unsigned_less [of v, where ?'a = nat] by simp
  then show ?thesis by (simp add: unsigned_ucast_eq take_bit_nat_def)
qed

lemma unat_push_bit_10: "unat d < 4194304 \<Longrightarrow> unat (push_bit 10 d :: u32) = unat d * 1024"
  by (simp add: push_bit_eq_mult unat_word_ariths)

text \<open>\<open>char::from_u32\<close> accepts what the surrogate arithmetic yields.\<close>

lemma surrogate_char:
  fixes first second :: u16
  assumes "0xd800 \<le> first" "first \<le> 0xdbff" "0xdc00 \<le> second" "second \<le> 0xdfff"
  shows "char_from_u32 (surrogate_pair first second) \<noteq> None"
proof -
  let ?f = "unat first" and ?s = "unat second"
  have f: "55296 \<le> ?f" "?f \<le> 56319" and s: "56320 \<le> ?s" "?s \<le> 57343"
    using assms by (simp_all add: word_le_nat_alt)
  have uf: "unat (ucast first :: u32) = ?f" and us: "unat (ucast second :: u32) = ?s"
    by (simp_all add: unat_ucast_u16)
  have "(0xd800 :: u32) \<le> ucast first" using f uf by (simp add: word_le_nat_alt)
  then have d: "unat (ucast first - 0xd800 :: u32) = ?f - 55296" using uf by (simp add: unat_sub)
  have p: "unat (push_bit 10 (ucast first - 0xd800) :: u32) = (?f - 55296) * 1024"
    using d f by (simp add: unat_push_bit_10)
  have q: "unat (0x10000 + push_bit 10 (ucast first - 0xd800) + ucast second :: u32) =
      65536 + (?f - 55296) * 1024 + ?s"
    using p us f s by (simp add: unat_word_ariths)
  have sub: "unat (x - 0xdc00) = unat x - 56320" if "56320 \<le> unat x" for x :: u32
    using that by (simp add: unat_sub word_le_nat_alt)
  have "unat (surrogate_pair first second) = 65536 + (?f - 55296) * 1024 + ?s - 56320"
    unfolding surrogate_pair_def by (subst sub) (simp_all only: q)
  with f s have "57344 \<le> unat (surrogate_pair first second) \<and> unat (surrogate_pair first second) < 1114112"
    by simp
  then show ?thesis by (simp add: char_from_u32_def word_le_nat_alt word_less_nat_alt)
qed

lemma plain_char:
  fixes v :: u16
  assumes "\<not> (0xd800 \<le> v \<and> v \<le> 0xdbff)" and "\<not> (0xdc00 \<le> v \<and> v \<le> 0xdfff)"
  shows "char_from_u32 (ucast v) \<noteq> None"
proof -
  have "unat (ucast v :: u32) = unat v" by (rule unat_ucast_u16)
  moreover have "unat v < 65536" using unsigned_less [of v, where ?'a = nat] by simp
  moreover have "\<not> (55296 \<le> unat v \<and> unat v \<le> 57343)"
    using assms by (auto simp: word_le_nat_alt)
  ultimately show ?thesis by (auto simp: char_from_u32_def word_le_nat_alt word_less_nat_alt)
qed

lemma append_ok:
  assumes "span_ok N s"
  shows "ok (p_append out len s p) (\<lambda>(n, q). n = out + len \<and> q = p\<lparr>ps_payload := ps_payload p + len\<rparr> \<and>
    ps_payload q \<le> dl_payloads_bytes (ps_limits p))"
proof -
  have "ok (p_append out len s p) (\<lambda>_. True)"
    using fail_ok [OF assms]
    by (auto simp: p_append_def split: option.splits
        intro!: ok_bind [OF limit_ok [OF assms]])
  with p_append_Inr [of out len s p] show ?thesis
    by (cases "p_append out len s p") auto
qed

text \<open>What \<open>string\<close> does to the parser: the scanner moves on, decoded text is accounted for.\<close>

definition string_step :: "nat \<Rightarrow> parser \<Rightarrow> parser \<Rightarrow> bool" where
  "string_step N p q \<longleftrightarrow>
     q = p\<lparr>ps_scanner := ps_scanner q, ps_payload := ps_payload q\<rparr> \<and> scan_ok N (ps_scanner q) \<and>
     sn_offset (ps_scanner p) \<le> sn_offset (ps_scanner q) \<and>
     (ps_payload p \<le> dl_payloads_bytes (ps_limits p) \<longrightarrow>
      ps_payload q \<le> dl_payloads_bytes (ps_limits p))"

lemma string_step_refl: "scan_ok N (ps_scanner p) \<Longrightarrow> string_step N p p"
  by (simp add: string_step_def)

lemma string_step_limits: "string_step N p q \<Longrightarrow> ps_limits q = ps_limits p"
  unfolding string_step_def by (cases p; cases q) simp

lemma string_step_trans:
  assumes "string_step N p q" and "string_step N q r"
  shows "string_step N p r"
  using assms string_step_limits [OF assms(1)]
  unfolding string_step_def by (cases p; cases q; cases r) auto

lemma next_ok:
  assumes "scan_ok N (ps_scanner p)" and "N \<le> 4294967295" and "bad_ok bad"
  shows "ok (p_next bad p) (\<lambda>(tok, q). string_step N p q \<and> (\<exists>s. q = p\<lparr>ps_scanner := s\<rparr>) \<and>
    next_token_ok N (ps_scanner p) tok (ps_scanner q))"
proof -
  obtain r s where n: "scan_next bad (ps_scanner p) = (r, s)" by force
  note c = scan_next_ok [OF assms(1,3) n]
  show ?thesis
  proof (cases r)
    case (Inl e)
    with c obtain m a b where e: "e = LexError m (a, b)" "a \<le> b" "b \<le> N" by (auto simp: next_error_ok_def)
    then have "span_ok N (a, b)" using assms(2) by (simp add: span_ok_def)
    with n Inl e fail_ok show ?thesis by (simp add: p_next_def)
  next
    case (Inr tok)
    with c have t: "next_token_ok N (ps_scanner p) tok s" by simp
    then have "string_step N p (p\<lparr>ps_scanner := s\<rparr>)"
      by (auto simp: string_step_def next_token_ok_def)
    with t n Inr show ?thesis by (auto simp: p_next_def)
  qed
qed

text \<open>A pending high surrogate is one, and its escape lies behind.\<close>

definition high_ok :: "nat \<Rightarrow> nat \<Rightarrow> (u16 \<times> span) option \<Rightarrow> bool" where
  "high_ok start at high \<longleftrightarrow>
     (\<forall>v a b. high = Some (v, a, b) \<longrightarrow> 0xd800 \<le> v \<and> v \<le> 0xdbff \<and> start \<le> a \<and> a \<le> b \<and> b \<le> at)"

lemma string_text_ok:
  assumes "span_ok N s"
  shows "ok (string_text out len s e p) (\<lambda>(r, q). r = StringMore (out + len) e None \<and>
    q = p\<lparr>ps_payload := ps_payload p + len\<rparr> \<and> ps_payload q \<le> dl_payloads_bytes (ps_limits p))"
  unfolding string_text_def by (rule ok_bind [OF append_ok [OF assms]]) auto

lemma string_char_ok:
  assumes "span_ok N s" and "c \<noteq> None"
  shows "ok (string_char c out s e p) (\<lambda>(r, q). \<exists>n. r = StringMore n e None \<and>
    (\<exists>k. q = p\<lparr>ps_payload := k\<rparr> \<and> k \<le> dl_payloads_bytes (ps_limits p)))"
proof -
  obtain x where "c = Some x" using assms(2) by blast
  with string_text_ok [OF assms(1), of out "char_len x" e p] show ?thesis
    by (auto simp: string_char_def elim!: ok_mono)
qed


lemma payload_step: "scan_ok N (ps_scanner p) \<Longrightarrow> k \<le> dl_payloads_bytes (ps_limits p) \<Longrightarrow>
    string_step N p (p\<lparr>ps_payload := k\<rparr>)"
  by (simp add: string_step_def)

definition round_result :: "nat \<Rightarrow> nat \<Rightarrow> parser \<Rightarrow> string_round \<times> parser \<Rightarrow> bool" where
  "round_result N start p r =
     (string_step N p (snd r) \<and> ps_scanner (snd r) = ps_scanner p \<and>
      (case fst r of
         StringEnd str l \<Rightarrow> sn_mode (ps_scanner p) = ModeNormal
       | StringMore n e h \<Rightarrow> sn_mode (ps_scanner p) = ModeString \<and>
           high_ok start (sn_offset (ps_scanner p)) h))"

lemma round_ok:
  assumes tok: "next_token_ok N s tok (ps_scanner p)" and mode: "sn_mode s = ModeString"
    and N: "N \<le> 4294967295" and start: "start \<le> sn_offset s" and high: "high_ok start (sn_offset s) high"
  shows "ok (p_string_round start out e high tok p) (round_result N start p)"
proof -
  let ?sp = "tk_span tok"
  have sc: "scan_ok N (ps_scanner p)" and a: "sn_offset s \<le> fst ?sp" and ab: "fst ?sp \<le> snd ?sp"
    and b: "snd ?sp = sn_offset (ps_scanner p)" and k: "string_result (tk_kind tok) (sn_mode (ps_scanner p))"
    using tok mode by (simp_all add: next_token_ok_def)
  have bN: "snd ?sp \<le> N" using scan_ok_offset [OF sc] b by simp
  have span: "span_ok N (x, snd ?sp)" if "x \<le> snd ?sp" for x using that bN N by (simp add: span_ok_def)
  have sp: "span_ok N ?sp" using ab bN N by (simp add: span_ok_def)
  have plain: "ok (string_text out n ?sp e' p) (round_result N start p)"
    if "sn_mode (ps_scanner p) = ModeString" for n e'
    by (rule ok_mono [OF string_text_ok [OF sp]])
      (auto simp: round_result_def high_ok_def that intro: payload_step [OF sc])
  have char: "ok (string_char c out sp' e' p) (round_result N start p)"
    if "sn_mode (ps_scanner p) = ModeString" "c \<noteq> None" "span_ok N sp'" for c e' sp'
    by (rule ok_mono [OF string_char_ok [OF that(3,2)]])
      (auto simp: round_result_def high_ok_def that(1) intro: payload_step [OF sc])
  note refl = string_step_refl [OF sc]
  show ?thesis
  proof (cases high)
    case None
    have "start \<le> snd ?sp" using start a ab by simp
    note spstart = span [OF this]
    show ?thesis
    proof (cases "tk_kind tok")
      case TQEnd
      with k have "sn_mode (ps_scanner p) = ModeNormal" by (simp add: string_result_def)
      with None TQEnd refl show ?thesis
        by (auto simp: p_string_round_def Let_def round_result_def intro!: ok_bind [OF location_ok [OF spstart]])
    next
      case (TEscUtf16 v)
      with k have m: "sn_mode (ps_scanner p) = ModeString" by (simp add: string_result_def)
      show ?thesis
      proof (cases "0xd800 \<le> v \<and> v \<le> 0xdbff")
        case True
        with None TEscUtf16 refl m start a ab b show ?thesis
          by (cases ?sp) (auto simp: p_string_round_def Let_def round_result_def high_ok_def)
      next
        case False
        with None TEscUtf16 fail_ok [OF sp] char [OF m plain_char [OF False] sp]
        show ?thesis by (auto simp: p_string_round_def Let_def)
      qed
    next
      case TEof
      with None fail_ok [OF spstart] show ?thesis by (simp add: p_string_round_def Let_def)
    qed (use k None plain in \<open>auto simp: p_string_round_def Let_def string_result_def\<close>)
  next
    case (Some h)
    obtain v a' b' where h: "h = (v, a', b')" by (cases h) auto
    with high Some have v: "0xd800 \<le> v" "v \<le> 0xdbff" and o: "start \<le> a'" "a' \<le> b'" "b' \<le> sn_offset s"
      by (auto simp: high_ok_def)
    from o a ab have le: "a' \<le> snd ?sp" "b' \<le> N" using bN by auto
    have fail: "ok (p_fail p (a', b') m) (round_result N start p)" for m
      using o le N by (intro fail_ok [of N]) (simp add: span_ok_def)
    show ?thesis
    proof (cases "\<exists>w. tk_kind tok = TEscUtf16 w \<and> 0xdc00 \<le> w \<and> w \<le> 0xdfff")
      case True
      then obtain w where w: "tk_kind tok = TEscUtf16 w" "0xdc00 \<le> w" "w \<le> 0xdfff" by blast
      from k w(1) have m: "sn_mode (ps_scanner p) = ModeString" by (simp add: string_result_def)
      from char [OF m surrogate_char [OF v w(2,3)] span [OF le(1)]] Some h w show ?thesis
        by (simp add: p_string_round_def Let_def)
    next
      case False
      with Some h fail show ?thesis
        by (cases "tk_kind tok") (auto simp: p_string_round_def Let_def)
    qed
  qed
qed

lemma string_loop_ok:
  assumes "scan_ok N (ps_scanner p)" and "sn_mode (ps_scanner p) = ModeString"
    and "N \<le> 4294967295" and "bad_ok bad"
    and "start \<le> sn_offset (ps_scanner p)" and "high_ok start (sn_offset (ps_scanner p)) high"
  shows "ok (p_string_loop bad start out e high p)
    (\<lambda>(str, l, q). string_step N p q \<and> sn_mode (ps_scanner q) = ModeNormal)"
  using assms
proof (induction bad start out e high p rule: p_string_loop.induct)
  case (1 bad start out e high p)
  note nx = next_ok [OF 1(2,4,5)]
  show ?case
  proof (cases "p_next bad p")
    case (Inl err)
    with nx show ?thesis by (simp add: p_string_loop.simps [of bad start out])
  next
    case (Inr tq)
    obtain tok q where tq: "tq = (tok, q)" by (cases tq)
    with nx Inr have step: "string_step N p q" and tok: "next_token_ok N (ps_scanner p) tok (ps_scanner q)"
      by auto
    note rd = round_ok [OF tok 1(3,4,6,7), of out e]
    show ?thesis
    proof (cases "p_string_round start out e high tok q")
      case (Inl err)
      with rd Inr tq show ?thesis by (simp add: p_string_loop.simps [of bad start out])
    next
      case (Inr rt)
      note round = Inr
      obtain r t where rt: "rt = (r, t)" by (cases rt)
      with rd round have res: "round_result N start q (r, t)" by simp
      then have st: "string_step N q t" and sc: "ps_scanner t = ps_scanner q"
        by (simp_all add: round_result_def)
      show ?thesis
      proof (cases r)
        case (StringEnd str l)
        with res string_step_trans [OF step st] \<open>p_next bad p = Inr tq\<close> round rt tq sc show ?thesis
          by (simp add: p_string_loop.simps [of bad start out] round_result_def)
      next
        case (StringMore n e' h)
        with res have m: "sn_mode (ps_scanner t) = ModeString" and hi: "high_ok start (sn_offset (ps_scanner t)) h"
          using sc by (simp_all add: round_result_def)
        have "scan_ok N (ps_scanner t)" "start \<le> sn_offset (ps_scanner t)"
          using st step sc 1(6) by (simp_all add: string_step_def)
        from 1(1) [OF _ _ _ _ _ this(1) m 1(4,5) this(2) hi] \<open>p_next bad p = Inr tq\<close> round rt tq StringMore
        have "ok (p_string_loop bad start n e' h t)
            (\<lambda>(str, l, q). string_step N t q \<and> sn_mode (ps_scanner q) = ModeNormal)"
          by simp
        then have "ok (p_string_loop bad start n e' h t)
            (\<lambda>(str, l, q). string_step N p q \<and> sn_mode (ps_scanner q) = ModeNormal)"
          by (rule ok_mono) (use string_step_trans [OF string_step_trans [OF step st]] in auto)
        with \<open>p_next bad p = Inr tq\<close> round rt tq StringMore show ?thesis
          by (simp add: p_string_loop.simps [of bad start out])
      qed
    qed
  qed
qed


section \<open>The invariant of the parser\<close>

text \<open>A frame keeps the promises its \<open>expect\<close> makes; \<open>at\<close> is the offset of the scanner.\<close>

definition frame_ok :: "nat \<Rightarrow> json_frame \<Rightarrow> bool" where
  "frame_ok at f \<longleftrightarrow>
     jf_start f \<le> at \<and> (\<forall>a b. jf_separator f = Some (a, b) \<longrightarrow> a \<le> b \<and> b \<le> at) \<and>
     (case jf_container f of
        CArray _ \<Rightarrow>
          jf_expect f \<in> {ExValue, ExValueOrEnd, ExSeparator} \<and>
          (jf_expect f = ExValue \<longrightarrow> jf_separator f \<noteq> None)
      | CObject _ key \<Rightarrow>
          jf_expect f \<in> {ExValue, ExKey, ExKeyOrEnd, ExColon, ExSeparator} \<and>
          (jf_expect f = ExValue \<or> jf_expect f = ExColon \<longrightarrow> key \<noteq> None) \<and>
          (jf_expect f = ExKey \<longrightarrow> jf_separator f \<noteq> None))"

definition waiting :: "json_frame \<Rightarrow> bool" where
  "waiting f \<longleftrightarrow> jf_expect f = ExValue \<or> jf_expect f = ExValueOrEnd"

definition frames_ok :: "nat \<Rightarrow> json_frame list \<Rightarrow> bool" where
  "frames_ok at fs \<longleftrightarrow> (\<forall>f \<in> set fs. frame_ok at f) \<and> (\<forall>f \<in> set (tl fs). waiting f)"

lemma frames_ok_later: "frames_ok at fs \<Longrightarrow> at \<le> at' \<Longrightarrow> frames_ok at' fs"
  by (fastforce simp: frames_ok_def frame_ok_def)

text \<open>\<open>k\<close> values are admitted and not yet attached.\<close>

definition parser_core :: "nat list \<Rightarrow> parser \<Rightarrow> bool" where
  "parser_core cs p \<longleftrightarrow>
     plan_core cs (rp_nodes (ps_plan p)) (ps_frames p) (ps_root p) (ps_limits p) (ps_nodes p)"

definition parser_room :: "parser \<Rightarrow> bool" where
  "parser_room p \<longleftrightarrow>
     room (rp_nodes (ps_plan p)) (ps_frames p) (ps_root p) (ps_limits p) (ps_nodes p)"

definition parser_base :: "data_limits \<Rightarrow> nat \<Rightarrow> parser \<Rightarrow> bool" where
  "parser_base L N p \<longleftrightarrow>
     ps_limits p = L \<and> scan_ok N (ps_scanner p) \<and> N \<le> 4294967295 \<and>
     frames_ok (sn_offset (ps_scanner p)) (ps_frames p) \<and>
     ps_payload p \<le> dl_payloads_bytes (ps_limits p)"

definition parser_inv :: "data_limits \<Rightarrow> nat \<Rightarrow> parser \<Rightarrow> bool" where
  "parser_inv L N p \<longleftrightarrow> parser_base L N p \<and> sn_mode (ps_scanner p) = ModeNormal \<and> parser_core [] p"

text \<open>One more value is admitted.\<close>

definition reserved :: "parser \<Rightarrow> parser \<Rightarrow> bool" where
  "reserved p q \<longleftrightarrow> q = p\<lparr>ps_nodes := ps_nodes p + 1\<rparr> \<and> parser_core [] q \<and> parser_room q"

lemma reservedD:
  assumes "reserved p q"
  shows "parser_core [] q" and "parser_room q" and "ps_frames q = ps_frames p"
    and "ps_scanner q = ps_scanner p" and "ps_root q = ps_root p" and "ps_plan q = ps_plan p"
    and "ps_limits q = ps_limits p" and "ps_source q = ps_source p"
    and "ps_payload q = ps_payload p" and "parser_base L N q \<longleftrightarrow> parser_base L N p"
proof -
  from assms show "parser_core [] q" "parser_room q" unfolding reserved_def by blast+
  from assms have q: "q = p\<lparr>ps_nodes := ps_nodes p + 1\<rparr>" by (simp only: reserved_def)
  show "ps_frames q = ps_frames p" "ps_scanner q = ps_scanner p" "ps_root q = ps_root p"
    "ps_plan q = ps_plan p" "ps_limits q = ps_limits p" "ps_source q = ps_source p"
    "ps_payload q = ps_payload p" "parser_base L N q \<longleftrightarrow> parser_base L N p"
    unfolding q by (simp_all add: parser_base_def)
qed

lemma reserve_ok:
  assumes "parser_core [] p" and "span_ok N s" and "ps_frames p = [] \<longrightarrow> ps_root p = None"
  shows "ok (p_reserve_value s p) (reserved p)"
proof -
  have "ok (p_reserve_value s p) (\<lambda>_. True)"
    unfolding p_reserve_value_def
    by (auto intro!: ok_bind [OF slot_ok [OF assms(2)]] ok_bind [OF limit_ok [OF assms(2)]])
  then show ?thesis
  proof (cases "p_reserve_value s p")
    case (Inr q)
    note r = Inr [unfolded p_reserve_value_Inr]
    have "\<forall>f fs. ps_frames p = f # fs \<longrightarrow> slot_free (ps_limits p) f" using r by (simp add: slot_free_def)
    note reserved = core_reserve [OF assms(1) [unfolded parser_core_def] assms(3) this]
    have "parser_core [] q" and "parser_room q"
      using r reserved by (simp_all add: parser_core_def parser_room_def)
    with Inr r show ?thesis by (simp add: reserved_def)
  qed simp
qed

lemma attach_ok:
  assumes "parser_base L N p" and "sn_mode (ps_scanner p) = ModeNormal"
    and "parser_core cs p" and "parser_room p" and "kind_children k = cs"
    and "\<forall>f \<in> set (ps_frames p). waiting f"
  shows "ok (case p_push k l p of (i, q) \<Rightarrow> p_attach i q) (parser_inv L N)"
proof -
  let ?ns = "rp_nodes (ps_plan p)"
  let ?n = "\<lparr>rn_kind = k, rn_location = l\<rparr>"
  note core = assms(3) [unfolded parser_core_def] and rm = assms(4) [unfolded parser_room_def]
  have kids: "node_children ?n = cs" using assms(5) by simp
  show ?thesis
  proof (cases "ps_frames p")
    case Nil
    with core_attach(1) [OF core rm kids] assms(1,2) show ?thesis
      by (auto simp: p_push_def plan_push_def p_attach_def parser_inv_def parser_base_def parser_core_def
          frames_ok_def)
  next
    case (Cons f fs)
    have attached: "parser_inv L N (p\<lparr>ps_plan := (ps_plan p)\<lparr>rp_nodes := ?ns @ [?n]\<rparr>, ps_frames := f' # fs\<rparr>)"
      if "frame_items f' = frame_items f @ [length ?ns]" "jf_skipped f' = jf_skipped f"
        "frame_ok (sn_offset (ps_scanner p)) f'" for f'
    proof -
      have "frames_ok (sn_offset (ps_scanner p)) (f' # fs)"
        using assms(1,6) Cons that(3) by (auto simp: frames_ok_def parser_base_def)
      with core_attach(2) [OF core rm kids Cons that(1,2)] assms(1,2) show ?thesis
        by (auto simp: parser_inv_def parser_base_def parser_core_def)
    qed
    have f: "frame_ok (sn_offset (ps_scanner p)) f" and w: "waiting f"
      using assms(1,6) Cons by (auto simp: frames_ok_def parser_base_def)
    show ?thesis
    proof (cases "jf_container f")
      case (CArray items)
      let ?f = "f\<lparr>jf_container := CArray (items @ [length ?ns]), jf_expect := ExSeparator\<rparr>"
      have "parser_inv L N (p\<lparr>ps_plan := (ps_plan p)\<lparr>rp_nodes := ?ns @ [?n]\<rparr>, ps_frames := ?f # fs\<rparr>)"
        using f CArray by (intro attached) (auto simp: container_items_def frame_ok_def)
      with Cons CArray show ?thesis by (simp add: p_push_def plan_push_def p_attach_def)
    next
      case (CObject members key)
      from f w CObject obtain name kl where key: "key = Some (name, kl)"
        by (cases key) (auto simp: frame_ok_def waiting_def)
      let ?f = "f\<lparr>jf_container := CObject (members @ [(name, \<lparr>df_key_location = kl, df_value = length ?ns\<rparr>)]) None,
                  jf_expect := ExSeparator\<rparr>"
      have "parser_inv L N (p\<lparr>ps_plan := (ps_plan p)\<lparr>rp_nodes := ?ns @ [?n]\<rparr>, ps_frames := ?f # fs\<rparr>)"
        using f CObject by (intro attached) (auto simp: container_items_def frame_ok_def)
      with Cons CObject key show ?thesis by (simp add: p_push_def plan_push_def p_attach_def)
    qed
  qed
qed

text \<open>The token in hand: its span lies before the scanner.\<close>

definition token_ok :: "nat \<Rightarrow> token \<Rightarrow> parser \<Rightarrow> bool" where
  "token_ok N tok p \<longleftrightarrow>
     span_ok N (tk_span tok) \<and> snd (tk_span tok) = sn_offset (ps_scanner p) \<and>
     sn_mode (ps_scanner p) = (if tk_kind tok = TQStart then ModeString else ModeNormal)"

lemma close_ok:
  assumes "parser_base L N p" and "sn_mode (ps_scanner p) = ModeNormal" and "parser_core [] p"
    and "ps_frames p \<noteq> []" and "span_ok N s" and "snd s = sn_offset (ps_scanner p)"
  shows "ok (p_close s p) (parser_inv L N)"
proof -
  obtain f fs where fs: "ps_frames p = f # fs" using assms(4) by (cases "ps_frames p") auto
  let ?p = "p\<lparr>ps_frames := fs\<rparr>"
  have "jf_start f \<le> snd s"
    using assms(1,6) fs by (auto simp: parser_base_def frames_ok_def frame_ok_def)
  then have span: "span_ok N (jf_start f, snd s)" using assms(5) by (auto simp: span_ok_def)
  note pop = core_pop [OF assms(3) [unfolded parser_core_def fs]]
  have kids: "kind_children (case jf_container f of CArray items \<Rightarrow> RawArray items
      | CObject members _ \<Rightarrow> RawObject members) = frame_items f"
    by (cases "jf_container f") (simp_all add: kind_children_def container_items_def)
  have base: "parser_base L N ?p"
    using assms(1) fs by (cases fs) (auto simp: parser_base_def frames_ok_def)
  have wait: "\<forall>f \<in> set (ps_frames ?p). waiting f"
    using assms(1) fs by (simp add: parser_base_def frames_ok_def)
  have "ok (case p_push (case jf_container f of CArray items \<Rightarrow> RawArray items
      | CObject members _ \<Rightarrow> RawObject members) l ?p of (i, p) \<Rightarrow> p_attach i p) (parser_inv L N)" for l
    using attach_ok [OF base _ _ _ kids wait] pop assms(2)
    by (simp add: parser_core_def parser_room_def)
  then show ?thesis
    unfolding p_close_def fs by (simp add: ok_bind [OF location_ok [OF span]])
qed

text \<open>Strings leave the structure of the parser alone.\<close>

lemma step_kept:
  assumes "string_step N p q" and "parser_base L N p"
  shows "parser_base L N q" and "parser_core cs q = parser_core cs p" and "parser_room q = parser_room p"
    and "ps_frames q = ps_frames p" and "ps_root q = ps_root p"
proof -
  obtain s k where q: "q = p\<lparr>ps_scanner := s, ps_payload := k\<rparr>"
    using assms(1) unfolding string_step_def by blast
  then show "parser_core cs q = parser_core cs p" "parser_room q = parser_room p"
    "ps_frames q = ps_frames p" "ps_root q = ps_root p"
    by (simp_all add: parser_core_def parser_room_def)
  show "parser_base L N q"
    using assms q frames_ok_later [of "sn_offset (ps_scanner p)" "ps_frames p" "sn_offset s"]
    by (auto simp: parser_base_def string_step_def)
qed

lemma string_ok:
  assumes "parser_base L N p" and "sn_mode (ps_scanner p) = ModeString" and "bad_ok bad"
    and "start \<le> sn_offset (ps_scanner p)"
  shows "ok (p_string bad start p) (\<lambda>(str, l, q). string_step N p q \<and> sn_mode (ps_scanner q) = ModeNormal)"
  unfolding p_string_def
  using assms by (intro string_loop_ok) (auto simp: parser_base_def high_ok_def)

section \<open>Values\<close>

text \<open>The parser waits for a value: below the open frames, or for the root.\<close>

definition value_due :: "parser \<Rightarrow> bool" where
  "value_due p \<longleftrightarrow> (\<forall>f \<in> set (ps_frames p). waiting f) \<and> (ps_frames p = [] \<longrightarrow> ps_root p = None)"

lemma scalar_ok:
  assumes "parser_base L N p" and "parser_core [] p" and "sn_mode (ps_scanner p) = ModeNormal"
    and "value_due p" and "span_ok N s" and "kind_children k = []"
  shows "ok (p_scalar k s p) (parser_inv L N)"
proof -
  have attach: "ok (case p_push k l q of (i, r) \<Rightarrow> p_attach i r) (parser_inv L N)" if "reserved p q" for q l
    using attach_ok [OF _ _ _ _ assms(6), of L N q l] reservedD [OF that] assms(1,3,4)
    by (simp add: value_due_def)
  show ?thesis
    unfolding p_scalar_def using assms
    by (intro ok_bind [OF reserve_ok] ok_bind [OF location_ok] attach) (auto simp: value_due_def)
qed

lemma open_ok:
  assumes "parser_base L N p" and "parser_core [] p" and "sn_mode (ps_scanner p) = ModeNormal"
    and "value_due p" and "span_ok N s" and "snd s = sn_offset (ps_scanner p)"
    and "c = CArray [] \<and> e = ExValueOrEnd \<or> c = CObject [] None \<and> e = ExKeyOrEnd"
  shows "ok (p_open c e s p) (parser_inv L N)"
proof -
  let ?f = "\<lparr>jf_start = fst s, jf_expect = e, jf_container = c, jf_separator = None, jf_skipped = 0\<rparr>"
  have "frame_ok (sn_offset (ps_scanner p)) ?f"
    using assms(5,6,7) by (auto simp: frame_ok_def span_ok_def)
  then have fr: "frames_ok (sn_offset (ps_scanner p)) (?f # ps_frames p)"
    using assms(1,4) by (auto simp: frames_ok_def parser_base_def value_due_def)
  have items: "frame_items ?f = []" using assms(7) by (auto simp: container_items_def)
  have "parser_inv L N (q\<lparr>ps_frames := ?f # ps_frames q\<rparr>)"
    if "reserved p q" for q
  proof -
    note q = reservedD [OF that]
    have "plan_core [] (rp_nodes (ps_plan q)) (?f # ps_frames q) (ps_root q) (ps_limits q) (ps_nodes q)"
      by (rule core_open [OF q(1,2) [unfolded parser_core_def parser_room_def] items]) simp
    with q(3-7) q(9) assms(1,3) fr show ?thesis
      by (auto simp: parser_inv_def parser_base_def parser_core_def)
  qed
  then show ?thesis
    unfolding p_open_def using assms by (intro ok_bind [OF reserve_ok]) (auto simp: value_due_def)
qed

lemma value_ok:
  assumes "parser_base L N p" and "parser_core [] p" and "token_ok N tok p" and "value_due p"
    and "bad_ok bad"
  shows "ok (p_value bad tok p) (parser_inv L N)"
proof -
  have sp: "span_ok N (tk_span tok)" and at: "snd (tk_span tok) = sn_offset (ps_scanner p)"
    using assms(3) by (simp_all add: token_ok_def)
  have normal: "sn_mode (ps_scanner p) = ModeNormal" if "tk_kind tok \<noteq> TQStart"
    using assms(3) that by (simp add: token_ok_def)
  have scalar: "ok (p_scalar k (tk_span tok) p) (parser_inv L N)"
    if "tk_kind tok \<noteq> TQStart" "kind_children k = []" for k
    using scalar_ok [OF assms(1,2) normal assms(4) sp] that by simp
  note opened = open_ok [OF assms(1,2) normal assms(4) sp at]
  show ?thesis
  proof (cases "tk_kind tok = TQStart")
    case True
    then have mode: "sn_mode (ps_scanner p) = ModeString" using assms(3) by (simp add: token_ok_def)
    have start: "fst (tk_span tok) \<le> sn_offset (ps_scanner p)" using sp at by (simp add: span_ok_def)
    have str: "ok (rbind (p_string bad (fst (tk_span tok)) q) (\<lambda>(str, l, p).
        case p_push (RawString str) l p of (i, p) \<Rightarrow> p_attach i p)) (parser_inv L N)"
      if "reserved p q" for q
    proof -
      note q = reservedD [OF that]
      have base: "parser_base L N q" using q(10) assms(1) by simp
      have attach: "ok (case p_push (RawString str) l r of (i, p) \<Rightarrow> p_attach i p) (parser_inv L N)"
        if "string_step N q r" "sn_mode (ps_scanner r) = ModeNormal" for str l r
        using attach_ok [of L N r "[]" "RawString str" l] step_kept [OF that(1) base] that(2) q(1-5) assms(4)
        by (simp add: kind_children_def value_due_def)
      have "ok (p_string bad (fst (tk_span tok)) q)
          (\<lambda>(str, l, r). string_step N q r \<and> sn_mode (ps_scanner r) = ModeNormal)"
        using string_ok [OF base _ assms(5)] q(4) mode start by simp
      then show ?thesis by (rule ok_bind) (auto intro: attach)
    qed
    show ?thesis
      unfolding p_value_def True token_kind.case
      using assms sp by (intro ok_bind [OF reserve_ok] str) (auto simp: value_due_def)
  next
    case False
    with scalar opened fail_ok [OF sp] show ?thesis
      by (cases "tk_kind tok") (auto simp: p_value_def kind_children_def)
  qed
qed

section \<open>The rounds of the machine\<close>

lemma frame_ok_skipped [simp]: "frame_ok at (f\<lparr>jf_skipped := n\<rparr>) = frame_ok at f"
  by (cases "jf_container f") (simp_all add: frame_ok_def)

lemma skip_comma_ok:
  assumes "parser_base L N p" and "parser_core [] p" and "sn_mode (ps_scanner p) = ModeNormal"
    and "span_ok N s" and "ps_frames p \<noteq> []"
  shows "ok (p_skip_comma s p) (parser_inv L N)"
proof -
  obtain f fs where fs: "ps_frames p = f # fs" using assms(5) by (cases "ps_frames p") auto
  let ?f = "f\<lparr>jf_skipped := jf_skipped f + 1\<rparr>"
  have "frames_ok (sn_offset (ps_scanner p)) (?f # fs)"
    using assms(1) fs by (simp add: parser_base_def frames_ok_def)
  then have skip: "parser_inv L N (q\<lparr>ps_frames := ?f # fs, ps_plan := (ps_plan q)\<lparr>rp_diagnostics := ds\<rparr>\<rparr>)"
    if "reserved p q" for q ds
  proof -
    note q = reservedD [OF that]
    have "slot_free (ps_limits q) f" using q(2,3) fs by (simp add: parser_room_def room_def)
    with q(1) have "plan_core [] (rp_nodes (ps_plan q)) (?f # fs) (ps_root q) (ps_limits q) (ps_nodes q)"
      using core_skip q(3) fs by (simp add: parser_core_def)
    with \<open>frames_ok _ _\<close> q(4,7,9) assms(1,3) show ?thesis
      by (auto simp: parser_inv_def parser_base_def parser_core_def)
  qed
  have "ok (p_report s m (q\<lparr>ps_frames := ?f # fs\<rparr>)) (parser_inv L N)" if "reserved p q" for q m
    by (rule ok_mono [OF report_ok [OF assms(4)]]) (use skip [OF that] in auto)
  then show ?thesis
    unfolding p_skip_comma_def
    using assms fs by (intro ok_bind [OF reserve_ok]) (auto simp: reservedD(3))
qed

lemma trailing_comma_ok:
  assumes "parser_base L N p" and "parser_core [] p" and "ps_frames p = f # fs"
    and "jf_separator f \<noteq> None"
  shows "ok (p_trailing_comma p) (\<lambda>q. parser_base L N q \<and> parser_core [] q \<and>
    ps_scanner q = ps_scanner p \<and> ps_frames q = ps_frames p)"
proof -
  obtain a b where sep: "jf_separator f = Some (a, b)" using assms(4) by auto
  with assms(1,3) have "a \<le> b" "b \<le> sn_offset (ps_scanner p)" "scan_ok N (ps_scanner p)" "N \<le> 4294967295"
    by (auto simp: parser_base_def frames_ok_def frame_ok_def)
  with scan_ok_offset [of N "ps_scanner p"] have "span_ok N (a, b)" by (simp add: span_ok_def)
  note report = report_ok [OF this, of "Msg ''trailing JSON comma is not allowed''" p]
  have "ok (p_report (a, b) (Msg ''trailing JSON comma is not allowed'') p)
      (\<lambda>q. parser_base L N q \<and> parser_core [] q \<and> ps_scanner q = ps_scanner p \<and> ps_frames q = ps_frames p)"
    by (rule ok_mono [OF report]) (use assms(1,2) in \<open>auto simp: parser_base_def parser_core_def\<close>)
  then show ?thesis by (simp add: p_trailing_comma_def assms(3) sep)
qed

lemma closing_ok:
  assumes "parser_base L N p" and "parser_core [] p" and "token_ok N tok p" and "tk_kind tok \<noteq> TQStart"
    and "ps_frames p = f # fs" and "trailing \<longrightarrow> jf_separator f \<noteq> None"
  shows "ok (rbind (if trailing then p_trailing_comma p else Inr p) (p_close (tk_span tok))) (parser_inv L N)"
proof -
  have sp: "span_ok N (tk_span tok)" "snd (tk_span tok) = sn_offset (ps_scanner p)"
    "sn_mode (ps_scanner p) = ModeNormal" using assms(3,4) by (simp_all add: token_ok_def)
  have "ok (if trailing then p_trailing_comma p else Inr p) (\<lambda>q. parser_base L N q \<and> parser_core [] q \<and>
      ps_scanner q = ps_scanner p \<and> ps_frames q = ps_frames p)"
    using trailing_comma_ok [OF assms(1,2,5)] assms by auto
  then show ?thesis
    by (rule ok_bind) (use close_ok sp assms(5) in auto)
qed

lemma expect_value_ok:
  assumes "parser_base L N p" and "parser_core [] p" and "token_ok N tok p" and "bad_ok bad"
    and "value_due p" and "\<forall>f fs. ps_frames p = f # fs \<longrightarrow> e = jf_expect f"
  shows "ok (p_expect_value bad e tok p) (parser_inv L N)"
proof (cases "ps_frames p")
  case Nil
  with value_ok [OF assms(1,2,3,5,4)] show ?thesis by (simp add: p_expect_value_def)
next
  case (Cons f fs)
  have sp: "span_ok N (tk_span tok)" using assms(3) by (simp add: token_ok_def)
  have f: "frame_ok (sn_offset (ps_scanner p)) f" and e: "e = jf_expect f"
    using assms(1,6) Cons by (auto simp: parser_base_def frames_ok_def)
  consider (comma) "tk_kind tok = TComma"
    | (close) "tk_kind tok = TRBracket" "is_array (jf_container f)"
    | (other) "tk_kind tok \<noteq> TComma" "\<not> (tk_kind tok = TRBracket \<and> is_array (jf_container f))"
    by blast
  then show ?thesis
  proof cases
    case comma
    with assms(3) have "sn_mode (ps_scanner p) = ModeNormal" by (simp add: token_ok_def)
    with skip_comma_ok [OF assms(1,2) _ sp] Cons comma show ?thesis by (simp add: p_expect_value_def)
  next
    case close
    then have "jf_expect f = ExValue \<longrightarrow> jf_separator f \<noteq> None"
      using f by (auto simp: frame_ok_def is_array_def split: json_container.splits)
    with closing_ok [OF assms(1,2,3) _ Cons, of "e = ExValue"] close Cons e show ?thesis
      by (simp add: p_expect_value_def)
  next
    case other
    with value_ok [OF assms(1,2,3,5,4)] Cons show ?thesis by (auto simp: p_expect_value_def)
  qed
qed

text \<open>A change of the top frame that keeps its items.\<close>

lemma top_ok:
  assumes "parser_base L N p" and "parser_core [] p" and "sn_mode (ps_scanner p) = ModeNormal"
    and "ps_frames p = f # fs" and "frame_items f' = frame_items f" and "jf_skipped f' = jf_skipped f"
    and "frame_ok (sn_offset (ps_scanner p)) f'"
  shows "parser_inv L N (set_top f' p)"
proof -
  have "plan_core [] (rp_nodes (ps_plan p)) (f' # fs) (ps_root p) (ps_limits p) (ps_nodes p)"
    using core_top [OF _ assms(5,6)] assms(2,4) by (simp add: parser_core_def)
  with assms(1,3,4,7) show ?thesis
    by (auto simp: parser_inv_def parser_base_def parser_core_def set_top_def frames_ok_def)
qed

lemma expect_key_ok:
  assumes "parser_base L N p" and "parser_core [] p" and "token_ok N tok p" and "bad_ok bad"
    and "ps_frames p = f # fs" and "jf_expect f = ExKey \<or> jf_expect f = ExKeyOrEnd"
  shows "ok (p_expect_key bad (jf_expect f) tok p) (parser_inv L N)"
proof -
  have sp: "span_ok N (tk_span tok)" and at: "snd (tk_span tok) = sn_offset (ps_scanner p)"
    using assms(3) by (simp_all add: token_ok_def)
  have f: "frame_ok (sn_offset (ps_scanner p)) f" using assms(1,5) by (auto simp: parser_base_def frames_ok_def)
  consider (comma) "tk_kind tok = TComma" | (close) "tk_kind tok = TRBrace" | (key) "tk_kind tok = TQStart"
    | (other) "tk_kind tok \<noteq> TComma" "tk_kind tok \<noteq> TRBrace" "tk_kind tok \<noteq> TQStart" by blast
  then show ?thesis
  proof cases
    case comma
    with assms(3) have "sn_mode (ps_scanner p) = ModeNormal" by (simp add: token_ok_def)
    with skip_comma_ok [OF assms(1,2) _ sp] assms(5) comma show ?thesis by (simp add: p_expect_key_def)
  next
    case close
    have "jf_expect f = ExKey \<longrightarrow> jf_separator f \<noteq> None"
      using f by (auto simp: frame_ok_def split: json_container.splits)
    with closing_ok [OF assms(1,2,3) _ assms(5), of "jf_expect f = ExKey"] close show ?thesis
      by (simp add: p_expect_key_def)
  next
    case key
    have mode: "sn_mode (ps_scanner p) = ModeString" using assms(3) key by (simp add: token_ok_def)
    have start: "fst (tk_span tok) \<le> sn_offset (ps_scanner p)" using sp at by (simp add: span_ok_def)
    obtain members old where obj: "jf_container f = CObject members old"
      using f assms(6) by (auto simp: frame_ok_def split: json_container.splits)
    have set_key: "ok (p_set_key k l q) (parser_inv L N)"
      if "string_step N p q" "sn_mode (ps_scanner q) = ModeNormal" for k l q
    proof -
      let ?f = "f\<lparr>jf_container := CObject members (Some (k, l)), jf_expect := ExColon\<rparr>"
      note q = step_kept [OF that(1) assms(1)]
      have "frame_ok (sn_offset (ps_scanner q)) f"
        using q(1,4) assms(5) by (auto simp: parser_base_def frames_ok_def)
      then have "frame_ok (sn_offset (ps_scanner q)) ?f" using obj by (auto simp: frame_ok_def)
      then have "parser_inv L N (set_top ?f q)"
        using top_ok [OF q(1) _ that(2), of f fs ?f] q(2,4) assms(2,5) obj
        by (simp add: container_items_def)
      with q(4) assms(5) obj show ?thesis by (simp add: p_set_key_def)
    qed
    have str: "ok (rbind (p_string bad (fst (tk_span tok)) p) (\<lambda>(key, l, p). p_set_key key l p)) (parser_inv L N)"
      by (rule ok_bind [OF string_ok [OF assms(1) mode assms(4) start]]) (auto intro: set_key)
    show ?thesis
      using key by (simp add: p_expect_key_def ok_bind [OF slot_ok [OF sp] str])
  next
    case other
    with fail_ok [OF sp] show ?thesis by (simp add: p_expect_key_def)
  qed
qed

lemma expect_colon_ok:
  assumes "parser_base L N p" and "parser_core [] p" and "token_ok N tok p"
    and "ps_frames p = f # fs" and "jf_expect f = ExColon"
  shows "ok (p_expect_colon tok p) (parser_inv L N)"
proof (cases "tk_kind tok = TColon")
  case True
  have f: "frame_ok (sn_offset (ps_scanner p)) f" using assms(1,4) by (auto simp: parser_base_def frames_ok_def)
  then have "frame_ok (sn_offset (ps_scanner p)) (f\<lparr>jf_expect := ExValue\<rparr>)"
    using assms(5) by (auto simp: frame_ok_def split: json_container.splits)
  with top_ok [OF assms(1,2) _ assms(4), of "f\<lparr>jf_expect := ExValue\<rparr>"] True assms(3,4) show ?thesis
    by (simp add: p_expect_colon_def token_ok_def)
next
  case False
  have "span_ok N (tk_span tok)" using assms(3) by (simp add: token_ok_def)
  from fail_ok [OF this] False show ?thesis by (simp add: p_expect_colon_def)
qed

lemma expect_separator_ok:
  assumes "parser_base L N p" and "parser_core [] p" and "token_ok N tok p" and "ps_frames p = f # fs"
  shows "ok (p_expect_separator tok p) (parser_inv L N)"
proof -
  have sp: "span_ok N (tk_span tok)" and at: "snd (tk_span tok) = sn_offset (ps_scanner p)"
    using assms(3) by (simp_all add: token_ok_def)
  have f: "frame_ok (sn_offset (ps_scanner p)) f" using assms(1,4) by (auto simp: parser_base_def frames_ok_def)
  let ?f = "f\<lparr>jf_separator := Some (tk_span tok),
              jf_expect := (if is_array (jf_container f) then ExValue else ExKey)\<rparr>"
  have "frame_ok (sn_offset (ps_scanner p)) ?f"
    using f sp at by (cases "jf_container f") (auto simp: frame_ok_def span_ok_def is_array_def)
  note top = top_ok [OF assms(1,2) _ assms(4) _ _ this]
  note close = close_ok [OF assms(1) _ assms(2) _ sp at]
  show ?thesis
    using top close fail_ok [OF sp] assms(3,4)
    by (auto simp: p_expect_separator_def token_ok_def split: if_splits)
qed

section \<open>The loop\<close>

definition plan_done :: "data_limits \<Rightarrow> raw_plan \<Rightarrow> bool" where
  "plan_done L plan \<longleftrightarrow> (\<exists>r n. rp_root plan = Some r \<and> plan_core [] (rp_nodes plan) [] (Some r) L n)"

lemma round_inv_ok:
  assumes "parser_base L N p" and "parser_core [] p" and "token_ok N tok p" and "bad_ok bad"
  shows "ok (parse_round bad tok p) (\<lambda>r. case r of Inl plan \<Rightarrow> plan_done L plan | Inr q \<Rightarrow> parser_inv L N q)"
    (is "ok _ ?P")
proof -
  have sp: "span_ok N (tk_span tok)" using assms(3) by (simp add: token_ok_def)
  have step: "ok (rbind m (\<lambda>p. Inr (Inr p))) ?P" if "ok m (parser_inv L N)" for m
    by (rule ok_bind [OF that]) simp
  show ?thesis
  proof (cases "ps_frames p")
    case Nil
    show ?thesis
    proof (cases "ps_root p")
      case None
      with expect_value_ok [OF assms, of ExValue] Nil show ?thesis
        by (simp add: parse_round_def step value_due_def)
    next
      case (Some r)
      have "plan_done L ((ps_plan p)\<lparr>rp_root := ps_root p\<rparr>)"
        using assms(1,2) Nil Some by (auto simp: plan_done_def parser_core_def parser_base_def)
      with Nil Some fail_ok [OF sp, where Q = ?P] show ?thesis by (simp add: parse_round_def)
    qed
  next
    case (Cons f fs)
    have tl: "\<forall>f \<in> set fs. waiting f" using assms(1) Cons by (simp add: parser_base_def frames_ok_def)
    show ?thesis
    proof (cases "jf_expect f")
      case ExValue
      with tl Cons have "value_due p" by (simp add: value_due_def waiting_def)
      from expect_value_ok [OF assms this, of ExValue] Cons ExValue show ?thesis
        by (simp add: parse_round_def step)
    next
      case ExValueOrEnd
      with tl Cons have "value_due p" by (simp add: value_due_def waiting_def)
      from expect_value_ok [OF assms this, of ExValueOrEnd] Cons ExValueOrEnd show ?thesis
        by (simp add: parse_round_def step)
    next
      case ExKey
      with expect_key_ok [OF assms Cons] Cons show ?thesis by (simp add: parse_round_def step)
    next
      case ExKeyOrEnd
      with expect_key_ok [OF assms Cons] Cons show ?thesis by (simp add: parse_round_def step)
    next
      case ExColon
      with expect_colon_ok [OF assms(1-3) Cons] Cons show ?thesis by (simp add: parse_round_def step)
    next
      case ExSeparator
      with expect_separator_ok [OF assms(1-3) Cons] Cons show ?thesis by (simp add: parse_round_def step)
    qed
  qed
qed

lemma next_inv_ok:
  assumes "parser_inv L N p" and "bad_ok bad"
  shows "ok (p_next bad p) (\<lambda>(tok, q). parser_base L N q \<and> parser_core [] q \<and> token_ok N tok q)"
proof -
  have base: "parser_base L N p" "scan_ok N (ps_scanner p)" "N \<le> 4294967295" "sn_mode (ps_scanner p) = ModeNormal"
    using assms(1) by (auto simp: parser_inv_def parser_base_def)
  have "parser_base L N q \<and> parser_core [] q \<and> token_ok N tok q"
    if st: "string_step N p q" and tok: "next_token_ok N (ps_scanner p) tok (ps_scanner q)" for tok q
  proof -
    have "scan_ok N (ps_scanner q)" using tok by (simp add: next_token_ok_def)
    from scan_ok_offset [OF this] tok base(3,4) have "token_ok N tok q"
      by (auto simp: next_token_ok_def token_ok_def span_ok_def normal_result_def split: token_kind.splits)
    with step_kept(1,2) [OF st base(1)] assms(1) show ?thesis by (simp add: parser_inv_def)
  qed
  then show ?thesis
    by (intro ok_mono [OF next_ok [OF base(2,3) assms(2)]]) auto
qed

lemma loop_ok: "parser_inv L N p \<Longrightarrow> bad_ok bad \<Longrightarrow> ok (parse_loop bad p) (plan_done L)"
proof (induction bad p rule: parse_loop.induct)
  case (1 bad p)
  note nx = next_inv_ok [OF 1(2,3)]
  show ?case
  proof (cases "p_next bad p")
    case (Inl e)
    with nx show ?thesis by (simp add: parse_loop.simps [of bad p])
  next
    case (Inr tq)
    obtain tok q where tq: "tq = (tok, q)" by (cases tq)
    with nx Inr have "parser_base L N q" "parser_core [] q" "token_ok N tok q" by auto
    note round = round_inv_ok [OF this 1(3)]
    show ?thesis
    proof (cases "parse_round bad tok q")
      case (Inl e)
      with round Inr tq show ?thesis by (simp add: parse_loop.simps [of bad p])
    next
      case rr: (Inr r)
      show ?thesis
      proof (cases r)
        case (Inl plan)
        with round rr Inr tq show ?thesis by (simp add: parse_loop.simps [of bad p])
      next
        case (Inr t)
        with round rr have "parser_inv L N t" by simp
        with 1(1) [OF \<open>p_next bad p = Inr tq\<close> tq [symmetric] rr Inr] 1(3)
        have "ok (parse_loop bad t) (plan_done L)" by simp
        with \<open>p_next bad p = Inr tq\<close> tq rr Inr show ?thesis by (simp add: parse_loop.simps [of bad p])
      qed
    qed
  qed
qed

lemma parse_ok:
  assumes "list_all utf8_ok chunks" and "length (concat chunks) \<le> 4294967295" and "bad_ok bad"
    and "n \<le> 4294967295"
  shows "ok (parser_parse bad n (parser_new source chunks L)) (plan_done L)"
proof -
  have "parser_inv L (length (concat chunks)) (parser_new source chunks L)"
    using scan_ok_new [OF assms(1)] assms(2) core_new
    by (simp add: parser_inv_def parser_base_def parser_core_def parser_new_def frames_ok_def scanner_new_def)
  note loop = loop_ok [OF this assms(3)]
  have "span_ok n (0, n)" using assms(4) by (simp add: span_ok_def)
  then show ?thesis
    unfolding parser_parse_def by (rule ok_bind [OF limit_ok]) (rule loop)
qed

lemma plan_root_last:
  assumes "plan_core [] ns [] (Some r) L n"
  shows "Suc r = length ns" and "set (concat (map node_children ns)) = {..<r}"
    and "distinct (concat (map node_children ns))"
proof -
  let ?kids = "concat (map node_children ns)"
  have refs: "distinct (?kids @ [r])" "set (?kids @ [r]) = {..<length ns}" and par: "parents_ok ns"
    using assms by (simp_all add: plan_core_def refs_ok_def references_def root_items_def)
  have pos: "0 < length ns" using refs(2) by (cases ns) auto
  have "length ns - 1 \<notin> set ?kids"
  proof
    assume "length ns - 1 \<in> set ?kids"
    then obtain n where n: "n \<in> set ns" "length ns - 1 \<in> set (node_children n)" by auto
    from n(1) obtain i where "i < length ns" "ns ! i = n" by (auto simp: in_set_conv_nth)
    with n(2) have "i < length ns" "length ns - 1 \<in> set (node_children (ns ! i))" by simp_all
    with par show False by (fastforce simp: parents_ok_def)
  qed
  with refs(2) pos have "r = length ns - 1" by force
  with pos show "Suc r = length ns" by simp
  then have "insert r (set ?kids) = insert r {..<r}" using refs(2) by (simp add: lessThan_Suc [symmetric])
  moreover have "r \<notin> set ?kids" using refs(1) by simp
  ultimately show "set ?kids = {..<r}" by (simp add: insert_ident)
  show "distinct ?kids" using refs(1) by simp
qed

section \<open>Guarantees\<close>


text \<open>
  C10: A parsed plan is a tree in child-before-parent order. The root is the last node, every other
  node is the item of exactly one container, once, and every container comes after its items.
\<close>

theorem plan_is_tree:
  assumes "list_all utf8_ok chunks" and "length (concat chunks) \<le> 4294967295" and "bad_ok bad"
    and "parser_parse bad (length (concat chunks)) (parser_new source chunks limits) = Inr plan"
  shows "\<exists>r. rp_root plan = Some r \<and> Suc r = length (rp_nodes plan) \<and>
    (\<forall>i < length (rp_nodes plan). \<forall>c \<in> set (kind_children (rn_kind (rp_nodes plan ! i))). c < i) \<and>
    distinct (concat (map (\<lambda>n. kind_children (rn_kind n)) (rp_nodes plan))) \<and>
    set (concat (map (\<lambda>n. kind_children (rn_kind n)) (rp_nodes plan))) = {..<r}"
proof -
  obtain r n where r: "rp_root plan = Some r" and core: "plan_core [] (rp_nodes plan) [] (Some r) limits n"
    using okD [OF parse_ok [OF assms(1-3,2)] assms(4)] by (auto simp: plan_done_def)
  from core have "parents_ok (rp_nodes plan)" by (simp add: plan_core_def)
  with r plan_root_last [OF core] show ?thesis unfolding parents_ok_def by blast
qed

text \<open>
  C11: The admission limits hold for whatever was parsed: the number of nodes, the number of items of
  every container, and the depth of the tree (the height of its root).
\<close>

theorem plan_within_limits:
  assumes "list_all utf8_ok chunks" and "length (concat chunks) \<le> 4294967295" and "bad_ok bad"
    and "parser_parse bad (length (concat chunks)) (parser_new source chunks limits) = Inr plan"
  shows "length (rp_nodes plan) \<le> dl_nodes limits \<and>
    (\<forall>n \<in> set (rp_nodes plan). length (kind_children (rn_kind n)) \<le> dl_container_size limits) \<and>
    (\<exists>r. rp_root plan = Some r \<and> node_heights (rp_nodes plan) ! r \<le> dl_depth limits) \<and>
    length (concat chunks) \<le> dl_file_size limits"
proof -
  obtain r n where r: "rp_root plan = Some r" and core: "plan_core [] (rp_nodes plan) [] (Some r) limits n"
    using okD [OF parse_ok [OF assms(1-3,2)] assms(4)] by (auto simp: plan_done_def)
  have "length (concat chunks) \<le> dl_file_size limits"
    using assms(4) by (auto simp: parser_parse_def parser_new_def rbind_eq_Inr p_limit_Inr)
  with r core show ?thesis by (auto simp: plan_core_def sizes_ok_def depth_ok_def)
qed

section \<open>An example\<close>

text \<open>\<^verbatim>\<open>[1,{"a":null}]\<close>, cut inside the atom.\<close>

definition example_json :: "bytes list" where
  "example_json =
     [[0x5b, 0x31, 0x2c, 0x7b, 0x22, 0x61, 0x22, 0x3a, 0x6e, 0x75], [0x6c, 0x6c, 0x7d, 0x5d]]"

lemma example_json_parsed: "\<exists>plan. parser_parse (\<lambda>_. 1) 14 (parser_new 1 example_json default_limits) = Inr plan"
proof -
  have "\<not> (case parser_parse (\<lambda>_. 1) 14 (parser_new 1 example_json default_limits) of Inl _ \<Rightarrow> True | Inr _ \<Rightarrow> False)"
    by code_simp
  then show ?thesis by (simp split: sum.splits)
qed

lemma example_json_input:
  "list_all utf8_ok example_json" "length (concat example_json) = 14" "bad_ok (\<lambda>_. 1)"
proof -
  show "list_all utf8_ok example_json" "length (concat example_json) = 14" by code_simp+
  show "bad_ok (\<lambda>_. 1)" by (simp add: bad_ok_def Suc_le_eq)
qed


lemma plan_is_tree_witness:
  "\<exists>plan r. parser_parse (\<lambda>_. 1) 14 (parser_new 1 example_json default_limits) = Inr plan \<and>
    rp_root plan = Some r \<and> Suc r = length (rp_nodes plan)"
proof -
  obtain plan where "parser_parse (\<lambda>_. 1) 14 (parser_new 1 example_json default_limits) = Inr plan"
    using example_json_parsed by blast
  with plan_is_tree [of example_json "\<lambda>_. 1" 1 default_limits plan] example_json_input show ?thesis by auto
qed

lemma plan_within_limits_witness:
  "\<exists>plan. parser_parse (\<lambda>_. 1) 14 (parser_new 1 example_json default_limits) = Inr plan \<and>
    length (rp_nodes plan) \<le> dl_nodes default_limits"
proof -
  obtain plan where "parser_parse (\<lambda>_. 1) 14 (parser_new 1 example_json default_limits) = Inr plan"
    using example_json_parsed by blast
  with plan_within_limits [of example_json "\<lambda>_. 1" 1 default_limits plan] example_json_input show ?thesis by auto
qed

end
