(* ===== verification/Json_Validate.thy ===== *)
theory Json_Validate
  imports Json_Admission "HOL-Library.List_Lexorder" "HOL-Library.Log_Nat" "HOL-Library.Multiset"
begin

text \<open>
  The second phase of the JSON reader, \<^verbatim>\<open>crates/telora-data/src/json/validate.rs\<close> with the decoded
  buffer of \<^verbatim>\<open>json/text.rs\<close>: escapes are decoded by scanning the quoted text again, numbers are
  read, the members of an object are sorted by the contents of their keys. A panic is
  \<open>ValidatePanic\<close>.
\<close>

section \<open>Text\<close>

datatype text_span = TsSource span | TsDecoded span

record parse_ctx =
  pc_src :: bytes
  pc_decoded :: bytes

definition ctx_new :: "bytes \<Rightarrow> parse_ctx" where
  "ctx_new src = \<lparr>pc_src = src, pc_decoded = []\<rparr>"

text \<open>\<open>&text[range]\<close> of a string: a range that is not on character boundaries panics.\<close>

definition str_slice :: "bytes \<Rightarrow> span \<Rightarrow> bytes option" where
  "str_slice str r =
     (if char_boundary str (fst r) \<and> char_boundary str (snd r) then get_range str (fst r) (snd r) else None)"

definition span_resolve :: "text_span \<Rightarrow> bytes \<Rightarrow> bytes \<Rightarrow> bytes option" where
  "span_resolve s source decoded =
     (case s of TsSource r \<Rightarrow> str_slice source r | TsDecoded r \<Rightarrow> str_slice decoded r)"

definition ctx_text :: "parse_ctx \<Rightarrow> text_span \<Rightarrow> bytes option" where
  "ctx_text ctx s = span_resolve s (pc_src ctx) (pc_decoded ctx)"

text \<open>\<open>char::encode_utf8\<close>\<close>

definition encode_utf8 :: "u32 \<Rightarrow> bytes" where
  "encode_utf8 c =
     (if c < 0x80 then [ucast c]
      else if c < 0x800 then [0xc0 OR ucast (drop_bit 6 c), 0x80 OR (ucast c AND 0x3f)]
      else if c < 0x10000 then
        [0xe0 OR ucast (drop_bit 12 c), 0x80 OR (ucast (drop_bit 6 c) AND 0x3f), 0x80 OR (ucast c AND 0x3f)]
      else
        [0xf0 OR ucast (drop_bit 18 c), 0x80 OR (ucast (drop_bit 12 c) AND 0x3f),
         0x80 OR (ucast (drop_bit 6 c) AND 0x3f), 0x80 OR (ucast c AND 0x3f)])"

text \<open>One token of the loop of \<open>decode\<close>: the pending surrogate and the buffer, or the end.\<close>

definition decode_token :: "token_kind \<Rightarrow> u16 option \<Rightarrow> bytes \<Rightarrow> (u16 option \<times> bytes) option" where
  "decode_token kind high decoded =
     (case kind of
        TQStart \<Rightarrow> Some (high, decoded)
      | TText str \<Rightarrow> Some (high, decoded @ str)
      | TEscChar c \<Rightarrow> Some (high, decoded @ encode_utf8 c)
      | TEscUtf16 v \<Rightarrow>
          if 0xd800 \<le> v \<and> v \<le> 0xdbff then Some (Some v, decoded)
          else
            (case char_from_u32 (case high of Some first \<Rightarrow> surrogate_pair first v | None \<Rightarrow> ucast v) of
               None \<Rightarrow> None
             | Some c \<Rightarrow> Some (None, decoded @ encode_utf8 c))
      | _ \<Rightarrow> None)"

function decode_loop :: "(bytes \<Rightarrow> nat) \<Rightarrow> scanner \<Rightarrow> u16 option \<Rightarrow> bytes \<Rightarrow> bytes option" where
  "decode_loop bad s high decoded =
     (case scan_next bad s of
        (Inl _, _) \<Rightarrow> None
      | (Inr tok, t) \<Rightarrow>
          if tk_kind tok = TQEnd then Some decoded
          else
            (case decode_token (tk_kind tok) high decoded of
               None \<Rightarrow> None
             | Some (high, decoded) \<Rightarrow> decode_loop bad t high decoded))"
  by pat_completeness auto
termination
proof (relation "measure (\<lambda>(bad, s, high, decoded). length (scanner_input s))", goal_cases)
  case (2 bad s high decoded r t tok p h d)
  then have nx: "scan_next bad s = (Inr tok, t)" by simp
  have "tk_kind tok \<noteq> TEof" using 2 by (auto simp: decode_token_def)
  from scan_next_progress [OF nx this] show ?case by simp
qed simp

declare decode_loop.simps [simp del]

definition decode_string :: "(bytes \<Rightarrow> nat) \<Rightarrow> string_span \<Rightarrow> parse_ctx \<Rightarrow> (text_span \<times> parse_ctx) option" where
  "decode_string bad v ctx =
     (if \<not> st_escaped v then Some (TsSource (st_range v), ctx)
      else if fst (st_range v) = 0 then None
      else
        (let start = length (pc_decoded ctx) in
         case str_slice (pc_src ctx) (fst (st_range v) - 1, snd (st_range v) + 1) of
           None \<Rightarrow> None
         | Some quoted \<Rightarrow>
             (case decode_loop bad (scanner_new [quoted]) None (pc_decoded ctx) of
                None \<Rightarrow> None
              | Some decoded \<Rightarrow>
                  Some (TsDecoded (start, length decoded), ctx\<lparr>pc_decoded := decoded\<rparr>))))"

section \<open>Numbers\<close>

text \<open>\<open>str::parse::<i64>\<close>: \<open>None\<close> is any of its errors.\<close>

definition digits_value :: "bytes \<Rightarrow> nat" where
  "digits_value ds = foldl (\<lambda>n d. n * 10 + unat (d - 0x30)) 0 ds"

definition take_sign :: "bytes \<Rightarrow> bool \<times> bytes" where
  "take_sign s =
     (case s of
        [] \<Rightarrow> (False, [])
      | b # r \<Rightarrow> if b = ascii CHR ''-'' then (True, r) else if b = ascii CHR ''+'' then (False, r) else (False, s))"

definition i64_parse :: "bytes \<Rightarrow> int option" where
  "i64_parse s =
     (case take_sign s of
        (neg, ds) \<Rightarrow>
          if ds = [] \<or> \<not> list_all is_digit ds then None
          else
            (let n = (if neg then - int (digits_value ds) else int (digits_value ds))
             in if - (2 ^ 63) \<le> n \<and> n < 2 ^ 63 then Some n else None))"

text \<open>
  An IEEE double: a finite one is the sign and \<open>m * 2 ^ e\<close>. \<open>str::parse::<f64>\<close> rounds the decimal
  value to the nearest one, ties to even.
\<close>

datatype f64 = F64Nan | F64Inf bool | F64 bool nat int

definition is_finite :: "f64 \<Rightarrow> bool" where
  "is_finite x = (case x of F64 _ _ _ \<Rightarrow> True | _ \<Rightarrow> False)"

definition round_even :: "nat \<Rightarrow> nat \<Rightarrow> nat" where
  "round_even a b =
     (let m = a div b; r = a mod b in if b < 2 * r \<or> b = 2 * r \<and> odd m then m + 1 else m)"

definition f64_round :: "bool \<Rightarrow> nat \<Rightarrow> nat \<Rightarrow> f64" where
  "f64_round neg num den =
     (if num = 0 then F64 neg 0 (- 1074)
      else
        (let t = int (floorlog 2 num) - int (floorlog 2 den);
             below = (if 0 \<le> t then num < den * 2 ^ nat t else num * 2 ^ nat (- t) < den);
             e = max (- 1074) ((if below then t - 1 else t) - 52);
             m = (if 0 \<le> e then round_even num (den * 2 ^ nat e) else round_even (num * 2 ^ nat (- e)) den);
             (m, e) = (if m = 2 ^ 53 then (2 ^ 52, e + 1) else (m, e))
         in if 971 < e then F64Inf neg else F64 neg m e))"

definition f64_decimal :: "bool \<Rightarrow> bytes \<Rightarrow> bytes \<Rightarrow> int \<Rightarrow> f64" where
  "f64_decimal neg ip fp ex =
     (let n = digits_value (ip @ fp); k = ex - int (length fp)
      in if 0 \<le> k then f64_round neg (n * 10 ^ nat k) 1 else f64_round neg n (10 ^ nat (- k)))"

definition lower :: "u8 \<Rightarrow> u8" where
  "lower b = (if between 0x41 0x5a b then b + 0x20 else b)"

definition f64_parse :: "bytes \<Rightarrow> f64 option" where
  "f64_parse s =
     (case take_sign s of
        (neg, r) \<Rightarrow>
          if map lower r = ascii_text ''nan'' then Some F64Nan
          else if map lower r = ascii_text ''inf'' \<or> map lower r = ascii_text ''infinity'' then Some (F64Inf neg)
          else
            (let ip = takeWhile is_digit r; r = dropWhile is_digit r;
                 dot = (r \<noteq> [] \<and> hd r = ascii CHR ''.'');
                 fp = (if dot then takeWhile is_digit (tl r) else []);
                 r = (if dot then dropWhile is_digit (tl r) else r)
             in if ip = [] \<and> fp = [] then None
                else
                  (case r of
                     [] \<Rightarrow> Some (f64_decimal neg ip fp 0)
                   | b # r \<Rightarrow>
                       if lower b = ascii CHR ''e'' then
                         (case take_sign r of
                            (eneg, ds) \<Rightarrow>
                              if ds = [] \<or> \<not> list_all is_digit ds then None
                              else Some (f64_decimal neg ip fp
                                     (if eneg then - int (digits_value ds) else int (digits_value ds))))
                       else None)))"

section \<open>Validation\<close>

datatype json_kind =
    JInt int
  | JFloat f64
  | JString text_span
  | JNull
  | JBool bool
  | JArray "nat list"
  | JObject "(text_span \<times> data_field) list"

record json_node =
  jn_kind :: json_kind
  jn_location :: loc

record json_plan =
  jp_nodes :: "json_node list"
  jp_root :: nat

datatype validate_fail = ValidatePanic | ValidateErrors "json_diagnostic list"

text \<open>The state of the closure of \<open>validate\<close>: the diagnostics and the context.\<close>

type_synonym validating = "json_diagnostic list \<times> parse_ctx"

definition validate_number :: "span \<Rightarrow> bool \<Rightarrow> loc \<Rightarrow> validating \<Rightarrow> (json_kind \<times> validating) option" where
  "validate_number r float l = (\<lambda>(ds, ctx).
     (case str_slice (pc_src ctx) r of
        None \<Rightarrow> None
      | Some str \<Rightarrow>
          Some (if float then
                  (case f64_parse str of
                     Some n \<Rightarrow>
                       if is_finite n then (JFloat n, ds, ctx)
                       else (JNull, ds @ [diagnostic_error (Msg ''JSON Float must be finite'') l], ctx)
                   | None \<Rightarrow> (JNull, ds @ [diagnostic_error (Msg ''invalid Float value'') l], ctx))
                else
                  (case i64_parse str of
                     Some n \<Rightarrow> (JInt n, ds, ctx)
                   | None \<Rightarrow>
                       (JNull, ds @ [diagnostic_error (Msg ''JSON integer is outside the i64 range'') l], ctx)))))"

fun decode_keys ::
  "(bytes \<Rightarrow> nat) \<Rightarrow> (string_span \<times> data_field) list \<Rightarrow> parse_ctx \<Rightarrow>
     ((text_span \<times> data_field) list \<times> parse_ctx) option" where
  "decode_keys bad [] ctx = Some ([], ctx)"
| "decode_keys bad ((key, field) # rest) ctx =
     (case decode_string bad key ctx of
        None \<Rightarrow> None
      | Some (name, ctx) \<Rightarrow>
          (case decode_keys bad rest ctx of
             None \<Rightarrow> None
           | Some (members, ctx) \<Rightarrow> Some ((name, field) # members, ctx)))"

text \<open>The members with their keys' contents: \<open>sort_by\<close> looks them up (with at least two members).\<close>

definition keyed :: "parse_ctx \<Rightarrow> (text_span \<times> data_field) list \<Rightarrow> (bytes \<times> text_span \<times> data_field) list option" where
  "keyed ctx members = map_opt (\<lambda>m. map_option (\<lambda>str. (str, m)) (ctx_text ctx (fst m))) members"

text \<open>The loop over the sorted members; \<open>first\<close> is the first member with the current key.\<close>

fun duplicates :: "bytes \<times> text_span \<times> data_field \<Rightarrow> (bytes \<times> text_span \<times> data_field) list \<Rightarrow> json_diagnostic list" where
  "duplicates first [] = []"
| "duplicates first (m # ms) =
     (if fst m = fst first then
        with_secondary ''first defined here'' (df_key_location (snd (snd first)))
          (diagnostic_error (DuplicateKey (fst m)) (df_key_location (snd (snd m)))) # duplicates first ms
      else duplicates m ms)"

definition validate_object ::
  "(bytes \<Rightarrow> nat) \<Rightarrow> (string_span \<times> data_field) list \<Rightarrow> validating \<Rightarrow> (json_kind \<times> validating) option" where
  "validate_object bad members = (\<lambda>(ds, ctx).
     (case decode_keys bad members ctx of
        None \<Rightarrow> None
      | Some (members, ctx) \<Rightarrow>
          if length members < 2 then Some (JObject members, ds, ctx)
          else
            (case keyed ctx members of
               None \<Rightarrow> None
             | Some ks \<Rightarrow>
                 (let ks = sort_key fst ks in
                  Some (JObject (map snd ks), ds @ duplicates (hd ks) (tl ks), ctx)))))"

definition validate_kind :: "(bytes \<Rightarrow> nat) \<Rightarrow> raw_node \<Rightarrow> validating \<Rightarrow> (json_kind \<times> validating) option" where
  "validate_kind bad node st =
     (case rn_kind node of
        RawString v \<Rightarrow> map_option (\<lambda>(s, ctx). (JString s, fst st, ctx)) (decode_string bad v (snd st))
      | RawNumber r float \<Rightarrow> validate_number r float (rn_location node) st
      | RawBool v \<Rightarrow> Some (JBool v, st)
      | RawNull \<Rightarrow> Some (JNull, st)
      | RawArray items \<Rightarrow> Some (JArray items, st)
      | RawObject members \<Rightarrow> validate_object bad members st)"

fun validate_nodes :: "(bytes \<Rightarrow> nat) \<Rightarrow> raw_node list \<Rightarrow> validating \<Rightarrow> (json_node list \<times> validating) option" where
  "validate_nodes bad [] st = Some ([], st)"
| "validate_nodes bad (n # ns) st =
     (case validate_kind bad n st of
        None \<Rightarrow> None
      | Some (kind, st) \<Rightarrow>
          (case validate_nodes bad ns st of
             None \<Rightarrow> None
           | Some (nodes, st) \<Rightarrow> Some (\<lparr>jn_kind = kind, jn_location = rn_location n\<rparr> # nodes, st)))"

definition validate :: "(bytes \<Rightarrow> nat) \<Rightarrow> raw_plan \<Rightarrow> parse_ctx \<Rightarrow> validate_fail + (json_plan \<times> parse_ctx)" where
  "validate bad raw ctx =
     (case validate_nodes bad (rp_nodes raw) (rp_diagnostics raw, ctx) of
        None \<Rightarrow> Inl ValidatePanic
      | Some (nodes, ds, ctx) \<Rightarrow>
          if ds = [] then
            (case rp_root raw of
               None \<Rightarrow> Inl ValidatePanic
             | Some r \<Rightarrow> Inr (\<lparr>jp_nodes = nodes, jp_root = r\<rparr>, ctx))
          else Inl (ValidateErrors (sort_key (\<lambda>d. lc_start (hd (dg_locs d))) ds)))"

text \<open>\<open>JsonStructure::validate\<close>\<close>

definition structure_validate :: "(bytes \<Rightarrow> nat) \<Rightarrow> json_structure \<Rightarrow> validate_fail + (json_plan \<times> parse_ctx)" where
  "structure_validate bad js = validate bad (js_raw js) (ctx_new (js_src js))"

section \<open>Decoded text is UTF-8\<close>

lemma char_boundary_at: "char_boundary = boundary_at"
  by (intro ext) (simp add: char_boundary_def boundary_at_def is_continuation_def between_def)

lemma utf8_append: "utf8_ok a \<Longrightarrow> utf8_ok b \<Longrightarrow> utf8_ok (a @ b)"
proof (induction a rule: utf8_ok.induct)
  case (2 x r)
  let ?k = "utf8_len x - 1"
  have k: "?k - length r = 0" using 2(2) by (simp only: utf8_ok.simps diff_is_0_eq)
  have eq: "take ?k (r @ b) = take ?k r" "drop ?k (r @ b) = drop ?k r @ b" using k by simp_all
  show ?case unfolding append_Cons utf8_ok.simps eq using 2 by simp
qed simp

lemma boundary_append:
  assumes "boundary_at a n" and "utf8_ok b"
  shows "boundary_at (a @ b) n"
  using assms by (cases b) (auto simp: boundary_at_def nth_append)

text \<open>A marker above the low bits is added to them.\<close>

lemma marked_byte:
  fixes a y :: u8
  assumes "unat y < 2 ^ m" and "a AND mask m = 0" and "unat a + 2 ^ m \<le> 256"
  shows "unat (a OR y) = unat a + unat y"
proof -
  have "take_bit m y = y"
    using assms(1) by (simp add: word_unat_eq_iff unsigned_take_bit_eq take_bit_nat_eq_self)
  then have y: "y AND mask m = y" by (simp add: take_bit_eq_mask)
  have "a AND y = (a AND mask m) AND y" using y by (metis and.commute and.left_commute)
  then have "a AND y = 0" using assms(2) by simp
  then have "a OR y = a + y" using word_plus_and_or [of a y] by simp
  moreover have "unat a + unat y < 256" using assms(1,3) by simp
  ultimately show ?thesis by (simp add: unat_word_ariths)
qed

lemma tail_byte: "is_continuation (0x80 OR (x AND 0x3f))"
proof -
  have "unat (x AND 0x3f) \<le> 63" using word_and_le1 [of x "0x3f"] by (simp add: word_le_nat_alt)
  then have "unat (0x80 OR (x AND 0x3f)) = 128 + unat (x AND 0x3f)"
    by (subst marked_byte [of _ 6]) (simp_all add: mask_eq_exp_minus_1)
  with \<open>unat (x AND 0x3f) \<le> 63\<close> show ?thesis by (simp add: is_continuation_def between_def word_le_nat_alt)
qed

lemma lead_bytes:
  fixes x :: u8
  shows "unat x < 32 \<Longrightarrow> \<not> is_continuation (0xc0 OR x) \<and> utf8_len (0xc0 OR x) = 2"
    and "unat x < 16 \<Longrightarrow> \<not> is_continuation (0xe0 OR x) \<and> utf8_len (0xe0 OR x) = 3"
    and "unat x < 8 \<Longrightarrow> \<not> is_continuation (0xf0 OR x) \<and> utf8_len (0xf0 OR x) = 4"
    and "unat x < 128 \<Longrightarrow> \<not> is_continuation x \<and> utf8_len x = 1"
  using marked_byte [of x 5 "0xc0"] marked_byte [of x 4 "0xe0"] marked_byte [of x 3 "0xf0"]
  by (simp_all add: mask_eq_exp_minus_1 is_continuation_def between_def utf8_len_def word_le_nat_alt
      word_less_nat_alt)

lemma low_byte:
  fixes c :: u32
  assumes "unat c < 2 ^ k * 2 ^ m"
  shows "unat (ucast (drop_bit k c) :: u8) < 2 ^ m"
proof -
  have "take_bit 32 (unat c) = unat c" using unat_u32 [of c] by (simp add: take_bit_nat_eq_self_iff)
  then have "unat (drop_bit k c) = unat c div 2 ^ k"
    by (simp only: unsigned_drop_bit_eq drop_bit_eq_div [where ?'a = nat]) simp
  then have "unat (drop_bit k c) < 2 ^ m" using assms by (simp add: less_mult_imp_div_less mult.commute)
  moreover have "unat (ucast (drop_bit k c) :: u8) \<le> unat (drop_bit k c)"
    by (simp add: unsigned_ucast_eq take_bit_nat_less_eq_self)
  ultimately show ?thesis by simp
qed

lemma encode_utf8_ok: "c < 0x110000 \<Longrightarrow> utf8_ok (encode_utf8 c)"
  using lead_bytes(1) [of "ucast (drop_bit 6 c)"] lead_bytes(2) [of "ucast (drop_bit 12 c)"]
    lead_bytes(3) [of "ucast (drop_bit 18 c)"] lead_bytes(4) [of "ucast c"]
    low_byte [of c 6 5] low_byte [of c 12 4] low_byte [of c 18 3] low_byte [of c 0 7]
  by (auto simp: encode_utf8_def tail_byte word_less_nat_alt)

text \<open>The text of a token is UTF-8, and an escaped character is ASCII.\<close>

definition token_text_ok :: "token_kind \<Rightarrow> bool" where
  "token_text_ok k = (case k of TText str \<Rightarrow> utf8_ok str | TEscChar c \<Rightarrow> c < 0x80 | _ \<Rightarrow> True)"

lemma escape_text_ok: "scan_escape start s = (Inr k, t) \<Longrightarrow> token_text_ok k"
  by (auto simp: scan_escape_def token_text_ok_def rbind_eq_Inr split: prod.splits option.splits if_splits)

lemma string_text_utf8:
  assumes "scan_ok N s" and "sn_remaining s \<noteq> []" and "bad_ok bad" and "scan_string bad start s = (Inr k, t)"
  shows "token_text_ok k"
proof -
  let ?w = "quoted_window (sn_remaining s)"
  have ok: "utf8_ok (sn_remaining s)" using assms(1) by (simp add: scan_ok_def)
  note w = quoted_window_ok [OF ok assms(2)]
  obtain tok n where lex: "quoted_lex bad ?w = (tok, n)" by force
  have "utf8_ok (take n (sn_remaining s))" if "tok \<noteq> None"
    using utf8_take [OF ok window_boundary [OF ok assms(2)]] quoted_lex_boundary(2) [OF w(1,2) assms(3) lex that] .
  with assms(4) lex w(1) escape_text_ok show ?thesis
    by (auto simp: scan_string_def scan_take_def token_text_ok_def split: option.splits quoted_token.splits)
qed

lemma normal_text_ok:
  assumes "scan_normal bad start s = (Some (Inr k), t)"
  shows "token_text_ok k"
  using assms
  by (auto simp: scan_normal_def scan_atom_def normal_kind_def token_text_ok_def
      split: prod.splits option.splits normal_token.splits atom_token.splits)

lemma next_text_ok:
  assumes "scan_ok N s" and "bad_ok bad" and "scan_next bad s = (Inr tok, t)"
  shows "token_text_ok (tk_kind tok)"
  using assms
proof (induction bad s rule: scan_next.induct)
  case (1 bad s)
  obtain b u where ready: "scan_ready s = (b, u)" by force
  note u = followsD [OF ready_follows [OF 1(2) ready]]
  show ?case
  proof (cases b)
    case False
    with 1(4) ready show ?thesis by (auto simp: scan_next.simps [of bad s] token_text_ok_def)
  next
    case True
    then have rd: "scan_ready s = (True, u)" using ready by simp
    note ne = scan_ready_True(4) [OF rd]
    show ?thesis
    proof (cases "sn_mode u")
      case ModeNormal
      obtain r v where v: "scan_normal bad (sn_offset u) u = (r, v)" by force
      show ?thesis
      proof (cases r)
        case None
        have "scan_ok N v"
          using scan_normal_ok(1) [OF u(1) ne 1(3) ModeNormal v] None by (simp add: advances_def)
        moreover have "scan_next bad v = (Inr tok, t)"
          using 1(4) rd ModeNormal v None by (simp add: scan_next.simps [of bad s])
        ultimately show ?thesis
          using 1(1) [OF rd [symmetric] _ refl ModeNormal v [symmetric] None] 1(3) by simp
      next
        case (Some x)
        with 1(4) rd ModeNormal v normal_text_ok [of bad "sn_offset u" u] show ?thesis
          by (auto simp: scan_next.simps [of bad s] rbind_eq_Inr)
      qed
    next
      case ModeString
      obtain r v where v: "scan_string bad (sn_offset u) u = (r, v)" by force
      with 1(4) rd ModeString string_text_utf8 [OF u(1) ne 1(3), of "sn_offset u"] show ?thesis
        by (auto simp: scan_next.simps [of bad s] rbind_eq_Inr)
    qed
  qed
qed

lemma char_from_u32_bound: "char_from_u32 v = Some c \<Longrightarrow> c < 0x110000"
  by (auto simp: char_from_u32_def word_less_nat_alt word_le_nat_alt split: if_splits)

lemma decode_token_ok:
  assumes "decode_token k high d = Some (high', d')" and "token_text_ok k"
  shows "\<exists>e. d' = d @ e \<and> utf8_ok e"
  using assms encode_utf8_ok char_from_u32_bound
  by (cases k)
    (auto simp: decode_token_def token_text_ok_def word_less_nat_alt split: if_splits option.splits)

lemma decode_loop_ok:
  assumes "scan_ok N s" and "bad_ok bad" and "decode_loop bad s high d = Some d'"
  shows "\<exists>e. d' = d @ e \<and> utf8_ok e"
  using assms
proof (induction bad s high d rule: decode_loop.induct)
  case (1 bad s high d)
  obtain r t where nx: "scan_next bad s = (r, t)" by force
  with 1(4) obtain tok where tok: "r = Inr tok"
    by (auto simp: decode_loop.simps [of bad s] split: sum.splits)
  show ?case
  proof (cases "tk_kind tok = TQEnd")
    case True
    with 1(4) nx tok have "d' = d" by (simp add: decode_loop.simps [of bad s])
    then show ?thesis by (intro exI [of _ "[]"]) simp
  next
    case False
    with 1(4) nx tok obtain h e where step: "decode_token (tk_kind tok) high d = Some (h, e)"
      and rest: "decode_loop bad t h e = Some d'"
      by (auto simp: decode_loop.simps [of bad s] split: option.splits)
    have "scan_ok N t" using scan_next_ok [OF 1(2,3) nx] tok by (simp add: next_token_ok_def)
    from 1(1) [OF nx [symmetric] tok False step refl this 1(3) rest]
    obtain x where x: "d' = e @ x" "utf8_ok x" by blast
    from decode_token_ok [OF step next_text_ok [OF 1(2,3)]] nx tok
    obtain y where y: "e = d @ y" "utf8_ok y" by blast
    with x utf8_append show ?thesis by (intro exI [of _ "y @ x"]) simp
  qed
qed

section \<open>Offsets survive the growth of the buffer\<close>

definition grown :: "parse_ctx \<Rightarrow> parse_ctx \<Rightarrow> bool" where
  "grown c d \<longleftrightarrow> pc_src d = pc_src c \<and> (\<exists>e. pc_decoded d = pc_decoded c @ e \<and> utf8_ok e)"

lemma grown_refl: "grown c c"
  by (auto simp: grown_def intro: exI [of _ "[]"])

lemma grown_trans: "grown c d \<Longrightarrow> grown d e \<Longrightarrow> grown c e"
  by (auto simp: grown_def intro: utf8_append)

lemma slice_append:
  assumes "str_slice a r = Some x" and "utf8_ok b"
  shows "str_slice (a @ b) r = Some x"
  using assms boundary_append
  by (auto simp: str_slice_def char_boundary_at get_range_def split: if_splits)

lemma text_grown: "ctx_text c s = Some x \<Longrightarrow> grown c d \<Longrightarrow> ctx_text d s = Some x"
  by (auto simp: ctx_text_def span_resolve_def grown_def slice_append split: text_span.splits)

lemma slice_utf8:
  assumes "str_slice str r = Some x" and "utf8_ok str"
  shows "utf8_ok x"
proof -
  obtain a b where r: "r = (a, b)" by (cases r)
  with assms(1) have ab: "a \<le> b" "b \<le> length str" and x: "x = take (b - a) (drop a str)"
    and bd: "boundary_at str a" "boundary_at str b"
    by (auto simp: str_slice_def char_boundary_at get_range_def split: if_splits)
  have "boundary_at (drop a str) (b - a)" using bd(2) ab by (auto simp: boundary_at_def)
  with utf8_take [OF utf8_drop [OF assms(2) bd(1)]] x show ?thesis by simp
qed

lemma decode_string_grown:
  assumes "decode_string bad v c = Some (s, d)" and "bad_ok bad" and "utf8_ok (pc_src c)"
  shows "grown c d"
proof (cases "st_escaped v")
  case True
  with assms(1) obtain quoted decoded where q: "str_slice (pc_src c) (fst (st_range v) - 1, snd (st_range v) + 1) = Some quoted"
    and loop: "decode_loop bad (scanner_new [quoted]) None (pc_decoded c) = Some decoded"
    and d: "d = c\<lparr>pc_decoded := decoded\<rparr>"
    by (auto simp: decode_string_def Let_def split: if_splits option.splits)
  from slice_utf8 [OF q assms(3)] have "utf8_ok quoted" .
  then have "scan_ok (length (concat [quoted])) (scanner_new [quoted])" by (intro scan_ok_new) simp
  from decode_loop_ok [OF this assms(2) loop] d show ?thesis by (auto simp: grown_def)
next
  case False
  with assms(1) grown_refl show ?thesis by (auto simp: decode_string_def)
qed

lemma decode_keys_grown:
  "decode_keys bad ms c = Some (ns, d) \<Longrightarrow> bad_ok bad \<Longrightarrow> utf8_ok (pc_src c) \<Longrightarrow>
    grown c d \<and> map snd ns = map snd ms"
proof (induction bad ms c arbitrary: ns d rule: decode_keys.induct)
  case (2 bad key field rest c)
  then obtain name e ns' where s: "decode_string bad key c = Some (name, e)"
    and r: "decode_keys bad rest e = Some (ns', d)" and ns: "ns = (name, field) # ns'"
    by (auto split: option.splits)
  note g = decode_string_grown [OF s 2(3,4)]
  then have "utf8_ok (pc_src e)" using 2(4) by (simp add: grown_def)
  with 2(1) [OF s refl r 2(3)] g ns grown_trans show ?case by auto
qed (simp add: grown_refl)

section \<open>Validated plans\<close>

text \<open>The keys of an object, by content, are strictly ascending.\<close>

definition ascending :: "parse_ctx \<Rightarrow> (text_span \<times> data_field) list \<Rightarrow> bool" where
  "ascending c ms \<longleftrightarrow>
     sorted_wrt (\<lambda>a b. \<exists>x y. ctx_text c (fst a) = Some x \<and> ctx_text c (fst b) = Some y \<and> x < y) ms"

lemma ascending_grown: "ascending c ms \<Longrightarrow> grown c d \<Longrightarrow> ascending d ms"
  unfolding ascending_def by (erule sorted_wrt_mono_rel [rotated]) (blast intro: text_grown)

lemma duplicates_Nil:
  "sorted (map fst (m # ms)) \<Longrightarrow> duplicates m ms = [] \<longleftrightarrow> sorted_wrt (<) (map fst (m # ms))"
proof (induction m ms rule: duplicates.induct)
  case (2 first m ms)
  then show ?case by (cases "fst m = fst first") (auto simp: order_le_less_trans)
qed simp

lemma keyed_Some:
  "keyed c ms = Some ks \<Longrightarrow> map snd ks = ms \<and> (\<forall>k \<in> set ks. ctx_text c (fst (snd k)) = Some (fst k))"
proof (induction ms arbitrary: ks)
  case (Cons m ms)
  then show ?case by (auto simp: keyed_def split: option.splits)
qed (simp add: keyed_def)

text \<open>What validation makes of a node.\<close>

definition node_valid :: "parse_ctx \<Rightarrow> raw_kind \<Rightarrow> json_kind \<Rightarrow> bool" where
  "node_valid c raw kind \<longleftrightarrow>
     (case kind of
        JInt n \<Rightarrow> - (2 ^ 63) \<le> n \<and> n < 2 ^ 63 \<and> (\<exists>r str. raw = RawNumber r False \<and>
          str_slice (pc_src c) r = Some str \<and> i64_parse str = Some n)
      | JFloat x \<Rightarrow> is_finite x \<and> (\<exists>r str. raw = RawNumber r True \<and>
          str_slice (pc_src c) r = Some str \<and> f64_parse str = Some x)
      | JString _ \<Rightarrow> (\<exists>v. raw = RawString v)
      | JNull \<Rightarrow> raw = RawNull
      | JBool b \<Rightarrow> raw = RawBool b
      | JArray items \<Rightarrow> raw = RawArray items
      | JObject ms \<Rightarrow> ascending c ms \<and>
          (\<exists>raws. raw = RawObject raws \<and> mset (map snd ms) = mset (map snd raws)))"

lemma node_valid_grown: "node_valid c raw kind \<Longrightarrow> grown c d \<Longrightarrow> node_valid d raw kind"
  by (auto simp: node_valid_def ascending_grown grown_def split: json_kind.splits)

lemma i64_parse_range: "i64_parse s = Some n \<Longrightarrow> - (2 ^ 63) \<le> n \<and> n < 2 ^ 63"
  by (auto simp: i64_parse_def Let_def split: prod.splits if_splits)

lemma validate_object_ok:
  assumes "validate_object bad ms (ds, c) = Some (kind, ds', d)" and "bad_ok bad" and "utf8_ok (pc_src c)"
  shows "grown c d \<and> (\<exists>new. ds' = ds @ new \<and> (new = [] \<longrightarrow> node_valid d (RawObject ms) kind))"
proof -
  obtain ns e where dk: "decode_keys bad ms c = Some (ns, e)"
    using assms(1) by (auto simp: validate_object_def split: option.splits)
  note g = decode_keys_grown [OF dk assms(2,3)]
  show ?thesis
  proof (cases "length ns < 2")
    case True
    then have "kind = JObject ns" "ds' = ds" "d = e"
      using assms(1) dk by (auto simp: validate_object_def)
    moreover have "ascending e ns" using True by (cases ns; cases "tl ns") (auto simp: ascending_def)
    ultimately show ?thesis using g by (auto simp: node_valid_def intro!: exI [of _ "[]"])
  next
    case False
    with assms(1) dk obtain ks where ks: "keyed e ns = Some ks" by (auto simp: validate_object_def split: option.splits)
    let ?ks = "sort_key fst ks"
    have res: "kind = JObject (map snd ?ks)" "ds' = ds @ duplicates (hd ?ks) (tl ?ks)" "d = e"
      using assms(1) dk ks False by (auto simp: validate_object_def Let_def)
    have key: "\<forall>k \<in> set ?ks. ctx_text e (fst (snd k)) = Some (fst k)" and ns: "map snd ks = ns"
      using keyed_Some [OF ks] by simp_all
    have ne: "?ks \<noteq> []" using False ns by (cases ks) auto
    have "node_valid e (RawObject ms) kind" if "duplicates (hd ?ks) (tl ?ks) = []"
    proof -
      have "sorted_wrt (<) (map fst ?ks)"
        using duplicates_Nil [of "hd ?ks" "tl ?ks"] that ne by simp
      then have "sorted_wrt (\<lambda>a b. fst a < fst b) ?ks" by (simp add: sorted_wrt_map)
      then have "ascending e (map snd ?ks)"
        unfolding ascending_def sorted_wrt_map
        by (rule sorted_wrt_mono_rel [rotated]) (use key in blast)
      moreover have "mset (map snd (map snd ?ks)) = mset (map snd ns)"
        using ns by (metis mset_map mset_sort)
      ultimately show ?thesis using res(1) g by (simp add: node_valid_def)
    qed
    with res g show ?thesis by simp
  qed
qed

lemma validate_kind_ok:
  assumes "validate_kind bad n (ds, c) = Some (kind, ds', d)" and "bad_ok bad" and "utf8_ok (pc_src c)"
  shows "grown c d \<and> (\<exists>new. ds' = ds @ new \<and> (new = [] \<longrightarrow> node_valid d (rn_kind n) kind))"
proof (cases "rn_kind n")
  case (RawString v)
  with assms(1) obtain s where s: "decode_string bad v c = Some (s, d)" "kind = JString s" "ds' = ds"
    by (auto simp: validate_kind_def)
  with decode_string_grown [OF s(1) assms(2,3)] RawString show ?thesis by (simp add: node_valid_def)
next
  case (RawNumber r float)
  show ?thesis
  proof (cases float)
    case True
    with RawNumber assms(1) grown_refl [of c] show ?thesis
      by (auto simp: validate_kind_def validate_number_def node_valid_def split: option.splits if_splits)
  next
    case False
    with RawNumber assms(1) grown_refl [of c] i64_parse_range show ?thesis
      by (auto simp: validate_kind_def validate_number_def node_valid_def split: option.splits if_splits)
  qed
next
  case (RawObject ms)
  with assms(1) validate_object_ok [OF _ assms(2,3)] show ?thesis by (simp add: validate_kind_def)
qed (use assms(1) grown_refl [of c] in \<open>auto simp: validate_kind_def node_valid_def\<close>)

lemma validate_nodes_ok:
  assumes "validate_nodes bad ns (ds, c) = Some (ms, ds', d)" and "bad_ok bad" and "utf8_ok (pc_src c)"
  shows "grown c d \<and> map jn_location ms = map rn_location ns \<and> (\<exists>new. ds' = ds @ new \<and>
    (new = [] \<longrightarrow> list_all2 (\<lambda>n m. node_valid d (rn_kind n) (jn_kind m)) ns ms))"
  using assms
proof (induction ns arbitrary: ms ds c)
  case Nil
  then show ?case by (simp add: grown_refl)
next
  case (Cons n ns)
  then obtain kind ds1 e ms' where k: "validate_kind bad n (ds, c) = Some (kind, ds1, e)"
    and r: "validate_nodes bad ns (ds1, e) = Some (ms', ds', d)"
    and ms: "ms = \<lparr>jn_kind = kind, jn_location = rn_location n\<rparr> # ms'"
    by (auto split: option.splits)
  from validate_kind_ok [OF k Cons.prems(2,3)] obtain x where g: "grown c e" and x: "ds1 = ds @ x"
    and v: "x = [] \<longrightarrow> node_valid e (rn_kind n) kind" by blast
  have "utf8_ok (pc_src e)" using g Cons.prems(3) by (simp add: grown_def)
  from Cons.IH [OF r Cons.prems(2) this] obtain y where h: "grown e d"
    "map jn_location ms' = map rn_location ns" and y: "ds' = ds1 @ y"
    and w: "y = [] \<longrightarrow> list_all2 (\<lambda>n m. node_valid d (rn_kind n) (jn_kind m)) ns ms'" by blast
  from h(1) v have "x = [] \<longrightarrow> node_valid d (rn_kind n) kind" by (blast intro: node_valid_grown)
  with w have "x @ y = [] \<longrightarrow> list_all2 (\<lambda>n m. node_valid d (rn_kind n) (jn_kind m)) (n # ns) ms"
    using ms by simp
  with grown_trans [OF g h(1)] h(2) ms x y show ?case by (intro conjI exI [of _ "x @ y"]) simp_all
qed


text \<open>
  C12: The keys of every published object are strictly ascending by their decoded contents, so no key
  occurs twice and lookup by binary search is sound, although the decoded buffer has grown since
  the object was sorted.
\<close>

theorem validated_keys_ascending:
  assumes "validate bad raw ctx = Inr (plan, ctx')" and "bad_ok bad" and "utf8_ok (pc_src ctx)"
    and "n \<in> set (jp_nodes plan)" and "jn_kind n = JObject ms"
  shows "sorted_wrt (\<lambda>a b. \<exists>x y. ctx_text ctx' (fst a) = Some x \<and> ctx_text ctx' (fst b) = Some y \<and> x < y) ms"
proof -
  obtain nodes ds where n: "validate_nodes bad (rp_nodes raw) (rp_diagnostics raw, ctx) = Some (nodes, ds, ctx')"
    and ds: "ds = []" and p: "jp_nodes plan = nodes"
    using assms(1) by (auto simp: validate_def split: option.splits if_splits)
  from validate_nodes_ok [OF n assms(2,3)] ds p
  have "list_all2 (\<lambda>n m. node_valid ctx' (rn_kind n) (jn_kind m)) (rp_nodes raw) (jp_nodes plan)" by auto
  with assms(4) obtain r where "node_valid ctx' r (jn_kind n)"
    by (auto simp: list_all2_conv_all_nth in_set_conv_nth)
  with assms(5) show ?thesis by (simp add: node_valid_def ascending_def)
qed

section \<open>An example\<close>

text \<open>\<^verbatim>\<open>{"b":1,"\u0061":2}\<close>: the keys change places.\<close>

definition example_object :: bytes where
  "example_object =
     [0x7b, 0x22, 0x62, 0x22, 0x3a, 0x31, 0x2c, 0x22, 0x5c, 0x75, 0x30, 0x30, 0x36, 0x31, 0x22, 0x3a, 0x32, 0x7d]"

definition example_raw :: raw_plan where
  "example_raw =
     (let l = \<lparr>lc_source = 1, lc_start = 0, lc_end = 18\<rparr> in
      \<lparr>rp_nodes =
         [\<lparr>rn_kind = RawNumber (5, 6) False, rn_location = l\<rparr>, \<lparr>rn_kind = RawNumber (16, 17) False, rn_location = l\<rparr>,
          \<lparr>rn_kind = RawObject
             [(\<lparr>st_range = (2, 3), st_escaped = False\<rparr>, \<lparr>df_key_location = l, df_value = 0\<rparr>),
              (\<lparr>st_range = (8, 14), st_escaped = True\<rparr>, \<lparr>df_key_location = l, df_value = 1\<rparr>)], rn_location = l\<rparr>],
       rp_root = Some 2, rp_diagnostics = []\<rparr>)"

definition example_valid :: json_plan where
  "example_valid =
     (let l = \<lparr>lc_source = 1, lc_start = 0, lc_end = 18\<rparr> in
      \<lparr>jp_nodes =
         [\<lparr>jn_kind = JInt 1, jn_location = l\<rparr>, \<lparr>jn_kind = JInt 2, jn_location = l\<rparr>,
          \<lparr>jn_kind = JObject
             [(TsDecoded (0, 1), \<lparr>df_key_location = l, df_value = 1\<rparr>),
              (TsSource (2, 3), \<lparr>df_key_location = l, df_value = 0\<rparr>)], jn_location = l\<rparr>],
       jp_root = 2\<rparr>)"

lemma example_validates:
  "validate (\<lambda>_. 1) example_raw (ctx_new example_object) =
    Inr (example_valid, \<lparr>pc_src = example_object, pc_decoded = [0x61]\<rparr>)"
  by code_simp

lemma example_object_input: "utf8_ok (pc_src (ctx_new example_object))"
  by code_simp


lemma validated_keys_ascending_witness:
  "\<exists>n \<in> set (jp_nodes example_valid). \<exists>ms. jn_kind n = JObject ms \<and> length ms = 2 \<and>
    sorted_wrt (\<lambda>a b. \<exists>x y. ctx_text \<lparr>pc_src = example_object, pc_decoded = [0x61]\<rparr> (fst a) = Some x \<and>
      ctx_text \<lparr>pc_src = example_object, pc_decoded = [0x61]\<rparr> (fst b) = Some y \<and> x < y) ms"
proof -
  let ?l = "\<lparr>lc_source = 1, lc_start = 0, lc_end = 18\<rparr>"
  let ?ms = "[(TsDecoded (0, 1), \<lparr>df_key_location = ?l, df_value = 1\<rparr>),
    (TsSource (2, 3), \<lparr>df_key_location = ?l, df_value = 0\<rparr>)]"
  let ?n = "\<lparr>jn_kind = JObject ?ms, jn_location = ?l\<rparr>"
  have n: "?n \<in> set (jp_nodes example_valid)" by (simp add: example_valid_def Let_def)
  from validated_keys_ascending [OF example_validates example_json_input(3) example_object_input n, of ?ms]
  show ?thesis by (intro bexI [OF _ n] exI [of _ ?ms]) simp
qed

end
