(* ===== verification/Type_Subst.thy ===== *)
theory Type_Subst
  imports Telora_Prelude
begin

text \<open>
  Substitution in the arena of resolved types, \<^verbatim>\<open>crates/telora-core/src/mir/substitution.rs\<close>. Types
  refer to each other by index; a constructor with its arguments has one identity, kept by the table
  \<open>canonical\<close>. Identifiers are indices (\<open>nat\<close>), cut to 32 bits where the code casts. The work list
  may run for ever on a cyclic arena, so the loop is a partial function; a panic is \<open>Inl ()\<close>.
\<close>

section \<open>Types\<close>

type_synonym symbol_id = nat
type_synonym type_id = nat
type_synonym module_id = nat

record native_type_id =
  nt_module :: u32
  nt_slot :: u32

datatype type_function =
    TfArray | TfMap | TfOption | TfResult | TfFoldControl | TfTypeOf | TfUnchecked | TfTuple | TfFunc
  | TfProperty

datatype type_ctor =
    TcInt | TcFloat | TcString | TcBytes | TcBool | TcNever | TcType | TcTypeOf | TcDyn | TcOption
  | TcResult | TcFoldControl | TcPropertyTarget | TcPropertyBound | TcOptionalPropertyBound
  | TcUnchecked | TcTypeFunction type_function | TcNominal symbol_id | TcNative native_type_id
  | TcTuple | TcArray | TcArrayLiteral | TcTupleLiteral | TcTypeList | TcDict | TcFunction
  | TcQuantified u32 | TcBound u32 | TcRecord "string list" | TcNewtype | TcEnum "(string \<times> bool) list"
  | TcMeta | TcNamespace module_id | TcParameter symbol_id

record resolved_type =
  ty_ctor :: type_ctor
  ty_arguments :: "type_id list"

section \<open>The substitution\<close>

record subst_node =
  un_source :: type_id
  un_arguments :: "nat list"
  un_result :: "type_id option"

record subst_state =
  us_types :: "resolved_type list"
  us_canonical :: "type_ctor \<times> type_id list \<rightharpoonup> type_id"
  us_nodes :: "subst_node list"
  us_indexed :: "type_id \<rightharpoonup> nat"

text \<open>\<open>indexed.entry(source).or_insert_with(..)\<close>: the node of a source type.\<close>

definition intern_node :: "type_id \<Rightarrow> subst_state \<Rightarrow> nat \<times> subst_state" where
  "intern_node source s =
     (case us_indexed s source of
        Some slot \<Rightarrow> (slot, s)
      | None \<Rightarrow>
          (let slot = length (us_nodes s) in
           (slot, s\<lparr>us_nodes := us_nodes s @ [\<lparr>un_source = source, un_arguments = [], un_result = None\<rparr>],
                    us_indexed := (us_indexed s)(source \<mapsto> slot)\<rparr>)))"

fun intern_nodes :: "type_id list \<Rightarrow> subst_state \<Rightarrow> nat list \<times> subst_state" where
  "intern_nodes [] s = ([], s)"
| "intern_nodes (t # ts) s =
     (case intern_node t s of (slot, s) \<Rightarrow> (case intern_nodes ts s of (slots, s) \<Rightarrow> (slot # slots, s)))"

text \<open>\<open>canonical.entry(key).or_insert_with(..)\<close>: the identity of a constructor with its arguments.\<close>

definition intern_type :: "type_ctor \<Rightarrow> type_id list \<Rightarrow> subst_state \<Rightarrow> type_id \<times> subst_state" where
  "intern_type c args s =
     (case us_canonical s (c, args) of
        Some i \<Rightarrow> (i, s)
      | None \<Rightarrow>
          (let i = length (us_types s) mod 2 ^ 32 in
           (i, s\<lparr>us_types := us_types s @ [\<lparr>ty_ctor = c, ty_arguments = args\<rparr>],
                 us_canonical := (us_canonical s)((c, args) \<mapsto> i)\<rparr>)))"

definition set_result :: "nat \<Rightarrow> type_id \<Rightarrow> subst_state \<Rightarrow> subst_state" where
  "set_result slot r s = s\<lparr>us_nodes := (us_nodes s)[slot := (us_nodes s ! slot)\<lparr>un_result := Some r\<rparr>]\<rparr>"

definition is_unchecked :: "resolved_type list \<Rightarrow> type_id \<Rightarrow> unit + bool" where
  "is_unchecked types i =
     (if i < length types then Inr (ty_ctor (types ! i) = TcUnchecked) else Inl ())"

text \<open>The second visit of a node: its children are done.\<close>

definition finish_node :: "nat \<Rightarrow> type_ctor \<Rightarrow> subst_state \<Rightarrow> unit + subst_state" where
  "finish_node slot c s =
     (let children = un_arguments (us_nodes s ! slot) in
      if \<not> list_all (\<lambda>i. i < length (us_nodes s) \<and> un_result (us_nodes s ! i) \<noteq> None) children then Inl ()
      else
        (let args = map (\<lambda>i. the (un_result (us_nodes s ! i))) children in
         rbind (if c = TcUnchecked \<and> length args = 1 then is_unchecked (us_types s) (hd args) else Inr False)
           (\<lambda>nested.
             if nested then Inr (set_result slot (hd args) s)
             else (case intern_type c args s of (i, s) \<Rightarrow> Inr (set_result slot i s)))))"

text \<open>One entry of the work list; the entries it pushes, the next one first.\<close>

definition subst_step ::
  "(symbol_id \<rightharpoonup> type_id) \<Rightarrow> nat \<times> bool \<Rightarrow> subst_state \<Rightarrow> unit + ((nat \<times> bool) list \<times> subst_state)" where
  "subst_step parameters = (\<lambda>(slot, finish) s.
     if length (us_nodes s) \<le> slot then Inl ()
     else if un_result (us_nodes s ! slot) \<noteq> None then Inr ([], s)
     else
       (let source = un_source (us_nodes s ! slot) in
        if length (us_types s) \<le> source then Inl ()
        else
          (case ty_ctor (us_types s ! source) of
             TcParameter p \<Rightarrow>
               Inr ([], set_result slot (case parameters p of Some t \<Rightarrow> t | None \<Rightarrow> source) s)
           | c \<Rightarrow>
               if \<not> finish then
                 (case intern_nodes (ty_arguments (us_types s ! source)) s of
                    (children, s) \<Rightarrow>
                      Inr (map (\<lambda>i. (i, False)) children @ [(slot, True)],
                        s\<lparr>us_nodes := (us_nodes s)[slot := (us_nodes s ! slot)\<lparr>un_arguments := children\<rparr>]\<rparr>))
               else rbind (finish_node slot c s) (\<lambda>s. Inr ([], s)))))"

partial_function (option) subst_loop ::
  "(symbol_id \<rightharpoonup> type_id) \<Rightarrow> (nat \<times> bool) list \<Rightarrow> subst_state \<Rightarrow> (unit + subst_state) option" where
  "subst_loop parameters pending s =
     (case pending of
        [] \<Rightarrow> Some (Inr s)
      | entry # rest \<Rightarrow>
          (case subst_step parameters entry s of
             Inl e \<Rightarrow> Some (Inl e)
           | Inr (new, s) \<Rightarrow> subst_loop parameters (new @ rest) s))"

definition subst_start ::
  "resolved_type list \<Rightarrow> (type_ctor \<times> type_id list \<rightharpoonup> type_id) \<Rightarrow> type_id \<Rightarrow> subst_state" where
  "subst_start types canonical source =
     \<lparr>us_types = types, us_canonical = canonical,
      us_nodes = [\<lparr>un_source = source, un_arguments = [], un_result = None\<rparr>],
      us_indexed = [source \<mapsto> 0]\<rparr>"

definition substitute_resolved_type ::
  "(symbol_id \<rightharpoonup> type_id) \<Rightarrow> type_id \<Rightarrow> resolved_type list \<Rightarrow>
     (type_ctor \<times> type_id list \<rightharpoonup> type_id) \<Rightarrow> (unit + (type_id \<times> subst_state)) option" where
  "substitute_resolved_type parameters source types canonical =
     map_option (\<lambda>r. rbind r (\<lambda>s.
         case un_result (us_nodes s ! 0) of None \<Rightarrow> Inl () | Some i \<Rightarrow> Inr (i, s)))
       (subst_loop parameters [(0, False)] (subst_start types canonical source))"

section \<open>What the arena denotes\<close>

datatype ty_tree = TyNode type_ctor "ty_tree list"

text \<open>Children come before their parents.\<close>

definition arena_ok :: "resolved_type list \<Rightarrow> bool" where
  "arena_ok types \<longleftrightarrow> (\<forall>i < length types. \<forall>a \<in> set (ty_arguments (types ! i)). a < i)"

function tree_of :: "resolved_type list \<Rightarrow> type_id \<Rightarrow> ty_tree" where
  "tree_of types i =
     TyNode (ty_ctor (types ! i))
       (map (\<lambda>a. if a < i then tree_of types a else TyNode TcMeta []) (ty_arguments (types ! i)))"
  by pat_completeness auto
termination by (relation "measure snd") auto

declare tree_of.simps [simp del]

text \<open>\<open>Unchecked(Unchecked(T))\<close> is \<open>Unchecked(T)\<close>.\<close>

definition mk_node :: "type_ctor \<Rightarrow> ty_tree list \<Rightarrow> ty_tree" where
  "mk_node c ts =
     (case ts of
        [TyNode TcUnchecked us] \<Rightarrow> if c = TcUnchecked then TyNode TcUnchecked us else TyNode c ts
      | _ \<Rightarrow> TyNode c ts)"

fun subst_tree :: "(symbol_id \<rightharpoonup> ty_tree) \<Rightarrow> ty_tree \<Rightarrow> ty_tree" where
  "subst_tree f (TyNode c ts) =
     (case c of
        TcParameter p \<Rightarrow> (case f p of Some t \<Rightarrow> t | None \<Rightarrow> TyNode c ts)
      | _ \<Rightarrow> mk_node c (map (subst_tree f) ts))"

lemma tree_of_ok:
  assumes "arena_ok types" and "i < length types"
  shows "tree_of types i = TyNode (ty_ctor (types ! i)) (map (tree_of types) (ty_arguments (types ! i)))"
  using assms by (subst tree_of.simps) (auto simp: arena_ok_def)

lemma tree_of_append: "arena_ok types \<Longrightarrow> i < length types \<Longrightarrow> tree_of (types @ new) i = tree_of types i"
proof (induction i rule: less_induct)
  case (less i)
  have "tree_of (types @ new) a = tree_of types a" if "a \<in> set (ty_arguments (types ! i))" for a
    using less that by (auto simp: arena_ok_def)
  with less.prems show ?case
    by (subst (1 2) tree_of.simps) (auto simp: nth_append arena_ok_def)
qed

section \<open>The invariant of the work list\<close>

definition canonical_ok :: "resolved_type list \<Rightarrow> (type_ctor \<times> type_id list \<rightharpoonup> type_id) \<Rightarrow> bool" where
  "canonical_ok types canonical \<longleftrightarrow>
     (\<forall>c args i. canonical (c, args) = Some i \<longrightarrow> i < length types \<and>
        types ! i = \<lparr>ty_ctor = c, ty_arguments = args\<rparr>)"

text \<open>Every type is in the table: equal types have one identity.\<close>

definition canonical_full :: "resolved_type list \<Rightarrow> (type_ctor \<times> type_id list \<rightharpoonup> type_id) \<Rightarrow> bool" where
  "canonical_full types canonical \<longleftrightarrow>
     (\<forall>i < length types. canonical (ty_ctor (types ! i), ty_arguments (types ! i)) = Some i)"

definition resolved :: "subst_node list \<Rightarrow> nat set" where
  "resolved ns = {i. i < length ns \<and> un_result (ns ! i) \<noteq> None}"

text \<open>The tree a node is to have; \<open>t0\<close> are the types at the start.\<close>

definition goal_tree :: "(symbol_id \<rightharpoonup> type_id) \<Rightarrow> resolved_type list \<Rightarrow> type_id \<Rightarrow> ty_tree" where
  "goal_tree f t0 i = subst_tree (\<lambda>p. map_option (tree_of t0) (f p)) (tree_of t0 i)"

definition types_ok ::
  "(symbol_id \<rightharpoonup> type_id) \<Rightarrow> resolved_type list \<Rightarrow> resolved_type list \<Rightarrow>
     (type_ctor \<times> type_id list \<rightharpoonup> type_id) \<Rightarrow> bool" where
  "types_ok f t0 types canonical \<longleftrightarrow>
     arena_ok t0 \<and> 2 * length t0 \<le> 2 ^ 32 \<and> (\<forall>p t. f p = Some t \<longrightarrow> t < length t0) \<and>
     (\<exists>new. types = t0 @ new) \<and> arena_ok types \<and> canonical_ok types canonical \<and>
     (canonical_full t0 canonical \<longrightarrow> canonical_full types canonical)"

definition indexed_ok :: "(type_id \<rightharpoonup> nat) \<Rightarrow> type_id list \<Rightarrow> bool" where
  "indexed_ok indexed sources \<longleftrightarrow>
     (\<forall>src slot. indexed src = Some slot \<longleftrightarrow> slot < length sources \<and> sources ! slot = src)"

definition node_ok :: "(symbol_id \<rightharpoonup> type_id) \<Rightarrow> resolved_type list \<Rightarrow> resolved_type list \<Rightarrow> subst_node \<Rightarrow> bool" where
  "node_ok f t0 types n \<longleftrightarrow> un_source n < length t0 \<and> (\<forall>r. un_result n = Some r \<longrightarrow>
     r < length types \<and> tree_of types r = goal_tree f t0 (un_source n))"

definition subst_inv :: "(symbol_id \<rightharpoonup> type_id) \<Rightarrow> resolved_type list \<Rightarrow> subst_state \<Rightarrow> bool" where
  "subst_inv f t0 s \<longleftrightarrow>
     types_ok f t0 (us_types s) (us_canonical s) \<and> indexed_ok (us_indexed s) (map un_source (us_nodes s)) \<and>
     list_all (node_ok f t0 (us_types s)) (us_nodes s) \<and>
     length (us_types s) \<le> length t0 + card (resolved (us_nodes s))"

text \<open>Nodes of a source at or above \<open>k\<close> are left alone, results are final.\<close>

definition progress :: "nat \<Rightarrow> subst_state \<Rightarrow> subst_state \<Rightarrow> bool" where
  "progress k s t \<longleftrightarrow>
     (\<exists>new. us_types t = us_types s @ new) \<and> map_le (us_canonical s) (us_canonical t) \<and>
     length (us_nodes s) \<le> length (us_nodes t) \<and>
     (\<forall>i < length (us_nodes s). un_source (us_nodes t ! i) = un_source (us_nodes s ! i) \<and>
        (k \<le> un_source (us_nodes s ! i) \<longrightarrow> us_nodes t ! i = us_nodes s ! i) \<and>
        (un_result (us_nodes s ! i) \<noteq> None \<longrightarrow> un_result (us_nodes t ! i) = un_result (us_nodes s ! i)))"

lemma progress_refl: "progress k s s"
  by (simp add: progress_def)

lemma progress_trans:
  assumes "progress k s t" and "progress k t u"
  shows "progress k s u"
proof -
  have "us_nodes u ! i = us_nodes s ! i" if "i < length (us_nodes s)" "k \<le> un_source (us_nodes s ! i)" for i
    using assms that unfolding progress_def by (metis order_less_le_trans)
  moreover have "un_source (us_nodes u ! i) = un_source (us_nodes s ! i) \<and>
      (un_result (us_nodes s ! i) \<noteq> None \<longrightarrow> un_result (us_nodes u ! i) = un_result (us_nodes s ! i))"
    if "i < length (us_nodes s)" for i
    using assms that unfolding progress_def by (metis order_less_le_trans)
  ultimately show ?thesis using assms by (auto simp: progress_def intro: map_le_trans)
qed

lemma progress_mono: "progress k s t \<Longrightarrow> k \<le> m \<Longrightarrow> progress m s t"
  by (auto simp: progress_def)

lemma subst_invD:
  assumes "subst_inv f t0 s"
  shows "arena_ok t0" and "arena_ok (us_types s)" and "canonical_ok (us_types s) (us_canonical s)"
    and "i < length (us_nodes s) \<Longrightarrow> un_source (us_nodes s ! i) < length t0"
    and "i < length (us_nodes s) \<Longrightarrow> un_result (us_nodes s ! i) = Some r \<Longrightarrow> r < length (us_types s) \<and>
      tree_of (us_types s) r = goal_tree f t0 (un_source (us_nodes s ! i))"
    and "k < length t0 \<Longrightarrow> us_types s ! k = t0 ! k" and "length t0 \<le> length (us_types s)"
    and "f p = Some t \<Longrightarrow> t < length t0"
  using assms by (auto simp: subst_inv_def types_ok_def node_ok_def list_all_length nth_append)

lemma indexedD:
  assumes "subst_inv f t0 s"
  shows "us_indexed s src = Some slot \<longleftrightarrow> slot < length (us_nodes s) \<and> un_source (us_nodes s ! slot) = src"
  using assms by (auto simp: subst_inv_def indexed_ok_def)

text \<open>One node per source, so there are at most as many as types.\<close>

lemma node_count:
  assumes "subst_inv f t0 s"
  shows "length (us_nodes s) \<le> length t0"
proof -
  have "inj_on (\<lambda>i. un_source (us_nodes s ! i)) {..<length (us_nodes s)}"
  proof (rule inj_onI)
    fix i j assume "i \<in> {..<length (us_nodes s)}" "j \<in> {..<length (us_nodes s)}"
      and "un_source (us_nodes s ! i) = un_source (us_nodes s ! j)"
    then have "us_indexed s (un_source (us_nodes s ! i)) = Some i"
      "us_indexed s (un_source (us_nodes s ! i)) = Some j"
      using indexedD [OF assms] by auto
    then show "i = j" by simp
  qed
  moreover have "(\<lambda>i. un_source (us_nodes s ! i)) ` {..<length (us_nodes s)} \<subseteq> {..<length t0}"
    using subst_invD(4) [OF assms] by auto
  ultimately have "card {..<length (us_nodes s)} \<le> card {..<length t0}"
    by (intro card_inj_on_le) auto
  then show ?thesis by simp
qed

lemma resolved_simps:
  "un_result n = None \<Longrightarrow> resolved (ns @ [n]) = resolved ns"
  "i < length ns \<Longrightarrow> un_result n = un_result (ns ! i) \<Longrightarrow> resolved (ns[i := n]) = resolved ns"
  "i < length ns \<Longrightarrow> un_result n \<noteq> None \<Longrightarrow> resolved (ns[i := n]) = insert i (resolved ns)"
  by (auto simp: resolved_def nth_append nth_list_update)

lemma finite_resolved [simp]: "finite (resolved ns)"
  by (simp add: resolved_def)

lemma resolved_less:
  assumes "i < length ns" and "un_result (ns ! i) = None"
  shows "card (resolved ns) < length ns"
proof -
  have "resolved ns \<subseteq> {..<length ns}" by (auto simp: resolved_def)
  moreover have "i \<in> {..<length ns}" "i \<notin> resolved ns" using assms by (simp_all add: resolved_def)
  ultimately have "resolved ns \<subset> {..<length ns}" by blast
  have "card (resolved ns) < card {..<length ns}"
    by (rule psubset_card_mono [OF finite_lessThan \<open>resolved ns \<subset> {..<length ns}\<close>])
  then show ?thesis by simp
qed

text \<open>Interning the children of a node.\<close>

lemma index_push: "indexed_ok idx srcs \<Longrightarrow> idx src = None \<Longrightarrow> indexed_ok (idx(src \<mapsto> length srcs)) (srcs @ [src])"
  unfolding indexed_ok_def
proof (intro allI)
  fix x slot
  assume ok: "\<forall>x slot. idx x = Some slot \<longleftrightarrow> slot < length srcs \<and> srcs ! slot = x" and "idx src = None"
  then have "\<not> (slot < length srcs \<and> srcs ! slot = src)" by (metis option.distinct(1))
  with ok show "(idx(src \<mapsto> length srcs)) x = Some slot \<longleftrightarrow>
      slot < length (srcs @ [src]) \<and> (srcs @ [src]) ! slot = x"
    by (cases "slot = length srcs") (auto simp: nth_append)
qed

lemma intern_node_inv:
  assumes "subst_inv f t0 s" and "source < length t0" and "intern_node source s = (slot, t)"
  shows "subst_inv f t0 t \<and> (\<exists>new. us_nodes t = us_nodes s @ new) \<and> us_types t = us_types s \<and>
    us_canonical t = us_canonical s \<and>
    slot < length (us_nodes t) \<and> un_source (us_nodes t ! slot) = source"
proof (cases "us_indexed s source")
  case None
  let ?n = "\<lparr>un_source = source, un_arguments = [], un_result = None\<rparr>"
  have t: "t = s\<lparr>us_nodes := us_nodes s @ [?n], us_indexed := (us_indexed s)(source \<mapsto> length (us_nodes s))\<rparr>"
    and slot: "slot = length (us_nodes s)" using assms(3) None by (auto simp: intern_node_def Let_def)
  have "indexed_ok ((us_indexed s)(source \<mapsto> length (us_nodes s))) (map un_source (us_nodes s) @ [source])"
    using index_push [of "us_indexed s" "map un_source (us_nodes s)" source] assms(1) None
    by (simp add: subst_inv_def)
  moreover have "node_ok f t0 (us_types s) ?n" using assms(2) by (simp add: node_ok_def)
  ultimately show ?thesis
    using assms(1) t slot by (simp add: subst_inv_def resolved_simps)
next
  case (Some x)
  with assms indexedD [OF assms(1)] show ?thesis by (auto simp: intern_node_def)
qed

lemma intern_nodes_inv:
  assumes "subst_inv f t0 s" and "\<forall>t \<in> set ts. t < length t0" and "intern_nodes ts s = (slots, t)"
  shows "subst_inv f t0 t \<and> (\<exists>new. us_nodes t = us_nodes s @ new) \<and> us_types t = us_types s \<and>
    us_canonical t = us_canonical s \<and>
    (\<forall>i \<in> set slots. i < length (us_nodes t)) \<and> map (\<lambda>i. un_source (us_nodes t ! i)) slots = ts"
  using assms
proof (induction ts arbitrary: s slots)
  case (Cons x ts)
  then obtain a u b where u: "intern_node x s = (a, u)" and r: "intern_nodes ts u = (b, t)" and s: "slots = a # b"
    by (auto split: prod.splits)
  note i = intern_node_inv [OF Cons.prems(1) _ u]
  from i Cons.prems(2) have "subst_inv f t0 u" by simp
  note j = Cons.IH [OF this _ r]
  from i j Cons.prems(2) s show ?case by (auto simp: nth_append)
qed simp

lemma sources_update:
  "un_source n = un_source (ns ! i) \<Longrightarrow> map un_source (ns[i := n]) = map un_source ns"
  by (metis list_update_id map_update)

lemma list_all_update: "list_all P xs \<Longrightarrow> P x \<Longrightarrow> list_all P (xs[i := x])"
  using set_update_subset_insert [of xs i x] by (auto simp: list_all_iff)

lemma node_update_inv:
  assumes "subst_inv f t0 s" and "slot < length (us_nodes s)"
    and "un_source n = un_source (us_nodes s ! slot)" and "un_result n = un_result (us_nodes s ! slot)"
  shows "subst_inv f t0 (s\<lparr>us_nodes := (us_nodes s)[slot := n]\<rparr>)"
proof -
  have "node_ok f t0 (us_types s) n"
    using assms by (auto simp: subst_inv_def node_ok_def list_all_length)
  with assms(1) show ?thesis
    by (simp add: subst_inv_def sources_update [OF assms(3)] resolved_simps(2) [OF assms(2,4)] list_all_update)
qed

lemma set_result_inv:
  assumes "subst_inv f t0 s" and "slot < length (us_nodes s)" and "un_result (us_nodes s ! slot) = None"
    and "r < length (us_types s)" and "tree_of (us_types s) r = goal_tree f t0 (un_source (us_nodes s ! slot))"
  shows "subst_inv f t0 (set_result slot r s)"
    and "progress (Suc (un_source (us_nodes s ! slot))) s (set_result slot r s)"
    and "un_result (us_nodes (set_result slot r s) ! slot) = Some r"
proof -
  let ?n = "(us_nodes s ! slot)\<lparr>un_result := Some r\<rparr>"
  have "node_ok f t0 (us_types s) ?n"
    using assms subst_invD(4) [OF assms(1,2)] by (simp add: node_ok_def)
  moreover have "card (resolved (us_nodes s)) \<le> card (resolved ((us_nodes s)[slot := ?n]))"
    using resolved_simps(3) [OF assms(2), of ?n] by (simp add: card_insert_le)
  ultimately show "subst_inv f t0 (set_result slot r s)"
    using assms(1) by (simp add: subst_inv_def set_result_def sources_update list_all_update)
  show "progress (Suc (un_source (us_nodes s ! slot))) s (set_result slot r s)"
    using assms(2,3) by (auto simp: progress_def set_result_def nth_list_update)
  show "un_result (us_nodes (set_result slot r s) ! slot) = Some r"
    using assms(2) by (simp add: set_result_def)
qed

lemma arena_push: "arena_ok ts \<Longrightarrow> \<forall>a \<in> set args. a < length ts \<Longrightarrow> arena_ok (ts @ [\<lparr>ty_ctor = c, ty_arguments = args\<rparr>])"
  by (auto simp: arena_ok_def nth_append less_Suc_eq)

lemma full_push:
  assumes "canonical_ok ts cn" and "cn (c, args) = None"
    and "canonical_full t0 cn \<longrightarrow> canonical_full (t0 @ new) cn" and "ts = t0 @ new"
    and "canonical_full t0 (cn((c, args) \<mapsto> length ts))"
  shows "canonical_full (ts @ [\<lparr>ty_ctor = c, ty_arguments = args\<rparr>]) (cn((c, args) \<mapsto> length ts))"
proof -
  have "cn (ty_ctor (t0 ! i), ty_arguments (t0 ! i)) = Some i" if "i < length t0" for i
    using assms(4,5) that by (auto simp: canonical_full_def split: if_splits)
  then have "canonical_full ts cn" using assms(3,4) by (simp add: canonical_full_def)
  with assms(2) show ?thesis by (auto simp: canonical_full_def nth_append less_Suc_eq)
qed

lemma canonical_push:
  "canonical_ok ts cn \<Longrightarrow>
    canonical_ok (ts @ [\<lparr>ty_ctor = c, ty_arguments = args\<rparr>]) (cn((c, args) \<mapsto> length ts))"
  by (auto simp: canonical_ok_def nth_append less_Suc_eq)

lemma tree_grows: "arena_ok ts \<Longrightarrow> node_ok f t0 ts n \<Longrightarrow> node_ok f t0 (ts @ new) n"
  by (auto simp: node_ok_def tree_of_append)

text \<open>A new identity is only given to a new type, and identifiers do not wrap.\<close>

lemma intern_type_inv:
  assumes "subst_inv f t0 s" and "slot < length (us_nodes s)" and "un_result (us_nodes s ! slot) = None"
    and "\<forall>a \<in> set args. a < length (us_types s)" and "intern_type c args s = (i, t)"
    and "TyNode c (map (tree_of (us_types s)) args) = goal_tree f t0 (un_source (us_nodes s ! slot))"
  shows "subst_inv f t0 (set_result slot i t)"
    and "progress (Suc (un_source (us_nodes s ! slot))) s (set_result slot i t)"
    and "un_result (us_nodes (set_result slot i t) ! slot) = Some i"
proof -
  note D = subst_invD [OF assms(1)]
  have "subst_inv f t0 (set_result slot i t) \<and>
      progress (Suc (un_source (us_nodes s ! slot))) s (set_result slot i t) \<and>
      un_result (us_nodes (set_result slot i t) ! slot) = Some i"
  proof (cases "us_canonical s (c, args)")
    case (Some j)
    with D(3) have j: "j < length (us_types s)" "us_types s ! j = \<lparr>ty_ctor = c, ty_arguments = args\<rparr>"
      by (auto simp: canonical_ok_def)
    then have "tree_of (us_types s) j = TyNode c (map (tree_of (us_types s)) args)"
      using tree_of_ok [OF D(2) j(1)] by simp
    with set_result_inv [OF assms(1-3) j(1)] Some assms(5,6) show ?thesis by (auto simp: intern_type_def)
  next
    case None
    let ?ts = "us_types s @ [\<lparr>ty_ctor = c, ty_arguments = args\<rparr>]" and ?i = "length (us_types s)"
    let ?cn = "(us_canonical s)((c, args) \<mapsto> ?i)"
    have "?i < 2 * length t0"
      using assms(1) resolved_less [OF assms(2,3)] node_count [OF assms(1)] by (auto simp: subst_inv_def)
    then have "?i mod 2 ^ 32 = ?i" using assms(1) by (simp add: subst_inv_def types_ok_def)
    with None assms(5) have t: "t = s\<lparr>us_types := ?ts, us_canonical := ?cn\<rparr>" and i: "i = ?i"
      by (auto simp: intern_type_def Let_def)
    obtain new where new: "us_types s = t0 @ new" using assms(1) by (auto simp: subst_inv_def types_ok_def)
    note ok = arena_push [OF D(2) assms(4), of c]
    have types: "types_ok f t0 ?ts ?cn"
      using assms(1) ok canonical_push [OF D(3)] full_push [OF D(3) None _ new] new
      by (auto simp: subst_inv_def types_ok_def)
    have "tree_of ?ts a = tree_of (us_types s) a" if "a \<in> set args" for a
      using tree_of_append [OF D(2)] assms(4) that by blast
    with tree_of_ok [OF ok, of ?i] assms(6)
    have tree: "tree_of ?ts ?i = goal_tree f t0 (un_source (us_nodes s ! slot))" by (simp cong: map_cong)
    let ?n = "(us_nodes s ! slot)\<lparr>un_result := Some ?i\<rparr>"
    have nodes: "list_all (node_ok f t0 ?ts) (us_nodes s)"
      using assms(1) tree_grows [OF D(2)] by (auto simp: subst_inv_def list_all_iff)
    have "node_ok f t0 ?ts ?n" using tree D(4) [OF assms(2)] by (simp add: node_ok_def)
    moreover have "card (resolved ((us_nodes s)[slot := ?n])) = Suc (card (resolved (us_nodes s)))"
      using resolved_simps(3) [OF assms(2), of ?n] assms(3) by (simp add: resolved_def)
    ultimately have "subst_inv f t0 (set_result slot i t)"
      using assms(1) t i types nodes by (simp add: subst_inv_def set_result_def sources_update list_all_update)
    moreover have "map_le (us_canonical s) ?cn" using None by (auto simp: map_le_def)
    then have "progress (Suc (un_source (us_nodes s ! slot))) s (set_result slot i t)"
      using assms(2,3) t by (auto simp: progress_def set_result_def nth_list_update)
    ultimately show ?thesis using assms(2) t by (simp add: set_result_def)
  qed
  then show "subst_inv f t0 (set_result slot i t)"
    "progress (Suc (un_source (us_nodes s ! slot))) s (set_result slot i t)"
    "un_result (us_nodes (set_result slot i t) ! slot) = Some i" by auto
qed

text \<open>The second visit of a node gives its tree.\<close>

lemma goal_tree_node:
  assumes "arena_ok t0" and "k < length t0" and "\<forall>p. ty_ctor (t0 ! k) \<noteq> TcParameter p"
  shows "goal_tree f t0 k = mk_node (ty_ctor (t0 ! k)) (map (goal_tree f t0) (ty_arguments (t0 ! k)))"
  unfolding goal_tree_def tree_of_ok [OF assms(1,2)] using assms(3)
  by (cases "ty_ctor (t0 ! k)") (simp_all add: comp_def goal_tree_def)

lemma mk_node_plain: "\<not> (c = TcUnchecked \<and> (\<exists>us. ts = [TyNode TcUnchecked us])) \<Longrightarrow> mk_node c ts = TyNode c ts"
  by (auto simp: mk_node_def split: list.splits ty_tree.splits type_ctor.splits)

lemma finish_inv:
  assumes "subst_inv f t0 s" and "slot < length (us_nodes s)" and "un_result (us_nodes s ! slot) = None"
    and "un_source (us_nodes s ! slot) = k" and "\<forall>p. ty_ctor (t0 ! k) \<noteq> TcParameter p"
    and "\<forall>i \<in> set (un_arguments (us_nodes s ! slot)). i < length (us_nodes s) \<and> un_result (us_nodes s ! i) \<noteq> None"
    and "map (\<lambda>i. un_source (us_nodes s ! i)) (un_arguments (us_nodes s ! slot)) = ty_arguments (t0 ! k)"
  shows "\<exists>t. finish_node slot (ty_ctor (t0 ! k)) s = Inr t \<and> subst_inv f t0 t \<and> progress (Suc k) s t \<and>
    un_result (us_nodes t ! slot) \<noteq> None"
proof -
  note D = subst_invD [OF assms(1)]
  let ?cs = "un_arguments (us_nodes s ! slot)" and ?c = "ty_ctor (t0 ! k)"
  let ?args = "map (\<lambda>i. the (un_result (us_nodes s ! i))) ?cs"
  have k: "k < length t0" using D(4) [OF assms(2)] assms(4) by simp
  have child: "the (un_result (us_nodes s ! i)) < length (us_types s) \<and>
      tree_of (us_types s) (the (un_result (us_nodes s ! i))) = goal_tree f t0 (un_source (us_nodes s ! i))"
    if "i \<in> set ?cs" for i
    using D(5) [of i] assms(6) that by (metis option.collapse)
  then have args: "\<forall>a \<in> set ?args. a < length (us_types s)" by auto
  have "map (tree_of (us_types s)) ?args = map (\<lambda>i. goal_tree f t0 (un_source (us_nodes s ! i))) ?cs"
    using child by (simp add: comp_def)
  also have "\<dots> = map (goal_tree f t0) (ty_arguments (t0 ! k))"
    unfolding assms(7) [symmetric] by (simp add: comp_def)
  finally have trees: "map (tree_of (us_types s)) ?args = map (goal_tree f t0) (ty_arguments (t0 ! k))" .
  have goal: "goal_tree f t0 k = mk_node ?c (map (tree_of (us_types s)) ?args)"
    unfolding trees by (rule goal_tree_node [OF D(1) k assms(5)])
  have all: "list_all (\<lambda>i. i < length (us_nodes s) \<and> un_result (us_nodes s ! i) \<noteq> None) ?cs"
    using assms(6) by (simp add: list_all_iff)
  show ?thesis
  proof (cases "?c = TcUnchecked \<and> length ?args = 1 \<and> ty_ctor (us_types s ! hd ?args) = TcUnchecked")
    case True
    then obtain a where a: "?args = [a]" by (cases ?args) auto
    with args have al: "a < length (us_types s)" by simp
    with True a have "tree_of (us_types s) a = TyNode TcUnchecked (map (tree_of (us_types s)) (ty_arguments (us_types s ! a)))"
      using tree_of_ok [OF D(2) al] by simp
    with goal a True have "tree_of (us_types s) a = goal_tree f t0 (un_source (us_nodes s ! slot))"
      using assms(4) by (simp add: mk_node_def)
    note r = set_result_inv [OF assms(1-3) al this]
    have "finish_node slot ?c s = Inr (set_result slot a s)"
      using all True a al by (simp add: finish_node_def Let_def is_unchecked_def)
    with r assms(4) show ?thesis by auto
  next
    case False
    have plain: "mk_node ?c (map (tree_of (us_types s)) ?args) = TyNode ?c (map (tree_of (us_types s)) ?args)"
    proof (rule mk_node_plain, rule notI)
      assume c: "?c = TcUnchecked \<and> (\<exists>us. map (tree_of (us_types s)) ?args = [TyNode TcUnchecked us])"
      then obtain a us where a: "?args = [a]" "tree_of (us_types s) a = TyNode TcUnchecked us" by auto
      with args have "a < length (us_types s)" by simp
      with tree_of_ok [OF D(2)] a(2) have "ty_ctor (us_types s ! a) = TcUnchecked" by simp
      with False a(1) c show False by simp
    qed
    obtain i t where t: "intern_type ?c ?args s = (i, t)" by force
    have "TyNode ?c (map (tree_of (us_types s)) ?args) = goal_tree f t0 (un_source (us_nodes s ! slot))"
      unfolding assms(4) goal plain by (rule refl)
    note r = intern_type_inv [OF assms(1-3) args t this]
    have "finish_node slot ?c s = Inr (set_result slot i t)"
    proof (cases "?c = TcUnchecked \<and> length ?args = 1")
      case True
      then obtain a where a: "?args = [a]" by (cases ?args) auto
      with args False True have "is_unchecked (us_types s) (hd ?args) = Inr False" by (simp add: is_unchecked_def)
      with all True t show ?thesis by (simp add: finish_node_def Let_def)
    next
      case False
      with all t show ?thesis by (auto simp: finish_node_def Let_def)
    qed
    with r assms(4) show ?thesis by auto
  qed
qed

section \<open>The loop\<close>

lemma loop_step:
  "subst_step f entry s = Inr (new, t) \<Longrightarrow> subst_loop f (entry # rest) s = subst_loop f (new @ rest) t"
  by (subst subst_loop.simps) simp

text \<open>A node is done: the loop reaches the rest of its work list with the result in place.\<close>

definition node_done :: "(symbol_id \<rightharpoonup> type_id) \<Rightarrow> resolved_type list \<Rightarrow> nat \<Rightarrow> (nat \<times> bool) list \<Rightarrow> nat set \<Rightarrow>
    subst_state \<Rightarrow> subst_state \<Rightarrow> bool" where
  "node_done f t0 k work slots s t \<longleftrightarrow>
     (\<forall>rest. subst_loop f (work @ rest) s = subst_loop f rest t) \<and> subst_inv f t0 t \<and> progress k s t \<and>
     (\<forall>i \<in> slots. un_result (us_nodes t ! i) \<noteq> None)"

lemma children_done:
  assumes "\<And>i s. subst_inv f t0 s \<Longrightarrow> i < length (us_nodes s) \<Longrightarrow> un_source (us_nodes s ! i) < k \<Longrightarrow>
      \<exists>t. node_done f t0 k [(i, False)] {i} s t"
    and "subst_inv f t0 s" and "\<forall>i \<in> set cs. i < length (us_nodes s) \<and> un_source (us_nodes s ! i) < k"
  shows "\<exists>t. node_done f t0 k (map (\<lambda>i. (i, False)) cs) (set cs) s t"
  using assms(2,3)
proof (induction cs arbitrary: s)
  case Nil
  then show ?case by (auto simp: node_done_def progress_refl intro!: exI [of _ s])
next
  case (Cons i cs)
  from Cons.prems(2) have "i < length (us_nodes s)" "un_source (us_nodes s ! i) < k" by simp_all
  from assms(1) [OF Cons.prems(1) this] obtain t where t: "node_done f t0 k [(i, False)] {i} s t" by blast
  then have p: "progress k s t" "subst_inv f t0 t" "un_result (us_nodes t ! i) \<noteq> None"
    by (simp_all add: node_done_def)
  have "\<forall>i \<in> set cs. i < length (us_nodes t) \<and> un_source (us_nodes t ! i) < k"
    using Cons.prems(2) p(1) by (auto simp: progress_def)
  from Cons.IH [OF p(2) this] obtain u where u: "node_done f t0 k (map (\<lambda>i. (i, False)) cs) (set cs) t u" by blast
  have "un_result (us_nodes u ! i) \<noteq> None"
    using u p(3) Cons.prems(2) p(1) by (auto simp: node_done_def progress_def)
  with t u show ?case
    by (intro exI [of _ u]) (auto simp: node_done_def intro: progress_trans)
qed

lemma node_reaches_done:
  "subst_inv f t0 s \<Longrightarrow> slot < length (us_nodes s) \<Longrightarrow> un_source (us_nodes s ! slot) = k \<Longrightarrow>
    \<exists>t. node_done f t0 (Suc k) [(slot, False)] {slot} s t"
proof (induction k arbitrary: slot s rule: less_induct)
  case (less k)
  note D = subst_invD [OF less.prems(1)]
  have k: "k < length t0" using D(4) [OF less.prems(2)] less.prems(3) by simp
  then have kt: "\<not> length (us_types s) \<le> k" "us_types s ! k = t0 ! k" using D(6,7) by auto
  show ?case
  proof (cases "un_result (us_nodes s ! slot)")
    case (Some r)
    then have "subst_step f (slot, False) s = Inr ([], s)" using less.prems(2) by (simp add: subst_step_def)
    with less.prems Some loop_step show ?thesis
      by (intro exI [of _ s]) (simp add: node_done_def progress_refl)
  next
    case None
    show ?thesis
    proof (cases "\<exists>p. ty_ctor (t0 ! k) = TcParameter p")
      case True
      then obtain p where p: "ty_ctor (t0 ! k) = TcParameter p" by blast
      let ?r = "case f p of Some t \<Rightarrow> t | None \<Rightarrow> k"
      have step: "subst_step f (slot, False) s = Inr ([], set_result slot ?r s)"
        using less.prems None kt p by (simp add: subst_step_def Let_def)
      have r0: "?r < length t0" using k D(8) [of p] by (cases "f p") auto
      obtain new where new: "us_types s = t0 @ new" using less.prems(1) by (auto simp: subst_inv_def types_ok_def)
      have "tree_of (us_types s) ?r = tree_of t0 ?r" unfolding new by (rule tree_of_append [OF D(1) r0])
      also have "\<dots> = goal_tree f t0 k"
        using p by (cases "f p") (simp_all add: goal_tree_def tree_of_ok [OF D(1) k])
      finally have "tree_of (us_types s) ?r = goal_tree f t0 (un_source (us_nodes s ! slot))"
        using less.prems(3) by simp
      note res = set_result_inv [OF less.prems(1,2) None _ this]
      from res r0 D(7) less.prems(3) loop_step [OF step] show ?thesis
        by (intro exI [of _ "set_result slot ?r s"]) (simp add: node_done_def)
    next
      case False
      obtain cs u where u: "intern_nodes (ty_arguments (t0 ! k)) s = (cs, u)" by force
      have kids: "\<forall>t \<in> set (ty_arguments (t0 ! k)). t < k" using D(1) k by (auto simp: arena_ok_def)
      then have "\<forall>t \<in> set (ty_arguments (t0 ! k)). t < length t0" using k by auto
      note iu = intern_nodes_inv [OF less.prems(1) this u]
      let ?n = "(us_nodes u ! slot)\<lparr>un_arguments := cs\<rparr>"
      let ?v = "u\<lparr>us_nodes := (us_nodes u)[slot := ?n]\<rparr>"
      obtain more where more: "us_nodes u = us_nodes s @ more" using iu by blast
      have su: "slot < length (us_nodes u)" "us_nodes u ! slot = us_nodes s ! slot"
        using less.prems(2) more by (simp_all add: nth_append)
      have step: "subst_step f (slot, False) s = Inr (map (\<lambda>i. (i, False)) cs @ [(slot, True)], ?v)"
        using less.prems(2,3) None kt False u
        by (cases "ty_ctor (t0 ! k)") (simp_all add: subst_step_def Let_def)
      have vinv: "subst_inv f t0 ?v" using iu su by (intro node_update_inv) auto
      have sv: "progress (Suc k) s ?v"
        using iu more less.prems(2,3) None su by (auto simp: progress_def nth_append nth_list_update)
      have csv: "\<forall>i \<in> set cs. i < length (us_nodes ?v) \<and> un_source (us_nodes ?v ! i) < k"
        and srcs: "map (\<lambda>i. un_source (us_nodes ?v ! i)) cs = ty_arguments (t0 ! k)"
      proof -
        have "un_source (us_nodes ?v ! i) = un_source (us_nodes u ! i)" for i
          by (cases "i = slot") (use su in auto)
        with iu show m: "map (\<lambda>i. un_source (us_nodes ?v ! i)) cs = ty_arguments (t0 ! k)" by simp
        have "un_source (us_nodes ?v ! i) \<in> set (ty_arguments (t0 ! k))" if "i \<in> set cs" for i
          unfolding m [symmetric] using that by simp
        with kids iu show "\<forall>i \<in> set cs. i < length (us_nodes ?v) \<and> un_source (us_nodes ?v ! i) < k" by auto
      qed
      have ih: "\<exists>t. node_done f t0 k [(i, False)] {i} s t"
        if "subst_inv f t0 s" "i < length (us_nodes s)" "un_source (us_nodes s ! i) < k" for i s
        using less.IH [OF that(3,1,2) refl] that(3) progress_mono
        by (fastforce simp: node_done_def)
      obtain w where w: "node_done f t0 k (map (\<lambda>i. (i, False)) cs) (set cs) ?v w"
        using children_done [OF ih vinv csv] by blast
      then have winv: "subst_inv f t0 w" and vw: "progress k ?v w"
        and wres: "\<forall>i \<in> set cs. un_result (us_nodes w ! i) \<noteq> None"
        and run: "\<And>rest. subst_loop f (map (\<lambda>i. (i, False)) cs @ rest) ?v = subst_loop f rest w"
        by (simp_all add: node_done_def)
      have slotw: "us_nodes w ! slot = ?n" "slot < length (us_nodes w)"
        using vw su less.prems(3) by (auto simp: progress_def)
      have kidsw: "\<forall>i \<in> set cs. i < length (us_nodes w) \<and> un_source (us_nodes w ! i) = un_source (us_nodes ?v ! i)"
        using vw csv by (auto simp: progress_def)
      have nw: "un_result (us_nodes w ! slot) = None" "un_source (us_nodes w ! slot) = k"
        "un_arguments (us_nodes w ! slot) = cs"
        using slotw(1) su(2) None less.prems(3) by simp_all
      have "map (\<lambda>i. un_source (us_nodes w ! i)) cs = ty_arguments (t0 ! k)"
        unfolding srcs [symmetric] using kidsw by simp
      with kidsw wres nw(3) finish_inv [OF winv slotw(2) nw(1,2)] False
      obtain t where t: "finish_node slot (ty_ctor (t0 ! k)) w = Inr t" "subst_inv f t0 t" "progress (Suc k) w t"
        "un_result (us_nodes t ! slot) \<noteq> None" by auto
      have "\<not> length (us_types w) \<le> k" "us_types w ! k = t0 ! k"
        using subst_invD(6,7) [OF winv] k by auto
      then have fin: "subst_step f (slot, True) w = Inr ([], t)"
        using slotw(2) nw False t(1)
        by (cases "ty_ctor (t0 ! k)") (simp_all add: subst_step_def Let_def)
      have "subst_loop f ((slot, False) # rest) s = subst_loop f rest t" for rest
        using loop_step [OF step, of rest] run [of "(slot, True) # rest"] loop_step [OF fin, of rest] by simp
      moreover have "progress (Suc k) s t"
        using progress_trans [OF sv progress_trans [OF progress_mono [OF vw] t(3)]] by simp
      ultimately show ?thesis using t by (intro exI [of _ t]) (simp add: node_done_def)
    qed
  qed
qed

section \<open>Guarantees\<close>

lemma subst_start_inv:
  assumes "arena_ok types" and "canonical_ok types canonical" and "source < length types"
    and "\<forall>p t. f p = Some t \<longrightarrow> t < length types" and "2 * length types \<le> 2 ^ 32"
  shows "subst_inv f types (subst_start types canonical source)"
  using assms
  by (auto simp: subst_inv_def subst_start_def types_ok_def indexed_ok_def node_ok_def split: if_splits)

lemma substitution_returns:
  assumes "arena_ok types" and "canonical_ok types canonical" and "source < length types"
    and "\<forall>p t. f p = Some t \<longrightarrow> t < length types" and "2 * length types \<le> 2 ^ 32"
  shows "\<exists>i s. substitute_resolved_type f source types canonical = Some (Inr (i, s)) \<and>
    subst_inv f types s \<and> map_le canonical (us_canonical s) \<and> i < length (us_types s) \<and> tree_of (us_types s) i = goal_tree f types source"
proof -
  let ?s = "subst_start types canonical source"
  note inv = subst_start_inv [OF assms]
  have "0 < length (us_nodes ?s)" "un_source (us_nodes ?s ! 0) = source" by (simp_all add: subst_start_def)
  from node_reaches_done [OF inv this] obtain t where t: "node_done f types (Suc source) [(0, False)] {0} ?s t"
    by blast
  then have tinv: "subst_inv f types t" and run: "subst_loop f [(0, False)] ?s = subst_loop f [] t"
    and p: "progress (Suc source) ?s t" and res: "un_result (us_nodes t ! 0) \<noteq> None"
    unfolding node_done_def by (blast, metis append_Nil2, blast, blast)
  have n0: "0 < length (us_nodes t)" "un_source (us_nodes t ! 0) = source" "map_le canonical (us_canonical t)"
    using p by (auto simp: progress_def subst_start_def)
  obtain i where i: "un_result (us_nodes t ! 0) = Some i" using res by blast
  have "subst_loop f [] t = Some (Inr t)" by (subst subst_loop.simps) simp
  with run i have "substitute_resolved_type f source types canonical = Some (Inr (i, t))"
    by (simp add: substitute_resolved_type_def)
  with tinv subst_invD(5) [OF tinv n0(1) i] n0(2,3) show ?thesis by auto
qed

text \<open>
  C15: Substitution always returns, and computes substitution. On an arena whose types come after
  their arguments, with arguments of the substitution in the arena, the work list terminates without
  a panic; the type it returns denotes the source with its parameters replaced (and nested
  \<open>Unchecked\<close> merged), every type there was is still there, and the arena is again well-formed.
\<close>

theorem substitution_correct:
  assumes "arena_ok types" and "canonical_ok types canonical" and "source < length types"
    and "\<forall>p t. parameters p = Some t \<longrightarrow> t < length types" and "2 * length types \<le> 2 ^ 32"
  shows "\<exists>i s. substitute_resolved_type parameters source types canonical = Some (Inr (i, s)) \<and>
    tree_of (us_types s) i =
      subst_tree (\<lambda>p. map_option (tree_of types) (parameters p)) (tree_of types source) \<and>
    i < length (us_types s) \<and> (\<exists>new. us_types s = types @ new) \<and> arena_ok (us_types s) \<and>
    canonical_ok (us_types s) (us_canonical s)"
  using substitution_returns [OF assms] by (auto simp: subst_inv_def types_ok_def goal_tree_def)

text \<open>Equal trees have one identity in a full arena.\<close>

lemma full_injective:
  assumes "arena_ok types" and "canonical_full types canonical"
  shows "i < length types \<Longrightarrow> j < length types \<Longrightarrow> tree_of types i = tree_of types j \<Longrightarrow> i = j"
proof (induction i arbitrary: j rule: less_induct)
  case (less i)
  have eq: "ty_ctor (types ! i) = ty_ctor (types ! j)"
    "map (tree_of types) (ty_arguments (types ! i)) = map (tree_of types) (ty_arguments (types ! j))"
    using less.prems tree_of_ok [OF assms(1)] by auto
  have "ty_arguments (types ! i) = ty_arguments (types ! j)"
  proof (rule nth_equalityI)
    show "length (ty_arguments (types ! i)) = length (ty_arguments (types ! j))"
      using arg_cong [OF eq(2), of length] by simp
    fix n assume n: "n < length (ty_arguments (types ! i))"
    with eq(2) have "tree_of types (ty_arguments (types ! i) ! n) = tree_of types (ty_arguments (types ! j) ! n)"
      using arg_cong [OF eq(2), of length] by (metis length_map nth_map)
    moreover have "ty_arguments (types ! i) ! n < i" "ty_arguments (types ! j) ! n < j"
      using assms(1) less.prems n arg_cong [OF eq(2), of length] by (auto simp: arena_ok_def)
    ultimately show "ty_arguments (types ! i) ! n = ty_arguments (types ! j) ! n"
      using less.IH less.prems by auto
  qed
  with eq(1) assms(2) less.prems show ?case by (metis canonical_full_def option.inject)
qed

text \<open>
  C16: Types keep one identity. If every type of the arena is in the table of canonical types, then so
  it is after a substitution, and two identifiers are equal exactly if they denote the same type:
  comparing identifiers is comparing types.
\<close>

theorem substitution_keeps_identity:
  assumes "arena_ok types" and "canonical_ok types canonical" and "source < length types"
    and "\<forall>p t. parameters p = Some t \<longrightarrow> t < length types" and "2 * length types \<le> 2 ^ 32"
    and "canonical_full types canonical"
    and "substitute_resolved_type parameters source types canonical = Some (Inr (i, s))"
  shows "canonical_full (us_types s) (us_canonical s) \<and>
    (\<forall>a < length (us_types s). \<forall>b < length (us_types s).
       tree_of (us_types s) a = tree_of (us_types s) b \<longrightarrow> a = b)"
proof -
  have inv: "subst_inv parameters types s" and le: "map_le canonical (us_canonical s)"
    using substitution_returns [OF assms(1-5)] assms(7) by auto
  have "us_canonical s k = Some v" if "canonical k = Some v" for k v
    using le that by (metis domI map_le_def)
  with assms(6) have "canonical_full types (us_canonical s)" by (simp add: canonical_full_def)
  then have full: "canonical_full (us_types s) (us_canonical s)" using inv by (simp add: subst_inv_def types_ok_def)
  with full_injective [OF subst_invD(2) [OF inv] this] show ?thesis by blast
qed

section \<open>An example\<close>

text \<open>\<open>Array(T)\<close> with \<open>T\<close> replaced by \<open>Int\<close>.\<close>

definition example_types :: "resolved_type list" where
  "example_types =
     [\<lparr>ty_ctor = TcInt, ty_arguments = []\<rparr>, \<lparr>ty_ctor = TcParameter 7, ty_arguments = []\<rparr>,
      \<lparr>ty_ctor = TcArray, ty_arguments = [1]\<rparr>]"

definition example_canonical :: "type_ctor \<times> type_id list \<rightharpoonup> type_id" where
  "example_canonical = [(TcInt, []) \<mapsto> 0, (TcParameter 7, []) \<mapsto> 1, (TcArray, [1]) \<mapsto> 2]"

definition example_parameters :: "symbol_id \<rightharpoonup> type_id" where
  "example_parameters = [7 \<mapsto> 0]"

lemma less_three: "(i::nat) < 3 \<longleftrightarrow> i = 0 \<or> i = 1 \<or> i = 2"
  by auto

lemma example_length: "length example_types = 3"
  by (simp add: example_types_def)

lemma example_arena: "arena_ok example_types"
  unfolding arena_ok_def example_length less_three by (auto simp: example_types_def)

lemma example_canonical_ok: "canonical_ok example_types example_canonical"
  unfolding canonical_ok_def example_length example_canonical_def
  by (simp add: example_types_def split: if_splits)

lemma example_canonical_full: "canonical_full example_types example_canonical"
  unfolding canonical_full_def example_length less_three example_canonical_def
  by (auto simp: example_types_def)

lemma example_parameters_ok:
  "\<forall>p t. example_parameters p = Some t \<longrightarrow> t < length example_types"
  by (simp add: example_parameters_def example_length split: if_splits)

lemma example_sizes: "2 < length example_types" "2 * length example_types \<le> 2 ^ 32"
  by (simp_all add: example_length)

lemma example_substituted:
  "subst_tree (\<lambda>p. map_option (tree_of example_types) (example_parameters p)) (tree_of example_types 2) =
    TyNode TcArray [TyNode TcInt []]"
  by (simp add: example_parameters_def example_types_def tree_of.simps mk_node_def)

lemma substitution_correct_witness:
  "\<exists>i s. substitute_resolved_type example_parameters 2 example_types example_canonical = Some (Inr (i, s)) \<and>
    tree_of (us_types s) i = TyNode TcArray [TyNode TcInt []]"
  using substitution_correct [OF example_arena example_canonical_ok example_sizes(1)
      example_parameters_ok example_sizes(2)]
  unfolding example_substituted by blast

lemma substitution_keeps_identity_witness:
  "\<exists>i s. substitute_resolved_type example_parameters 2 example_types example_canonical = Some (Inr (i, s)) \<and>
    canonical_full (us_types s) (us_canonical s)"
proof -
  note ok = example_arena example_canonical_ok example_sizes(1) example_parameters_ok example_sizes(2)
  obtain i s where r: "substitute_resolved_type example_parameters 2 example_types example_canonical =
      Some (Inr (i, s))"
    using substitution_returns [OF ok] by blast
  with substitution_keeps_identity [OF ok example_canonical_full r] show ?thesis by blast
qed

end
