(* ===== verification/Resolve_Mir.thy ===== *)
theory Resolve_Mir
  imports Btree_Map Type_Subst Source_Coords
begin

text \<open>
  The graph the symbol pass works on, \<^verbatim>\<open>crates/telora-core/src/mir.rs\<close> and \<^verbatim>\<open>mir/resolution.rs\<close>:
  syntax nodes (HIR), modules, imports, scopes, symbols and the facts about them. Identifiers are
  indices (\<open>nat\<close>); the record \<open>mir\<close> has the fields the pass reads or writes. The float of a literal is
  its bit pattern, names are byte strings.
\<close>

section \<open>Syntax\<close>

type_synonym hir_id = nat
type_synonym scope_id = nat
type_synonym resolve_slot_id = nat
type_synonym conflict_id = nat

datatype blame_action = BaBuild | BaRaise | BaWarn | BaFail

datatype initializer_kind = InitStruct | InitNewtype | InitEnum

datatype binding_kind =
    BkLet | BkDecl | BkDef | BkNative | BkNativeType | BkType | BkTrait | BkImpl | BkImport | BkExport

datatype unary_operator = UoNegate | UoNot | UoLogicalNot | UoBitNot

datatype binary_operator =
    BoAdd | BoSubtract | BoMultiply | BoDivide | BoRemainder | BoLessThan | BoLessThanOrEqual
  | BoGreaterThan | BoGreaterThanOrEqual | BoEqual | BoNotEqual | BoBitAnd | BoStructUpdate | BoBitOr
  | BoBitXor | BoAnd | BoOr

datatype type_operation = ToFunction | ToTuple | ToUnit | ToStruct | ToNewtype | ToEnum

datatype role =
    RoBinding | RoResult | RoName | RoTypeParameter | RoBound | RoAnnotation | RoValue | RoDecorator
  | RoCallee | RoArgument | RoOperand | RoLeft | RoRight | RoReceiver | RoTarget | RoNamespace
  | RoIndex | RoParameter | RoReturnType | RoBody | RoCondition | RoThen | RoElse | RoPattern
  | RoGuard | RoArm | RoField | RoItem | RoSubject | RoElaboration | RoPart

record hir_edge =
  he_role :: role
  he_node :: hir_id

datatype (plugins only: code size) hir_kind =
    HkMissing | HkNativeTypeSlot i64 | HkTypeOperation type_operation | HkTypeMember string bool
  | HkBlock | HkBinding binding_kind "initializer_kind option" "string option" | HkName string
  | HkParameter | HkTypeParameter | HkOptionalBound | HkReturnType | HkDecorator bool
  | HkConstructionCheck bool | HkInt i64 | HkFloat u64 | HkString string | HkBytes bytes
  | HkAtom string | HkVariable string | HkStaticPath "string list" | HkInterpolatedString | HkArray
  | HkTuple | HkSpread | HkTypeSyntax | HkTypeMetadata | HkDict | HkDictField
  | HkUnary unary_operator | HkPropagate | HkReturn | HkPanic | HkRaise blame_action
  | HkDebug "string option" string | HkTypeAscription | HkBinary binary_operator | HkField
  | HkFieldProjection | HkIndex | HkTupleProjection nat | HkCall | HkTypeApply
  | HkInferredTypeArgument | HkInterpreter | HkClosure | HkIf | HkIfLet | HkLetElse | HkMatch
  | HkMatchArm bool | HkWildcard | HkPatternName string | HkTaggedPattern string
  | HkConstructorPattern | HkTuplePattern | HkStructPattern | HkPatternField

record hir_node =
  hn_module :: module_id
  hn_location :: loc
  hn_kind :: hir_kind
  hn_children :: "hir_edge list"
  hn_resolution :: "resolve_slot_id option"

section \<open>Modules\<close>

datatype module_target = MtBound module_id | MtUnresolved string | MtConflicted "module_id list"

datatype module_state =
    MsUnloaded | MsSource hir_id | MsData hir_id | MsUnavailable string

datatype native_type_rule = NrPrimitive type_ctor | NrConstructor type_function | NrOpaque

record native_module =
  nm_id :: u32
  nm_types :: "(u32 \<times> native_type_rule) list"

record modul =
  md_native :: "native_module option"
  md_name :: string
  md_state :: module_state
  md_imports :: "nat list"

record import_edge =
  ie_syntax :: "hir_id option"
  ie_request :: string
  ie_target :: module_target

section \<open>Symbols\<close>

datatype resolve_state =
    RsPending | RsBound symbol_id | RsUnresolved | RsConflicted conflict_id | RsMember hir_id hir_id

datatype symbol_kind =
    SkDeclaration binding_kind | SkParameter | SkTypeParameter | SkPattern | SkImport | SkExport
  | SkNamespace module_id

record symbol =
  sy_native_type :: "native_type_id option"
  sy_module :: "module_id option"
  sy_name :: string
  sy_kind :: symbol_kind
  sy_declarations :: "hir_id list"
  sy_scope :: "scope_id option"
  sy_resolution :: resolve_state

record scope_binding =
  sb_symbol :: symbol_id
  sb_after :: "hir_id option"

record scope =
  sc_parent :: "scope_id option"
  sc_module :: module_id
  sc_bindings :: "scope_binding list"
  sc_open_imports :: "nat list"

datatype resolve_conflict =
    DuplicateDefinition string "symbol_id list"
  | AmbiguousImport string "symbol_id list"
  | ModuleCandidates "module_id list"

section \<open>Queries and facts\<close>

datatype resolve_task =
    TaskSymbol symbol_id | TaskReference hir_id | TaskNamespace symbol_id | TaskConstructor symbol_id
  | TaskConstructorNamespace hir_id

text \<open>The derived order of the tasks: by constructor, then by identifier.\<close>

fun task_key :: "resolve_task \<Rightarrow> nat \<times> nat" where
  "task_key (TaskSymbol i) = (0, i)"
| "task_key (TaskReference i) = (1, i)"
| "task_key (TaskNamespace i) = (2, i)"
| "task_key (TaskConstructor i) = (3, i)"
| "task_key (TaskConstructorNamespace i) = (4, i)"

lemma task_key_inj: "task_key a = task_key b \<longleftrightarrow> a = b"
  by (cases a; cases b) simp_all

instantiation resolve_task :: linorder
begin

definition less_eq_resolve_task :: "resolve_task \<Rightarrow> resolve_task \<Rightarrow> bool" where
  "less_eq_resolve_task a b \<longleftrightarrow> fst (task_key a) < fst (task_key b) \<or>
     fst (task_key a) = fst (task_key b) \<and> snd (task_key a) \<le> snd (task_key b)"

definition less_resolve_task :: "resolve_task \<Rightarrow> resolve_task \<Rightarrow> bool" where
  "less_resolve_task a b \<longleftrightarrow> fst (task_key a) < fst (task_key b) \<or>
     fst (task_key a) = fst (task_key b) \<and> snd (task_key a) < snd (task_key b)"

instance
proof
  fix a b :: resolve_task
  assume "a \<le> b" "b \<le> a"
  then have "task_key a = task_key b" by (auto simp: less_eq_resolve_task_def prod_eq_iff)
  then show "a = b" by (simp add: task_key_inj)
qed (auto simp: less_eq_resolve_task_def less_resolve_task_def)

end

text \<open>
  Messages of the pass: the constructor is the format string, its arguments what it shows. A
  duplicate native slot is named by its module and slot.
\<close>

datatype resolve_message =
    MsgNativeSlotUnregistered | MsgNativeSlotDuplicate | MsgUnknownImportFrom string string
  | MsgUnknownImport string | MsgUnknownExport string | MsgUnknownBinding string
  | MsgAmbiguousImport string | MsgDuplicate string string | MsgDuplicateExport string

record resolve_diagnostic =
  rd_message :: resolve_message
  rd_locs :: "loc list"

record mir =
  mir_modules :: "modul list"
  mir_imports :: "import_edge list"
  mir_hir :: "hir_node list"
  mir_slots :: "resolve_state list"
  mir_symbols :: "symbol list"
  mir_scopes :: "scope list"
  mir_hir_scopes :: "scope_id option list"
  mir_hir_symbols :: "symbol_id option list"
  mir_module_scopes :: "scope_id option list"
  mir_exports :: "symbol_id list list"
  mir_conflicts :: "resolve_conflict list"
  mir_namespaces :: "module_id option option list"
  mir_constructors :: "bool option list"
  mir_constructor_namespaces :: "bool option list"
  mir_waiting :: "(resolve_task, resolve_task) btree"
  mir_symbols_closed :: bool
  mir_diagnostics :: "resolve_diagnostic list"

section \<open>Outcomes\<close>

text \<open>
  Why a computation of the pass stops short: a panic, a loop that never ends, or
  \<open>Err(task)\<close>, a fact that is still to be established. \<open>Ready<T>\<close> is \<open>stop + 't\<close>.
\<close>

datatype stop = Panic | Diverge | Wait resolve_task

definition idx :: "'a list \<Rightarrow> nat \<Rightarrow> stop + 'a" where
  "idx xs i = (if i < length xs then Inr (xs ! i) else Inl Panic)"

definition unwrap :: "'a option \<Rightarrow> stop + 'a" where
  "unwrap x = (case x of None \<Rightarrow> Inl Panic | Some y \<Rightarrow> Inr y)"

definition ready :: "'a option \<Rightarrow> resolve_task \<Rightarrow> stop + 'a" where
  "ready x t = (case x of None \<Rightarrow> Inl (Wait t) | Some y \<Rightarrow> Inr y)"

definition hir_at :: "mir \<Rightarrow> hir_id \<Rightarrow> stop + hir_node" where
  "hir_at m i = idx (mir_hir m) i"

definition symbol_at :: "mir \<Rightarrow> symbol_id \<Rightarrow> stop + symbol" where
  "symbol_at m i = idx (mir_symbols m) i"

text \<open>\<open>child\<close> and \<open>name\<close> of the pass.\<close>

definition find_child :: "hir_edge list \<Rightarrow> role \<Rightarrow> hir_id option" where
  "find_child es r = map_option he_node (find (\<lambda>e. he_role e = r) es)"

definition child :: "mir \<Rightarrow> hir_id \<Rightarrow> role \<Rightarrow> stop + hir_id option" where
  "child m node r = rbind (hir_at m node) (\<lambda>n. Inr (find_child (hn_children n) r))"

definition kind_name :: "hir_kind \<Rightarrow> string option" where
  "kind_name k = (case k of HkName n \<Rightarrow> Some n | HkPatternName n \<Rightarrow> Some n | HkVariable n \<Rightarrow> Some n
     | _ \<Rightarrow> None)"

definition node_name :: "mir \<Rightarrow> hir_id \<Rightarrow> stop + string" where
  "node_name m node =
     rbind (child m node RoName) (\<lambda>c.
     rbind (hir_at m (case c of Some n \<Rightarrow> n | None \<Rightarrow> node)) (\<lambda>n. unwrap (kind_name (hn_kind n))))"

end
