(* ===== verification/Type_Arena.thy ===== *)
theory Type_Arena
  imports Resolve_Mir
begin

text \<open>
  The arena of provisional types, \<^verbatim>\<open>crates/telora-core/src/type_resolve/arena.rs\<close> with what it calls:
  \<^verbatim>\<open>compatible_structure\<close> and \<^verbatim>\<open>fit\<close> of \<^verbatim>\<open>constraints.rs\<close>, \<^verbatim>\<open>contract_sources.rs\<close>, and
  \<^verbatim>\<open>nominal_members\<close>, \<^verbatim>\<open>instantiate\<close> and \<^verbatim>\<open>substitute_term\<close> of \<^verbatim>\<open>definitions.rs\<close>. Type slots form a
  union-find forest through \<open>TsProxyTo\<close>; a slot with a structure refers to a term whose arguments are
  slots. The record \<open>solver\<close> has the fields of \<^verbatim>\<open>Solver\<close> these operations use, and the fields of the
  graph they write. A computation that does not return is \<open>None\<close>; \<open>Unreachable\<close> is a panic of an
  index, an \<^verbatim>\<open>unwrap\<close> or an \<^verbatim>\<open>unreachable!\<close>, \<open>Capacity\<close> the panic of a table over 32 bits.
\<close>

section \<open>Types in progress\<close>

type_synonym slot_id = nat

datatype type_state =
    TsUnknown | TsProxyTo slot_id | TsStructure nat | TsKnown type_id | TsConflicted nat

record type_term =
  tt_ctor :: type_ctor
  tt_arguments :: "slot_id list"

datatype resolve_failure = RfConflict conflict_id | RfReference resolve_slot_id | RfSymbol symbol_id

text \<open>
  A message is the constructor of its format string. A mismatch shows its two slots as they are
  rendered then, and a nesting of notes \<open>TmContract m n\<close> is a message with "type contract declared
  here (locs[n])" appended.
\<close>

datatype type_message =
    TmResolve resolve_message | TmInfinite | TmMismatch slot_id slot_id | TmUnknownType
  | TmInherited resolve_failure | TmContract type_message nat

record type_diagnostic =
  td_message :: type_message
  td_locs :: "loc list"

record type_conflict =
  tc_origin :: "hir_id option"
  tc_contracts :: "hir_id list"
  tc_left :: slot_id
  tc_right :: slot_id
  tc_location :: "loc option"
  tc_message :: type_message
  tc_resolve_origin :: "resolve_failure option"
  tc_diagnostic :: "nat option"

record type_member =
  tm_name :: string
  tm_syntax :: hir_id
  tm_payload :: "slot_id option"

record type_definition =
  df_symbol :: symbol_id
  df_operation :: type_operation
  df_parameters :: "symbol_id list"
  df_members :: "type_member list"

datatype (plugins only: code size) type_task =
    TkInterpreter hir_id "symbol_id list"
  | TkTypeFacet hir_id slot_id
  | TkValueEqual hir_id slot_id slot_id
  | TkOrdered hir_id slot_id
  | TkReference hir_id symbol_id
  | TkTypeApply hir_id
  | TkPropagate hir_id
  | TkPropagationBottom hir_id slot_id
  | TkTupleSpread hir_id
  | TkRecordSpread hir_id
  | TkStructUpdate hir_id slot_id slot_id
  | TkFieldProjection hir_id slot_id
  | TkShapeEqual slot_id slot_id "loc option" "hir_id option"
  | TkUnchecked hir_id slot_id
  | TkRefineInstance "hir_id option" slot_id slot_id "(symbol_id \<times> slot_id) list" "loc option" type_ctor
  | TkBoundContext hir_id slot_id slot_id
  | TkDiagnosticInput hir_id slot_id
  | TkInstantiate "hir_id option" slot_id slot_id "(symbol_id \<times> slot_id) list" "loc option"
  | TkCall hir_id slot_id "slot_id list"
  | TkJoin hir_id "slot_id list"
  | TkBlock hir_id "slot_id list" slot_id
  | TkProjection hir_id slot_id "nat option"
  | TkConstructorPattern hir_id slot_id "slot_id option"
  | TkFit hir_id slot_id slot_id "hir_id option"
  | TkTuple hir_id "slot_id list"
  | TkMember hir_id slot_id string
  | TkNot hir_id slot_id
  | TkNumeric hir_id slot_id

record solver =
  sv_hir :: "hir_node list"
  sv_slots :: "type_state list"
  sv_terms :: "type_term list"
  sv_types :: "resolved_type list"
  sv_conflicts :: "type_conflict list"
  sv_diagnostics :: "type_diagnostic list"
  sv_definitions :: "type_definition list"
  sv_adjustments :: "slot_id option list"
  sv_required :: "bool list"
  sv_symbol_types :: "slot_id list"
  sv_unknowns :: "slot_id list"
  sv_revision :: nat
  sv_origin :: "hir_id option"
  sv_contract :: "hir_id option"
  sv_contract_uses :: "hir_id list list"
  sv_annotation_sources :: "hir_id option list"
  sv_contract_slots :: "bool list"
  sv_value_slots :: "bool list"
  sv_tasks :: "type_task list"
  sv_nominal_index :: "nat option list"
  sv_pending_instances :: "slot_id set"
  sv_bottom_candidates :: "slot_id list"

section \<open>Outcomes\<close>

datatype arena_stop = Unreachable | Capacity

type_synonym 'a run = "(arena_stop + 'a) option"

abbreviation ret :: "'a \<Rightarrow> 'a run" where
  "ret x \<equiv> Some (Inr x)"

definition fetch :: "'a list \<Rightarrow> nat \<Rightarrow> 'a run" where
  "fetch xs i = (if i < length xs then ret (xs ! i) else Some (Inl Unreachable))"

text \<open>\<open>xs[i] = x\<close>.\<close>

definition store :: "'a list \<Rightarrow> nat \<Rightarrow> 'a \<Rightarrow> 'a list run" where
  "store xs i x = (if i < length xs then ret (xs[i := x]) else Some (Inl Unreachable))"

definition demand :: "'a option \<Rightarrow> 'a run" where
  "demand x = (case x of Some y \<Rightarrow> ret y | None \<Rightarrow> Some (Inl Unreachable))"

text \<open>\<open>len().try_into().expect(..)\<close>.\<close>

definition table_id :: "'a list \<Rightarrow> nat run" where
  "table_id xs = (if length xs < 2 ^ 32 then ret (length xs) else Some (Inl Capacity))"

text \<open>A loop over a list that threads the state.\<close>

fun each :: "('a \<Rightarrow> 's \<Rightarrow> 's run) \<Rightarrow> 'a list \<Rightarrow> 's \<Rightarrow> 's run" where
  "each f [] s = ret s"
| "each f (x # xs) s = obind (f x s) (each f xs)"

section \<open>Slots\<close>

definition fresh :: "solver \<Rightarrow> (slot_id \<times> solver) run" where
  "fresh s =
     obind (table_id (sv_slots s)) (\<lambda>i.
     ret (i, s\<lparr>sv_slots := sv_slots s @ [TsUnknown], sv_value_slots := sv_value_slots s @ [False],
             sv_contract_slots := sv_contract_slots s @ [False]\<rparr>))"

partial_function (option) root_of :: "type_state list \<Rightarrow> slot_id \<Rightarrow> slot_id run" where
  "root_of ss i =
     obind (fetch ss i) (\<lambda>st. case st of TsProxyTo j \<Rightarrow> root_of ss j | _ \<Rightarrow> ret i)"

text \<open>The second loop of \<open>find\<close>: every proxy on the way now points to the root.\<close>

partial_function (option) compress :: "slot_id \<Rightarrow> slot_id \<Rightarrow> type_state list \<Rightarrow> type_state list run" where
  "compress r i ss =
     obind (fetch ss i) (\<lambda>st. case st of TsProxyTo j \<Rightarrow> compress r j (ss[i := TsProxyTo r]) | _ \<Rightarrow> ret ss)"

definition slot_root :: "slot_id \<Rightarrow> solver \<Rightarrow> slot_id run" where
  "slot_root i s = root_of (sv_slots s) i"

definition find_slot :: "slot_id \<Rightarrow> solver \<Rightarrow> (slot_id \<times> solver) run" where
  "find_slot i s =
     obind (slot_root i s) (\<lambda>r.
     obind (compress r i (sv_slots s)) (\<lambda>ss. ret (r, s\<lparr>sv_slots := ss\<rparr>)))"

definition term_of_state :: "type_state \<Rightarrow> solver \<Rightarrow> type_term option run" where
  "term_of_state st s =
     (case st of
        TsStructure t \<Rightarrow> obind (fetch (sv_terms s) t) (\<lambda>tm. ret (Some tm))
      | _ \<Rightarrow> ret None)"

definition slot_state :: "slot_id \<Rightarrow> solver \<Rightarrow> type_state run" where
  "slot_state i s = obind (slot_root i s) (\<lambda>r. fetch (sv_slots s) r)"

definition slot_term :: "slot_id \<Rightarrow> solver \<Rightarrow> type_term option run" where
  "slot_term i s = obind (slot_state i s) (\<lambda>st. term_of_state st s)"

definition has_ctor :: "slot_id \<Rightarrow> (type_ctor \<Rightarrow> bool) \<Rightarrow> solver \<Rightarrow> bool run" where
  "has_ctor i p s =
     obind (slot_term i s) (\<lambda>t. ret (case t of Some tm \<Rightarrow> p (tt_ctor tm) | None \<Rightarrow> False))"

definition set_type_state :: "slot_id \<Rightarrow> type_state \<Rightarrow> solver \<Rightarrow> solver run" where
  "set_type_state i st s = obind (store (sv_slots s) i st) (\<lambda>ss. ret (s\<lparr>sv_slots := ss\<rparr>))"

definition set_value_slot :: "slot_id \<Rightarrow> bool \<Rightarrow> solver \<Rightarrow> solver run" where
  "set_value_slot i b s = obind (store (sv_value_slots s) i b) (\<lambda>vs. ret (s\<lparr>sv_value_slots := vs\<rparr>))"

definition bump :: "solver \<Rightarrow> solver" where
  "bump s = s\<lparr>sv_revision := sv_revision s + 1\<rparr>"

text \<open>The parameters and the result of a function are in the value domain.\<close>

definition mark_value_domain :: "slot_id \<Rightarrow> solver \<Rightarrow> solver run" where
  "mark_value_domain a s =
     obind (slot_root a s) (\<lambda>r.
     obind (fetch (sv_value_slots s) r) (\<lambda>v.
     if v then ret s else obind (set_value_slot r True s) (\<lambda>s. ret (bump s))))"

definition new_structure :: "type_ctor \<Rightarrow> slot_id list \<Rightarrow> solver \<Rightarrow> (slot_id \<times> solver) run" where
  "new_structure c args s =
     obind (if c = TcFunction then each mark_value_domain args s else ret s) (\<lambda>s.
     obind (if c = TcUnchecked \<and> length args = 1 then has_ctor (hd args) (\<lambda>c. c = TcUnchecked) s
            else ret False) (\<lambda>nested.
     if nested then ret (hd args, s)
     else
       obind (fresh s) (\<lambda>(slot, s).
       obind (table_id (sv_terms s)) (\<lambda>t.
       obind (set_type_state slot (TsStructure t) (s\<lparr>sv_terms := sv_terms s @ [\<lparr>tt_ctor = c, tt_arguments = args\<rparr>]\<rparr>))
         (\<lambda>s. ret (slot, s))))))"

text \<open>The work list of \<open>occurs\<close>, the next slot first.\<close>

partial_function (option) occurs_loop ::
  "slot_id \<Rightarrow> slot_id list \<Rightarrow> slot_id set \<Rightarrow> solver \<Rightarrow> bool run" where
  "occurs_loop needle pending visited s =
     (case pending of
        [] \<Rightarrow> ret False
      | i # rest \<Rightarrow>
          obind (slot_root i s) (\<lambda>r.
          if r = needle then ret True
          else if r \<in> visited then occurs_loop needle rest visited s
          else
            obind (slot_term r s) (\<lambda>t.
            occurs_loop needle ((case t of Some tm \<Rightarrow> rev (tt_arguments tm) | None \<Rightarrow> []) @ rest)
              (insert r visited) s)))"

definition occurs :: "slot_id \<Rightarrow> slot_id \<Rightarrow> solver \<Rightarrow> bool run" where
  "occurs needle i s = occurs_loop needle [i] {} s"

section \<open>Conflicts\<close>

definition conflicted_of :: "type_state \<Rightarrow> type_state \<Rightarrow> nat option" where
  "conflicted_of a b =
     (case a of TsConflicted i \<Rightarrow> Some i | _ \<Rightarrow> (case b of TsConflicted i \<Rightarrow> Some i | _ \<Rightarrow> None))"

definition failed_contract_sources :: "solver \<Rightarrow> hir_id list run" where
  "failed_contract_sources s =
     (case sv_contract s of
        Some c \<Rightarrow> ret [c]
      | None \<Rightarrow> (case sv_origin s of Some node \<Rightarrow> fetch (sv_contract_uses s) node | None \<Rightarrow> ret []))"

text \<open>One declared contract on the last diagnostic.\<close>

definition add_contract_note :: "hir_id \<Rightarrow> solver \<Rightarrow> solver run" where
  "add_contract_note annotation s =
     obind (fetch (sv_hir s) annotation) (\<lambda>n.
     if sv_diagnostics s = [] then Some (Inl Unreachable)
     else
       (let d = last (sv_diagnostics s) in
        if hn_location n \<in> set (td_locs d) then ret s
        else ret (s\<lparr>sv_diagnostics := butlast (sv_diagnostics s) @
                     [\<lparr>td_message = TmContract (td_message d) (length (td_locs d)),
                       td_locs = td_locs d @ [hn_location n]\<rparr>]\<rparr>)))"

definition loc_list :: "loc option \<Rightarrow> loc list" where
  "loc_list l = (case l of Some x \<Rightarrow> [x] | None \<Rightarrow> [])"

definition record_conflict ::
  "slot_id \<Rightarrow> slot_id \<Rightarrow> loc option \<Rightarrow> type_message \<Rightarrow> solver \<Rightarrow> (nat \<times> solver) run" where
  "record_conflict left right location message s =
     obind (table_id (sv_conflicts s)) (\<lambda>fid.
     obind (failed_contract_sources s) (\<lambda>contracts.
     obind (each add_contract_note contracts
       (s\<lparr>sv_conflicts := sv_conflicts s @
            [\<lparr>tc_origin = sv_origin s, tc_contracts = contracts, tc_left = left, tc_right = right,
              tc_location = location, tc_message = message, tc_resolve_origin = None,
              tc_diagnostic = Some (length (sv_diagnostics s))\<rparr>],
          sv_diagnostics := sv_diagnostics s @ [\<lparr>td_message = message, td_locs = loc_list location\<rparr>]\<rparr>))
       (\<lambda>s. ret (fid, s))))"

definition inherit_slot :: "nat \<Rightarrow> slot_id \<Rightarrow> bool \<times> solver \<Rightarrow> (bool \<times> solver) run" where
  "inherit_slot fid i = (\<lambda>(changed, s).
     obind (fetch (sv_contract_slots s) i) (\<lambda>contract.
     if contract then ret (changed, s)
     else
       obind (fetch (sv_slots s) i) (\<lambda>st.
       if st = TsConflicted fid then ret (changed, s)
       else obind (set_type_state i (TsConflicted fid) s) (\<lambda>s. ret (True, s)))))"

definition inherit_conflict :: "slot_id \<Rightarrow> slot_id \<Rightarrow> nat \<Rightarrow> solver \<Rightarrow> (bool \<times> solver) run" where
  "inherit_conflict left right fid s = each (inherit_slot fid) [left, right] (False, s)"

text \<open>Both slots of a relation are in the value domain when one is; whether that changed either.\<close>

definition join_value_slots :: "slot_id \<Rightarrow> slot_id \<Rightarrow> solver \<Rightarrow> (bool \<times> solver) run" where
  "join_value_slots left right s =
     obind (fetch (sv_value_slots s) left) (\<lambda>a.
     obind (fetch (sv_value_slots s) right) (\<lambda>b.
     obind (set_value_slot left (a \<or> b) s) (\<lambda>s.
     obind (set_value_slot right (a \<or> b) s) (\<lambda>s.
     ret (a \<noteq> (a \<or> b) \<or> b \<noteq> (a \<or> b), s)))))"

definition inherit_failure :: "slot_id \<Rightarrow> slot_id \<Rightarrow> nat \<Rightarrow> bool \<Rightarrow> solver \<Rightarrow> solver run" where
  "inherit_failure left right fid value_changed s =
     obind (inherit_conflict left right fid s) (\<lambda>(changed, s).
     ret (if changed \<or> value_changed then bump s else s))"

text \<open>A contract keeps its identity, an inference slot becomes conflicted.\<close>

definition poison :: "nat \<Rightarrow> slot_id \<Rightarrow> solver \<Rightarrow> solver run" where
  "poison fid i s =
     obind (fetch (sv_contract_slots s) i) (\<lambda>contract.
     if contract then ret s else set_type_state i (TsConflicted fid) s)"

definition solver_conflict :: "slot_id \<Rightarrow> slot_id \<Rightarrow> loc option \<Rightarrow> type_message \<Rightarrow> solver \<Rightarrow> solver run" where
  "solver_conflict left right location message s =
     obind (find_slot left s) (\<lambda>(left, s).
     obind (find_slot right s) (\<lambda>(right, s).
     obind (fetch (sv_slots s) left) (\<lambda>a.
     obind (fetch (sv_slots s) right) (\<lambda>b.
     case conflicted_of a b of
       Some fid \<Rightarrow>
         if left = right then ret s
         else
           obind (join_value_slots left right s) (\<lambda>(value_changed, s).
           inherit_failure left right fid value_changed s)
     | None \<Rightarrow>
         obind (record_conflict left right location message s) (\<lambda>(fid, s).
         obind (each (poison fid) [left, right] s) (\<lambda>s. ret (bump s)))))))"

section \<open>Contracts of syntax uses\<close>

definition node_child :: "hir_id \<Rightarrow> role \<Rightarrow> solver \<Rightarrow> hir_id option run" where
  "node_child node r s = obind (fetch (sv_hir s) node) (\<lambda>n. ret (find_child (hn_children n) r))"

partial_function (option) contract_source :: "hir_id \<Rightarrow> solver \<Rightarrow> hir_id option run" where
  "contract_source node s =
     obind (fetch (sv_annotation_sources s) node) (\<lambda>source.
     case source of Some c \<Rightarrow> ret (Some c)
     | None \<Rightarrow>
         obind (node_child node RoAnnotation s) (\<lambda>annotation.
         case annotation of Some c \<Rightarrow> ret (Some c)
         | None \<Rightarrow>
             obind (node_child node RoCallee s) (\<lambda>callee.
             case callee of Some c \<Rightarrow> contract_source c s | None \<Rightarrow> ret None)))"

definition fit_source :: "hir_id \<Rightarrow> slot_id \<Rightarrow> solver \<Rightarrow> (hir_id option \<times> solver) run" where
  "fit_source node actual s =
     obind (case sv_contract s of Some c \<Rightarrow> ret (Some c) | None \<Rightarrow> contract_source node s) (\<lambda>contract.
     ret (contract,
       case contract of
         Some c \<Rightarrow>
           if actual < length (sv_contract_uses s) \<and> c \<notin> set (sv_contract_uses s ! actual)
           then s\<lparr>sv_contract_uses := (sv_contract_uses s)[actual := sv_contract_uses s ! actual @ [c]]\<rparr>
           else s
       | None \<Rightarrow> s))"

definition fit :: "hir_id \<Rightarrow> slot_id \<Rightarrow> slot_id \<Rightarrow> solver \<Rightarrow> solver run" where
  "fit node expected actual s =
     obind (fit_source node actual s) (\<lambda>(contract, s).
     ret (s\<lparr>sv_tasks := sv_tasks s @ [TkFit node expected actual contract]\<rparr>))"

section \<open>Members of a nominal type\<close>

definition instantiate ::
  "slot_id \<Rightarrow> (symbol_id \<times> slot_id) list \<Rightarrow> loc option \<Rightarrow> solver \<Rightarrow> (slot_id \<times> solver) run" where
  "instantiate source arguments location s =
     obind (fresh s) (\<lambda>(target, s).
     ret (target,
       s\<lparr>sv_pending_instances := insert target (sv_pending_instances s),
         sv_tasks := sv_tasks s @ [TkInstantiate (sv_origin s) source target arguments location]\<rparr>))"

fun member_locations :: "hir_node list \<Rightarrow> type_member list \<Rightarrow> (string \<times> slot_id option \<times> loc) list run" where
  "member_locations hir [] = ret []"
| "member_locations hir (m # ms) =
     obind (fetch hir (tm_syntax m)) (\<lambda>n.
     obind (member_locations hir ms) (\<lambda>rest. ret ((tm_name m, tm_payload m, hn_location n) # rest)))"

fun instantiate_members ::
  "(symbol_id \<times> slot_id) list \<Rightarrow> (string \<times> slot_id option \<times> loc) list \<Rightarrow> solver \<Rightarrow>
     ((string \<times> slot_id option) list \<times> solver) run" where
  "instantiate_members subst [] s = ret ([], s)"
| "instantiate_members subst ((name, payload, location) # ms) s =
     obind (case payload of
              Some slot \<Rightarrow> obind (instantiate slot subst (Some location) s) (\<lambda>(t, s). ret (Some t, s))
            | None \<Rightarrow> ret (None, s)) (\<lambda>(t, s).
     obind (instantiate_members subst ms s) (\<lambda>(rest, s). ret ((name, t) # rest, s)))"

definition nominal_members ::
  "symbol_id \<Rightarrow> slot_id list \<Rightarrow> solver \<Rightarrow>
     ((type_operation \<times> (string \<times> slot_id option) list) option \<times> solver) run" where
  "nominal_members symbol arguments s =
     obind (fetch (sv_nominal_index s) symbol) (\<lambda>index.
     case index of None \<Rightarrow> ret (None, s)
     | Some i \<Rightarrow>
         obind (fetch (sv_definitions s) i) (\<lambda>d.
         obind (member_locations (sv_hir s) (df_members d)) (\<lambda>ms.
         obind (instantiate_members (zip (df_parameters d) arguments) ms s) (\<lambda>(members, s).
         ret (Some (df_operation d, members), s)))))"

section \<open>Compatible structures\<close>

type_synonym slot_pairs = "(slot_id \<times> slot_id) list"

text \<open>
  \<open>compatible_structure\<close> appends to the queue of its caller: these definitions return the pairs they
  append. A syntax node fits its expectation later, any other slot is equated.
\<close>

definition offer :: "slot_id \<times> slot_id \<Rightarrow> slot_pairs \<times> solver \<Rightarrow> (slot_pairs \<times> solver) run" where
  "offer = (\<lambda>(expected, actual) (pending, s).
     if actual < length (sv_hir s)
     then obind (fit actual expected actual s) (\<lambda>s. ret (pending, s))
     else ret (pending @ [(expected, actual)], s))"

definition replace_by :: "slot_id \<Rightarrow> slot_id \<Rightarrow> slot_pairs \<times> solver \<Rightarrow> (bool \<times> slot_pairs \<times> solver) run" where
  "replace_by actual expected = (\<lambda>(pending, s).
     obind (set_type_state actual (TsProxyTo expected) s) (\<lambda>s. ret (True, pending, bump s)))"

definition compat_tuple ::
  "slot_id \<Rightarrow> slot_id \<Rightarrow> slot_id list \<Rightarrow> slot_id list \<Rightarrow> solver \<Rightarrow> (bool \<times> slot_pairs \<times> solver) run" where
  "compat_tuple expected actual target items s =
     (if length target \<noteq> length items then ret (False, [], s)
      else obind (each offer (zip target items) ([], s)) (replace_by actual expected))"

definition element_item :: "slot_id \<Rightarrow> slot_id \<Rightarrow> slot_pairs \<times> solver \<Rightarrow> (slot_pairs \<times> solver) run" where
  "element_item element item = (\<lambda>(pending, s).
     obind (has_ctor item (\<lambda>c. c = TcNever) s) (\<lambda>never.
     if never then ret (pending, s\<lparr>sv_bottom_candidates := sv_bottom_candidates s @ [element]\<rparr>)
     else ret (pending @ [(element, item)], s)))"

definition literal_element ::
  "slot_id list \<Rightarrow> slot_pairs \<times> solver \<Rightarrow> (slot_id \<times> slot_pairs \<times> solver) run" where
  "literal_element items = (\<lambda>(pending, s).
     obind (fresh s) (\<lambda>(element, s).
     obind (each (element_item element) items (pending, s)) (\<lambda>(pending, s). ret (element, pending, s))))"

definition compat_literals ::
  "slot_id \<Rightarrow> slot_id \<Rightarrow> slot_id list \<Rightarrow> slot_id list \<Rightarrow> solver \<Rightarrow> (bool \<times> slot_pairs \<times> solver) run" where
  "compat_literals left right lefts rights s =
     obind (literal_element lefts ([], s)) (\<lambda>(e, ps).
     obind (literal_element rights ps) (\<lambda>(e', pending, s).
     obind (new_structure TcArray [e] s) (\<lambda>(left_array, s).
     obind (new_structure TcArray [e'] s) (\<lambda>(right_array, s).
     obind (set_type_state left (TsProxyTo left_array) s) (\<lambda>s.
     replace_by right right_array (pending @ [(e, e')], s))))))"

text \<open>The element an item of a literal supplies: a checked boundary owns it, or its adjustment.\<close>

definition own_item :: "slot_id \<Rightarrow> slot_id \<Rightarrow> solver \<Rightarrow> slot_id run" where
  "own_item element item s =
     obind (has_ctor item (\<lambda>c. c = TcTypeOf) s) (\<lambda>type_of.
     obind (if type_of then has_ctor element (\<lambda>c. c = TcType) s else ret False) (\<lambda>metadata.
     if metadata then ret element
     else
       obind (has_ctor item (\<lambda>c. c = TcUnchecked) s) (\<lambda>unchecked.
       obind (if unchecked then has_ctor element (\<lambda>c. c \<noteq> TcUnchecked) s else ret False) (\<lambda>checked.
       if checked then ret element
       else
         ret (if item < length (sv_adjustments s)
              then (case sv_adjustments s ! item of Some i \<Rightarrow> i | None \<Rightarrow> item) else item)))))"

definition own_element_item ::
  "slot_id \<Rightarrow> slot_id \<Rightarrow> slot_id \<Rightarrow> slot_pairs \<times> solver \<Rightarrow> (slot_pairs \<times> solver) run" where
  "own_element_item own element item = (\<lambda>(pending, s).
     obind (own_item element item s) (\<lambda>item. element_item own item (pending, s)))"

definition compat_array ::
  "slot_id \<Rightarrow> slot_id list \<Rightarrow> slot_id list \<Rightarrow> solver \<Rightarrow> (bool \<times> slot_pairs \<times> solver) run" where
  "compat_array actual arguments items s =
     obind (fetch arguments 0) (\<lambda>element.
     obind (each offer (map (Pair element) items) ([], s)) (\<lambda>(pending, s).
     obind (fresh s) (\<lambda>(own, s).
     obind (each (own_element_item own element) items (pending, s)) (\<lambda>(pending, s).
     obind (new_structure TcArray [own] s) (\<lambda>(array, s).
     replace_by actual array (pending @ [(own, element)], s))))))"

datatype field_source = NotFields | FieldsLater | Fields "(string \<times> slot_id) list"

fun unwrap_payloads :: "(string \<times> slot_id option) list \<Rightarrow> (string \<times> slot_id) list run" where
  "unwrap_payloads [] = ret []"
| "unwrap_payloads ((name, payload) # ms) =
     obind (demand payload) (\<lambda>t. obind (unwrap_payloads ms) (\<lambda>rest. ret ((name, t) # rest)))"

definition struct_fields :: "symbol_id \<Rightarrow> slot_id list \<Rightarrow> solver \<Rightarrow> (field_source \<times> solver) run" where
  "struct_fields symbol arguments s =
     obind (nominal_members symbol arguments s) (\<lambda>(ms, s).
     case ms of
       Some (ToStruct, members) \<Rightarrow> obind (unwrap_payloads members) (\<lambda>fs. ret (Fields fs, s))
     | _ \<Rightarrow> ret (NotFields, s))"

text \<open>The fields a record literal must have to be a value of the type with this term.\<close>

definition record_fields ::
  "slot_id \<Rightarrow> slot_id \<Rightarrow> loc option \<Rightarrow> type_term \<Rightarrow> string list \<Rightarrow> solver \<Rightarrow> (field_source \<times> solver) run" where
  "record_fields left right location nominal names s =
     (let later = s\<lparr>sv_tasks := sv_tasks s @ [TkShapeEqual left right location (sv_origin s)]\<rparr> in
      case tt_ctor nominal of
        TcUnchecked \<Rightarrow>
          obind (fetch (tt_arguments nominal) 0) (\<lambda>a.
          obind (slot_term a s) (\<lambda>owner.
          case owner of
            None \<Rightarrow> ret (FieldsLater, later)
          | Some tm \<Rightarrow>
              (case tt_ctor tm of
                 TcRecord _ \<Rightarrow> ret (FieldsLater, later)
               | TcNominal symbol \<Rightarrow> struct_fields symbol (tt_arguments tm) s
               | _ \<Rightarrow> ret (NotFields, s))))
      | TcNominal symbol \<Rightarrow> struct_fields symbol (tt_arguments nominal) s
      | TcDict \<Rightarrow>
          if names = [] then ret (Fields [], s)
          else obind (fetch (tt_arguments nominal) 0) (\<lambda>a. ret (Fields (map (\<lambda>n. (n, a)) names), s))
      | _ \<Rightarrow> ret (NotFields, s))"

fun position :: "'a \<Rightarrow> 'a list \<Rightarrow> nat option" where
  "position x [] = None"
| "position x (y # ys) = (if x = y then Some 0 else map_option Suc (position x ys))"

definition offer_field ::
  "string list \<Rightarrow> slot_id list \<Rightarrow> string \<times> slot_id \<Rightarrow> slot_pairs \<times> solver \<Rightarrow> (slot_pairs \<times> solver) run" where
  "offer_field names arguments = (\<lambda>(name, ty) ps.
     obind (demand (position name names)) (\<lambda>i.
     obind (fetch arguments i) (\<lambda>actual. offer (ty, actual) ps)))"

definition compat_record ::
  "slot_id \<Rightarrow> slot_id \<Rightarrow> loc option \<Rightarrow> slot_id \<Rightarrow> slot_id \<Rightarrow> type_term \<Rightarrow> string list \<Rightarrow> slot_id list \<Rightarrow>
     solver \<Rightarrow> (bool \<times> slot_pairs \<times> solver) run" where
  "compat_record left right location expected actual nominal names arguments s =
     obind (record_fields left right location nominal names s) (\<lambda>(source, s).
     case source of
       NotFields \<Rightarrow> ret (False, [], s)
     | FieldsLater \<Rightarrow> ret (True, [], s)
     | Fields fs \<Rightarrow>
         if length fs \<noteq> length names \<or> \<not> list_all (\<lambda>f. fst f \<in> set names) fs then ret (False, [], s)
         else obind (each (offer_field names arguments) fs ([], s)) (replace_by actual expected))"

definition compatible_structure ::
  "slot_id \<Rightarrow> slot_id \<Rightarrow> loc option \<Rightarrow> solver \<Rightarrow> (bool \<times> slot_pairs \<times> solver) run" where
  "compatible_structure left right location s =
     obind (obind (slot_term left s) demand) (\<lambda>a.
     obind (obind (slot_term right s) demand) (\<lambda>b.
     let ca = tt_ctor a; cb = tt_ctor b; as = tt_arguments a; bs = tt_arguments b in
     if ca = TcTuple \<and> cb = TcTupleLiteral then compat_tuple left right as bs s
     else if cb = TcTuple \<and> ca = TcTupleLiteral then compat_tuple right left bs as s
     else if ca = TcArrayLiteral \<and> cb = TcArrayLiteral then compat_literals left right as bs s
     else if ca = TcArray \<and> cb = TcArrayLiteral then compat_array right as bs s
     else if cb = TcArray \<and> ca = TcArrayLiteral then compat_array left bs as s
     else if ca = TcNever \<or> cb = TcNever then ret (True, [], s)
     else if ca = TcType \<and> cb = TcTypeOf \<or> cb = TcType \<and> ca = TcTypeOf then ret (True, [], s)
     else
       (case cb of
          TcRecord names \<Rightarrow> compat_record left right location left right a names bs s
        | _ \<Rightarrow>
            (case ca of
               TcRecord names \<Rightarrow> compat_record left right location right left b names as s
             | _ \<Rightarrow> ret (False, [], s)))))"

section \<open>Equality\<close>

text \<open>An unknown slot takes the type of another one it does not occur in.\<close>

definition bind_unknown ::
  "slot_id \<Rightarrow> slot_id \<Rightarrow> slot_id \<Rightarrow> slot_id \<Rightarrow> loc option \<Rightarrow> solver \<Rightarrow> solver run" where
  "bind_unknown unknown other left right location s =
     obind (occurs unknown other s) (\<lambda>infinite.
     if infinite then solver_conflict left right location TmInfinite s
     else set_type_state unknown (TsProxyTo other) s)"

text \<open>
  One pair of the queue: the new state, the pairs it appends to the queue and the parents it will
  merge. \<open>bump\<close> at the end is \<open>self.revision += 1\<close>, which \<open>continue\<close> skips.
\<close>

definition equal_structures ::
  "slot_id \<Rightarrow> slot_id \<Rightarrow> nat \<Rightarrow> nat \<Rightarrow> loc option \<Rightarrow> solver \<Rightarrow> (slot_pairs \<times> slot_pairs \<times> solver) run" where
  "equal_structures left right ta tb location s =
     obind (fetch (sv_terms s) ta) (\<lambda>a.
     obind (fetch (sv_terms s) tb) (\<lambda>b.
     if tt_ctor a = TcArrayLiteral \<and> tt_ctor b = TcArrayLiteral
     then obind (compatible_structure left right location s) (\<lambda>(_, pending, s). ret (pending, [], s))
     else if tt_ctor a \<noteq> tt_ctor b \<or> length (tt_arguments a) \<noteq> length (tt_arguments b)
     then
       obind (compatible_structure left right location s) (\<lambda>(compatible, pending, s).
       if compatible then ret (pending, [], s)
       else
         obind (record_conflict left right location (TmMismatch left right) s) (\<lambda>(_, s).
         ret (pending, [], bump s)))
     else ret (zip (tt_arguments a) (tt_arguments b), [(left, right)], bump s)))"

text \<open>The \<open>match\<close> on the states of two different roots.\<close>

definition equal_roots ::
  "loc option \<Rightarrow> slot_id \<Rightarrow> slot_id \<Rightarrow> bool \<Rightarrow> solver \<Rightarrow> (slot_pairs \<times> slot_pairs \<times> solver) run" where
  "equal_roots location left right value_changed s =
     obind (fetch (sv_slots s) left) (\<lambda>a.
     obind (fetch (sv_slots s) right) (\<lambda>b.
     case conflicted_of a b of
       Some fid \<Rightarrow> obind (inherit_failure left right fid value_changed s) (\<lambda>s. ret ([], [], s))
     | None \<Rightarrow>
         (case a of
            TsUnknown \<Rightarrow>
              obind (bind_unknown left right left right location s) (\<lambda>s. ret ([], [], bump s))
          | _ \<Rightarrow>
              (case b of
                 TsUnknown \<Rightarrow>
                   obind (bind_unknown right left left right location s) (\<lambda>s. ret ([], [], bump s))
               | TsStructure tb \<Rightarrow>
                   (case a of
                      TsStructure ta \<Rightarrow> equal_structures left right ta tb location s
                    | _ \<Rightarrow> Some (Inl Unreachable))
               | _ \<Rightarrow> Some (Inl Unreachable)))))"

definition equal_pair ::
  "loc option \<Rightarrow> slot_id \<times> slot_id \<Rightarrow> solver \<Rightarrow> (slot_pairs \<times> slot_pairs \<times> solver) run" where
  "equal_pair location = (\<lambda>(left, right) s.
     obind (find_slot left s) (\<lambda>(left, s).
     obind (find_slot right s) (\<lambda>(right, s).
     if left = right then ret ([], [], s)
     else
       obind (join_value_slots left right s) (\<lambda>(value_changed, s).
       equal_roots location left right value_changed s))))"

partial_function (option) equal_loop ::
  "loc option \<Rightarrow> slot_pairs \<Rightarrow> slot_pairs \<Rightarrow> solver \<Rightarrow> (slot_pairs \<times> solver) run" where
  "equal_loop location queue structures s =
     (case queue of
        [] \<Rightarrow> ret (structures, s)
      | pair # rest \<Rightarrow>
          obind (equal_pair location pair s) (\<lambda>r. case r of (pending, merged, s) \<Rightarrow>
            equal_loop location (rest @ pending) (structures @ merged) s))"

definition merge_pair :: "slot_id \<times> slot_id \<Rightarrow> solver \<Rightarrow> solver run" where
  "merge_pair = (\<lambda>(left, right) s.
     obind (find_slot left s) (\<lambda>(left, s).
     obind (find_slot right s) (\<lambda>(right, s).
     if left = right then ret s
     else
       obind (fetch (sv_contract_slots s) right) (\<lambda>b.
       obind (fetch (sv_contract_slots s) left) (\<lambda>a.
       obind (store (sv_contract_slots s) left (a \<or> b)) (\<lambda>cs.
       set_type_state right (TsProxyTo left) (s\<lparr>sv_contract_slots := cs\<rparr>)))))))"

definition equal_slots :: "slot_id \<Rightarrow> slot_id \<Rightarrow> loc option \<Rightarrow> solver \<Rightarrow> solver run" where
  "equal_slots left right location s =
     obind (equal_loop location [(left, right)] [] s) (\<lambda>(structures, s').
     if length (sv_conflicts s') = length (sv_conflicts s) then each merge_pair structures s' else ret s')"

section \<open>Substitution of a template\<close>

fun substitute_children ::
  "slot_id list \<Rightarrow> (symbol_id \<times> slot_id) list \<Rightarrow> loc option \<Rightarrow> (slot_id \<rightharpoonup> slot_id) \<Rightarrow> solver \<Rightarrow>
     (slot_id list \<times> solver) run" where
  "substitute_children [] arguments location children s = ret ([], s)"
| "substitute_children (c # cs) arguments location children s =
     obind (slot_root c s) (\<lambda>r.
     obind (case children r of Some t \<Rightarrow> ret (t, s) | None \<Rightarrow> instantiate r arguments location s) (\<lambda>(t, s).
     obind (substitute_children cs arguments location (children(r \<mapsto> t)) s) (\<lambda>(ts, s). ret (t # ts, s))))"

definition is_provisional :: "type_ctor \<Rightarrow> bool" where
  "is_provisional c =
     (case c of TcRecord _ \<Rightarrow> True | TcArrayLiteral \<Rightarrow> True | TcTupleLiteral \<Rightarrow> True | _ \<Rightarrow> False)"

definition substitute_structure ::
  "slot_id \<Rightarrow> slot_id \<Rightarrow> (symbol_id \<times> slot_id) list \<Rightarrow> loc option \<Rightarrow> type_term \<Rightarrow> solver \<Rightarrow>
     (type_task option \<times> solver) run" where
  "substitute_structure source target arguments location tm s =
     obind (substitute_children (tt_arguments tm) arguments location Map.empty s) (\<lambda>(result, s).
     obind (new_structure (tt_ctor tm) result s) (\<lambda>(instance, s).
     obind (equal_slots target instance location s) (\<lambda>s.
     ret (if is_provisional (tt_ctor tm)
          then Some (TkRefineInstance (sv_origin s) source target arguments location (tt_ctor tm)) else None,
          s))))"

definition substitute_term ::
  "slot_id \<Rightarrow> slot_id \<Rightarrow> (symbol_id \<times> slot_id) list \<Rightarrow> loc option \<Rightarrow> solver \<Rightarrow>
     (type_task option \<times> solver) run" where
  "substitute_term source target arguments location s =
     obind (slot_state source s) (\<lambda>st.
     case st of
       TsConflicted fid \<Rightarrow>
         obind (slot_root target s) (\<lambda>r.
         obind (set_type_state r (TsConflicted fid)
           (s\<lparr>sv_pending_instances := sv_pending_instances s - {target}\<rparr>)) (\<lambda>s. ret (None, bump s)))
     | _ \<Rightarrow>
         obind (slot_term source s) (\<lambda>t.
         case t of
           None \<Rightarrow> ret (Some (TkInstantiate (sv_origin s) source target arguments location), s)
         | Some tm \<Rightarrow>
             (let s' = s\<lparr>sv_pending_instances := sv_pending_instances s - {target}\<rparr>;
                  s = (if target \<in> sv_pending_instances s then bump s' else s') in
              case (case tt_ctor tm of TcParameter p \<Rightarrow> map_of arguments p | _ \<Rightarrow> None) of
                Some argument \<Rightarrow> obind (equal_slots target argument location s) (\<lambda>s. ret (None, s))
              | None \<Rightarrow> substitute_structure source target arguments location tm s)))"

section \<open>Canonical types\<close>

type_synonym canonical = "type_ctor \<times> type_id list \<rightharpoonup> type_id"

text \<open>The known types of the arguments, and the first conflict among them, which ends the scan.\<close>

fun child_types :: "slot_id list \<Rightarrow> solver \<Rightarrow> (nat option \<times> type_id list) run" where
  "child_types [] s = ret (None, [])"
| "child_types (c # cs) s =
     obind (slot_state c s) (\<lambda>st.
     case st of
       TsKnown i \<Rightarrow> obind (child_types cs s) (\<lambda>(failed, ids). ret (failed, i # ids))
     | TsConflicted i \<Rightarrow> ret (Some i, [])
     | _ \<Rightarrow> child_types cs s)"

definition canonical_id :: "type_ctor \<Rightarrow> type_id list \<Rightarrow> canonical \<times> solver \<Rightarrow> (type_id \<times> canonical \<times> solver) run" where
  "canonical_id c args = (\<lambda>(known, s).
     case known (c, args) of
       Some i \<Rightarrow> ret (i, known, s)
     | None \<Rightarrow>
         obind (table_id (sv_types s)) (\<lambda>i.
         ret (i, known((c, args) \<mapsto> i),
              s\<lparr>sv_types := sv_types s @ [\<lparr>ty_ctor = c, ty_arguments = args\<rparr>]\<rparr>)))"

definition settle_slot :: "slot_id \<Rightarrow> bool \<times> canonical \<times> solver \<Rightarrow> (bool \<times> canonical \<times> solver) run" where
  "settle_slot i = (\<lambda>(changed, known, s).
     obind (find_slot i s) (\<lambda>(r, s).
     if r \<noteq> i then ret (changed, known, s)
     else
       obind (fetch (sv_slots s) i) (\<lambda>st.
       case st of
         TsStructure t \<Rightarrow>
           obind (fetch (sv_terms s) t) (\<lambda>tm.
           obind (child_types (tt_arguments tm) s) (\<lambda>(failed, ids).
           case failed of
             Some fid \<Rightarrow> obind (set_type_state i (TsConflicted fid) s) (\<lambda>s. ret (True, known, s))
           | None \<Rightarrow>
               if length ids = length (tt_arguments tm)
               then
                 obind (canonical_id (tt_ctor tm) ids (known, s)) (\<lambda>(ty, known, s).
                 obind (set_type_state i (TsKnown ty) s) (\<lambda>s. ret (True, known, s)))
               else ret (changed, known, s)))
       | _ \<Rightarrow> ret (changed, known, s))))"

partial_function (option) settle_loop :: "canonical \<Rightarrow> solver \<Rightarrow> solver run" where
  "settle_loop known s =
     obind (each settle_slot [0..<length (sv_slots s)] (False, known, s)) (\<lambda>r. case r of
       (changed, known, s) \<Rightarrow> if changed then settle_loop known s else ret s)"

definition publish_slot :: "slot_id \<Rightarrow> solver \<Rightarrow> solver run" where
  "publish_slot i s =
     obind (find_slot i s) (\<lambda>(r, s).
     obind (fetch (sv_slots s) r) (\<lambda>st.
     set_type_state i (case st of TsStructure _ \<Rightarrow> TsUnknown | _ \<Rightarrow> st) s))"

definition first_locs :: "type_diagnostic list \<Rightarrow> loc set" where
  "first_locs ds = set (concat (map (\<lambda>d. take 1 (td_locs d)) ds))"

definition report_required :: "slot_id \<Rightarrow> loc set \<times> solver \<Rightarrow> (loc set \<times> solver) run" where
  "report_required i = (\<lambda>(reported, s).
     if \<not> sv_required s ! i then ret (reported, s)
     else
       obind (fetch (sv_slots s) i) (\<lambda>st.
       if st \<noteq> TsUnknown then ret (reported, s)
       else
         obind (fetch (sv_hir s) i) (\<lambda>n.
         let s = s\<lparr>sv_unknowns := sv_unknowns s @ [i]\<rparr> in
         if hn_location n \<in> reported then ret (reported, s)
         else
           ret (insert (hn_location n) reported,
             s\<lparr>sv_diagnostics := sv_diagnostics s @ [\<lparr>td_message = TmUnknownType, td_locs = [hn_location n]\<rparr>]\<rparr>))))"

definition report_symbol_type :: "slot_id \<Rightarrow> solver \<Rightarrow> solver run" where
  "report_symbol_type i s =
     obind (fetch (sv_slots s) i) (\<lambda>st.
     ret (if st = TsUnknown then s\<lparr>sv_unknowns := sv_unknowns s @ [i]\<rparr> else s))"

definition finalize :: "solver \<Rightarrow> solver run" where
  "finalize s =
     obind (settle_loop Map.empty s) (\<lambda>s.
     obind (each publish_slot [0..<length (sv_slots s)] s) (\<lambda>s.
     obind (each report_required [0..<length (sv_required s)] (first_locs (sv_diagnostics s), s)) (\<lambda>(_, s).
     each report_symbol_type (sv_symbol_types s) s)))"

end
