(* ===== verification/Type_Forest.thy ===== *)
theory Type_Forest
  imports Type_Arena
begin

text \<open>
  The union-find forest of type slots: roots, path compression, the links of one slot to another, and
  the solutions of an arena, which assign a finite type to every slot.
\<close>

section \<open>Basic steps\<close>

lemma fetch_simps [simp]:
  "i < length xs \<Longrightarrow> fetch xs i = ret (xs ! i)"
  "\<not> i < length xs \<Longrightarrow> fetch xs i = Some (Inl Unreachable)"
  by (simp_all add: fetch_def)

lemma store_simps [simp]: "i < length xs \<Longrightarrow> store xs i x = ret (xs[i := x])"
  by (simp add: store_def)

lemma fetch_eq_ret: "fetch xs i = ret x \<longleftrightarrow> i < length xs \<and> x = xs ! i"
  by (auto simp: fetch_def)

lemma table_id_eq_ret: "table_id xs = ret i \<longleftrightarrow> length xs < 2 ^ 32 \<and> i = length xs"
  by (auto simp: table_id_def)

definition is_proxy :: "type_state \<Rightarrow> bool" where
  "is_proxy st \<longleftrightarrow> (case st of TsProxyTo _ \<Rightarrow> True | _ \<Rightarrow> False)"

lemma is_proxy_simps [simp]:
  "is_proxy (TsProxyTo j)" "\<not> is_proxy TsUnknown" "\<not> is_proxy (TsStructure t)"
  "\<not> is_proxy (TsKnown k)" "\<not> is_proxy (TsConflicted c)"
  by (simp_all add: is_proxy_def)

lemma is_proxy_iff: "is_proxy st \<longleftrightarrow> (\<exists>j. st = TsProxyTo j)"
  by (cases st) auto

section \<open>Roots\<close>

lemma root_of_proxy: "i < length ss \<Longrightarrow> ss ! i = TsProxyTo j \<Longrightarrow> root_of ss i = root_of ss j"
  by (subst root_of.simps) simp

lemma root_of_root: "i < length ss \<Longrightarrow> \<not> is_proxy (ss ! i) \<Longrightarrow> root_of ss i = ret i"
  by (subst root_of.simps) (simp add: is_proxy_def split: type_state.splits)

lemma root_of_outside: "\<not> i < length ss \<Longrightarrow> root_of ss i = Some (Inl Unreachable)"
  by (subst root_of.simps) simp

text \<open>The way from a slot to its root.\<close>

inductive root_path :: "type_state list \<Rightarrow> slot_id \<Rightarrow> slot_id \<Rightarrow> bool" for ss where
  root: "i < length ss \<Longrightarrow> \<not> is_proxy (ss ! i) \<Longrightarrow> root_path ss i i"
| proxy: "i < length ss \<Longrightarrow> ss ! i = TsProxyTo j \<Longrightarrow> root_path ss j r \<Longrightarrow> root_path ss i r"

lemma root_path_root_of: "root_path ss i r \<Longrightarrow> root_of ss i = ret r"
  by (induction rule: root_path.induct) (simp_all add: root_of_root root_of_proxy)

lemma root_of_root_path:
  assumes "root_of ss i = ret r"
  shows "root_path ss i r"
proof -
  have "\<forall>q. (Inr r :: arena_stop + slot_id) = Inr q \<longrightarrow> root_path ss i q"
  proof (rule root_of.raw_induct [where P = "\<lambda>ss i y. \<forall>q. y = Inr q \<longrightarrow> root_path ss i q", OF _ assms],
      intro allI impI)
    fix f ss i y q
    assume IH: "\<And>ss i y. f ss i = Some y \<Longrightarrow> \<forall>q. y = Inr q \<longrightarrow> root_path ss i q"
      and body: "obind (fetch ss i) (\<lambda>st. case st of TsProxyTo j \<Rightarrow> f ss j | _ \<Rightarrow> ret i) = Some y"
      and y: "y = Inr q"
    have i: "i < length ss" using body y by (cases "i < length ss") auto
    show "root_path ss i q"
    proof (cases "is_proxy (ss ! i)")
      case True
      then obtain j where j: "ss ! i = TsProxyTo j" by (auto simp: is_proxy_iff)
      then have "root_path ss j q" using IH body i y by auto
      then show ?thesis using j i root_path.proxy by blast
    next
      case False
      then have "i = q" using body i y by (cases "ss ! i") auto
      then show ?thesis using False i root_path.root by blast
    qed
  qed
  then show ?thesis by simp
qed

lemma root_path_iff: "root_path ss i r \<longleftrightarrow> root_of ss i = ret r"
  using root_path_root_of root_of_root_path by blast

lemma root_of_bound: "root_path ss i r \<Longrightarrow> i < length ss \<and> r < length ss \<and> \<not> is_proxy (ss ! r)"
  by (induction rule: root_path.induct) auto

lemma root_path_unique: "root_path ss i r \<Longrightarrow> root_path ss i r' \<Longrightarrow> r = r'"
  by (simp add: root_path_iff)

definition forest :: "type_state list \<Rightarrow> bool" where
  "forest ss \<longleftrightarrow> (\<forall>i < length ss. \<exists>r. root_path ss i r)"

text \<open>The representative of a slot.\<close>

definition rep :: "type_state list \<Rightarrow> slot_id \<Rightarrow> slot_id" where
  "rep ss i = (case root_of ss i of Some (Inr r) \<Rightarrow> r | _ \<Rightarrow> i)"

lemma rep_eq: "root_path ss i r \<Longrightarrow> rep ss i = r"
  by (simp add: rep_def root_path_iff)

lemma forest_root_path: "forest ss \<Longrightarrow> i < length ss \<Longrightarrow> root_path ss i (rep ss i)"
  by (metis forest_def rep_eq)

lemma forest_rep:
  assumes "forest ss" "i < length ss"
  shows "root_of ss i = ret (rep ss i)" "rep ss i < length ss" "\<not> is_proxy (ss ! rep ss i)"
    "rep ss (rep ss i) = rep ss i"
proof -
  note path = forest_root_path [OF assms]
  show "root_of ss i = ret (rep ss i)" using path by (simp add: root_path_iff)
  show b: "rep ss i < length ss" "\<not> is_proxy (ss ! rep ss i)" using root_of_bound [OF path] by simp_all
  show "rep ss (rep ss i) = rep ss i" using rep_eq [OF root_path.root [OF b]] .
qed

lemma rep_root [simp]: "i < length ss \<Longrightarrow> \<not> is_proxy (ss ! i) \<Longrightarrow> rep ss i = i"
  by (simp add: rep_eq root_path.root)

lemma rep_proxy: "forest ss \<Longrightarrow> i < length ss \<Longrightarrow> ss ! i = TsProxyTo j \<Longrightarrow> rep ss i = rep ss j"
  by (metis forest_root_path rep_eq root_path_iff root_of_proxy)

lemma forest_proxy: "forest ss \<Longrightarrow> i < length ss \<Longrightarrow> ss ! i = TsProxyTo j \<Longrightarrow> j < length ss"
  by (metis forest_def is_proxy_simps(1) root_of_bound root_path.cases type_state.inject(1))

section \<open>Updates of a forest\<close>

lemma root_path_link:
  assumes "root_path ss i r" "u < length ss" "\<not> is_proxy (ss ! u)" "root_path ss v w" "w \<noteq> u"
  shows "root_path (ss[u := TsProxyTo v]) i (if r = u then w else r)"
proof -
  have avoid: "root_path (ss[u := TsProxyTo v]) k q" if "root_path ss k q" "q \<noteq> u" for k q
    using that
  proof (induction rule: root_path.induct)
    case (proxy k l q)
    then have "k \<noteq> u" using assms(3) by auto
    then show ?case using proxy by (intro root_path.proxy [of k _ l]) simp_all
  qed (simp add: root_path.root)
  show ?thesis using assms(1)
  proof (induction rule: root_path.induct)
    case (root i)
    show ?case
    proof (cases "i = u")
      case True
      then show ?thesis using root avoid [OF assms(4,5)] by (simp add: root_path.proxy)
    next
      case False
      then show ?thesis using root by (simp add: root_path.root)
    qed
  next
    case (proxy i j r)
    then have "i \<noteq> u" using assms(3) by auto
    then show ?case using proxy by (intro root_path.proxy [of i _ j]) simp_all
  qed
qed

lemma forest_link:
  assumes "forest ss" "u < length ss" "\<not> is_proxy (ss ! u)" "v < length ss" "rep ss v \<noteq> u"
  shows "forest (ss[u := TsProxyTo v])"
    and "i < length ss \<Longrightarrow> rep (ss[u := TsProxyTo v]) i = (if rep ss i = u then rep ss v else rep ss i)"
proof -
  have *: "root_path (ss[u := TsProxyTo v]) i (if rep ss i = u then rep ss v else rep ss i)"
    if "i < length ss" for i
    using root_path_link assms that forest_root_path by auto
  then show "forest (ss[u := TsProxyTo v])" by (auto simp: forest_def)
  show "i < length ss \<Longrightarrow> rep (ss[u := TsProxyTo v]) i = (if rep ss i = u then rep ss v else rep ss i)"
    using * rep_eq by blast
qed

lemma root_path_set:
  assumes "root_path ss i r" "u < length ss" "\<not> is_proxy (ss ! u)" "\<not> is_proxy st"
  shows "root_path (ss[u := st]) i r"
  using assms(1)
proof (induction rule: root_path.induct)
  case (root i)
  then show ?case using assms by (intro root_path.root) (auto simp: nth_list_update)
next
  case (proxy i j r)
  then have "i \<noteq> u" using assms(3) by auto
  then show ?case using proxy by (intro root_path.proxy [of i _ j]) simp_all
qed

lemma forest_set:
  assumes "forest ss" "u < length ss" "\<not> is_proxy (ss ! u)" "\<not> is_proxy st"
  shows "forest (ss[u := st])" and "i < length ss \<Longrightarrow> rep (ss[u := st]) i = rep ss i"
proof -
  have *: "root_path (ss[u := st]) i (rep ss i)" if "i < length ss" for i
    using root_path_set [OF forest_root_path [OF assms(1) that] assms(2-4)] .
  then show "forest (ss[u := st])" by (auto simp: forest_def)
  show "i < length ss \<Longrightarrow> rep (ss[u := st]) i = rep ss i" using * rep_eq by blast
qed

text \<open>Compression moves proxies and nothing else.\<close>

definition same_view :: "type_state list \<Rightarrow> type_state list \<Rightarrow> bool" where
  "same_view ss ss' \<longleftrightarrow> length ss' = length ss \<and>
     (\<forall>i r. root_path ss i r \<longrightarrow> root_path ss' i r) \<and> (\<forall>i. \<not> is_proxy (ss ! i) \<longrightarrow> ss' ! i = ss ! i) \<and>
     (\<forall>i. is_proxy (ss ! i) \<longrightarrow> is_proxy (ss' ! i))"

lemma same_view_refl: "same_view ss ss"
  by (simp add: same_view_def)

lemma same_view_trans: "same_view a b \<Longrightarrow> same_view b c \<Longrightarrow> same_view a c"
  unfolding same_view_def by metis

lemma same_view_shortcut:
  assumes "root_path ss i r" "ss ! i = TsProxyTo j"
  shows "same_view ss (ss[i := TsProxyTo r])"
proof -
  have i: "i < length ss" "r < length ss" "\<not> is_proxy (ss ! r)" using root_of_bound assms(1) by auto
  have "root_path (ss[i := TsProxyTo r]) k q" if "root_path ss k q" for k q
    using that
  proof (induction rule: root_path.induct)
    case (root k)
    then have "k \<noteq> i" using assms(2) by auto
    then show ?case using root by (intro root_path.root) auto
  next
    case (proxy k l q)
    show ?case
    proof (cases "k = i")
      case True
      then have "q = r" using proxy assms root_path_unique root_path.proxy by metis
      moreover have "root_path (ss[i := TsProxyTo r]) r r"
        using i assms(2) by (intro root_path.root) (auto simp: nth_list_update)
      ultimately show ?thesis using True i by (auto intro: root_path.proxy)
    qed (use proxy in \<open>auto intro: root_path.proxy\<close>)
  qed
  then show ?thesis using i assms(2) by (auto simp: same_view_def nth_list_update)
qed

lemma compress_view_aux:
  assumes "root_path ss i r"
  shows "same_view ss ss0 \<Longrightarrow> (\<forall>k. is_proxy (ss ! k) \<longrightarrow> ss0 ! k = ss ! k \<or> ss0 ! k = TsProxyTo r) \<Longrightarrow>
    \<exists>ss'. compress r i ss0 = ret ss' \<and> same_view ss ss'"
  using assms
proof (induction arbitrary: ss0 rule: root_path.induct)
  case (root i)
  then have "ss0 ! i = ss ! i" "length ss0 = length ss" by (auto simp: same_view_def)
  then show ?case using root
    by (subst compress.simps) (auto simp: is_proxy_def split: type_state.splits)
next
  case (proxy i j r)
  have path: "root_path ss0 i r" "length ss0 = length ss"
    using proxy root_path.proxy by (auto simp: same_view_def)
  let ?ss = "ss0[i := TsProxyTo r]"
  have 1: "same_view ss ?ss"
    using same_view_trans [OF proxy.prems(1)] same_view_shortcut [OF path(1)] proxy.prems proxy.hyps(2)
    by (metis is_proxy_simps(1))
  have 2: "\<forall>k. is_proxy (ss ! k) \<longrightarrow> ?ss ! k = ss ! k \<or> ?ss ! k = TsProxyTo r"
    using proxy.prems path proxy.hyps(1) by (auto simp: nth_list_update)
  have "ss0 ! i = TsProxyTo j \<or> ss0 ! i = TsProxyTo r" using proxy.prems(2) proxy.hyps(2) by (metis is_proxy_simps(1))
  then show ?case
  proof
    assume "ss0 ! i = TsProxyTo j"
    then show ?thesis using proxy.IH [OF 1 2] proxy.hyps(1) path(2) by (subst compress.simps) simp
  next
    assume i: "ss0 ! i = TsProxyTo r"
    have r: "r < length ss" "\<not> is_proxy (ss ! r)" using root_of_bound [OF proxy.hyps(3)] by auto
    then have "\<not> is_proxy (?ss ! r)" using 1 by (simp add: same_view_def)
    then have "compress r r ?ss = ret ?ss" using r path(2)
      by (subst compress.simps) (auto simp: is_proxy_def split: type_state.splits)
    then show ?thesis using i 1 proxy.hyps(1) path(2) by (subst compress.simps) auto
  qed
qed

lemma compress_view: "root_path ss i r \<Longrightarrow> \<exists>ss'. compress r i ss = ret ss' \<and> same_view ss ss'"
  by (rule compress_view_aux) (simp_all add: same_view_refl)

lemma same_view_forest: "same_view ss ss' \<Longrightarrow> forest ss \<Longrightarrow> forest ss'"
  unfolding same_view_def forest_def by metis

lemma same_view_rep: "same_view ss ss' \<Longrightarrow> forest ss \<Longrightarrow> i < length ss \<Longrightarrow> rep ss' i = rep ss i"
  unfolding same_view_def using forest_root_path rep_eq by metis

section \<open>Solutions\<close>

text \<open>
  A finite type. A solution gives one to every slot, so that a proxy has the type of its target and a
  structure the type its term describes; other slots are free. An arena with a solution has no
  infinite type.
\<close>

datatype ty = Ty type_ctor "ty list"

definition slot_holds :: "type_term list \<Rightarrow> (slot_id \<Rightarrow> ty) \<Rightarrow> slot_id \<Rightarrow> type_state \<Rightarrow> bool" where
  "slot_holds ts \<sigma> i st =
     (case st of
        TsProxyTo j \<Rightarrow> \<sigma> i = \<sigma> j
      | TsStructure t \<Rightarrow> \<sigma> i = Ty (tt_ctor (ts ! t)) (map \<sigma> (tt_arguments (ts ! t)))
      | _ \<Rightarrow> True)"

definition solves :: "type_term list \<Rightarrow> type_state list \<Rightarrow> (slot_id \<Rightarrow> ty) \<Rightarrow> bool" where
  "solves ts ss \<sigma> \<longleftrightarrow> (\<forall>i < length ss. slot_holds ts \<sigma> i (ss ! i))"

lemma slot_holds_simps [simp]:
  "slot_holds ts \<sigma> i (TsProxyTo j) \<longleftrightarrow> \<sigma> i = \<sigma> j"
  "slot_holds ts \<sigma> i (TsStructure t) \<longleftrightarrow> \<sigma> i = Ty (tt_ctor (ts ! t)) (map \<sigma> (tt_arguments (ts ! t)))"
  "slot_holds ts \<sigma> i TsUnknown" "slot_holds ts \<sigma> i (TsConflicted c)" "slot_holds ts \<sigma> i (TsKnown k)"
  by (simp_all add: slot_holds_def)

lemma solves_structure:
  "solves ts ss \<sigma> \<Longrightarrow> i < length ss \<Longrightarrow> ss ! i = TsStructure t \<Longrightarrow>
     \<sigma> i = Ty (tt_ctor (ts ! t)) (map \<sigma> (tt_arguments (ts ! t)))"
  unfolding solves_def by (metis slot_holds_simps(2))

lemma solves_path: "root_path ss i r \<Longrightarrow> solves ts ss \<sigma> \<Longrightarrow> \<sigma> r = \<sigma> i"
  by (induction rule: root_path.induct) (metis slot_holds_simps(1) solves_def)+

lemma solves_rep: "solves ts ss \<sigma> \<Longrightarrow> forest ss \<Longrightarrow> i < length ss \<Longrightarrow> \<sigma> (rep ss i) = \<sigma> i"
  by (metis solves_path forest_root_path)

lemma solves_iff:
  assumes "forest ss"
  shows "solves ts ss \<sigma> \<longleftrightarrow> (\<forall>i < length ss. \<sigma> (rep ss i) = \<sigma> i) \<and>
    (\<forall>i < length ss. \<forall>t. ss ! i = TsStructure t \<longrightarrow> \<sigma> i = Ty (tt_ctor (ts ! t)) (map \<sigma> (tt_arguments (ts ! t))))"
    (is "_ \<longleftrightarrow> ?reps \<and> ?structures")
proof
  assume "?reps \<and> ?structures"
  moreover have "\<sigma> i = \<sigma> j" if "i < length ss" "ss ! i = TsProxyTo j" "?reps" for i j
    using that assms forest_proxy rep_proxy by metis
  ultimately show "solves ts ss \<sigma>"
    unfolding solves_def slot_holds_def by (auto split: type_state.splits)
qed (use assms solves_rep solves_structure in blast)

lemma solves_view:
  assumes "same_view ss ss'" "forest ss"
  shows "solves ts ss' \<sigma> \<longleftrightarrow> solves ts ss \<sigma>"
proof -
  have "length ss' = length ss" using assms(1) by (simp add: same_view_def)
  moreover have "ss' ! i = TsStructure t \<longleftrightarrow> ss ! i = TsStructure t" if "i < length ss" for i t
    using assms(1) unfolding same_view_def by (cases "is_proxy (ss ! i)") (metis is_proxy_simps(1,3) is_proxy_iff)+
  ultimately show ?thesis
    using assms same_view_forest same_view_rep by (simp add: solves_iff)
qed

lemma solves_update:
  "u < length ss \<Longrightarrow> solves ts (ss[u := st]) \<sigma> \<longleftrightarrow>
     slot_holds ts \<sigma> u st \<and> (\<forall>i < length ss. i \<noteq> u \<longrightarrow> slot_holds ts \<sigma> i (ss ! i))"
  unfolding solves_def by (auto simp: nth_list_update)

lemma solves_link:
  assumes "u < length ss" "ss ! u = TsUnknown"
  shows "solves ts (ss[u := TsProxyTo v]) \<sigma> \<longleftrightarrow> solves ts ss \<sigma> \<and> \<sigma> u = \<sigma> v"
proof -
  have "slot_holds ts \<sigma> u (ss ! u)" using assms(2) by simp
  then have "solves ts ss \<sigma> \<longleftrightarrow> (\<forall>i < length ss. i \<noteq> u \<longrightarrow> slot_holds ts \<sigma> i (ss ! i))"
    unfolding solves_def by metis
  then show ?thesis using solves_update [OF assms(1)] by auto
qed

lemma solves_set:
  "solves ts ss \<sigma> \<Longrightarrow> u < length ss \<Longrightarrow> st = TsUnknown \<or> (\<exists>c. st = TsConflicted c) \<Longrightarrow>
     solves ts (ss[u := st]) \<sigma>"
  by (auto simp: solves_update) (simp_all add: solves_def)

text \<open>The links from a structure to the roots of its arguments.\<close>

definition links :: "type_term list \<Rightarrow> type_state list \<Rightarrow> (slot_id \<times> slot_id) set" where
  "links ts ss = {(i, rep ss a) | i t a. i < length ss \<and> ss ! i = TsStructure t \<and> a \<in> set (tt_arguments (ts ! t))}"

lemma linkI: "i < length ss \<Longrightarrow> ss ! i = TsStructure t \<Longrightarrow> a \<in> set (tt_arguments (ts ! t)) \<Longrightarrow>
    (i, rep ss a) \<in> links ts ss"
  by (auto simp: links_def)

definition terms_ok :: "type_term list \<Rightarrow> type_state list \<Rightarrow> bool" where
  "terms_ok ts ss \<longleftrightarrow> (\<forall>i < length ss. \<forall>t. ss ! i = TsStructure t \<longrightarrow> t < length ts) \<and>
     (\<forall>tm \<in> set ts. \<forall>a \<in> set (tt_arguments tm). a < length ss)"

lemma terms_ok_argument:
  "terms_ok ts ss \<Longrightarrow> i < length ss \<Longrightarrow> ss ! i = TsStructure t \<Longrightarrow> a \<in> set (tt_arguments (ts ! t)) \<Longrightarrow> a < length ss"
  unfolding terms_ok_def by (metis nth_mem)

lemma solves_links_size:
  assumes "solves ts ss \<sigma>" "forest ss" "terms_ok ts ss" "(i, j) \<in> links ts ss"
  shows "size (\<sigma> j) < size (\<sigma> i)"
proof -
  obtain t a where t: "i < length ss" "ss ! i = TsStructure t" "a \<in> set (tt_arguments (ts ! t))" "j = rep ss a"
    using assms(4) by (auto simp: links_def)
  have "\<sigma> j = \<sigma> a" using solves_rep [OF assms(1,2)] terms_ok_argument [OF assms(3)] t by blast
  moreover have "size (\<sigma> a) < size (Ty (tt_ctor (ts ! t)) (map \<sigma> (tt_arguments (ts ! t))))"
    using t(3) by (auto simp: less_Suc_eq_le size_list_conv_sum_list intro!: member_le_sum_list trans_le_add1)
  ultimately show ?thesis using solves_structure [OF assms(1)] t by simp
qed

lemma solves_reach_size:
  assumes "solves ts ss \<sigma>" "forest ss" "terms_ok ts ss" "(i, j) \<in> (links ts ss)\<^sup>+"
  shows "size (\<sigma> j) < size (\<sigma> i)"
  using assms(4) by (induction rule: trancl.induct) (use solves_links_size [OF assms(1-3)] less_trans in blast)+

text \<open>A rank that falls along the links gives a solution.\<close>

lemma solution_from_rank:
  assumes forest: "forest ss" and ts: "terms_ok ts ss"
    and rank: "\<And>i j. (i, j) \<in> links ts ss \<Longrightarrow> h j < (h i :: nat)"
  shows "\<exists>\<sigma>. solves ts ss \<sigma>"
proof -
  let ?ok = "\<lambda>\<sigma> i. \<sigma> (rep ss i) = \<sigma> i \<and>
    (\<forall>t. ss ! i = TsStructure t \<longrightarrow> \<sigma> i = Ty (tt_ctor (ts ! t)) (map \<sigma> (tt_arguments (ts ! t))))"
  have below: "\<exists>\<sigma>. \<forall>i < length ss. h (rep ss i) < k \<longrightarrow> ?ok \<sigma> i" for k
  proof (induction k)
    case (Suc k)
    then obtain \<sigma> where \<sigma>: "\<And>i. i < length ss \<Longrightarrow> h (rep ss i) < k \<Longrightarrow> ?ok \<sigma> i" by blast
    define \<tau> where "\<tau> i = (if h (rep ss i) = k
      then (case ss ! rep ss i of
              TsStructure t \<Rightarrow> Ty (tt_ctor (ts ! t)) (map \<sigma> (tt_arguments (ts ! t))) | _ \<Rightarrow> Ty TcInt [])
      else \<sigma> i)" for i
    have args: "map \<tau> (tt_arguments (ts ! t)) = map \<sigma> (tt_arguments (ts ! t))"
      if "i < length ss" "ss ! i = TsStructure t" "h i \<le> k" for i t
      using rank linkI that by (fastforce simp: \<tau>_def)
    have "?ok \<tau> i" if i: "i < length ss" "h (rep ss i) < Suc k" for i
    proof
      show "\<tau> (rep ss i) = \<tau> i" using \<sigma> i forest_rep [OF forest] by (auto simp: \<tau>_def)
      show "\<forall>t. ss ! i = TsStructure t \<longrightarrow> \<tau> i = Ty (tt_ctor (ts ! t)) (map \<tau> (tt_arguments (ts ! t)))"
      proof (intro allI impI)
        fix t assume t: "ss ! i = TsStructure t"
        then have r: "rep ss i = i" using i by simp
        show "\<tau> i = Ty (tt_ctor (ts ! t)) (map \<tau> (tt_arguments (ts ! t)))"
          using \<sigma> [OF i(1)] args [OF i(1) t] i t r by (cases "h i = k") (auto simp: \<tau>_def)
      qed
    qed
    then show ?case by blast
  qed simp
  have "h (rep ss i) < Suc (\<Sum>i < length ss. h (rep ss i))" if "i < length ss" for i
    using that by (intro le_imp_less_Suc member_le_sum) auto
  then show ?thesis using below [of "Suc (\<Sum>i < length ss. h (rep ss i))"] forest by (auto simp: solves_iff)
qed

lemma links_link:
  assumes "forest ss" "terms_ok ts ss" "u < length ss" "ss ! u = TsUnknown" "v < length ss" "rep ss v \<noteq> u"
    and "(i, j) \<in> links ts (ss[u := TsProxyTo v])"
  shows "(i, u) \<in> links ts ss \<and> j = rep ss v \<or> (i, j) \<in> links ts ss"
proof -
  obtain t a where t: "i < length ss" "(ss[u := TsProxyTo v]) ! i = TsStructure t"
      "a \<in> set (tt_arguments (ts ! t))" "j = rep (ss[u := TsProxyTo v]) a"
    using assms(7) by (auto simp: links_def)
  have i: "ss ! i = TsStructure t" using t(1,2) assms(3) by (auto simp: nth_list_update split: if_splits)
  have "a < length ss" using terms_ok_argument [OF assms(2) t(1) i t(3)] .
  then have "j = (if rep ss a = u then rep ss v else rep ss a)"
    using t(4) forest_link(2) [OF assms(1,3) _ assms(5,6)] assms(4) by simp
  then show ?thesis using linkI [OF t(1) i t(3)] by (auto split: if_splits)
qed

lemma solution_link:
  assumes "forest ss" "terms_ok ts ss" "u < length ss" "ss ! u = TsUnknown" "v < length ss"
    and "rep ss v \<noteq> u" "solves ts ss \<sigma>" "(rep ss v, u) \<notin> (links ts ss)\<^sup>*"
  shows "\<exists>\<sigma>. solves ts (ss[u := TsProxyTo v]) \<sigma>"
proof -
  let ?D = "{i. (i, u) \<in> (links ts ss)\<^sup>*}"
  let ?h = "\<lambda>i. if i \<in> ?D then size (\<sigma> i) + size (\<sigma> (rep ss v)) + 1 else size (\<sigma> i)"
  have "?h j < ?h i" if link: "(i, j) \<in> links ts (ss[u := TsProxyTo v])" for i j
    using links_link [OF assms(1-6) link]
  proof
    assume "(i, u) \<in> links ts ss \<and> j = rep ss v"
    then show ?thesis using assms(8) by auto
  next
    assume "(i, j) \<in> links ts ss"
    then have "size (\<sigma> j) < size (\<sigma> i)" "j \<in> ?D \<Longrightarrow> i \<in> ?D"
      using solves_links_size [OF assms(7,1,2)] by (auto intro: converse_rtrancl_into_rtrancl)
    then show ?thesis by auto
  qed
  moreover have "forest (ss[u := TsProxyTo v])" using forest_link(1) assms by simp
  moreover have "terms_ok ts (ss[u := TsProxyTo v])"
    using assms(2,3) by (auto simp: terms_ok_def nth_list_update)
  ultimately show ?thesis using solution_from_rank [where h = ?h] by blast
qed

section \<open>The arena\<close>

text \<open>What the fields a failure reads must satisfy.\<close>

definition failure_ok :: "solver \<Rightarrow> bool" where
  "failure_ok s \<longleftrightarrow>
     (case sv_contract s of
        Some c \<Rightarrow> c < length (sv_hir s)
      | None \<Rightarrow> (case sv_origin s of Some node \<Rightarrow> node < length (sv_contract_uses s) | None \<Rightarrow> True)) \<and>
     (\<forall>us \<in> set (sv_contract_uses s). \<forall>c \<in> set us. c < length (sv_hir s))"

definition arena_ok :: "solver \<Rightarrow> bool" where
  "arena_ok s \<longleftrightarrow> forest (sv_slots s) \<and> terms_ok (sv_terms s) (sv_slots s) \<and>
     length (sv_value_slots s) = length (sv_slots s) \<and> length (sv_contract_slots s) = length (sv_slots s) \<and>
     (\<forall>i < length (sv_slots s). \<forall>k. sv_slots s ! i \<noteq> TsKnown k) \<and> failure_ok s"

lemma arena_okD:
  assumes "arena_ok s"
  shows "forest (sv_slots s)" "terms_ok (sv_terms s) (sv_slots s)"
    "length (sv_value_slots s) = length (sv_slots s)" "length (sv_contract_slots s) = length (sv_slots s)"
    "failure_ok s" "\<And>i k. i < length (sv_slots s) \<Longrightarrow> sv_slots s ! i \<noteq> TsKnown k"
  using assms by (simp_all add: arena_ok_def)

abbreviation solution :: "solver \<Rightarrow> (slot_id \<Rightarrow> ty) \<Rightarrow> bool" where
  "solution s \<equiv> solves (sv_terms s) (sv_slots s)"

abbreviation srep :: "solver \<Rightarrow> slot_id \<Rightarrow> slot_id" where
  "srep s \<equiv> rep (sv_slots s)"

abbreviation n_slots :: "solver \<Rightarrow> nat" where
  "n_slots s \<equiv> length (sv_slots s)"

lemma slot_root_rep: "arena_ok s \<Longrightarrow> i < n_slots s \<Longrightarrow> slot_root i s = ret (srep s i)"
  by (simp add: slot_root_def forest_rep(1) arena_okD)

lemma find_slot_view:
  assumes "arena_ok s" "i < n_slots s"
  shows "\<exists>ss. find_slot i s = ret (srep s i, s\<lparr>sv_slots := ss\<rparr>) \<and> same_view (sv_slots s) ss"
  using compress_view [OF forest_root_path [OF arena_okD(1) [OF assms(1)] assms(2)]] slot_root_rep [OF assms]
  by (auto simp: find_slot_def)

lemma same_view_states:
  assumes "same_view ss ss'" "i < length ss"
  shows "is_proxy (ss' ! i) \<longleftrightarrow> is_proxy (ss ! i)" "\<not> is_proxy st \<Longrightarrow> ss' ! i = st \<longleftrightarrow> ss ! i = st"
  using assms unfolding same_view_def by metis+

lemma terms_ok_view: "same_view ss ss' \<Longrightarrow> terms_ok ts ss \<Longrightarrow> terms_ok ts ss'"
  unfolding terms_ok_def using same_view_states(2) [of ss ss' _ "TsStructure _"] by (auto simp: same_view_def)

lemma failure_ok_slots [simp]: "failure_ok (s\<lparr>sv_slots := ss\<rparr>) \<longleftrightarrow> failure_ok s"
  by (cases "sv_contract s"; cases "sv_origin s") (simp_all add: failure_ok_def)

lemma arena_ok_view:
  assumes "arena_ok s" "same_view (sv_slots s) ss"
  shows "arena_ok (s\<lparr>sv_slots := ss\<rparr>)"
proof -
  have "length ss = n_slots s" using assms(2) by (simp add: same_view_def)
  moreover have "ss ! i \<noteq> TsKnown k" if "i < n_slots s" for i k
    using same_view_states(2) [OF assms(2) that, of "TsKnown k"] arena_okD(6) [OF assms(1) that] by simp
  ultimately show ?thesis
    using assms same_view_forest terms_ok_view by (simp add: arena_ok_def)
qed

lemma slot_state_root:
  "arena_ok s \<Longrightarrow> i < n_slots s \<Longrightarrow> slot_state i s = ret (sv_slots s ! srep s i)"
  by (simp add: slot_state_def slot_root_rep forest_rep(2) arena_okD)

lemma slot_term_structure:
  "arena_ok s \<Longrightarrow> i < n_slots s \<Longrightarrow> sv_slots s ! srep s i = TsStructure t \<Longrightarrow>
     slot_term i s = ret (Some (sv_terms s ! t)) \<and> t < length (sv_terms s)"
proof -
  assume a: "arena_ok s" "i < n_slots s" "sv_slots s ! srep s i = TsStructure t"
  have "t < length (sv_terms s)"
    using arena_okD(2) [OF a(1)] forest_rep(2) [OF arena_okD(1) [OF a(1)] a(2)] a(3) by (auto simp: terms_ok_def)
  then show ?thesis using a by (simp add: slot_term_def slot_state_root term_of_state_def)
qed

lemma slot_term_none:
  "arena_ok s \<Longrightarrow> i < n_slots s \<Longrightarrow> \<forall>t. sv_slots s ! srep s i \<noteq> TsStructure t \<Longrightarrow> slot_term i s = ret None"
  by (auto simp: slot_term_def slot_state_root term_of_state_def split: type_state.splits)

text \<open>An arena for the examples: slots and terms, and nothing else.\<close>

definition example_arena :: "type_state list \<Rightarrow> type_term list \<Rightarrow> solver" where
  "example_arena ss ts =
     \<lparr>sv_hir = [], sv_slots = ss, sv_terms = ts, sv_types = [], sv_conflicts = [], sv_diagnostics = [],
      sv_definitions = [], sv_adjustments = [], sv_required = [], sv_symbol_types = [], sv_unknowns = [],
      sv_revision = 0, sv_origin = None, sv_contract = None, sv_contract_uses = [], sv_annotation_sources = [],
      sv_contract_slots = replicate (length ss) False, sv_value_slots = replicate (length ss) False,
      sv_tasks = [], sv_nominal_index = [], sv_pending_instances = {}, sv_bottom_candidates = []\<rparr>"

lemma example_arena_ok:
  "forest ss \<Longrightarrow> terms_ok ts ss \<Longrightarrow> \<forall>st \<in> set ss. \<forall>k. st \<noteq> TsKnown k \<Longrightarrow> arena_ok (example_arena ss ts)"
  by (auto simp: arena_ok_def example_arena_def failure_ok_def)

lemma forest_roots: "\<forall>st \<in> set ss. \<not> is_proxy st \<Longrightarrow> forest ss"
  unfolding forest_def using root_path.root nth_mem by metis

section \<open>The occurs check\<close>

abbreviation slinks :: "solver \<Rightarrow> (slot_id \<times> slot_id) set" where
  "slinks s \<equiv> links (sv_terms s) (sv_slots s)"

definition seen_closed :: "solver \<Rightarrow> slot_id \<Rightarrow> slot_id set \<Rightarrow> slot_id set \<Rightarrow> bool" where
  "seen_closed s needle visited pending \<longleftrightarrow>
     visited \<subseteq> {..<n_slots s} \<and> needle \<notin> visited \<and>
     (\<forall>(v, w) \<in> slinks s. v \<in> visited \<longrightarrow> w \<in> visited \<union> srep s ` pending)"

lemma seen_closed_end:
  assumes "seen_closed s needle visited {}" "v \<in> visited"
  shows "(v, needle) \<notin> (slinks s)\<^sup>*"
proof
  assume "(v, needle) \<in> (slinks s)\<^sup>*"
  then have "needle \<in> visited"
    by (induction rule: rtrancl_induct) (use assms in \<open>auto simp: seen_closed_def\<close>)
  then show False using assms(1) by (simp add: seen_closed_def)
qed

lemma occurs_loop_spec:
  assumes "arena_ok s" "set pending \<subseteq> {..<n_slots s}" "seen_closed s needle visited (set pending)"
  shows "\<exists>b. occurs_loop needle pending visited s = ret b \<and>
    (b \<longrightarrow> (\<exists>p \<in> set pending. (srep s p, needle) \<in> (slinks s)\<^sup>*)) \<and>
    (\<not> b \<longrightarrow> (\<forall>v \<in> visited \<union> srep s ` set pending. (v, needle) \<notin> (slinks s)\<^sup>*))"
  using assms(2,3)
proof (induction "(n_slots s - card visited, length pending)" arbitrary: pending visited
    rule: wf_induct_rule [OF wf_lex_prod [OF wf_less wf_less]])
  case 1
  note ok = arena_okD [OF assms(1)]
  show ?case
  proof (cases pending)
    case Nil
    then show ?thesis using seen_closed_end 1(3) by (subst occurs_loop.simps) auto
  next
    case (Cons i rest)
    let ?r = "srep s i"
    have i: "i < n_slots s" and rest: "set rest \<subseteq> {..<n_slots s}" using 1(2) Cons by auto
    have r: "?r < n_slots s" "srep s ?r = ?r" using forest_rep [OF ok(1) i] by auto
    have vis: "visited \<subseteq> {..<n_slots s}" "needle \<notin> visited" using 1(3) by (auto simp: seen_closed_def)
    have fin: "finite visited" using vis(1) finite_subset by blast
    note step = occurs_loop.simps [of needle pending visited s, unfolded Cons list.case slot_root_rep [OF assms(1) i] obind_simps]
    consider "?r = needle" | "?r \<noteq> needle" "?r \<in> visited" | "?r \<noteq> needle" "?r \<notin> visited" by blast
    then show ?thesis
    proof cases
      case 1
      then show ?thesis using step Cons by auto
    next
      case 2
      then have "seen_closed s needle visited (set rest)"
        using \<open>seen_closed s needle visited (set pending)\<close> Cons by (auto simp: seen_closed_def)
      from "1.hyps" [OF _ rest this] obtain b where b: "occurs_loop needle rest visited s = ret b"
        "b \<longrightarrow> (\<exists>p \<in> set rest. (srep s p, needle) \<in> (slinks s)\<^sup>*)"
        "\<not> b \<longrightarrow> (\<forall>v \<in> visited \<union> srep s ` set rest. (v, needle) \<notin> (slinks s)\<^sup>*)"
        using Cons by auto
      then show ?thesis using step 2 Cons by auto
    next
      case 3
      define args where "args = (case slot_term ?r s of Some (Inr (Some tm)) \<Rightarrow> tt_arguments tm | _ \<Rightarrow> [])"
      have args: "slot_term ?r s = ret t \<Longrightarrow> args = (case t of Some tm \<Rightarrow> tt_arguments tm | None \<Rightarrow> [])" for t
        by (cases t) (auto simp: args_def)
      obtain t where t: "slot_term ?r s = ret t"
        using slot_term_structure [OF assms(1) r(1)] slot_term_none [OF assms(1) r(1)] by blast
      have below: "set args \<subseteq> {..<n_slots s}"
        using slot_term_structure [OF assms(1) r(1)] slot_term_none [OF assms(1) r(1)] r terms_ok_argument [OF ok(2) r(1)]
        by (cases "\<exists>t. sv_slots s ! ?r = TsStructure t") (auto simp: args_def)
      have out: "(?r, w) \<in> slinks s \<longleftrightarrow> w \<in> srep s ` set args" for w
        using slot_term_structure [OF assms(1) r(1)] slot_term_none [OF assms(1) r(1)] r
        by (cases "\<exists>t. sv_slots s ! ?r = TsStructure t") (auto simp: links_def args_def)
      have closed: "seen_closed s needle (insert ?r visited) (set (rev args @ rest))"
        using \<open>seen_closed s needle visited (set pending)\<close> Cons 3(1) r(1) out
        by (auto simp: seen_closed_def)
      have within: "set (rev args @ rest) \<subseteq> {..<n_slots s}" using below rest by simp
      have "card (insert ?r visited) \<le> n_slots s"
        using card_mono [of "{..<n_slots s}" "insert ?r visited"] vis(1) r(1) by simp
      then have less: "n_slots s - card (insert ?r visited) < n_slots s - card visited"
        using fin 3(2) by simp
      obtain b where b: "occurs_loop needle (rev args @ rest) (insert ?r visited) s = ret b"
        "b \<longrightarrow> (\<exists>p \<in> set (rev args @ rest). (srep s p, needle) \<in> (slinks s)\<^sup>*)"
        "\<not> b \<longrightarrow> (\<forall>v \<in> insert ?r visited \<union> srep s ` set (rev args @ rest). (v, needle) \<notin> (slinks s)\<^sup>*)"
        using "1.hyps" [OF _ within closed] less by (metis (no_types, lifting) case_prodI in_lex_prod less_than_iff mem_Collect_eq)
      have "occurs_loop needle pending visited s = ret b"
        using step 3 t b(1) args [OF t] Cons by simp (cases t; simp)
      moreover have "b \<Longrightarrow> \<exists>p \<in> set pending. (srep s p, needle) \<in> (slinks s)\<^sup>*"
      proof -
        assume b
        then obtain p where p: "p \<in> set args \<or> p \<in> set rest" "(srep s p, needle) \<in> (slinks s)\<^sup>*"
          using b(2) by auto
        from p(1) show ?thesis
        proof
          assume "p \<in> set args"
          then have "(?r, srep s p) \<in> slinks s" using out by blast
          then have "(?r, needle) \<in> (slinks s)\<^sup>*" using p(2) by (rule converse_rtrancl_into_rtrancl)
          then show ?thesis using Cons by auto
        qed (use p(2) Cons in auto)
      qed
      ultimately show ?thesis using b(3) Cons by auto
    qed
  qed
qed

lemma occurs_spec:
  assumes "arena_ok s" "i < n_slots s"
  shows "\<exists>b. occurs needle i s = ret b \<and> (b \<longleftrightarrow> (srep s i, needle) \<in> (slinks s)\<^sup>*)"
  using occurs_loop_spec [OF assms(1), of "[i]" needle "{}"] assms(2)
  by (auto simp: occurs_def seen_closed_def)

end
