(* ===== verification/Type_Unify.thy ===== *)
theory Type_Unify
  imports Type_Forest
begin

text \<open>
  One step of \<open>equal_slots\<close> on plain types. Plain constructors are those of declared types; the
  literal constructors of inference, whose equality is the evidence \<open>compatible_structure\<close> collects,
  are excluded. A step keeps the arena, makes progress, and either records a conflict, and then its
  pair has no common solution, or keeps exactly the common solutions.
\<close>

section \<open>Plain arenas\<close>

definition plain_ctor :: "type_ctor \<Rightarrow> bool" where
  "plain_ctor c \<longleftrightarrow>
     (case c of TcTupleLiteral \<Rightarrow> False | TcArrayLiteral \<Rightarrow> False | TcNever \<Rightarrow> False | TcTypeOf \<Rightarrow> False
      | TcRecord _ \<Rightarrow> False | _ \<Rightarrow> True)"

definition plain :: "solver \<Rightarrow> bool" where
  "plain s \<longleftrightarrow> (\<forall>tm \<in> set (sv_terms s). plain_ctor (tt_ctor tm))"

definition solvable :: "solver \<Rightarrow> bool" where
  "solvable s \<longleftrightarrow> (\<exists>\<sigma>. solution s \<sigma>)"

definition clean :: "solver \<Rightarrow> bool" where
  "clean s \<longleftrightarrow> (\<forall>i < n_slots s. \<forall>c. sv_slots s ! i \<noteq> TsConflicted c)"

definition unknowns :: "solver \<Rightarrow> nat" where
  "unknowns s = card {i. i < n_slots s \<and> sv_slots s ! i = TsUnknown}"

section \<open>Relaxation\<close>

text \<open>A state with the same slots and terms, of which fewer are constrained.\<close>

definition relaxed :: "solver \<Rightarrow> solver \<Rightarrow> bool" where
  "relaxed s s' \<longleftrightarrow> n_slots s' = n_slots s \<and> sv_terms s' = sv_terms s \<and>
     (\<forall>i r. root_path (sv_slots s) i r \<longrightarrow> root_path (sv_slots s') i r) \<and>
     (\<forall>i < n_slots s. \<not> is_proxy (sv_slots s ! i) \<longrightarrow>
        sv_slots s' ! i = sv_slots s ! i \<or> (\<exists>c. sv_slots s' ! i = TsConflicted c)) \<and>
     (\<forall>i < n_slots s. is_proxy (sv_slots s ! i) \<longrightarrow> is_proxy (sv_slots s' ! i)) \<and>
     length (sv_value_slots s') = length (sv_value_slots s) \<and>
     length (sv_contract_slots s') = length (sv_contract_slots s) \<and>
     sv_hir s' = sv_hir s \<and> sv_origin s' = sv_origin s \<and> sv_contract s' = sv_contract s \<and>
     sv_contract_uses s' = sv_contract_uses s \<and> length (sv_conflicts s) \<le> length (sv_conflicts s')"

lemma relaxed_same: "relaxed s s"
  by (simp add: relaxed_def)

lemma relaxed_seq: "relaxed a b \<Longrightarrow> relaxed b c \<Longrightarrow> relaxed a c"
  unfolding relaxed_def by (elim conjE, intro conjI) (simp_all, (metis is_proxy_simps(5))+)

lemma failure_ok_cong:
  "sv_hir s' = sv_hir s \<Longrightarrow> sv_origin s' = sv_origin s \<Longrightarrow> sv_contract s' = sv_contract s \<Longrightarrow>
     sv_contract_uses s' = sv_contract_uses s \<Longrightarrow> failure_ok s' \<longleftrightarrow> failure_ok s"
  by (cases "sv_contract s"; cases "sv_origin s") (simp_all add: failure_ok_def)

lemma failure_ok_bump [simp]: "failure_ok (bump s) \<longleftrightarrow> failure_ok s"
  by (rule failure_ok_cong) (simp_all add: bump_def)

lemma bump_fields [simp]:
  "sv_slots (bump s) = sv_slots s" "sv_terms (bump s) = sv_terms s" "sv_conflicts (bump s) = sv_conflicts s"
  "sv_value_slots (bump s) = sv_value_slots s" "sv_contract_slots (bump s) = sv_contract_slots s"
  by (simp_all add: bump_def)

lemma relaxedD:
  assumes "relaxed s s'"
  shows "n_slots s' = n_slots s" "sv_terms s' = sv_terms s" "length (sv_value_slots s') = length (sv_value_slots s)"
    "length (sv_contract_slots s') = length (sv_contract_slots s)"
    "length (sv_conflicts s) \<le> length (sv_conflicts s')" "failure_ok s' \<longleftrightarrow> failure_ok s"
    "\<And>i r. root_path (sv_slots s) i r \<Longrightarrow> root_path (sv_slots s') i r"
    "\<And>i. i < n_slots s \<Longrightarrow> \<not> is_proxy (sv_slots s ! i) \<Longrightarrow>
       sv_slots s' ! i = sv_slots s ! i \<or> (\<exists>c. sv_slots s' ! i = TsConflicted c)"
    "\<And>i. i < n_slots s \<Longrightarrow> is_proxy (sv_slots s ! i) \<Longrightarrow> is_proxy (sv_slots s' ! i)"
  using assms failure_ok_cong [of s' s] by (simp_all add: relaxed_def)

lemma relaxed_state:
  assumes "relaxed s s'" "i < n_slots s" "sv_slots s' ! i = st" "\<not> is_proxy st" "\<forall>c. st \<noteq> TsConflicted c"
  shows "sv_slots s ! i = st"
  using relaxedD(8,9) [OF assms(1,2)] assms(3-5) by (cases "is_proxy (sv_slots s ! i)") auto

lemma relaxed_forest:
  assumes "relaxed s s'" "forest (sv_slots s)"
  shows "forest (sv_slots s')" "\<And>i. i < n_slots s \<Longrightarrow> srep s' i = srep s i"
proof -
  have path: "root_path (sv_slots s') i (srep s i)" if "i < n_slots s" for i
    using assms forest_root_path that by (simp add: relaxed_def)
  then show "forest (sv_slots s')" using assms(1) by (auto simp: forest_def relaxed_def)
  show "srep s' i = srep s i" if "i < n_slots s" for i using path [OF that] by (rule rep_eq)
qed

lemma relaxed_structure:
  assumes "relaxed s s'" "i < n_slots s" "sv_slots s' ! i = TsStructure t"
  shows "sv_slots s ! i = TsStructure t"
  using relaxed_state [OF assms] by simp

lemma relaxed_arena:
  assumes "relaxed s s'" "arena_ok s"
  shows "arena_ok s'"
proof -
  note ok = arena_okD [OF assms(2)] and re = relaxedD [OF assms(1)]
  have "terms_ok (sv_terms s') (sv_slots s')"
    using ok(2) relaxed_structure [OF assms(1)] re(1,2) unfolding terms_ok_def by metis
  moreover have "sv_slots s' ! i \<noteq> TsKnown k" if "i < n_slots s" for i k
    using relaxed_state [OF assms(1) that, of "TsKnown k"] ok(6) [OF that] by auto
  ultimately show ?thesis
    using relaxed_forest(1) [OF assms(1) ok(1)] ok(3-5) re(1,3,4,6) by (simp add: arena_ok_def)
qed

lemma relaxed_solution:
  assumes "relaxed s s'" "arena_ok s" "solution s \<sigma>"
  shows "solution s' \<sigma>"
proof -
  note forest = arena_okD(1) [OF assms(2)]
  have "n_slots s' = n_slots s" "sv_terms s' = sv_terms s" using assms(1) by (simp_all add: relaxed_def)
  then show ?thesis
    using solves_rep [OF assms(3) forest] solves_structure [OF assms(3)] relaxed_structure [OF assms(1)]
      relaxed_forest [OF assms(1) forest] by (simp add: solves_iff)
qed

lemma relaxed_unknowns:
  assumes "relaxed s s'"
  shows "unknowns s' \<le> unknowns s"
proof -
  have "sv_slots s ! i = TsUnknown" if "i < n_slots s" "sv_slots s' ! i = TsUnknown" for i
    using relaxed_state [OF assms that] by simp
  then show ?thesis using relaxedD(1) [OF assms] unfolding unknowns_def by (intro card_mono) auto
qed

lemma relaxed_plain: "relaxed s s' \<Longrightarrow> plain s' \<longleftrightarrow> plain s"
  by (simp add: relaxed_def plain_def)

section \<open>Failures relax\<close>

lemma find_relaxed:
  assumes "arena_ok s" "i < n_slots s"
  shows "\<exists>s'. find_slot i s = ret (srep s i, s') \<and> relaxed s s' \<and> same_view (sv_slots s) (sv_slots s') \<and>
    sv_conflicts s' = sv_conflicts s"
proof -
  obtain ss where "find_slot i s = ret (srep s i, s\<lparr>sv_slots := ss\<rparr>)" "same_view (sv_slots s) ss"
    using find_slot_view [OF assms] by blast
  then show ?thesis by (auto simp: relaxed_def same_view_def)
qed

lemma set_value_relaxed:
  "i < length (sv_value_slots s) \<Longrightarrow> \<exists>s'. set_value_slot i b s = ret s' \<and> relaxed s s' \<and>
     sv_slots s' = sv_slots s \<and> sv_conflicts s' = sv_conflicts s"
  by (simp add: set_value_slot_def relaxed_def)

lemma join_relaxed:
  assumes "arena_ok s" "l < n_slots s" "r < n_slots s"
  shows "\<exists>b s'. join_value_slots l r s = ret (b, s') \<and> relaxed s s' \<and> sv_slots s' = sv_slots s \<and>
    sv_conflicts s' = sv_conflicts s"
proof -
  have "l < length (sv_value_slots s)" "r < length (sv_value_slots s)" using assms arena_okD(3) by auto
  then show ?thesis by (simp add: join_value_slots_def set_value_slot_def relaxed_def)
qed

lemma set_conflicted_relaxed:
  assumes "i < n_slots s" "\<not> is_proxy (sv_slots s ! i)"
  shows "\<exists>s'. set_type_state i (TsConflicted c) s = ret s' \<and> relaxed s s' \<and>
    sv_slots s' = (sv_slots s)[i := TsConflicted c] \<and> sv_conflicts s' = sv_conflicts s"
  using assms root_path_set [of "sv_slots s" _ _ i "TsConflicted c"]
  by (auto simp: set_type_state_def relaxed_def nth_list_update)

lemma bump_relaxed: "relaxed s (bump s)" "sv_slots (bump s) = sv_slots s" "sv_conflicts (bump s) = sv_conflicts s"
  by (simp_all add: bump_def relaxed_def)

lemma inherit_slot_relaxed:
  assumes "arena_ok s" "i < n_slots s" "\<not> is_proxy (sv_slots s ! i)"
  shows "\<exists>b' s'. inherit_slot c i (b, s) = ret (b', s') \<and> relaxed s s' \<and> sv_conflicts s' = sv_conflicts s"
proof -
  have "i < length (sv_contract_slots s)" using assms arena_okD(4) by simp
  then show ?thesis
    using assms(2) set_conflicted_relaxed [OF assms(2,3), of c]
    by (cases "sv_contract_slots s ! i"; cases "sv_slots s ! i = TsConflicted c")
      (auto simp: inherit_slot_def relaxed_same)
qed

lemma relaxed_not_proxy:
  "relaxed s s' \<Longrightarrow> i < n_slots s \<Longrightarrow> \<not> is_proxy (sv_slots s ! i) \<Longrightarrow> \<not> is_proxy (sv_slots s' ! i)"
  unfolding relaxed_def by (metis is_proxy_simps(5))

lemma inherit_failure_relaxed:
  assumes "arena_ok s" "l < n_slots s" "r < n_slots s"
    and "\<not> is_proxy (sv_slots s ! l)" "\<not> is_proxy (sv_slots s ! r)"
  shows "\<exists>s'. inherit_failure l r c b s = ret s' \<and> relaxed s s' \<and> sv_conflicts s' = sv_conflicts s"
proof -
  obtain b1 s1 where 1: "inherit_slot c l (False, s) = ret (b1, s1)" "relaxed s s1" "sv_conflicts s1 = sv_conflicts s"
    using inherit_slot_relaxed assms by blast
  have "r < n_slots s1" using 1(2) assms(3) by (simp add: relaxed_def)
  then obtain b2 s2 where 2: "inherit_slot c r (b1, s1) = ret (b2, s2)" "relaxed s1 s2" "sv_conflicts s2 = sv_conflicts s1"
    using inherit_slot_relaxed [OF relaxed_arena [OF 1(2) assms(1)] _ relaxed_not_proxy [OF 1(2) assms(3,5)]] by blast
  show ?thesis
    using 1 2 relaxed_seq [OF 1(2) 2(2)] relaxed_seq [OF _ bump_relaxed(1)] bump_relaxed(3)
    by (simp add: inherit_failure_def inherit_conflict_def)
qed

lemma notes_relaxed:
  "(\<forall>c \<in> set cs. c < length (sv_hir s)) \<Longrightarrow> sv_diagnostics s \<noteq> [] \<Longrightarrow>
     \<exists>ds. each add_contract_note cs s = ret (s\<lparr>sv_diagnostics := ds\<rparr>)"
proof (induction cs arbitrary: s)
  case Nil
  show ?case by (rule exI [of _ "sv_diagnostics s"]) simp
next
  case (Cons c cs)
  obtain ds where ds: "add_contract_note c s = ret (s\<lparr>sv_diagnostics := ds\<rparr>)" "ds \<noteq> []"
  proof (cases "hn_location (sv_hir s ! c) \<in> set (td_locs (last (sv_diagnostics s)))")
    case True
    then show ?thesis using that [of "sv_diagnostics s"] Cons.prems by (simp add: add_contract_note_def)
  qed (use that Cons.prems in \<open>auto simp: add_contract_note_def Let_def\<close>)
  then show ?case using Cons.IH [of "s\<lparr>sv_diagnostics := ds\<rparr>"] Cons.prems by auto
qed

lemma record_conflict_relaxed:
  assumes "arena_ok s"
  shows "record_conflict l r loc m s = Some (Inl Capacity) \<or>
    (\<exists>c s'. record_conflict l r loc m s = ret (c, s') \<and> relaxed s s' \<and> sv_slots s' = sv_slots s \<and>
       length (sv_conflicts s') = Suc (length (sv_conflicts s)))"
proof (cases "length (sv_conflicts s) < 2 ^ 32")
  case True
  have "failure_ok s" using assms arena_okD by blast
  then have "\<exists>cs. failed_contract_sources s = ret cs \<and> (\<forall>c \<in> set cs. c < length (sv_hir s))"
    unfolding failure_ok_def failed_contract_sources_def
    by (cases "sv_contract s"; cases "sv_origin s") (auto simp: fetch_def)
  then obtain cs where cs: "failed_contract_sources s = ret cs" "\<forall>c \<in> set cs. c < length (sv_hir s)"
    by blast
  define s1 where "s1 = s\<lparr>sv_conflicts := sv_conflicts s @
      [\<lparr>tc_origin = sv_origin s, tc_contracts = cs, tc_left = l, tc_right = r, tc_location = loc,
        tc_message = m, tc_resolve_origin = None, tc_diagnostic = Some (length (sv_diagnostics s))\<rparr>],
      sv_diagnostics := sv_diagnostics s @ [\<lparr>td_message = m, td_locs = loc_list loc\<rparr>]\<rparr>"
  obtain ds where "each add_contract_note cs s1 = ret (s1\<lparr>sv_diagnostics := ds\<rparr>)"
    using notes_relaxed [of cs s1] cs(2) by (auto simp: s1_def)
  then have "record_conflict l r loc m s = ret (length (sv_conflicts s), s1\<lparr>sv_diagnostics := ds\<rparr>)"
    using True cs(1) by (simp add: record_conflict_def table_id_def s1_def)
  moreover have "relaxed s (s1\<lparr>sv_diagnostics := ds\<rparr>)" by (simp add: relaxed_def s1_def)
  ultimately show ?thesis by (simp add: s1_def)
qed (simp add: record_conflict_def table_id_def)

lemma poison_relaxed:
  assumes "arena_ok s" "i < n_slots s" "\<not> is_proxy (sv_slots s ! i)"
  shows "\<exists>s'. poison c i s = ret s' \<and> relaxed s s' \<and> sv_conflicts s' = sv_conflicts s"
proof -
  have "i < length (sv_contract_slots s)" using assms arena_okD(4) by simp
  then show ?thesis
    using set_conflicted_relaxed [OF assms(2,3), of c]
    by (cases "sv_contract_slots s ! i") (auto simp: poison_def relaxed_same)
qed

lemma solver_conflict_relaxed:
  assumes "arena_ok s" "l < n_slots s" "r < n_slots s"
    and "\<not> is_proxy (sv_slots s ! l)" "\<not> is_proxy (sv_slots s ! r)"
    and "conflicted_of (sv_slots s ! l) (sv_slots s ! r) = None"
  shows "solver_conflict l r loc m s = Some (Inl Capacity) \<or>
    (\<exists>s'. solver_conflict l r loc m s = ret s' \<and> relaxed s s' \<and> length (sv_conflicts s') = Suc (length (sv_conflicts s)))"
proof -
  have roots: "srep s l = l" "srep s r = r" using assms(2-5) by simp_all
  obtain s1 where 1: "find_slot l s = ret (l, s1)" "relaxed s s1" "same_view (sv_slots s) (sv_slots s1)"
      "sv_conflicts s1 = sv_conflicts s"
    using find_relaxed [OF assms(1,2)] roots by metis
  note ok1 = relaxed_arena [OF 1(2) assms(1)]
  have n1: "n_slots s1 = n_slots s" using 1(2) by (rule relaxedD)
  obtain s2 where 2: "find_slot r s1 = ret (srep s1 r, s2)" "relaxed s1 s2" "same_view (sv_slots s1) (sv_slots s2)"
      "sv_conflicts s2 = sv_conflicts s1"
    using find_relaxed [OF ok1, of r] assms(3) n1 by auto
  have r1: "srep s1 r = r" using relaxed_forest(2) [OF 1(2) arena_okD(1) [OF assms(1)] assms(3)] roots by simp
  note ok2 = relaxed_arena [OF 2(2) ok1]
  have view: "same_view (sv_slots s) (sv_slots s2)" using same_view_trans 1(3) 2(3) by blast
  then have states: "sv_slots s2 ! l = sv_slots s ! l" "sv_slots s2 ! r = sv_slots s ! r" "n_slots s2 = n_slots s"
    using assms(4,5) by (simp_all add: same_view_def)
  have start: "solver_conflict l r loc m s =
      obind (record_conflict l r loc m s2) (\<lambda>(fid, s). obind (each (poison fid) [l, r] s) (\<lambda>s. ret (bump s)))"
    using 1(1) 2(1) r1 states assms(2,3,6) by (simp add: solver_conflict_def)
  show ?thesis using record_conflict_relaxed [OF ok2, of l r loc m]
  proof
    assume "record_conflict l r loc m s2 = Some (Inl Capacity)"
    then show ?thesis using start by simp
  next
    assume "\<exists>c s'. record_conflict l r loc m s2 = ret (c, s') \<and> relaxed s2 s' \<and> sv_slots s' = sv_slots s2 \<and>
      length (sv_conflicts s') = Suc (length (sv_conflicts s2))"
    then obtain c s3 where 3: "record_conflict l r loc m s2 = ret (c, s3)" "relaxed s2 s3"
        "sv_slots s3 = sv_slots s2" "length (sv_conflicts s3) = Suc (length (sv_conflicts s2))" by blast
    note ok3 = relaxed_arena [OF 3(2) ok2]
    obtain s4 where 4: "poison c l s3 = ret s4" "relaxed s3 s4" "sv_conflicts s4 = sv_conflicts s3"
      using poison_relaxed [OF ok3, of l c] assms(2,4) states 3(3) by auto
    note ok4 = relaxed_arena [OF 4(2) ok3]
    have "\<not> is_proxy (sv_slots s4 ! r)"
      using relaxed_not_proxy [OF 4(2), of r] assms(3,5) states 3(3) by simp
    moreover have "r < n_slots s4" using relaxedD(1) [OF 4(2)] assms(3) states(3) 3(3) by simp
    ultimately obtain s5 where 5: "poison c r s4 = ret s5" "relaxed s4 s5" "sv_conflicts s5 = sv_conflicts s4"
      using poison_relaxed [OF ok4] by blast
    have "relaxed s s5"
      using 1(2) 2(2) 3(2) 4(2) 5(2) relaxed_seq by blast
    then have "relaxed s (bump s5)" using bump_relaxed(1) by (rule relaxed_seq)
    moreover have "length (sv_conflicts (bump s5)) = Suc (length (sv_conflicts s))"
      using 1(4) 2(4) 3(4) 4(3) 5(3) bump_relaxed(3) by simp
    ultimately show ?thesis using start 3(1) 4(1) 5(1) by simp
  qed
qed

section \<open>One step\<close>

definition weight :: "(slot_id \<Rightarrow> ty) \<Rightarrow> slot_pairs \<Rightarrow> nat" where
  "weight \<sigma> ps = sum_list (map (\<lambda>(a, b). size (\<sigma> a) + size (\<sigma> b)) ps)"

lemma weight_simps [simp]:
  "weight \<sigma> [] = 0" "weight \<sigma> ((a, b) # ps) = size (\<sigma> a) + size (\<sigma> b) + weight \<sigma> ps"
  "weight \<sigma> (ps @ qs) = weight \<sigma> ps + weight \<sigma> qs"
  by (simp_all add: weight_def)

definition agrees :: "(slot_id \<Rightarrow> ty) \<Rightarrow> slot_pairs \<Rightarrow> bool" where
  "agrees \<sigma> ps \<longleftrightarrow> (\<forall>(a, b) \<in> set ps. \<sigma> a = \<sigma> b)"

lemma agrees_simps [simp]:
  "agrees \<sigma> []" "agrees \<sigma> ((a, b) # ps) \<longleftrightarrow> \<sigma> a = \<sigma> b \<and> agrees \<sigma> ps"
  "agrees \<sigma> (ps @ qs) \<longleftrightarrow> agrees \<sigma> ps \<and> agrees \<sigma> qs"
  by (auto simp: agrees_def)

lemma agrees_zip: "length as = length bs \<Longrightarrow> agrees \<sigma> (zip as bs) \<longleftrightarrow> map \<sigma> as = map \<sigma> bs"
  by (induction as bs rule: list_induct2) auto

lemma weight_zip: "length as = length bs \<Longrightarrow>
    weight \<sigma> (zip as bs) + 2 * length as = size_list size (map \<sigma> as) + size_list size (map \<sigma> bs)"
  by (induction as bs rule: list_induct2) (auto simp: weight_def)

lemma size_ty_positive [simp]: "0 < size (t :: ty)"
  by (cases t) simp

text \<open>The structures a step puts aside to merge, with the pairs it queues for them.\<close>

definition put_aside :: "solver \<Rightarrow> slot_id \<Rightarrow> slot_id \<Rightarrow> slot_pairs \<Rightarrow> bool" where
  "put_aside s l r ps \<longleftrightarrow> (\<exists>ta tb. sv_slots s ! l = TsStructure ta \<and> sv_slots s ! r = TsStructure tb \<and>
     tt_ctor (sv_terms s ! ta) = tt_ctor (sv_terms s ! tb) \<and>
     length (tt_arguments (sv_terms s ! ta)) = length (tt_arguments (sv_terms s ! tb)) \<and>
     ps = zip (tt_arguments (sv_terms s ! ta)) (tt_arguments (sv_terms s ! tb)))"

definition grows :: "solver \<Rightarrow> solver \<Rightarrow> bool" where
  "grows s s' \<longleftrightarrow> n_slots s' = n_slots s \<and> sv_terms s' = sv_terms s \<and>
     (\<forall>i < n_slots s. \<forall>j < n_slots s. srep s i = srep s j \<longrightarrow> srep s' i = srep s' j) \<and>
     (\<forall>i < n_slots s. \<forall>t. sv_slots s ! i = TsStructure t \<longrightarrow> sv_slots s' ! i = TsStructure t)"

definition kept :: "slot_id \<Rightarrow> slot_id \<Rightarrow> solver \<Rightarrow> slot_pairs \<Rightarrow> slot_pairs \<Rightarrow> solver \<Rightarrow> bool" where
  "kept l r s ps ms s' \<longleftrightarrow> clean s' \<and> grows s s' \<and>
     (\<forall>\<sigma>. solution s' \<sigma> \<and> agrees \<sigma> ps \<longleftrightarrow> solution s \<sigma> \<and> \<sigma> l = \<sigma> r) \<and>
     (ps = [] \<and> ms = [] \<and> srep s' l = srep s' r \<or>
      ms = [(srep s l, srep s r)] \<and> put_aside s' (srep s l) (srep s r) ps)"

definition progress :: "slot_id \<Rightarrow> slot_id \<Rightarrow> solver \<Rightarrow> slot_pairs \<Rightarrow> solver \<Rightarrow> bool" where
  "progress l r s ps s' \<longleftrightarrow> unknowns s' < unknowns s \<or>
     unknowns s' \<le> unknowns s \<and> (\<forall>\<sigma>. solution s \<sigma> \<longrightarrow> solution s' \<sigma> \<and> weight \<sigma> ps < weight \<sigma> [(l, r)])"

definition stepped :: "slot_id \<Rightarrow> slot_id \<Rightarrow> solver \<Rightarrow> slot_pairs \<Rightarrow> slot_pairs \<Rightarrow> solver \<Rightarrow> bool" where
  "stepped l r s ps ms s' \<longleftrightarrow> arena_ok s' \<and> n_slots s' = n_slots s \<and> sv_terms s' = sv_terms s \<and> solvable s' \<and>
     length (sv_conflicts s) \<le> length (sv_conflicts s') \<and>
     (\<forall>(a, b) \<in> set ps. a < n_slots s \<and> b < n_slots s) \<and> progress l r s ps s' \<and>
     (clean s \<longrightarrow>
       (if length (sv_conflicts s') = length (sv_conflicts s) then kept l r s ps ms s'
        else \<nexists>\<sigma>. solution s \<sigma> \<and> \<sigma> l = \<sigma> r))"

text \<open>What a step keeps is closed under what precedes it without a change of the types.\<close>

definition same_types :: "solver \<Rightarrow> solver \<Rightarrow> bool" where
  "same_types s s' \<longleftrightarrow> relaxed s s' \<and> same_view (sv_slots s) (sv_slots s') \<and> sv_conflicts s' = sv_conflicts s"

lemma same_types_facts:
  assumes "same_types s s'" "arena_ok s"
  shows "arena_ok s'" "n_slots s' = n_slots s" "sv_terms s' = sv_terms s" "sv_conflicts s' = sv_conflicts s"
    "\<And>\<sigma>. solution s' \<sigma> \<longleftrightarrow> solution s \<sigma>" "\<And>i. i < n_slots s \<Longrightarrow> srep s' i = srep s i"
    "\<And>i st. i < n_slots s \<Longrightarrow> \<not> is_proxy st \<Longrightarrow> sv_slots s' ! i = st \<longleftrightarrow> sv_slots s ! i = st"
proof -
  note re = relaxedD [of s s'] and forest = arena_okD(1) [OF assms(2)]
  have r: "relaxed s s'" "same_view (sv_slots s) (sv_slots s')" using assms(1) by (simp_all add: same_types_def)
  show "arena_ok s'" using relaxed_arena r assms by blast
  show "n_slots s' = n_slots s" "sv_terms s' = sv_terms s" using re r by simp_all
  then show "solution s' \<sigma> \<longleftrightarrow> solution s \<sigma>" for \<sigma> using solves_view [OF r(2) forest] by simp
  show "sv_conflicts s' = sv_conflicts s" using assms(1) by (simp add: same_types_def)
  show "srep s' i = srep s i" if "i < n_slots s" for i using same_view_rep [OF r(2) forest that] .
  show "sv_slots s' ! i = st \<longleftrightarrow> sv_slots s ! i = st" if "i < n_slots s" "\<not> is_proxy st" for i st
    using same_view_states(2) [OF r(2) that] .
qed

lemma same_types_clean: "same_types s s' \<Longrightarrow> arena_ok s \<Longrightarrow> clean s' \<longleftrightarrow> clean s"
  unfolding clean_def using same_types_facts(2,7) by (metis is_proxy_simps(5))

lemma same_types_unknowns: "same_types s s' \<Longrightarrow> arena_ok s \<Longrightarrow> unknowns s' = unknowns s"
  unfolding unknowns_def using same_types_facts(2,7) [of s s'] by (intro arg_cong [where f = card]) auto

lemma stepped_after:
  assumes "same_types s s1" "arena_ok s" "l0 < n_slots s" "r0 < n_slots s"
    and "l = srep s l0" "r = srep s r0" "stepped l r s1 ps ms s'"
  shows "stepped l0 r0 s ps ms s'"
proof -
  note f = same_types_facts [OF assms(1,2)]
  have forest: "forest (sv_slots s)" using arena_okD(1) [OF assms(2)] .
  have lr: "l < n_slots s" "r < n_slots s" "srep s l = l" "srep s r = r"
    using forest_rep [OF forest] assms(3-6) by auto
  have \<sigma>: "\<sigma> l = \<sigma> l0" "\<sigma> r = \<sigma> r0" if "solution s \<sigma>" for \<sigma>
    using solves_rep [OF that forest] assms(3-6) by auto
  have "weight \<sigma> [(l, r)] = weight \<sigma> [(l0, r0)]" if "solution s \<sigma>" for \<sigma>
    using \<sigma> [OF that] by (simp add: weight_def)
  then have "progress l0 r0 s ps s'"
    using assms(7) f(5) same_types_unknowns [OF assms(1,2)] unfolding stepped_def progress_def by metis
  moreover have "clean s \<longrightarrow>
      (if length (sv_conflicts s') = length (sv_conflicts s) then kept l0 r0 s ps ms s'
       else \<nexists>\<sigma>. solution s \<sigma> \<and> \<sigma> l0 = \<sigma> r0)"
  proof (intro impI)
    assume "clean s"
    then have s': "if length (sv_conflicts s') = length (sv_conflicts s) then kept l r s1 ps ms s'
       else \<nexists>\<sigma>. solution s \<sigma> \<and> \<sigma> l = \<sigma> r"
      using assms(7) same_types_clean [OF assms(1,2)] f(4,5) by (auto simp: stepped_def split: if_splits)
    have "kept l0 r0 s ps ms s'" if k: "kept l r s1 ps ms s'"
    proof -
      have g: "grows s1 s'" using k by (simp add: kept_def)
      have "srep s' i = srep s' j" if "i < n_slots s" "j < n_slots s" "srep s i = srep s j" for i j
        using g f(2,6) that unfolding grows_def by metis
      moreover have "sv_slots s' ! i = TsStructure t" if "i < n_slots s" "sv_slots s ! i = TsStructure t" for i t
        using g f(2) f(7) [of i "TsStructure t"] that unfolding grows_def by (metis is_proxy_simps(3))
      ultimately have "grows s s'" using g f(2,3) unfolding grows_def by metis
      moreover have "srep s' l0 = srep s' l"
        using \<open>grows s s'\<close> lr(1,3) assms(3,5) unfolding grows_def by metis
      moreover have "srep s' r0 = srep s' r"
        using \<open>grows s s'\<close> lr(2,4) assms(4,6) unfolding grows_def by metis
      moreover have "solution s' \<tau> \<and> agrees \<tau> ps \<longleftrightarrow> solution s \<tau> \<and> \<tau> l0 = \<tau> r0" for \<tau>
        using k f(5) \<sigma> [of \<tau>] unfolding kept_def by metis
      moreover have "srep s1 l = srep s l0" "srep s1 r = srep s r0" using f(6) lr assms(5,6) by simp_all
      ultimately show ?thesis using k unfolding kept_def by metis
    qed
    then show "if length (sv_conflicts s') = length (sv_conflicts s) then kept l0 r0 s ps ms s'
       else \<nexists>\<sigma>. solution s \<sigma> \<and> \<sigma> l0 = \<sigma> r0"
      using s' \<sigma> by (metis (no_types, lifting))
  qed
  ultimately show ?thesis using assms(7) f(2-4) by (simp add: stepped_def)
qed

lemma stepped_relaxed:
  assumes "relaxed s s'" "arena_ok s" "solvable s"
    and "clean s \<Longrightarrow> length (sv_conflicts s') \<noteq> length (sv_conflicts s) \<and> (\<nexists>\<sigma>. solution s \<sigma> \<and> \<sigma> l = \<sigma> r)"
  shows "stepped l r s [] [] s'"
proof -
  have "progress l r s [] s'"
    using relaxed_unknowns [OF assms(1)] relaxed_solution [OF assms(1,2)]
    by (simp add: progress_def)
  moreover have "solvable s'" using relaxed_solution [OF assms(1,2)] assms(3) by (auto simp: solvable_def)
  ultimately show ?thesis
    using relaxed_arena [OF assms(1,2)] relaxedD(1,2,5) [OF assms(1)] assms(4) unfolding stepped_def by simp
qed

lemma solver_conflict_stepped:
  assumes "arena_ok s" "solvable s" "l < n_slots s" "r < n_slots s"
    and "\<not> is_proxy (sv_slots s ! l)" "\<not> is_proxy (sv_slots s ! r)"
    and "conflicted_of (sv_slots s ! l) (sv_slots s ! r) = None" "\<nexists>\<sigma>. solution s \<sigma> \<and> \<sigma> l = \<sigma> r"
  shows "solver_conflict l r loc m s = Some (Inl Capacity) \<or>
    (\<exists>s'. solver_conflict l r loc m s = ret s' \<and> stepped l r s [] [] (bump s'))"
  using solver_conflict_relaxed [OF assms(1,3-7), of loc m]
proof
  assume "\<exists>s'. solver_conflict l r loc m s = ret s' \<and> relaxed s s' \<and>
    length (sv_conflicts s') = Suc (length (sv_conflicts s))"
  then obtain s' where s': "solver_conflict l r loc m s = ret s'" "relaxed s s'"
    "length (sv_conflicts s') = Suc (length (sv_conflicts s))" by blast
  have "stepped l r s [] [] (bump s')"
    using s'(3) assms(8) bump_relaxed(3)
    by (intro stepped_relaxed relaxed_seq [OF s'(2) bump_relaxed(1)] assms(1,2)) simp
  then show ?thesis using s'(1) by blast
qed simp

lemma link_stepped:
  assumes "arena_ok s" "solvable s" "u < n_slots s" "v < n_slots s" "u \<noteq> v"
    and "sv_slots s ! u = TsUnknown" "\<not> is_proxy (sv_slots s ! v)" "(v, u) \<notin> (slinks s)\<^sup>*"
    and "(l, r) = (u, v) \<or> (l, r) = (v, u)"
  shows "\<exists>s'. set_type_state u (TsProxyTo v) s = ret s' \<and> stepped l r s [] [] (bump s')"
proof -
  let ?ss = "(sv_slots s)[u := TsProxyTo v]"
  let ?s = "bump (s\<lparr>sv_slots := ?ss\<rparr>)"
  note ok = arena_okD [OF assms(1)]
  have v: "srep s v = v" "srep s v \<noteq> u" using assms(4,5,7) by simp_all
  have link: "forest ?ss" "\<And>i. i < n_slots s \<Longrightarrow> rep ?ss i = (if srep s i = u then v else srep s i)"
    using forest_link [OF ok(1) assms(3) _ assms(4) v(2)] assms(6) v(1) by simp_all
  have "terms_ok (sv_terms s) ?ss" using ok(2) assms(3) by (auto simp: terms_ok_def nth_list_update)
  moreover have "?ss ! i \<noteq> TsKnown k" if "i < n_slots s" for i k
    using ok(6) [OF that, of k] assms(3) by (cases "i = u") simp_all
  ultimately have arena: "arena_ok ?s" using link(1) ok(3-5) by (simp add: arena_ok_def)
  obtain \<sigma>0 where "solution s \<sigma>0" using assms(2) by (auto simp: solvable_def)
  then have solvable: "solvable ?s"
    using solution_link [OF ok(1,2) assms(3,6,4) v(2)] v(1) assms(8) by (simp add: solvable_def)
  have "{i. i < n_slots s \<and> ?ss ! i = TsUnknown} = {i. i < n_slots s \<and> sv_slots s ! i = TsUnknown} - {u}"
    using assms(3) by (auto simp: nth_list_update split: if_splits)
  moreover have "0 < card {i. i < n_slots s \<and> sv_slots s ! i = TsUnknown}"
    using assms(3,6) by (auto simp: card_gt_0_iff)
  ultimately have progress: "progress l r s [] ?s" using assms(3,6) by (simp add: progress_def unknowns_def)
  have "?ss ! i = TsStructure t" if "sv_slots s ! i = TsStructure t" for i t
    using that assms(6) by (cases "i = u") simp_all
  then have "grows s ?s" using link(2) by (simp add: grows_def)
  moreover have "solution ?s \<sigma> \<longleftrightarrow> solution s \<sigma> \<and> \<sigma> l = \<sigma> r" for \<sigma>
    using solves_link [OF assms(3,6)] assms(9) by auto
  moreover have "srep ?s l = srep ?s r" using link(2) assms(3,4,6,9) v(1) by auto
  moreover have "clean s \<Longrightarrow> clean ?s" using assms(3) by (auto simp: clean_def nth_list_update)
  ultimately have "clean s \<Longrightarrow> kept l r s [] [] ?s" by (simp add: kept_def)
  then have "stepped l r s [] [] ?s"
    using arena solvable progress by (simp add: stepped_def)
  then show ?thesis using assms(3) by (simp add: set_type_state_def)
qed

lemma bind_unknown_stepped:
  assumes "arena_ok s" "solvable s" "u < n_slots s" "v < n_slots s" "u \<noteq> v"
    and "sv_slots s ! u = TsUnknown" "\<not> is_proxy (sv_slots s ! v)"
    and "(l, r) = (u, v) \<or> (l, r) = (v, u)" "conflicted_of (sv_slots s ! l) (sv_slots s ! r) = None"
  shows "bind_unknown u v l r loc s = Some (Inl Capacity) \<and> (\<nexists>\<sigma>. solution s \<sigma> \<and> \<sigma> l = \<sigma> r) \<or>
    (\<exists>s'. bind_unknown u v l r loc s = ret s' \<and> stepped l r s [] [] (bump s'))"
proof -
  note ok = arena_okD [OF assms(1)]
  have v: "srep s v = v" using assms(4,7) by simp
  obtain b where b: "occurs u v s = ret b" "b \<longleftrightarrow> (v, u) \<in> (slinks s)\<^sup>*"
    using occurs_spec [OF assms(1,4), of u] v by auto
  show ?thesis
  proof (cases b)
    case True
    then have "(v, u) \<in> (slinks s)\<^sup>+" using b(2) assms(5) by (auto simp: rtrancl_eq_or_trancl)
    then have "\<nexists>\<sigma>. solution s \<sigma> \<and> \<sigma> l = \<sigma> r"
      using solves_reach_size [OF _ ok(1,2)] assms(8) by fastforce
    then show ?thesis
      using solver_conflict_stepped [OF assms(1,2), of l r loc TmInfinite] assms(3-9) b(1) True
      by (auto simp: bind_unknown_def)
  next
    case False
    then show ?thesis
      using link_stepped [OF assms(1-7) _ assms(8)] b by (simp add: bind_unknown_def)
  qed
qed

lemma plain_ctorD:
  assumes "plain_ctor c"
  shows "c \<noteq> TcTupleLiteral" "c \<noteq> TcArrayLiteral" "c \<noteq> TcNever" "c \<noteq> TcTypeOf"
    "(case c of TcRecord names \<Rightarrow> f names | _ \<Rightarrow> x) = x"
  using assms by (auto simp: plain_ctor_def split: type_ctor.splits)

lemma compatible_plain:
  assumes "arena_ok s" "l < n_slots s" "r < n_slots s"
    and "sv_slots s ! l = TsStructure ta" "sv_slots s ! r = TsStructure tb"
    and "plain_ctor (tt_ctor (sv_terms s ! ta))" "plain_ctor (tt_ctor (sv_terms s ! tb))"
  shows "compatible_structure l r loc s = ret (False, [], s)"
proof -
  have "slot_term l s = ret (Some (sv_terms s ! ta))" "slot_term r s = ret (Some (sv_terms s ! tb))"
    using slot_term_structure [OF assms(1,2)] slot_term_structure [OF assms(1,3)] assms(2-5) by simp_all
  then show ?thesis
    using plain_ctorD(1-4) [OF assms(6)] plain_ctorD(1-4) [OF assms(7)]
    by (simp add: compatible_structure_def demand_def plain_ctorD(5) [OF assms(6)] plain_ctorD(5) [OF assms(7)])
qed

lemma structures_stepped:
  assumes "arena_ok s" "plain s" "solvable s" "l < n_slots s" "r < n_slots s" "l \<noteq> r"
    and "sv_slots s ! l = TsStructure ta" "sv_slots s ! r = TsStructure tb"
  shows "equal_structures l r ta tb loc s = Some (Inl Capacity) \<and> (\<nexists>\<sigma>. solution s \<sigma> \<and> \<sigma> l = \<sigma> r) \<or>
    (\<exists>ps ms s'. equal_structures l r ta tb loc s = ret (ps, ms, s') \<and> stepped l r s ps ms s')"
proof -
  note ok = arena_okD [OF assms(1)]
  let ?a = "sv_terms s ! ta" and ?b = "sv_terms s ! tb"
  have t: "ta < length (sv_terms s)" "tb < length (sv_terms s)"
    using ok(2) assms(4,5,7,8) by (auto simp: terms_ok_def)
  have p: "plain_ctor (tt_ctor ?a)" "plain_ctor (tt_ctor ?b)" using assms(2) t by (auto simp: plain_def)
  have \<sigma>: "\<sigma> l = Ty (tt_ctor ?a) (map \<sigma> (tt_arguments ?a))" "\<sigma> r = Ty (tt_ctor ?b) (map \<sigma> (tt_arguments ?b))"
    if "solution s \<sigma>" for \<sigma>
    using solves_structure [OF that] assms(4,5,7,8) by simp_all
  show ?thesis
  proof (cases "tt_ctor ?a = tt_ctor ?b \<and> length (tt_arguments ?a) = length (tt_arguments ?b)")
    case True
    let ?ps = "zip (tt_arguments ?a) (tt_arguments ?b)"
    have run: "equal_structures l r ta tb loc s = ret (?ps, [(l, r)], bump s)"
      using t True plain_ctorD(2) [OF p(1)] by (simp add: equal_structures_def)
    have eq: "agrees \<sigma> ?ps \<longleftrightarrow> \<sigma> l = \<sigma> r" if "solution s \<sigma>" for \<sigma>
      using \<sigma> [OF that] True agrees_zip by simp
    have less: "weight \<sigma> ?ps < weight \<sigma> [(l, r)]" if "solution s \<sigma>" for \<sigma>
      using \<sigma> [OF that] weight_zip [of "tt_arguments ?a" "tt_arguments ?b" \<sigma>] True by (simp add: weight_def)
    have "progress l r s ?ps (bump s)" using less by (simp add: progress_def unknowns_def)
    moreover have "kept l r s ?ps [(l, r)] (bump s)" if "clean s"
      using that eq assms(4,5,7,8) True
      by (auto simp: kept_def grows_def clean_def put_aside_def)
    moreover have "arena_ok (bump s)" using relaxed_arena [OF bump_relaxed(1) assms(1)] .
    moreover have "a < n_slots s \<and> b < n_slots s" if "(a, b) \<in> set ?ps" for a b
      using terms_ok_argument [OF ok(2)] assms(4,5,7,8) set_zip_leftD [OF that] set_zip_rightD [OF that] by blast
    ultimately have "stepped l r s ?ps [(l, r)] (bump s)"
      using assms(3) by (auto simp: stepped_def solvable_def)
    then show ?thesis using run by blast
  next
    case False
    have none: "\<nexists>\<sigma>. solution s \<sigma> \<and> \<sigma> l = \<sigma> r"
    proof
      assume "\<exists>\<sigma>. solution s \<sigma> \<and> \<sigma> l = \<sigma> r"
      then obtain \<sigma> where "solution s \<sigma>" "\<sigma> l = \<sigma> r" by blast
      then have "tt_ctor ?a = tt_ctor ?b" "map \<sigma> (tt_arguments ?a) = map \<sigma> (tt_arguments ?b)"
        using \<sigma> [of \<sigma>] by simp_all
      then show False using False map_eq_imp_length_eq by blast
    qed
    have run: "equal_structures l r ta tb loc s =
        obind (record_conflict l r loc (TmMismatch l r) s) (\<lambda>(_, s). ret ([], [], bump s))"
      using t False plain_ctorD(2) [OF p(1)] compatible_plain [OF assms(1,4,5,7,8) p]
      by (auto simp: equal_structures_def)
    show ?thesis using record_conflict_relaxed [OF assms(1), of l r loc "TmMismatch l r"]
    proof
      assume "\<exists>c s'. record_conflict l r loc (TmMismatch l r) s = ret (c, s') \<and> relaxed s s' \<and>
        sv_slots s' = sv_slots s \<and> length (sv_conflicts s') = Suc (length (sv_conflicts s))"
      then obtain c s' where s': "record_conflict l r loc (TmMismatch l r) s = ret (c, s')" "relaxed s s'"
        "length (sv_conflicts s') = Suc (length (sv_conflicts s))" by blast
      have "stepped l r s [] [] (bump s')"
        using s'(3) none bump_relaxed(3)
        by (intro stepped_relaxed relaxed_seq [OF s'(2) bump_relaxed(1)] assms(1,3)) simp
      then show ?thesis using run s'(1) by simp
    qed (use run none in simp)
  qed
qed

lemma equal_roots_stepped:
  assumes "arena_ok s" "plain s" "solvable s" "l < n_slots s" "r < n_slots s" "l \<noteq> r"
    and "\<not> is_proxy (sv_slots s ! l)" "\<not> is_proxy (sv_slots s ! r)"
  shows "equal_roots loc l r b s = Some (Inl Capacity) \<and> (\<nexists>\<sigma>. solution s \<sigma> \<and> \<sigma> l = \<sigma> r) \<or>
    (\<exists>ps ms s'. equal_roots loc l r b s = ret (ps, ms, s') \<and> stepped l r s ps ms s')"
proof (cases "conflicted_of (sv_slots s ! l) (sv_slots s ! r)")
  case (Some c)
  obtain s' where s': "inherit_failure l r c b s = ret s'" "relaxed s s'"
    using inherit_failure_relaxed [OF assms(1,4,5,7,8), of c b] by blast
  have "\<not> clean s"
    using Some assms(4,5) by (auto simp: conflicted_of_def clean_def split: type_state.splits)
  then have "stepped l r s [] [] s'" using stepped_relaxed [OF s'(2) assms(1,3)] by blast
  then show ?thesis using Some s'(1) assms(4,5) by (simp add: equal_roots_def)
next
  case None
  note k = arena_okD(6) [OF assms(1)]
  consider "sv_slots s ! l = TsUnknown" | "sv_slots s ! l \<noteq> TsUnknown" "sv_slots s ! r = TsUnknown"
    | ta tb where "sv_slots s ! l = TsStructure ta" "sv_slots s ! r = TsStructure tb"
    using None assms(7,8) k [OF assms(4)] k [OF assms(5)]
    by (cases "sv_slots s ! l"; cases "sv_slots s ! r") (auto simp: conflicted_of_def)
  then show ?thesis
  proof cases
    case 1
    then have "equal_roots loc l r b s =
        obind (bind_unknown l r l r loc s) (\<lambda>s. ret ([], [], bump s))"
      using None assms(4,5) by (simp add: equal_roots_def)
    then show ?thesis
      using bind_unknown_stepped [OF assms(1,3-6) 1 assms(8) _ None, of loc] by auto
  next
    case 2
    then have "equal_roots loc l r b s =
        obind (bind_unknown r l l r loc s) (\<lambda>s. ret ([], [], bump s))"
      using None assms(4,5) by (cases "sv_slots s ! l") (simp_all add: equal_roots_def)
    then show ?thesis
      using bind_unknown_stepped [OF assms(1,3,5,4) assms(6) [symmetric] 2(2) assms(7) _ None, of loc] by auto
  next
    case 3
    then have "equal_roots loc l r b s = equal_structures l r ta tb loc s"
      using None assms(4,5) by (simp add: equal_roots_def)
    then show ?thesis using structures_stepped [OF assms(1-6) 3] by simp
  qed
qed

lemma same_types_seq: "same_types a b \<Longrightarrow> same_types b c \<Longrightarrow> same_types a c"
  unfolding same_types_def using relaxed_seq same_view_trans by metis

lemma find_same_types:
  assumes "arena_ok s" "i < n_slots s"
  shows "\<exists>s'. find_slot i s = ret (srep s i, s') \<and> same_types s s'"
  using find_relaxed [OF assms] by (auto simp: same_types_def)

lemma equal_pair_stepped:
  assumes "arena_ok s" "plain s" "solvable s" "l0 < n_slots s" "r0 < n_slots s"
  shows "equal_pair loc (l0, r0) s = Some (Inl Capacity) \<and> (\<nexists>\<sigma>. solution s \<sigma> \<and> \<sigma> l0 = \<sigma> r0) \<or>
    (\<exists>ps ms s'. equal_pair loc (l0, r0) s = ret (ps, ms, s') \<and> stepped l0 r0 s ps ms s')"
proof -
  let ?l = "srep s l0" and ?r = "srep s r0"
  note forest = arena_okD(1) [OF assms(1)]
  have roots: "?l < n_slots s" "?r < n_slots s" "\<not> is_proxy (sv_slots s ! ?l)" "\<not> is_proxy (sv_slots s ! ?r)"
    "srep s ?l = ?l" "srep s ?r = ?r"
    using forest_rep [OF forest assms(4)] forest_rep [OF forest assms(5)] by simp_all
  have \<sigma>: "\<sigma> ?l = \<sigma> l0" "\<sigma> ?r = \<sigma> r0" if "solution s \<sigma>" for \<sigma>
    using solves_rep [OF that forest] assms(4,5) by auto
  obtain s1 where 1: "find_slot l0 s = ret (?l, s1)" "same_types s s1"
    using find_same_types [OF assms(1,4)] by blast
  note f1 = same_types_facts [OF 1(2) assms(1)]
  obtain s2 where 2: "find_slot r0 s1 = ret (?r, s2)" "same_types s1 s2"
    using find_same_types [OF f1(1), of r0] assms(5) f1(2,6) by auto
  have s2: "same_types s s2" using same_types_seq 1(2) 2(2) by blast
  note f2 = same_types_facts [OF s2 assms(1)]
  show ?thesis
  proof (cases "?l = ?r")
    case True
    have re: "relaxed s s2" using s2 by (simp add: same_types_def)
    have "kept l0 r0 s [] [] s2" if "clean s"
      using that same_types_clean [OF s2 assms(1)] f2(2,3,5,6) f2(7) [of _ "TsStructure _"] \<sigma> True assms(4,5)
      unfolding kept_def grows_def by (metis agrees_simps(1) is_proxy_simps(3))
    moreover have "stepped l0 r0 s [] [] s2"
      if "clean s \<Longrightarrow> kept l0 r0 s [] [] s2"
    proof -
      have "progress l0 r0 s [] s2"
        using relaxed_unknowns [OF re] f2(5) by (simp add: progress_def)
      moreover have "solvable s2" using f2(5) assms(3) by (simp add: solvable_def)
      ultimately show ?thesis using f2(1-4) that by (simp add: stepped_def)
    qed
    ultimately have "stepped l0 r0 s [] [] s2" by blast
    moreover have "equal_pair loc (l0, r0) s = ret ([], [], s2)"
      using 1(1) 2(1) True by (simp add: equal_pair_def)
    ultimately show ?thesis by blast
  next
    case False
    have in2: "?l < n_slots s2" "?r < n_slots s2" using roots f2(2) by simp_all
    obtain b s3 where 3: "join_value_slots ?l ?r s2 = ret (b, s3)" "relaxed s2 s3" "sv_slots s3 = sv_slots s2"
        "sv_conflicts s3 = sv_conflicts s2"
      using join_relaxed [OF f2(1) in2] by blast
    have "same_types s2 s3" using 3(2-4) by (simp add: same_types_def same_view_refl)
    then have s3: "same_types s s3" using same_types_seq s2 by blast
    note f3 = same_types_facts [OF s3 assms(1)]
    have states: "\<not> is_proxy (sv_slots s3 ! ?l)" "\<not> is_proxy (sv_slots s3 ! ?r)"
      using relaxed_not_proxy [of s s3] s3 roots by (simp_all add: same_types_def)
    have run: "equal_pair loc (l0, r0) s = equal_roots loc ?l ?r b s3"
      using 1(1) 2(1) 3(1) False by (simp add: equal_pair_def)
    have "plain s3" "solvable s3" using assms(2,3) f3(3,5) by (simp_all add: plain_def solvable_def)
    moreover have "?l < n_slots s3" "?r < n_slots s3" using roots f3(2) by simp_all
    ultimately have "equal_roots loc ?l ?r b s3 = Some (Inl Capacity) \<and> (\<nexists>\<sigma>. solution s3 \<sigma> \<and> \<sigma> ?l = \<sigma> ?r) \<or>
        (\<exists>ps ms s'. equal_roots loc ?l ?r b s3 = ret (ps, ms, s') \<and> stepped ?l ?r s3 ps ms s')"
      using equal_roots_stepped [OF f3(1) _ _ _ _ False states] by blast
    then show ?thesis
    proof (elim disjE exE conjE)
      assume "equal_roots loc ?l ?r b s3 = Some (Inl Capacity)" "\<nexists>\<sigma>. solution s3 \<sigma> \<and> \<sigma> ?l = \<sigma> ?r"
      then show ?thesis using run f3(5) \<sigma> by metis
    next
      fix ps ms s'
      assume "equal_roots loc ?l ?r b s3 = ret (ps, ms, s')" "stepped ?l ?r s3 ps ms s'"
      then show ?thesis using run stepped_after [OF s3 assms(1,4,5) refl refl] by metis
    qed
  qed
qed

end
