(* ===== verification/Type_Canonical.thy ===== *)
theory Type_Canonical
  imports Type_Forest
begin

text \<open>
  \<open>finalize\<close> gives every slot its resolved type. A slot is resolved when the tree below it is finite
  and known, failed when a conflict is below it, and unknown otherwise; equal trees get one type.
\<close>

section \<open>What a slot stands for\<close>

text \<open>The type a slot describes, through the proxies, when everything below it is a structure.\<close>

inductive described :: "solver \<Rightarrow> slot_id \<Rightarrow> ty \<Rightarrow> bool" for s where
  "sv_slots s ! srep s i = TsStructure t \<Longrightarrow> list_all2 (described s) (tt_arguments (sv_terms s ! t)) ts \<Longrightarrow>
     described s i (Ty (tt_ctor (sv_terms s ! t)) ts)"

text \<open>A conflict at the slot or below it.\<close>

inductive failed :: "solver \<Rightarrow> slot_id \<Rightarrow> bool" for s where
  failed_here: "sv_slots s ! srep s i = TsConflicted c \<Longrightarrow> failed s i"
| failed_below: "sv_slots s ! srep s i = TsStructure t \<Longrightarrow> a \<in> set (tt_arguments (sv_terms s ! t)) \<Longrightarrow>
    failed s a \<Longrightarrow> failed s i"

text \<open>The type a resolved identity stands for.\<close>

inductive denotes :: "resolved_type list \<Rightarrow> type_id \<Rightarrow> ty \<Rightarrow> bool" for types where
  "i < length types \<Longrightarrow> list_all2 (denotes types) (ty_arguments (types ! i)) ts \<Longrightarrow>
     denotes types i (Ty (ty_ctor (types ! i)) ts)"

inductive_cases described_elim: "described s i T"
inductive_cases denotes_elim: "denotes types i T"

lemma described_unique: "described s i T \<Longrightarrow> described s i T' \<Longrightarrow> T = T'"
proof (induction arbitrary: T' rule: described.induct)
  case (1 i t ts)
  from 1(3) obtain us where us: "T' = Ty (tt_ctor (sv_terms s ! t)) us"
      "list_all2 (described s) (tt_arguments (sv_terms s ! t)) us"
    using 1(1) by (auto elim: described_elim)
  have "ts ! k = us ! k" if "k < length ts" for k
    using 1(2) us(2) that by (auto simp: list_all2_conv_all_nth)
  moreover have "length ts = length us" using 1(2) us(2) by (auto simp: list_all2_conv_all_nth)
  ultimately show ?case using us(1) by (simp add: nth_equalityI)
qed

lemma denotes_append: "denotes types i T \<Longrightarrow> denotes (types @ new) i T"
proof (induction rule: denotes.induct)
  case (1 i ts)
  have "list_all2 (denotes (types @ new)) (ty_arguments ((types @ new) ! i)) ts"
    using 1 by (auto simp: nth_append elim!: list_all2_mono)
  then show ?case using denotes.intros [of i "types @ new" ts] 1(1) by (simp add: nth_append)
qed

lemma denotes_unique:
  assumes "distinct types"
  shows "denotes types i T \<Longrightarrow> denotes types j T \<Longrightarrow> i = j"
proof (induction arbitrary: j rule: denotes.induct)
  case (1 i ts)
  from 1(3) have j: "j < length types" "ty_ctor (types ! j) = ty_ctor (types ! i)"
      "list_all2 (denotes types) (ty_arguments (types ! j)) ts"
    by (auto elim: denotes_elim)
  have "ty_arguments (types ! i) ! k = ty_arguments (types ! j) ! k" if "k < length ts" for k
    using 1(2) j(3) that by (auto simp: list_all2_conv_all_nth)
  then have "ty_arguments (types ! i) = ty_arguments (types ! j)"
    using 1(2) j(3) by (auto simp: list_all2_conv_all_nth intro: nth_equalityI)
  then have "types ! i = types ! j" using j(2) by simp
  then show ?case using assms 1(1) j(1) by (simp add: nth_eq_iff_index_eq)
qed

section \<open>Slots of a forest\<close>

lemma root_forest: "forest (sv_slots s) \<Longrightarrow> i < n_slots s \<Longrightarrow> slot_root i s = ret (srep s i)"
  by (simp add: slot_root_def forest_rep(1))

lemma find_forest:
  assumes "forest (sv_slots s)" "i < n_slots s"
  shows "\<exists>ss. find_slot i s = ret (srep s i, s\<lparr>sv_slots := ss\<rparr>) \<and> same_view (sv_slots s) ss"
  using compress_view [OF forest_root_path [OF assms]] root_forest [OF assms] by (auto simp: find_slot_def)

lemma state_forest: "forest (sv_slots s) \<Longrightarrow> i < n_slots s \<Longrightarrow> slot_state i s = ret (sv_slots s ! srep s i)"
  by (simp add: slot_state_def root_forest forest_rep(2))

lemma child_types_scan:
  assumes "forest (sv_slots s)"
  shows "\<forall>c \<in> set cs. c < n_slots s \<Longrightarrow> \<exists>f ids. child_types cs s = ret (f, ids) \<and>
    (case f of Some e \<Rightarrow> \<exists>c \<in> set cs. sv_slots s ! srep s c = TsConflicted e
     | None \<Rightarrow> (\<forall>c \<in> set cs. \<forall>e. sv_slots s ! srep s c \<noteq> TsConflicted e) \<and> length ids \<le> length cs \<and>
         (length ids = length cs \<longrightarrow> list_all2 (\<lambda>c i. sv_slots s ! srep s c = TsKnown i) cs ids) \<and>
         (length ids < length cs \<longrightarrow> (\<exists>c \<in> set cs. \<forall>i. sv_slots s ! srep s c \<noteq> TsKnown i)))"
proof (induction cs)
  case (Cons c cs)
  have st: "slot_state c s = ret (sv_slots s ! srep s c)" using state_forest [OF assms] Cons.prems by simp
  obtain f ids where IH: "child_types cs s = ret (f, ids)"
    "case f of Some e \<Rightarrow> \<exists>c \<in> set cs. sv_slots s ! srep s c = TsConflicted e
     | None \<Rightarrow> (\<forall>c \<in> set cs. \<forall>e. sv_slots s ! srep s c \<noteq> TsConflicted e) \<and> length ids \<le> length cs \<and>
         (length ids = length cs \<longrightarrow> list_all2 (\<lambda>c i. sv_slots s ! srep s c = TsKnown i) cs ids) \<and>
         (length ids < length cs \<longrightarrow> (\<exists>c \<in> set cs. \<forall>i. sv_slots s ! srep s c \<noteq> TsKnown i))"
    using Cons.IH Cons.prems by auto
  show ?case
    using st IH by (cases "sv_slots s ! srep s c"; cases f) auto
qed simp

section \<open>The invariant\<close>

definition resolved_slot :: "solver \<Rightarrow> solver \<Rightarrow> slot_id \<Rightarrow> bool" where
  "resolved_slot s0 s r \<longleftrightarrow> sv_slots s ! r = sv_slots s0 ! r \<or>
     (\<exists>k T. sv_slots s ! r = TsKnown k \<and> described s0 r T \<and> denotes (sv_types s) k T) \<or>
     (\<exists>c. sv_slots s ! r = TsConflicted c \<and> failed s0 r)"

definition knowns :: "solver \<Rightarrow> nat set" where
  "knowns s = {i. i < n_slots s \<and> (\<exists>k. sv_slots s ! i = TsKnown k)}"

definition settling :: "solver \<Rightarrow> canonical \<Rightarrow> solver \<Rightarrow> bool" where
  "settling s0 known s \<longleftrightarrow> forest (sv_slots s) \<and> n_slots s = n_slots s0 \<and> sv_terms s = sv_terms s0 \<and>
     (\<forall>i < n_slots s0. srep s i = srep s0 i) \<and>
     (\<forall>i < n_slots s0. is_proxy (sv_slots s ! i) \<longleftrightarrow> is_proxy (sv_slots s0 ! i)) \<and>
     (\<forall>r < n_slots s0. \<not> is_proxy (sv_slots s ! r) \<longrightarrow> resolved_slot s0 s r) \<and>
     distinct (sv_types s) \<and>
     (\<forall>c args k. known (c, args) = Some k \<longleftrightarrow> k < length (sv_types s) \<and>
        sv_types s ! k = \<lparr>ty_ctor = c, ty_arguments = args\<rparr>) \<and>
     length (sv_types s) \<le> card (knowns s)"

definition structures :: "solver \<Rightarrow> nat" where
  "structures s = card {i. i < n_slots s \<and> (\<exists>t. sv_slots s ! i = TsStructure t)}"

text \<open>A structure that a pass leaves alone.\<close>

definition stuck :: "solver \<Rightarrow> slot_id \<Rightarrow> bool" where
  "stuck s i \<longleftrightarrow> (\<forall>t. sv_slots s ! i = TsStructure t \<longrightarrow>
     (\<forall>a \<in> set (tt_arguments (sv_terms s ! t)). \<forall>c. sv_slots s ! srep s a \<noteq> TsConflicted c) \<and>
     (\<exists>a \<in> set (tt_arguments (sv_terms s ! t)). \<forall>k. sv_slots s ! srep s a \<noteq> TsKnown k))"

text \<open>The fields \<open>settle_slot\<close> leaves alone.\<close>

definition same_rest :: "solver \<Rightarrow> solver \<Rightarrow> bool" where
  "same_rest s s' \<longleftrightarrow> sv_hir s' = sv_hir s \<and> sv_required s' = sv_required s \<and> sv_unknowns s' = sv_unknowns s \<and>
     sv_symbol_types s' = sv_symbol_types s \<and> sv_diagnostics s' = sv_diagnostics s"

lemma same_view_settling:
  assumes "settling s0 known s" "same_view (sv_slots s) ss"
  shows "settling s0 known (s\<lparr>sv_slots := ss\<rparr>)" "structures (s\<lparr>sv_slots := ss\<rparr>) = structures s"
    "\<And>i. i < n_slots s \<Longrightarrow> rep ss i = srep s i"
    "\<And>i st. i < n_slots s \<Longrightarrow> \<not> is_proxy st \<Longrightarrow> ss ! i = st \<longleftrightarrow> sv_slots s ! i = st"
proof -
  have f: "forest (sv_slots s)" using assms(1) by (simp add: settling_def)
  have n: "length ss = n_slots s" using assms(2) by (simp add: same_view_def)
  note states = same_view_states [OF assms(2)]
  show st: "ss ! i = st \<longleftrightarrow> sv_slots s ! i = st" if "i < n_slots s" "\<not> is_proxy st" for i st
    using states(2) that .
  show rep: "rep ss i = srep s i" if "i < n_slots s" for i using same_view_rep [OF assms(2) f that] .
  have "knowns (s\<lparr>sv_slots := ss\<rparr>) = knowns s" using n st by (auto simp: knowns_def)
  moreover have "resolved_slot s0 (s\<lparr>sv_slots := ss\<rparr>) r"
    if "r < n_slots s" "\<not> is_proxy (ss ! r)" for r
  proof -
    have "ss ! r = sv_slots s ! r" using st [OF that(1), of "ss ! r"] that(2) by simp
    moreover have "resolved_slot s0 s r"
      using assms(1) that states(1) [OF that(1)] unfolding settling_def by metis
    ultimately show ?thesis by (simp add: resolved_slot_def)
  qed
  ultimately show "settling s0 known (s\<lparr>sv_slots := ss\<rparr>)"
    using assms(1) n rep states(1) same_view_forest [OF assms(2) f] unfolding settling_def by simp
  show "structures (s\<lparr>sv_slots := ss\<rparr>) = structures s"
    using n st unfolding structures_def by (intro arg_cong [where f = card]) auto
qed

section \<open>One slot\<close>

lemma resolved_slot_append:
  "resolved_slot s0 s r \<Longrightarrow> sv_slots s' ! r = sv_slots s ! r \<Longrightarrow> sv_types s' = sv_types s @ new \<Longrightarrow> resolved_slot s0 s' r"
  unfolding resolved_slot_def using denotes_append by metis

lemma settle_root:
  assumes "settling s0 known s" "i < n_slots s0" "sv_slots s ! i = TsStructure t"
    and "\<not> is_proxy st" "\<forall>t. st \<noteq> TsStructure t" "distinct (sv_types s @ new)"
    and "\<And>c args k. known' (c, args) = Some k \<longleftrightarrow> k < length (sv_types s @ new) \<and>
        (sv_types s @ new) ! k = \<lparr>ty_ctor = c, ty_arguments = args\<rparr>"
    and "new = [] \<or> length new = 1 \<and> (\<exists>k. st = TsKnown k)"
  defines "s' \<equiv> s\<lparr>sv_types := sv_types s @ new, sv_slots := (sv_slots s)[i := st]\<rparr>"
  assumes "resolved_slot s0 s' i"
  shows "settling s0 known' s'" "structures s' < structures s"
proof -
  have f: "forest (sv_slots s)" and n: "n_slots s = n_slots s0" using assms(1) by (simp_all add: settling_def)
  have i: "i < n_slots s" "\<not> is_proxy (sv_slots s ! i)" using assms(2,3) n by simp_all
  have rep: "srep s' k = srep s k" if "k < n_slots s" for k
    using forest_set(2) [OF f i assms(4) that] by (simp add: s'_def)
  have proxy: "is_proxy (sv_slots s' ! k) \<longleftrightarrow> is_proxy (sv_slots s ! k)" for k
    using i assms(4) by (cases "k = i") (simp_all add: s'_def)
  have res: "resolved_slot s0 s' r" if "r < n_slots s" "\<not> is_proxy (sv_slots s' ! r)" for r
  proof (cases "r = i")
    case False
    have "resolved_slot s0 s r" using assms(1) that proxy n unfolding settling_def by metis
    then show ?thesis by (rule resolved_slot_append) (use False in \<open>simp_all add: s'_def\<close>)
  qed (use assms(10) in simp)
  have fin: "finite (knowns s')" by (simp add: knowns_def)
  have sub: "knowns s \<subseteq> knowns s'" using assms(3) i(1) by (auto simp: knowns_def s'_def nth_list_update)
  have "length (sv_types s @ new) \<le> card (knowns s')"
    using assms(8)
  proof
    assume "new = []"
    then show ?thesis using assms(1) card_mono [OF fin sub] by (simp add: settling_def)
  next
    assume new: "length new = 1 \<and> (\<exists>k. st = TsKnown k)"
    then have "i \<in> knowns s'" "i \<notin> knowns s" using i(1) assms(3) by (auto simp: knowns_def s'_def)
    then have "Suc (card (knowns s)) \<le> card (knowns s')"
      using card_mono [OF fin, of "insert i (knowns s)"] sub finite_subset [OF sub fin] by simp
    then show ?thesis using assms(1) new by (simp add: settling_def)
  qed
  moreover have "forest (sv_slots s')" using forest_set(1) [OF f i assms(4)] by (simp add: s'_def)
  ultimately show "settling s0 known' s'"
    using assms(1,6,7) rep proxy res n unfolding settling_def s'_def by simp
  have "{k. k < n_slots s' \<and> (\<exists>t. sv_slots s' ! k = TsStructure t)} =
      {k. k < n_slots s \<and> (\<exists>t. sv_slots s ! k = TsStructure t)} - {i}"
    using i(1) assms(5) by (auto simp: s'_def nth_list_update split: if_splits)
  moreover have "i \<in> {k. k < n_slots s \<and> (\<exists>t. sv_slots s ! k = TsStructure t)}" using i(1) assms(3) by simp
  ultimately show "structures s' < structures s"
    unfolding structures_def by (simp only:) (rule card_Diff1_less; simp)
qed

lemma settling_structure:
  assumes "settling s0 known s" "i < n_slots s0" "sv_slots s ! i = TsStructure t"
  shows "sv_slots s0 ! i = TsStructure t"
proof -
  have "resolved_slot s0 s i" using assms unfolding settling_def by simp
  then show ?thesis using assms(3) by (auto simp: resolved_slot_def)
qed

lemma settling_known:
  assumes "settling s0 known s" "arena_ok s0" "a < n_slots s0" "sv_slots s ! srep s a = TsKnown k"
  shows "\<exists>T. described s0 a T \<and> denotes (sv_types s) k T"
proof -
  note f0 = forest_rep [OF arena_okD(1) [OF assms(2)] assms(3)]
  have rep: "srep s a = srep s0 a" using assms(1,3) by (simp add: settling_def)
  have "resolved_slot s0 s (srep s0 a)" using assms(1,4) f0(2) rep unfolding settling_def by simp
  then obtain T where T: "described s0 (srep s0 a) T" "denotes (sv_types s) k T"
    using assms(4) rep arena_okD(6) [OF assms(2) f0(2), of k] unfolding resolved_slot_def by (auto dest: sym)
  have "described s0 a T" using T(1) f0(4) by (auto elim!: described_elim intro: described.intros)
  then show ?thesis using T(2) by blast
qed

lemma settling_conflicted:
  assumes "settling s0 known s" "arena_ok s0" "a < n_slots s0" "sv_slots s ! srep s a = TsConflicted c"
  shows "failed s0 a"
proof -
  note f0 = forest_rep [OF arena_okD(1) [OF assms(2)] assms(3)]
  have rep: "srep s a = srep s0 a" using assms(1,3) by (simp add: settling_def)
  have "resolved_slot s0 s (srep s0 a)" using assms(1,4) f0(2) rep unfolding settling_def by simp
  then have "failed s0 (srep s0 a)"
    using assms(4) rep f0(4) failed_here [of s0 "srep s0 a" c] unfolding resolved_slot_def by (auto dest: sym)
  then show ?thesis
    using f0(4) by (cases rule: failed.cases) (auto intro: failed_here failed_below)
qed

text \<open>What a pass without a change leaves as it was.\<close>

definition unmoved :: "solver \<Rightarrow> solver \<Rightarrow> bool" where
  "unmoved s s' \<longleftrightarrow> n_slots s' = n_slots s \<and> sv_terms s' = sv_terms s \<and>
     (\<forall>i < n_slots s. srep s' i = srep s i) \<and>
     (\<forall>i < n_slots s. \<forall>st. \<not> is_proxy st \<longrightarrow> (sv_slots s' ! i = st \<longleftrightarrow> sv_slots s ! i = st))"

definition settled_slot :: "solver \<Rightarrow> slot_id \<Rightarrow> bool \<times> canonical \<times> solver \<Rightarrow> bool \<times> canonical \<times> solver \<Rightarrow> bool" where
  "settled_slot s0 i = (\<lambda>(b, known, s) (b', known', s'). settling s0 known' s' \<and> same_rest s s' \<and>
     (b' = b \<and> known' = known \<and> structures s' = structures s \<and> unmoved s s' \<and> stuck s' i \<or>
      b' \<and> structures s' < structures s))"

lemma settle_slot_spec:
  assumes "settling s0 known s" "arena_ok s0" "n_slots s0 \<le> 2 ^ 32" "i < n_slots s0"
  shows "\<exists>r. settle_slot i (b, known, s) = ret r \<and> settled_slot s0 i (b, known, s) r"
proof -
  have f: "forest (sv_slots s)" and n: "n_slots s = n_slots s0" "sv_terms s = sv_terms s0"
    using assms(1) by (simp_all add: settling_def)
  have i: "i < n_slots s" using assms(4) n by simp
  obtain ss where find: "find_slot i s = ret (srep s i, s\<lparr>sv_slots := ss\<rparr>)" "same_view (sv_slots s) ss"
    using find_forest [OF f i] by blast
  note view = same_view_settling [OF assms(1) find(2)]
  define s1 where "s1 = s\<lparr>sv_slots := ss\<rparr>"
  have s1: "settling s0 known s1" "structures s1 = structures s" "same_rest s s1"
    using view(1,2) by (simp_all add: s1_def same_rest_def)
  have n1: "n_slots s1 = n_slots s0" "sv_terms s1 = sv_terms s0" and f1: "forest (sv_slots s1)"
    using s1(1) by (simp_all add: settling_def)
  have "unmoved s s1" using n n1 view(3,4) unfolding unmoved_def s1_def by simp
  then have still: "settled_slot s0 i (b, known, s) (b, known, s1)" if "stuck s1 i"
    using s1 that by (simp add: settled_slot_def)
  have i1: "i < n_slots s1" using i n n1 by simp
  show ?thesis
  proof (cases "srep s i = i \<and> (\<exists>t. sv_slots s1 ! i = TsStructure t)")
    case False
    have "stuck s1 i"
    proof (cases "srep s i = i")
      case False
      then have "is_proxy (sv_slots s1 ! i)" using i1 view(3) [OF i] rep_root s1_def by (metis select_convs(2) surjective update_convs(2))
      then show ?thesis by (auto simp: stuck_def)
    qed (use False in \<open>auto simp: stuck_def\<close>)
    moreover have "settle_slot i (b, known, s) = ret (b, known, s1)"
      using find(1) i1 False by (cases "sv_slots s1 ! i") (auto simp: settle_slot_def s1_def)
    ultimately show ?thesis using still by blast
  next
    case True
    then obtain t where t: "sv_slots s1 ! i = TsStructure t" by blast
    have t0: "sv_slots s0 ! i = TsStructure t" using settling_structure [OF s1(1) assms(4) t] .
    have tl: "t < length (sv_terms s1)" using arena_okD(2) [OF assms(2)] assms(4) t0 n1 by (auto simp: terms_ok_def)
    let ?tm = "sv_terms s1 ! t"
    have args: "a < n_slots s0" if "a \<in> set (tt_arguments ?tm)" for a
      using terms_ok_argument [OF arena_okD(2) [OF assms(2)] assms(4) t0] that n1 by simp
    have r0: "srep s0 i = i" using t0 assms(4) by simp
    obtain e ids where scan: "child_types (tt_arguments ?tm) s1 = ret (e, ids)"
      "case e of Some e \<Rightarrow> \<exists>c \<in> set (tt_arguments ?tm). sv_slots s1 ! srep s1 c = TsConflicted e
       | None \<Rightarrow> (\<forall>c \<in> set (tt_arguments ?tm). \<forall>e. sv_slots s1 ! srep s1 c \<noteq> TsConflicted e) \<and>
           length ids \<le> length (tt_arguments ?tm) \<and>
           (length ids = length (tt_arguments ?tm) \<longrightarrow>
              list_all2 (\<lambda>c i. sv_slots s1 ! srep s1 c = TsKnown i) (tt_arguments ?tm) ids) \<and>
           (length ids < length (tt_arguments ?tm) \<longrightarrow>
              (\<exists>c \<in> set (tt_arguments ?tm). \<forall>i. sv_slots s1 ! srep s1 c \<noteq> TsKnown i))"
      using child_types_scan [OF f1, of "tt_arguments ?tm"] args n1 by auto
    note run = settle_slot_def find(1) [folded s1_def]
    show ?thesis
    proof (cases e)
      case (Some c)
      then obtain a where a: "a \<in> set (tt_arguments ?tm)" "sv_slots s1 ! srep s1 a = TsConflicted c" using scan(2) by auto
      let ?s = "s1\<lparr>sv_types := sv_types s1 @ [], sv_slots := (sv_slots s1)[i := TsConflicted c]\<rparr>"
      have "failed s0 i"
        using failed_below [of s0 i t a] settling_conflicted [OF s1(1) assms(2) args [OF a(1)] a(2)] t0 r0 a(1) n1 by simp
      then have "resolved_slot s0 ?s i" using i1 by (auto simp: resolved_slot_def)
      note root = settle_root [OF s1(1) assms(4) t, of "TsConflicted c" "[]" known, OF _ _ _ _ _ this]
      have "settling s0 known ?s" "structures ?s < structures s1" using root s1(1) by (auto simp: settling_def)
      moreover have "settle_slot i (b, known, s) = ret (True, known, ?s)"
        using run True t tl scan(1) Some i1 by (simp add: set_type_state_def)
      ultimately show ?thesis using s1(2,3) by (auto simp: settled_slot_def same_rest_def)
    next
      case None
      show ?thesis
      proof (cases "length ids = length (tt_arguments ?tm)")
        case False
        then have "stuck s1 i" using scan(2) None t by (auto simp: stuck_def)
        moreover have "settle_slot i (b, known, s) = ret (b, known, s1)"
          using run True t tl scan(1) None False i1 by simp
        ultimately show ?thesis using still by blast
      next
        case eq: True
        have known: "list_all2 (\<lambda>c i. sv_slots s1 ! srep s1 c = TsKnown i) (tt_arguments ?tm) ids"
          using scan(2) None eq by simp
        have "\<exists>Ts. list_all2 (described s0) (tt_arguments ?tm) Ts \<and> list_all2 (denotes (sv_types s1)) ids Ts"
        proof -
          have "\<forall>k < length ids. \<exists>T. described s0 (tt_arguments ?tm ! k) T \<and> denotes (sv_types s1) (ids ! k) T"
            using settling_known [OF s1(1) assms(2) args] known eq by (auto simp: list_all2_conv_all_nth)
          then obtain F where "\<forall>k < length ids. described s0 (tt_arguments ?tm ! k) (F k) \<and> denotes (sv_types s1) (ids ! k) (F k)"
            by metis
          then show ?thesis
            using eq by (intro exI [of _ "map F [0..<length ids]"]) (auto simp: list_all2_conv_all_nth)
        qed
        then obtain Ts where Ts: "list_all2 (described s0) (tt_arguments ?tm) Ts" "list_all2 (denotes (sv_types s1)) ids Ts"
          by blast
        have desc: "described s0 i (Ty (tt_ctor ?tm) Ts)"
          using described.intros [of s0 i t Ts] t0 r0 Ts(1) n1 by simp
        let ?key = "\<lparr>ty_ctor = tt_ctor ?tm, ty_arguments = ids\<rparr>"
        have canon: "known (c, xs) = Some k \<longleftrightarrow> k < length (sv_types s1) \<and>
            sv_types s1 ! k = \<lparr>ty_ctor = c, ty_arguments = xs\<rparr>" for c xs k
          using s1(1) unfolding settling_def by blast
        show ?thesis
        proof (cases "known (tt_ctor ?tm, ids)")
          case (Some k)
          let ?s = "s1\<lparr>sv_types := sv_types s1 @ [], sv_slots := (sv_slots s1)[i := TsKnown k]\<rparr>"
          have k: "k < length (sv_types s1)" "sv_types s1 ! k = ?key" using canon Some by auto
          have "denotes (sv_types s1) k (Ty (tt_ctor ?tm) Ts)"
            using denotes.intros [of k "sv_types s1" Ts] k Ts(2) by simp
          then have "resolved_slot s0 ?s i" using i1 desc by (auto simp: resolved_slot_def)
          note root = settle_root [OF s1(1) assms(4) t, of "TsKnown k" "[]" known, OF _ _ _ _ _ this]
          have "settling s0 known ?s" "structures ?s < structures s1" using root s1(1) canon by (auto simp: settling_def)
          moreover have "settle_slot i (b, known, s) = ret (True, known, ?s)"
            using run True t tl scan(1) None eq Some i1 by (simp add: set_type_state_def canonical_id_def)
          ultimately show ?thesis using s1(2,3) by (auto simp: settled_slot_def same_rest_def)
        next
          case miss: None
          let ?k = "length (sv_types s1)"
          let ?known = "known((tt_ctor ?tm, ids) \<mapsto> ?k)"
          let ?s = "s1\<lparr>sv_types := sv_types s1 @ [?key], sv_slots := (sv_slots s1)[i := TsKnown ?k]\<rparr>"
          have fresh: "?key \<notin> set (sv_types s1)" using canon miss by (metis in_set_conv_nth option.distinct(1))
          have "list_all2 (denotes (sv_types s1 @ [?key])) ids Ts"
            by (rule list_all2_mono [OF Ts(2)]) (rule denotes_append)
          then have "denotes (sv_types s1 @ [?key]) ?k (Ty (tt_ctor ?tm) Ts)"
            using denotes.intros [of ?k "sv_types s1 @ [?key]" Ts] by simp
          then have "resolved_slot s0 ?s i" using i1 desc by (auto simp: resolved_slot_def)
          note root = settle_root [OF s1(1) assms(4) t, of "TsKnown ?k" "[?key]" ?known, OF _ _ _ _ _ this]
          have "distinct (sv_types s1 @ [?key])" using fresh s1(1) by (simp add: settling_def)
          moreover have "?known (c, xs) = Some k \<longleftrightarrow> k < length (sv_types s1 @ [?key]) \<and>
              (sv_types s1 @ [?key]) ! k = \<lparr>ty_ctor = c, ty_arguments = xs\<rparr>" for c xs k
            using canon [of c xs k] fresh by (auto simp: nth_append less_Suc_eq dest: nth_mem)
          ultimately have "settling s0 ?known ?s" "structures ?s < structures s1" using root by auto
          moreover have "?k < 2 ^ 32"
          proof -
            have "knowns s1 \<subseteq> {..<n_slots s1} - {i}" using t by (auto simp: knowns_def)
            then have "card (knowns s1) \<le> n_slots s1 - 1" using i1 card_mono [of "{..<n_slots s1} - {i}" "knowns s1"] by simp
            then show ?thesis using s1(1) assms(3) n1(1) i1 unfolding settling_def by linarith
          qed
          moreover have "settle_slot i (b, known, s) = obind (table_id (sv_types s1)) (\<lambda>k. ret (True,
              known((tt_ctor ?tm, ids) \<mapsto> k), s1\<lparr>sv_types := sv_types s1 @ [?key], sv_slots := (sv_slots s1)[i := TsKnown k]\<rparr>))"
            using run True t tl scan(1) None eq miss i1 by (simp add: set_type_state_def canonical_id_def table_id_def)
          ultimately show ?thesis using s1(2,3) by (auto simp: settled_slot_def same_rest_def table_id_def)
        qed
      qed
    qed
  qed
qed

section \<open>The loop\<close>

lemma unmoved_seq: "unmoved a b \<Longrightarrow> unmoved b c \<Longrightarrow> unmoved a c"
  unfolding unmoved_def by simp

lemma unmoved_stuck:
  assumes "unmoved s s'" "forest (sv_slots s)" "terms_ok (sv_terms s) (sv_slots s)" "i < n_slots s" "stuck s i"
  shows "stuck s' i"
  unfolding stuck_def
proof (intro allI impI)
  fix t assume "sv_slots s' ! i = TsStructure t"
  then have t: "sv_slots s ! i = TsStructure t" using assms(1,4) by (simp add: unmoved_def)
  have a: "srep s' a = srep s a \<and> (\<forall>st. \<not> is_proxy st \<longrightarrow> (sv_slots s' ! srep s a = st \<longleftrightarrow> sv_slots s ! srep s a = st))"
    if "a \<in> set (tt_arguments (sv_terms s ! t))" for a
  proof -
    have "a < n_slots s" using terms_ok_argument [OF assms(3,4) t that] .
    then show ?thesis using assms(1) forest_rep(2) [OF assms(2)] unfolding unmoved_def by blast
  qed
  have "sv_terms s' = sv_terms s" using assms(1) by (simp add: unmoved_def)
  moreover have "\<forall>a \<in> set (tt_arguments (sv_terms s ! t)). \<forall>c. sv_slots s ! srep s a \<noteq> TsConflicted c"
    "\<exists>a \<in> set (tt_arguments (sv_terms s ! t)). \<forall>k. sv_slots s ! srep s a \<noteq> TsKnown k"
    using assms(5) t by (simp_all add: stuck_def)
  ultimately show "(\<forall>a \<in> set (tt_arguments (sv_terms s' ! t)). \<forall>c. sv_slots s' ! srep s' a \<noteq> TsConflicted c) \<and>
     (\<exists>a \<in> set (tt_arguments (sv_terms s' ! t)). \<forall>k. sv_slots s' ! srep s' a \<noteq> TsKnown k)"
    using a by (metis is_proxy_simps(4,5))
qed

lemma settling_terms_ok:
  assumes "settling s0 known s" "arena_ok s0"
  shows "terms_ok (sv_terms s) (sv_slots s)"
  using arena_okD(2) [OF assms(2)] settling_structure [OF assms(1)] assms(1)
  unfolding terms_ok_def settling_def by metis

definition passed :: "solver \<Rightarrow> slot_id list \<Rightarrow> bool \<times> canonical \<times> solver \<Rightarrow> bool \<times> canonical \<times> solver \<Rightarrow> bool" where
  "passed s0 is = (\<lambda>(b, known, s) (b', known', s'). settling s0 known' s' \<and> same_rest s s' \<and>
     (b' = b \<and> known' = known \<and> structures s' = structures s \<and> unmoved s s' \<and> (\<forall>i \<in> set is. stuck s' i) \<or>
      b' \<and> structures s' < structures s))"

lemma pass_spec:
  assumes "arena_ok s0" "n_slots s0 \<le> 2 ^ 32"
  shows "settling s0 known s \<Longrightarrow> \<forall>i \<in> set is. i < n_slots s0 \<Longrightarrow>
    \<exists>r. each settle_slot is (b, known, s) = ret r \<and> passed s0 is (b, known, s) r"
proof (induction "is" arbitrary: b known s)
  case Nil
  then show ?case by (simp add: passed_def same_rest_def unmoved_def)
next
  case (Cons i "is")
  obtain b1 known1 s1 where 1: "settle_slot i (b, known, s) = ret (b1, known1, s1)"
      "settled_slot s0 i (b, known, s) (b1, known1, s1)"
    using settle_slot_spec [OF Cons.prems(1) assms, of i b] Cons.prems(2) by auto
  have set1: "settling s0 known1 s1" using 1(2) by (simp add: settled_slot_def)
  obtain b2 known2 s2 where 2: "each settle_slot is (b1, known1, s1) = ret (b2, known2, s2)"
      "passed s0 is (b1, known1, s1) (b2, known2, s2)"
    using Cons.IH [OF set1, of b1] Cons.prems(2) by auto
  have "forest (sv_slots s1)" "i < n_slots s1"
    using set1 Cons.prems(2) by (simp_all add: settling_def)
  then have "unmoved s1 s2 \<Longrightarrow> stuck s1 i \<Longrightarrow> stuck s2 i"
    using unmoved_stuck settling_terms_ok [OF set1 assms(1)] by blast
  then have "passed s0 (i # is) (b, known, s) (b2, known2, s2)"
    using 1(2) 2(2) unmoved_seq [of s s1 s2] unfolding settled_slot_def passed_def same_rest_def by auto
  then show ?case using 1(1) 2(1) by auto
qed

lemma settle_loop_spec:
  assumes "arena_ok s0" "n_slots s0 \<le> 2 ^ 32"
  shows "settling s0 known s \<Longrightarrow> \<exists>s' known'. settle_loop known s = ret s' \<and> settling s0 known' s' \<and> same_rest s s' \<and>
    (\<forall>i < n_slots s0. stuck s' i)"
proof (induction "structures s" arbitrary: known s rule: less_induct)
  case less
  have n: "n_slots s = n_slots s0" using less.prems by (simp add: settling_def)
  obtain b1 known1 s1 where 1: "each settle_slot [0..<n_slots s] (False, known, s) = ret (b1, known1, s1)"
      "passed s0 [0..<n_slots s] (False, known, s) (b1, known1, s1)"
    using pass_spec [OF assms less.prems, of "[0..<n_slots s]" False] n by auto
  note loop = settle_loop.simps [of known s, unfolded 1(1) obind_simps prod.case]
  show ?case
  proof (cases b1)
    case True
    then have "structures s1 < structures s" "settling s0 known1 s1" "same_rest s s1"
      using 1(2) by (simp_all add: passed_def)
    then show ?thesis using less.hyps [of s1 known1] loop True by (auto simp: same_rest_def)
  next
    case False
    then show ?thesis using 1(2) loop n by (auto simp: passed_def)
  qed
qed

lemma settling_start:
  assumes "arena_ok s" "sv_types s = []"
  shows "settling s Map.empty s"
  using assms by (simp add: settling_def arena_okD(1) resolved_slot_def)

lemma described_not_failed:
  assumes "described s i T"
  shows "\<not> failed s i"
  using assms
proof (induction rule: described.induct)
  case (1 i t ts)
  show ?case
  proof
    assume "failed s i"
    then show False
    proof (cases rule: failed.cases)
      case (failed_below t' a)
      then have "a \<in> set (tt_arguments (sv_terms s ! t))" using 1(1) by simp
      then obtain q where q: "q < length (tt_arguments (sv_terms s ! t))" "a = tt_arguments (sv_terms s ! t) ! q"
        by (metis in_set_conv_nth)
      then show False using list_all2_nthD [OF 1(2) q(1)] failed_below(3) by blast
    qed (use 1(1) in simp)
  qed
qed

lemma settled_described:
  assumes "arena_ok s0" "settling s0 known s" "\<forall>i < n_slots s0. stuck s i"
  shows "described s0 i T \<Longrightarrow> i < n_slots s0 \<Longrightarrow> \<exists>k. sv_slots s ! srep s i = TsKnown k"
proof (induction rule: described.induct)
  case (1 i t ts)
  note o = arena_okD [OF assms(1)]
  note f = forest_rep [OF o(1) 1(3)]
  have n: "n_slots s = n_slots s0" "sv_terms s = sv_terms s0" "srep s i = srep s0 i"
    using assms(2) 1(3) by (simp_all add: settling_def)
  have desc: "described s0 i (Ty (tt_ctor (sv_terms s0 ! t)) ts)"
    by (rule described.intros [OF 1(1)]) (rule list_all2_mono [OF 1(2)], blast)
  have "resolved_slot s0 s (srep s0 i)" "\<not> is_proxy (sv_slots s ! srep s0 i)"
    using assms(2) f(2,3) unfolding settling_def by auto
  moreover have False if "sv_slots s ! srep s0 i = TsConflicted c" for c
    using settling_conflicted [OF assms(2,1) 1(3), of c] that n(3) described_not_failed [OF desc] by simp
  moreover have False if "sv_slots s ! srep s0 i = TsStructure t"
  proof -
    have known: "\<exists>k. sv_slots s ! srep s a = TsKnown k" if a: "a \<in> set (tt_arguments (sv_terms s0 ! t))" for a
    proof -
      obtain q where q: "q < length (tt_arguments (sv_terms s0 ! t))" "a = tt_arguments (sv_terms s0 ! t) ! q"
        using a by (metis in_set_conv_nth)
      show ?thesis
        using list_all2_nthD [OF 1(2) q(1)] terms_ok_argument [OF o(2) f(2) 1(1) a] q(2) by blast
    qed
    have "stuck s (srep s0 i)" using assms(3) f(2) by simp
    then show False using that known n(2) unfolding stuck_def by metis
  qed
  ultimately show ?case using 1(1) n(3) unfolding resolved_slot_def by auto
qed

lemma settled_failed:
  assumes "arena_ok s0" "settling s0 known s" "\<forall>i < n_slots s0. stuck s i"
  shows "failed s0 i \<Longrightarrow> i < n_slots s0 \<Longrightarrow> \<exists>c. sv_slots s ! srep s i = TsConflicted c"
proof (induction rule: failed.induct)
  case (failed_here i c)
  note f = forest_rep [OF arena_okD(1) [OF assms(1)] failed_here(2)]
  have "resolved_slot s0 s (srep s0 i)" "srep s i = srep s0 i"
    using assms(2) f(2,3) failed_here(2) unfolding settling_def by auto
  moreover have "\<not> described s0 (srep s0 i) T" for T
    using failed_here(1) f(4) by (auto elim: described_elim)
  ultimately show ?case using failed_here(1) unfolding resolved_slot_def by auto
next
  case (failed_below i t a)
  note o = arena_okD [OF assms(1)]
  note f = forest_rep [OF o(1) failed_below(5)]
  have n: "sv_terms s = sv_terms s0" "srep s i = srep s0 i"
    using assms(2) failed_below(5) by (simp_all add: settling_def)
  have a: "a < n_slots s0" using terms_ok_argument [OF o(2) f(2) failed_below(1,2)] .
  obtain c where c: "sv_slots s ! srep s a = TsConflicted c" using failed_below.IH a by blast
  have "failed s0 i" using failed.failed_below failed_below(1-3) by blast
  then have "failed s0 (srep s0 i)" using f(4) by (cases rule: failed.cases) (auto intro: failed.intros)
  then have "\<not> described s0 (srep s0 i) T" for T using described_not_failed by blast
  moreover have "resolved_slot s0 s (srep s0 i)" using assms(2) f(2,3) unfolding settling_def by auto
  moreover have "sv_slots s ! srep s0 i \<noteq> TsStructure t"
    using assms(3) f(2) failed_below(2) c n(1) unfolding stuck_def by metis
  ultimately show ?case using failed_below(1) n(2) unfolding resolved_slot_def by auto
qed

section \<open>Publishing\<close>

definition outcome :: "type_state \<Rightarrow> type_state" where
  "outcome st = (case st of TsStructure _ \<Rightarrow> TsUnknown | _ \<Rightarrow> st)"

lemma outcome_facts: "outcome (outcome st) = outcome st" "is_proxy (outcome st) \<longleftrightarrow> is_proxy st"
  by (cases st; simp add: outcome_def)+

lemma root_path_stop:
  assumes "root_path ss j q" "i < length ss" "\<not> is_proxy st" "root_path ss i r"
  shows "\<exists>p. root_path (ss[i := st]) j p \<and> (p = i \<and> q = r \<or> p = q \<and> p \<noteq> i)"
  using assms(1)
proof (induction rule: root_path.induct)
  case (root j)
  have "root_path (ss[i := st]) j j" using root assms(2,3) by (cases "j = i") (simp_all add: root_path.root)
  moreover have "j = i \<Longrightarrow> j = r" using root root_path_unique [OF assms(4), of j] root_path.root [of j ss] by simp
  ultimately show ?case by blast
next
  case (proxy j k q)
  show ?case
  proof (cases "j = i")
    case True
    then have "q = r" using root_path_unique [OF assms(4)] proxy.hyps root_path.proxy by blast
    moreover have "root_path (ss[i := st]) i i" using assms(2,3) by (intro root_path.root) simp_all
    ultimately show ?thesis using True by blast
  next
    case False
    then have "root_path (ss[i := st]) k p \<Longrightarrow> root_path (ss[i := st]) j p" for p
      using proxy.hyps by (intro root_path.proxy [of j _ k]) simp_all
    then show ?thesis using proxy.IH by blast
  qed
qed

definition published :: "solver \<Rightarrow> nat \<Rightarrow> solver \<Rightarrow> bool" where
  "published s0 k s \<longleftrightarrow> (\<exists>ss. s = s0\<lparr>sv_slots := ss\<rparr> \<and> forest ss \<and> length ss = n_slots s0 \<and>
     (\<forall>i < n_slots s0. outcome (ss ! rep ss i) = outcome (sv_slots s0 ! srep s0 i)) \<and>
     (\<forall>i < k. ss ! i = outcome (sv_slots s0 ! srep s0 i)))"

lemma publish_slot_published:
  assumes "published s0 k s" "k < n_slots s0" "forest (sv_slots s0)"
  shows "\<exists>s'. publish_slot k s = ret s' \<and> published s0 (Suc k) s'"
proof -
  obtain ss where ss: "s = s0\<lparr>sv_slots := ss\<rparr>" "forest ss" "length ss = n_slots s0"
      "\<And>i. i < n_slots s0 \<Longrightarrow> outcome (ss ! rep ss i) = outcome (sv_slots s0 ! srep s0 i)"
      "\<And>i. i < k \<Longrightarrow> ss ! i = outcome (sv_slots s0 ! srep s0 i)"
    using assms(1) by (auto simp: published_def)
  have k: "k < length ss" using assms(2) ss(3) by simp
  obtain ts where find: "find_slot k s = ret (rep ss k, s\<lparr>sv_slots := ts\<rparr>)" "same_view ss ts"
    using find_forest [of s k] ss(1,2) k by auto
  note view = same_view_rep [OF find(2) ss(2)] same_view_states [OF find(2)]
  have ts: "forest ts" "length ts = length ss" using same_view_forest [OF find(2) ss(2)] find(2) by (auto simp: same_view_def)
  have root: "ts ! rep ss i = ss ! rep ss i" if "i < length ss" for i
    using forest_rep(2,3) [OF ss(2) that] view(3) [of "rep ss i" "ss ! rep ss i"] by simp
  let ?st = "outcome (ts ! rep ss k)"
  let ?us = "ts[k := ?st]"
  have st: "\<not> is_proxy ?st" "?st = outcome (sv_slots s0 ! srep s0 k)"
    using forest_rep(3) [OF ss(2) k] root [OF k] ss(4) [OF assms(2)] outcome_facts(2) by metis+
  have run: "publish_slot k s = ret (s\<lparr>sv_slots := ?us\<rparr>)"
    using find(1) k forest_rep(2) [OF ss(2) k] ts(2)
    by (simp add: publish_slot_def set_type_state_def outcome_def)
  have pk: "root_path ts k (rep ss k)" using forest_root_path [OF ts(1)] k ts(2) view(1) [OF k] by metis
  have stop: "\<exists>p. root_path ?us i p \<and> (p = k \<and> rep ss i = rep ss k \<or> p = rep ss i \<and> p \<noteq> k)"
    if "i < length ss" for i
    using root_path_stop [OF _ _ st(1) pk, of i "rep ss i"] forest_root_path [OF ts(1), of i] view(1) [OF that] that k ts(2)
    by simp
  have "forest ?us" using stop ts(2) unfolding forest_def by auto
  moreover have "outcome (?us ! rep ?us i) = outcome (sv_slots s0 ! srep s0 i)" if "i < n_slots s0" for i
  proof -
    have i: "i < length ss" using that ss(3) by simp
    obtain p where p: "root_path ?us i p" "p = k \<and> rep ss i = rep ss k \<or> p = rep ss i \<and> p \<noteq> k"
      using stop [OF i] by blast
    have "rep ?us i = p" using p(1) by (rule rep_eq)
    then show ?thesis using p(2) ss(4) [OF that] root [OF i] root [OF k] k ts(2) by (auto simp: outcome_facts)
  qed
  moreover have "?us ! i = outcome (sv_slots s0 ! srep s0 i)" if i: "i < Suc k" for i
  proof (cases "i = k")
    case False
    then have "i < k" using i by simp
    then have "\<not> is_proxy (ss ! i)" using ss(5) forest_rep(3) [OF assms(3)] assms(2) outcome_facts(2) by simp
    then have "ts ! i = ss ! i" using view(3) [of i "ss ! i"] \<open>i < k\<close> k by simp
    then show ?thesis using False ss(5) \<open>i < k\<close> by simp
  qed (use st k ts(2) in simp)
  ultimately show ?thesis using run ss(1,3) ts(2) unfolding published_def by auto
qed

lemma each_append: "each f (xs @ ys) s = obind (each f xs s) (each f ys)"
  by (induction xs arbitrary: s) (auto simp: obind_def split: option.splits sum.splits)

lemma publish_all:
  assumes "forest (sv_slots s)"
  shows "k \<le> n_slots s \<Longrightarrow> \<exists>s'. each publish_slot [0..<k] s = ret s' \<and> published s k s'"
proof (induction k)
  case 0
  show ?case using assms by (auto simp: published_def intro!: exI [of _ "sv_slots s"])
next
  case (Suc k)
  then obtain s1 where "each publish_slot [0..<k] s = ret s1" "published s k s1" by auto
  then show ?case using publish_slot_published [of s k s1] Suc.prems assms by (auto simp: each_append)
qed

lemma report_required_all:
  "\<forall>i \<in> set is. i < n_slots s \<and> i < length (sv_hir s) \<Longrightarrow>
     \<exists>reported' ds. each report_required is (reported, s) = ret (reported',
       s\<lparr>sv_unknowns := sv_unknowns s @ filter (\<lambda>i. sv_required s ! i \<and> sv_slots s ! i = TsUnknown) is,
         sv_diagnostics := ds\<rparr>)"
proof (induction "is" arbitrary: reported s)
  case Nil
  show ?case by (intro exI [of _ reported] exI [of _ "sv_diagnostics s"]) simp
next
  case (Cons i "is")
  have i: "i < n_slots s" "i < length (sv_hir s)" using Cons.prems by simp_all
  let ?new = "if sv_required s ! i \<and> sv_slots s ! i = TsUnknown then [i] else []"
  have "\<exists>rep1 ds1. report_required i (reported, s) =
      ret (rep1, s\<lparr>sv_unknowns := sv_unknowns s @ ?new, sv_diagnostics := ds1\<rparr>)"
  proof (cases "sv_required s ! i \<and> sv_slots s ! i = TsUnknown")
    case True
    show ?thesis
    proof (cases "hn_location (sv_hir s ! i) \<in> reported")
      case known: True
      show ?thesis using True known i
        by (intro exI [of _ reported] exI [of _ "sv_diagnostics s"]) (simp add: report_required_def Let_def)
    next
      case False
      show ?thesis using True False i
        by (intro exI [of _ "insert (hn_location (sv_hir s ! i)) reported"]
            exI [of _ "sv_diagnostics s @ [\<lparr>td_message = TmUnknownType, td_locs = [hn_location (sv_hir s ! i)]\<rparr>]"])
          (simp add: report_required_def Let_def)
    qed
  next
    case False
    then show ?thesis
      using i by (intro exI [of _ reported] exI [of _ "sv_diagnostics s"]) (auto simp: report_required_def)
  qed
  then obtain rep1 ds1 where 1: "report_required i (reported, s) =
      ret (rep1, s\<lparr>sv_unknowns := sv_unknowns s @ ?new, sv_diagnostics := ds1\<rparr>)" by blast
  show ?case
    using Cons.IH [of "s\<lparr>sv_unknowns := sv_unknowns s @ ?new, sv_diagnostics := ds1\<rparr>" rep1] Cons.prems 1 by auto
qed

lemma report_symbols_all:
  "\<forall>i \<in> set is. i < n_slots s \<Longrightarrow> each report_symbol_type is s =
     ret (s\<lparr>sv_unknowns := sv_unknowns s @ filter (\<lambda>i. sv_slots s ! i = TsUnknown) is\<rparr>)"
  by (induction "is" arbitrary: s) (auto simp: report_symbol_type_def)

section \<open>Resolved types\<close>

text \<open>
  C7: \<open>finalize\<close> returns, and gives every slot its resolved type. A slot that describes a finite type
  is known, by an identity of the table that denotes exactly this type; equal types have one identity,
  in the whole table. A slot with a conflict below it is conflicted, and every other slot is unknown;
  the required syntax and the symbols that stay unknown are the ones it lists.
\<close>

theorem finalize_canonical:
  assumes "arena_ok s" "sv_types s = []" "n_slots s \<le> 2 ^ 32"
    and "length (sv_required s) \<le> n_slots s" "length (sv_required s) \<le> length (sv_hir s)"
    and "\<forall>i \<in> set (sv_symbol_types s). i < n_slots s"
  shows "\<exists>s'. finalize s = ret s' \<and>
    (\<forall>i < n_slots s.
       (\<forall>T. described s i T \<longrightarrow> (\<exists>k. sv_slots s' ! i = TsKnown k \<and> denotes (sv_types s') k T)) \<and>
       (failed s i \<longrightarrow> (\<exists>c. sv_slots s' ! i = TsConflicted c)) \<and>
       ((\<nexists>T. described s i T) \<and> \<not> failed s i \<longrightarrow> sv_slots s' ! i = TsUnknown)) \<and>
    (\<forall>j k T. denotes (sv_types s') j T \<and> denotes (sv_types s') k T \<longrightarrow> j = k) \<and>
    sv_unknowns s' = sv_unknowns s @
      filter (\<lambda>i. sv_required s ! i \<and> sv_slots s' ! i = TsUnknown) [0..<length (sv_required s)] @
      filter (\<lambda>i. sv_slots s' ! i = TsUnknown) (sv_symbol_types s)"
proof -
  note o = arena_okD [OF assms(1)]
  obtain s1 known where 1: "settle_loop Map.empty s = ret s1" "settling s known s1" "same_rest s s1"
      "\<forall>i < n_slots s. stuck s1 i"
    using settle_loop_spec [OF assms(1,3) settling_start [OF assms(1,2)]] by blast
  have n1: "n_slots s1 = n_slots s" "forest (sv_slots s1)" "distinct (sv_types s1)"
    using 1(2) by (simp_all add: settling_def)
  obtain s2 where 2: "each publish_slot [0..<n_slots s1] s1 = ret s2" "published s1 (n_slots s1) s2"
    using publish_all [OF n1(2)] by blast
  obtain ss where ss: "s2 = s1\<lparr>sv_slots := ss\<rparr>" "length ss = n_slots s"
      "\<And>i. i < n_slots s \<Longrightarrow> ss ! i = outcome (sv_slots s1 ! srep s1 i)"
    using 2(2) n1(1) by (auto simp: published_def)
  have rest: "sv_required s2 = sv_required s" "sv_hir s2 = sv_hir s" "sv_unknowns s2 = sv_unknowns s"
    "sv_symbol_types s2 = sv_symbol_types s"
    using 1(3) ss(1) by (simp_all add: same_rest_def)
  obtain rs ds where 3: "each report_required [0..<length (sv_required s2)] (first_locs (sv_diagnostics s2), s2) =
      ret (rs, s2\<lparr>sv_unknowns := sv_unknowns s2 @
        filter (\<lambda>i. sv_required s2 ! i \<and> sv_slots s2 ! i = TsUnknown) [0..<length (sv_required s2)], sv_diagnostics := ds\<rparr>)"
    using report_required_all [of "[0..<length (sv_required s2)]" s2 "first_locs (sv_diagnostics s2)"] assms(4,5) rest ss(1,2)
    by auto
  define s3 where "s3 = s2\<lparr>sv_unknowns := sv_unknowns s2 @
    filter (\<lambda>i. sv_required s2 ! i \<and> sv_slots s2 ! i = TsUnknown) [0..<length (sv_required s2)], sv_diagnostics := ds\<rparr>"
  define s' where "s' = s3\<lparr>sv_unknowns := sv_unknowns s3 @ filter (\<lambda>i. sv_slots s3 ! i = TsUnknown) (sv_symbol_types s3)\<rparr>"
  have "each report_symbol_type (sv_symbol_types s3) s3 = ret s'"
    unfolding s'_def using report_symbols_all [of "sv_symbol_types s3" s3] assms(6) rest ss(1,2) by (simp add: s3_def)
  then have "finalize s = ret s'"
    using 1(1) 2(1) 3 n1(1) by (simp add: finalize_def s3_def)
  moreover have types: "sv_types s' = sv_types s1" "sv_slots s' = ss" using ss(1) by (simp_all add: s'_def s3_def)
  moreover have "sv_unknowns s' = sv_unknowns s @
      filter (\<lambda>i. sv_required s ! i \<and> sv_slots s' ! i = TsUnknown) [0..<length (sv_required s)] @
      filter (\<lambda>i. sv_slots s' ! i = TsUnknown) (sv_symbol_types s)"
    using rest ss(1) by (simp add: s'_def s3_def)
  moreover have "\<exists>k. ss ! i = TsKnown k \<and> denotes (sv_types s1) k T" if i: "i < n_slots s" "described s i T" for i T
  proof -
    obtain k where k: "sv_slots s1 ! srep s1 i = TsKnown k"
      using settled_described [OF assms(1) 1(2,4) i(2,1)] by blast
    then obtain T' where "described s i T'" "denotes (sv_types s1) k T'"
      using settling_known [OF 1(2) assms(1) i(1)] by blast
    moreover from this have "T' = T" using described_unique i(2) by blast
    moreover have "srep s1 i = srep s i" using 1(2) i(1) by (simp add: settling_def)
    ultimately show ?thesis using ss(3) [OF i(1)] k by (simp add: outcome_def)
  qed
  moreover have "\<exists>c. ss ! i = TsConflicted c" if "i < n_slots s" "failed s i" for i
    using settled_failed [OF assms(1) 1(2,4) that(2,1)] ss(3) [OF that(1)] by (auto simp: outcome_def)
  moreover have "ss ! i = TsUnknown" if i: "i < n_slots s" "\<nexists>T. described s i T" "\<not> failed s i" for i
  proof -
    have "\<not> is_proxy (sv_slots s1 ! srep s1 i)" using forest_rep(3) [OF n1(2)] i(1) n1(1) by simp
    moreover have "sv_slots s1 ! srep s1 i \<noteq> TsKnown k" for k
      using settling_known [OF 1(2) assms(1) i(1)] i(2) by blast
    moreover have "sv_slots s1 ! srep s1 i \<noteq> TsConflicted c" for c
      using settling_conflicted [OF 1(2) assms(1) i(1)] i(3) by blast
    ultimately show ?thesis using ss(3) [OF i(1)] by (cases "sv_slots s1 ! srep s1 i") (auto simp: outcome_def)
  qed
  moreover have "j = k" if "denotes (sv_types s1) j T" "denotes (sv_types s1) k T" for j k T
    using denotes_unique [OF n1(3) that] .
  ultimately show ?thesis by (intro exI [of _ s']) auto
qed

definition canonical_example :: solver where
  "canonical_example = example_arena
     [TsStructure 0, TsStructure 1, TsProxyTo 0, TsStructure 2, TsUnknown, TsStructure 3]
     [\<lparr>tt_ctor = TcInt, tt_arguments = []\<rparr>, \<lparr>tt_ctor = TcArray, tt_arguments = [0]\<rparr>,
      \<lparr>tt_ctor = TcArray, tt_arguments = [2]\<rparr>, \<lparr>tt_ctor = TcArray, tt_arguments = [4]\<rparr>]"

lemma canonical_example_roots:
  "srep canonical_example 0 = 0" "srep canonical_example 1 = 1" "srep canonical_example 2 = 0"
  "srep canonical_example 3 = 3" "srep canonical_example 4 = 4" "srep canonical_example 5 = 5"
  by (simp_all add: canonical_example_def example_arena_def rep_def root_of.simps fetch_def)

lemma canonical_example_ok: "arena_ok canonical_example"
proof (unfold canonical_example_def, rule example_arena_ok)
  let ?ss = "[TsStructure 0, TsStructure 1, TsProxyTo 0, TsStructure 2, TsUnknown, TsStructure 3]"
  have "\<exists>r. root_path ?ss i r" if "i < 6" for i
  proof -
    have "root_of ?ss i = ret (if i = 2 then 0 else i)"
      using that by (auto simp: less_Suc_eq numeral_eq_Suc root_of.simps fetch_def)
    then show ?thesis by (auto simp: root_path_iff)
  qed
  then show "forest ?ss" by (simp add: forest_def)
qed (auto simp: terms_ok_def less_Suc_eq nth_Cons')

text \<open>Two arrays of integers have one type, an array of an unknown type has none.\<close>

theorem finalize_canonical_witness:
  "\<exists>s' k. finalize canonical_example = ret s' \<and> sv_slots s' ! 1 = TsKnown k \<and> sv_slots s' ! 3 = TsKnown k \<and>
     sv_slots s' ! 5 = TsUnknown"
proof -
  let ?s = canonical_example
  have states: "sv_slots ?s ! 0 = TsStructure 0" "sv_slots ?s ! 1 = TsStructure 1" "sv_slots ?s ! 3 = TsStructure 2"
    "sv_slots ?s ! 4 = TsUnknown" "sv_slots ?s ! 5 = TsStructure 3" and n: "n_slots ?s = 6"
    and terms: "sv_terms ?s ! 0 = \<lparr>tt_ctor = TcInt, tt_arguments = []\<rparr>"
      "sv_terms ?s ! 1 = \<lparr>tt_ctor = TcArray, tt_arguments = [0]\<rparr>"
      "sv_terms ?s ! 2 = \<lparr>tt_ctor = TcArray, tt_arguments = [2]\<rparr>"
      "sv_terms ?s ! 3 = \<lparr>tt_ctor = TcArray, tt_arguments = [4]\<rparr>"
    by (simp_all add: canonical_example_def example_arena_def)
  note roots = canonical_example_roots
  have int: "described ?s i (Ty TcInt [])" if "srep ?s i = 0" for i
    using described.intros [of ?s i 0 "[]"] that states terms by simp
  have arrays: "described ?s 1 (Ty TcArray [Ty TcInt []])" "described ?s 3 (Ty TcArray [Ty TcInt []])"
    using described.intros [of ?s 1 1 "[Ty TcInt []]"] described.intros [of ?s 3 2 "[Ty TcInt []]"]
      int [of 0] int [of 2] roots states terms by simp_all
  have no4: "\<not> described ?s 4 T" "\<not> failed ?s 4" for T
    using roots states by (auto elim: described_elim failed.cases)
  have no5: "\<nexists>T. described ?s 5 T"
    using no4(1) roots states terms by (auto elim!: described_elim simp: list_all2_Cons1)
  have ok5: "\<not> failed ?s 5"
  proof
    assume "failed ?s 5"
    then show False using no4(2) roots states terms by (cases rule: failed.cases) auto
  qed
  have empty: "sv_types ?s = []" "n_slots ?s \<le> 2 ^ 32" "length (sv_required ?s) \<le> n_slots ?s"
    "length (sv_required ?s) \<le> length (sv_hir ?s)" "\<forall>i \<in> set (sv_symbol_types ?s). i < n_slots ?s"
    by (simp_all add: canonical_example_def example_arena_def)
  from finalize_canonical [OF canonical_example_ok empty] show ?thesis
  proof (elim exE conjE)
    fix s'
    assume run: "finalize ?s = ret s'"
      and slots: "\<forall>i < n_slots ?s.
        (\<forall>T. described ?s i T \<longrightarrow> (\<exists>k. sv_slots s' ! i = TsKnown k \<and> denotes (sv_types s') k T)) \<and>
        (failed ?s i \<longrightarrow> (\<exists>c. sv_slots s' ! i = TsConflicted c)) \<and>
        ((\<nexists>T. described ?s i T) \<and> \<not> failed ?s i \<longrightarrow> sv_slots s' ! i = TsUnknown)"
      and unique: "\<forall>j k T. denotes (sv_types s') j T \<and> denotes (sv_types s') k T \<longrightarrow> j = k"
    have less: "1 < n_slots ?s" "3 < n_slots ?s" "5 < n_slots ?s" using n by simp_all
    obtain k where k: "sv_slots s' ! 1 = TsKnown k" "denotes (sv_types s') k (Ty TcArray [Ty TcInt []])"
      using slots less(1) arrays(1) by blast
    obtain k' where k': "sv_slots s' ! 3 = TsKnown k'" "denotes (sv_types s') k' (Ty TcArray [Ty TcInt []])"
      using slots less(2) arrays(2) by blast
    have "k' = k" using unique k(2) k'(2) by blast
    moreover have "sv_slots s' ! 5 = TsUnknown" using slots less(3) no5 ok5 by blast
    ultimately show ?thesis using run k(1) k'(1) by blast
  qed
qed

end
