(* ===== verification/Resolve_Steps.thy ===== *)
theory Resolve_Steps
  imports Resolve_Mir
begin

text \<open>
  The queries of the symbol pass, \<^verbatim>\<open>symbol_resolve/closure.rs\<close> and \<^verbatim>\<open>symbol_resolve/queries.rs\<close>.
  A query reads facts; one that is missing is returned as \<open>Wait\<close>. The methods with \<open>&mut self\<close>
  return the graph as they leave it.
\<close>

section \<open>Sequencing\<close>

type_synonym 'a effect = "(stop + 'a) \<times> mir"

definition query :: "stop + 'a \<Rightarrow> mir \<Rightarrow> ('a \<Rightarrow> 'b effect) \<Rightarrow> 'b effect" where
  "query r m f = (case r of Inl e \<Rightarrow> (Inl e, m) | Inr x \<Rightarrow> f x)"

definition seq :: "'a effect \<Rightarrow> ('a \<Rightarrow> mir \<Rightarrow> 'b effect) \<Rightarrow> 'b effect" where
  "seq r f = (case fst r of Inl e \<Rightarrow> (Inl e, snd r) | Inr x \<Rightarrow> f x (snd r))"

definition commit :: "stop + mir \<Rightarrow> mir \<Rightarrow> 'a \<Rightarrow> 'a effect" where
  "commit r m x = (case r of Inl e \<Rightarrow> (Inl e, m) | Inr m' \<Rightarrow> (Inr x, m'))"

definition update_at :: "'a list \<Rightarrow> nat \<Rightarrow> ('a \<Rightarrow> 'a) \<Rightarrow> stop + 'a list" where
  "update_at xs i f = (if i < length xs then Inr (xs[i := f (xs ! i)]) else Inl Panic)"

definition set_symbol_kind :: "symbol_id \<Rightarrow> symbol_kind \<Rightarrow> mir \<Rightarrow> stop + mir" where
  "set_symbol_kind i k m =
     rbind (update_at (mir_symbols m) i (\<lambda>s. s\<lparr>sy_kind := k\<rparr>)) (\<lambda>ss. Inr (m\<lparr>mir_symbols := ss\<rparr>))"

definition set_symbol_resolution :: "symbol_id \<Rightarrow> resolve_state \<Rightarrow> mir \<Rightarrow> stop + mir" where
  "set_symbol_resolution i r m =
     rbind (update_at (mir_symbols m) i (\<lambda>s. s\<lparr>sy_resolution := r\<rparr>)) (\<lambda>ss. Inr (m\<lparr>mir_symbols := ss\<rparr>))"

definition set_slot :: "resolve_slot_id \<Rightarrow> resolve_state \<Rightarrow> mir \<Rightarrow> stop + mir" where
  "set_slot i r m = rbind (update_at (mir_slots m) i (\<lambda>_. r)) (\<lambda>ss. Inr (m\<lparr>mir_slots := ss\<rparr>))"

definition set_namespace :: "symbol_id \<Rightarrow> module_id option \<Rightarrow> mir \<Rightarrow> stop + mir" where
  "set_namespace i r m =
     rbind (update_at (mir_namespaces m) i (\<lambda>_. Some r)) (\<lambda>fs. Inr (m\<lparr>mir_namespaces := fs\<rparr>))"

definition set_constructor :: "symbol_id \<Rightarrow> bool \<Rightarrow> mir \<Rightarrow> stop + mir" where
  "set_constructor i r m =
     rbind (update_at (mir_constructors m) i (\<lambda>_. Some r)) (\<lambda>fs. Inr (m\<lparr>mir_constructors := fs\<rparr>))"

definition set_constructor_namespace :: "hir_id \<Rightarrow> bool \<Rightarrow> mir \<Rightarrow> stop + mir" where
  "set_constructor_namespace i r m =
     rbind (update_at (mir_constructor_namespaces m) i (\<lambda>_. Some r))
       (\<lambda>fs. Inr (m\<lparr>mir_constructor_namespaces := fs\<rparr>))"

text \<open>\<open>*kind = BindingKind::Def\<close> in a binding node.\<close>

definition set_binding_def :: "hir_id \<Rightarrow> mir \<Rightarrow> stop + mir" where
  "set_binding_def i m =
     rbind (hir_at m i) (\<lambda>n.
       case hn_kind n of
         HkBinding _ init imported \<Rightarrow>
           Inr (m\<lparr>mir_hir := (mir_hir m)[i := n\<lparr>hn_kind := HkBinding BkDef init imported\<rparr>]\<rparr>)
       | _ \<Rightarrow> Inl Panic)"

section \<open>Facts\<close>

definition resolve_symbol :: "mir \<Rightarrow> symbol_id \<Rightarrow> stop + resolve_state" where
  "resolve_symbol m i =
     rbind (symbol_at m i) (\<lambda>s.
       if sy_resolution s = RsPending then Inl (Wait (TaskSymbol i)) else Inr (sy_resolution s))"

definition reference_value :: "mir \<Rightarrow> hir_id \<Rightarrow> stop + resolve_state option" where
  "reference_value m node =
     rbind (hir_at m node) (\<lambda>n.
       case hn_resolution n of
         None \<Rightarrow> Inr None
       | Some slot \<Rightarrow>
           rbind (idx (mir_slots m) slot) (\<lambda>state.
             if state = RsPending then Inl (Wait (TaskReference node)) else Inr (Some state)))"

definition constructor_fact :: "mir \<Rightarrow> resolve_state \<Rightarrow> stop + bool" where
  "constructor_fact m state =
     (case state of
        RsBound i \<Rightarrow> rbind (idx (mir_constructors m) i) (\<lambda>f. ready f (TaskConstructor i))
      | _ \<Rightarrow> Inr False)"

definition constructor_namespace :: "mir \<Rightarrow> hir_id \<Rightarrow> stop + bool" where
  "constructor_namespace m node =
     rbind (idx (mir_constructor_namespaces m) node) (\<lambda>f. ready f (TaskConstructorNamespace node))"

definition namespace_fact :: "mir \<Rightarrow> symbol_id \<Rightarrow> stop + module_id option" where
  "namespace_fact m i = rbind (idx (mir_namespaces m) i) (\<lambda>f. ready f (TaskNamespace i))"

section \<open>Queries\<close>

definition newtype_or_import :: "hir_kind \<Rightarrow> bool" where
  "newtype_or_import k =
     (case k of HkBinding b init imported \<Rightarrow> init = Some InitNewtype \<or> b = BkDef \<and> imported \<noteq> None
      | _ \<Rightarrow> False)"

definition type_or_def :: "hir_kind \<Rightarrow> binding_kind option" where
  "type_or_def k =
     (case k of HkBinding b _ _ \<Rightarrow> if b = BkType \<or> b = BkDef then Some b else None | _ \<Rightarrow> None)"

definition value_constructor :: "mir \<Rightarrow> binding_kind \<Rightarrow> hir_id \<Rightarrow> stop + bool" where
  "value_constructor m b v =
     rbind (hir_at m v) (\<lambda>n.
       if b = BkDef \<and> hn_kind n = HkField then
         rbind (child m v RoReceiver) (\<lambda>r. rbind (unwrap r) (constructor_namespace m))
       else
         rbind (reference_value m v) (\<lambda>state.
           case state of Some state \<Rightarrow> constructor_fact m state | None \<Rightarrow> Inr False))"

definition constructor_step :: "mir \<Rightarrow> symbol_id \<Rightarrow> stop + bool" where
  "constructor_step m i =
     rbind (symbol_at m i) (\<lambda>s.
       if sy_declarations s = [] then Inr False
       else
         (let node = last (sy_declarations s) in
          rbind (hir_at m node) (\<lambda>n.
            if newtype_or_import (hn_kind n) then Inr True
            else
              (case type_or_def (hn_kind n) of
                 Some b \<Rightarrow>
                   rbind (child m node RoValue) (\<lambda>v.
                     case v of None \<Rightarrow> Inr False | Some v \<Rightarrow> value_constructor m b v)
               | None \<Rightarrow> Inr False))))"

definition constructor_rule :: "native_type_rule \<Rightarrow> bool" where
  "constructor_rule r =
     (case r of
        NrPrimitive c \<Rightarrow> c = TcBool \<or> c = TcPropertyTarget
      | NrConstructor f \<Rightarrow> f = TfOption \<or> f = TfResult \<or> f = TfFoldControl
      | NrOpaque \<Rightarrow> False)"

definition is_enum :: "hir_kind \<Rightarrow> bool" where
  "is_enum k = (case k of HkBinding _ init _ \<Rightarrow> init = Some InitEnum | _ \<Rightarrow> False)"

definition symbol_namespace :: "mir \<Rightarrow> symbol_id \<Rightarrow> stop + bool" where
  "symbol_namespace m i =
     rbind (symbol_at m i) (\<lambda>d.
       case sy_native_type d of
         Some t \<Rightarrow>
           rbind (unwrap (sy_module d)) (\<lambda>module.
           rbind (idx (mir_modules m) module) (\<lambda>md.
           rbind (unwrap (md_native md)) (\<lambda>native.
             Inr (list_ex (\<lambda>(slot, rule). slot = nt_slot t \<and> constructor_rule rule) (nm_types native)))))
       | None \<Rightarrow>
           if sy_declarations d = [] then Inr False
           else rbind (hir_at m (last (sy_declarations d))) (\<lambda>n. Inr (is_enum (hn_kind n))))"

definition constructor_namespace_step :: "mir \<Rightarrow> hir_id \<Rightarrow> stop + bool" where
  "constructor_namespace_step m node =
     rbind (hir_at m node) (\<lambda>n.
       if hn_kind n = HkCall \<or> hn_kind n = HkTypeApply then
         rbind (child m node RoCallee) (\<lambda>c.
           case c of Some callee \<Rightarrow> constructor_namespace m callee | None \<Rightarrow> Inr False)
       else
         rbind (reference_value m node) (\<lambda>state.
           case state of Some (RsBound i) \<Rightarrow> symbol_namespace m i | _ \<Rightarrow> Inr False))"

definition namespace_step :: "mir \<Rightarrow> symbol_id \<Rightarrow> stop + module_id option" where
  "namespace_step m i =
     rbind (resolve_symbol m i) (\<lambda>_.
     rbind (symbol_at m i) (\<lambda>s.
       case sy_kind s of
         SkNamespace module \<Rightarrow> Inr (Some module)
       | k \<Rightarrow>
           if k \<noteq> SkDeclaration BkDef \<or> sy_declarations s = [] then Inr None
           else
             rbind (child m (last (sy_declarations s)) RoValue) (\<lambda>v.
               case v of
                 None \<Rightarrow> Inr None
               | Some v \<Rightarrow>
                   rbind (reference_value m v) (\<lambda>state.
                     case state of Some (RsBound j) \<Rightarrow> namespace_fact m j | _ \<Rightarrow> Inr None))))"

section \<open>Exports and scopes\<close>

fun find_named :: "mir \<Rightarrow> string \<Rightarrow> symbol_id list \<Rightarrow> stop + symbol_id option" where
  "find_named m name [] = Inr None"
| "find_named m name (i # is) =
     rbind (symbol_at m i) (\<lambda>s. if sy_name s = name then Inr (Some i) else find_named m name is)"

fun filter_named :: "mir \<Rightarrow> string \<Rightarrow> symbol_id list \<Rightarrow> stop + symbol_id list" where
  "filter_named m name [] = Inr []"
| "filter_named m name (i # is) =
     rbind (symbol_at m i) (\<lambda>s.
     rbind (filter_named m name is) (\<lambda>rest. Inr (if sy_name s = name then i # rest else rest)))"

definition exported :: "mir \<Rightarrow> module_id \<Rightarrow> string \<Rightarrow> stop + resolve_state" where
  "exported m module name =
     rbind (idx (mir_exports m) module) (\<lambda>ids.
     rbind (find_named m name ids) (\<lambda>candidate.
       case candidate of None \<Rightarrow> Inr RsUnresolved | Some i \<Rightarrow> resolve_symbol m i))"

text \<open>The last binding of the name that is visible at the node; the list is the bindings backwards.\<close>

fun find_binding :: "mir \<Rightarrow> string \<Rightarrow> hir_id \<Rightarrow> scope_binding list \<Rightarrow> stop + symbol_id option" where
  "find_binding m name node [] = Inr None"
| "find_binding m name node (b # bs) =
     rbind (symbol_at m (sb_symbol b)) (\<lambda>s.
       if sy_name s = name \<and> (case sb_after b of None \<Rightarrow> True | Some after \<Rightarrow> after < node)
       then Inr (Some (sb_symbol b))
       else find_binding m name node bs)"

definition open_import ::
  "mir \<Rightarrow> string \<Rightarrow> nat \<Rightarrow> symbol_id list \<times> symbol_id list \<Rightarrow> stop + (symbol_id list \<times> symbol_id list)" where
  "open_import m name import = (\<lambda>(candidates, implicit).
     rbind (idx (mir_imports m) import) (\<lambda>e.
       case ie_target e of
         MtBound module \<Rightarrow>
           rbind (idx (mir_exports m) module) (\<lambda>ids.
           rbind (filter_named m name ids) (\<lambda>selected.
             Inr (if ie_syntax e = None then (candidates, implicit @ selected)
                  else (candidates @ selected, implicit))))
       | _ \<Rightarrow> Inr (candidates, implicit)))"

definition open_candidates :: "mir \<Rightarrow> string \<Rightarrow> nat list \<Rightarrow> stop + symbol_id list" where
  "open_candidates m name imports =
     rbind (foldm (open_import m name) imports ([], [])) (\<lambda>(candidates, implicit).
       Inr (if candidates = [] then implicit else candidates))"

definition add_target ::
  "mir \<Rightarrow> symbol_id \<Rightarrow> (symbol_id, symbol_id \<times> resolve_state) btree \<Rightarrow>
     stop + (symbol_id, symbol_id \<times> resolve_state) btree" where
  "add_target m candidate targets =
     rbind (resolve_symbol m candidate) (\<lambda>state.
       Inr (bt_or_insert (case state of RsBound i \<Rightarrow> i | _ \<Rightarrow> candidate) (candidate, state) targets))"

fun any_constructor :: "mir \<Rightarrow> resolve_state list \<Rightarrow> stop + bool" where
  "any_constructor m [] = Inr False"
| "any_constructor m (state # states) =
     rbind (constructor_fact m state) (\<lambda>c. if c then Inr True else any_constructor m states)"

definition local_state :: "mir \<Rightarrow> bool \<Rightarrow> symbol_id \<Rightarrow> stop + resolve_state" where
  "local_state m pattern i =
     rbind (resolve_symbol m i) (\<lambda>state.
     rbind (if pattern then constructor_fact m state else Inr True) (\<lambda>ok.
       Inr (if ok then state else RsUnresolved)))"

definition conflict :: "resolve_conflict \<Rightarrow> mir \<Rightarrow> resolve_state effect" where
  "conflict c m =
     (if length (mir_conflicts m) < 2 ^ 32
      then (Inr (RsConflicted (length (mir_conflicts m))), m\<lparr>mir_conflicts := mir_conflicts m @ [c]\<rparr>)
      else (Inl Panic, m))"

definition diagnose :: "resolve_message \<Rightarrow> hir_id \<Rightarrow> mir \<Rightarrow> unit effect" where
  "diagnose msg node m =
     query (hir_at m node) m (\<lambda>n.
       (Inr (), m\<lparr>mir_diagnostics := mir_diagnostics m @
          [\<lparr>rd_message = msg, rd_locs = [hn_location n]\<rparr>]\<rparr>))"

text \<open>What the targets of the open imports of a scope make of the name.\<close>

definition import_state ::
  "hir_id \<Rightarrow> string \<Rightarrow> bool \<Rightarrow> (symbol_id, symbol_id \<times> resolve_state) btree \<Rightarrow> mir \<Rightarrow>
     resolve_state effect" where
  "import_state node name pattern targets m =
     query (if pattern then any_constructor m (map (snd \<circ> snd) targets) else Inr True) m (\<lambda>found.
       if \<not> found then (Inr RsUnresolved, m)
       else if length targets = 1 then (Inr (snd (snd (hd targets))), m)
       else
         seq (conflict (AmbiguousImport name (map (fst \<circ> snd) targets)) m) (\<lambda>state m.
         seq (diagnose (MsgAmbiguousImport name) node m) (\<lambda>_ m. (Inr state, m))))"

text \<open>
  The walk outwards over the scopes. It changes nothing before it ends, so a walk of more steps than
  there are scopes is in a scope it has seen and never ends.
\<close>

fun lookup_loop :: "nat \<Rightarrow> scope_id \<Rightarrow> hir_id \<Rightarrow> string \<Rightarrow> bool \<Rightarrow> mir \<Rightarrow> resolve_state effect" where
  "lookup_loop 0 scope node name pattern m = (Inl Diverge, m)"
| "lookup_loop (Suc fuel) scope node name pattern m =
     query (idx (mir_scopes m) scope) m (\<lambda>sc.
     query (find_binding m name node (rev (sc_bindings sc))) m (\<lambda>found.
       case found of
         Some i \<Rightarrow> query (local_state m pattern i) m (\<lambda>state. (Inr state, m))
       | None \<Rightarrow>
           query (open_candidates m name (sc_open_imports sc)) m (\<lambda>candidates.
             if candidates \<noteq> [] then
               query (foldm (add_target m) candidates []) m (\<lambda>targets.
                 import_state node name pattern targets m)
             else
               (case sc_parent sc of
                  Some parent \<Rightarrow> lookup_loop fuel parent node name pattern m
                | None \<Rightarrow> (Inr RsUnresolved, m)))))"

definition lookup :: "scope_id \<Rightarrow> hir_id \<Rightarrow> string \<Rightarrow> bool \<Rightarrow> mir \<Rightarrow> resolve_state effect" where
  "lookup scope node name pattern m = lookup_loop (Suc (length (mir_scopes m))) scope node name pattern m"

section \<open>Paths\<close>

fun static_path_tail :: "mir \<Rightarrow> resolve_state \<Rightarrow> string list \<Rightarrow> stop + resolve_state" where
  "static_path_tail m state [] = Inr state"
| "static_path_tail m state (name # path) =
     (case state of
        RsBound i \<Rightarrow>
          rbind (namespace_fact m i) (\<lambda>module.
            case module of
              None \<Rightarrow> Inr RsUnresolved
            | Some module \<Rightarrow> rbind (exported m module name) (\<lambda>state. static_path_tail m state path))
      | _ \<Rightarrow> Inr state)"

definition module_position :: "mir \<Rightarrow> string \<Rightarrow> nat option" where
  "module_position m name =
     find (\<lambda>i. md_name (mir_modules m ! i) = name) [0..<length (mir_modules m)]"

text \<open>\<open>split('/').next()\<close> and \<open>rsplit_once('/').map_or("", ..)\<close>.\<close>

definition root_segment :: "string \<Rightarrow> string" where
  "root_segment s = takeWhile (\<lambda>c. c \<noteq> CHR ''/'') s"

definition parent_path :: "string \<Rightarrow> string" where
  "parent_path s = rev (tl (dropWhile (\<lambda>c. c \<noteq> CHR ''/'') (rev s)))"

definition tail_effect :: "string list \<Rightarrow> resolve_state \<Rightarrow> mir \<Rightarrow> resolve_state effect" where
  "tail_effect path state m = query (static_path_tail m state path) m (\<lambda>state. (Inr state, m))"

definition keyword_module :: "string \<Rightarrow> string \<Rightarrow> string option" where
  "keyword_module first current_name =
     (if first = ''crate'' then Some (root_segment current_name)
      else if first = ''self'' then Some current_name
      else if first = ''super'' then Some (parent_path current_name)
      else None)"

definition keyword_path :: "string \<Rightarrow> hir_id \<Rightarrow> string list \<Rightarrow> mir \<Rightarrow> resolve_state effect" where
  "keyword_path module_name node path m =
     (case module_position m module_name of
        None \<Rightarrow> (Inr RsUnresolved, m)
      | Some p \<Rightarrow>
          (case path of
             [] \<Rightarrow> (Inr RsUnresolved, m)
           | name # tail \<Rightarrow>
               query (idx (mir_module_scopes m) (p mod 2 ^ 32)) m (\<lambda>module_scope.
                 case module_scope of
                   None \<Rightarrow> (Inr RsUnresolved, m)
                 | Some sc \<Rightarrow> seq (lookup sc node name False m) (tail_effect tail))))"

definition named_path :: "scope_id \<Rightarrow> string \<Rightarrow> hir_id \<Rightarrow> string list \<Rightarrow> mir \<Rightarrow> resolve_state effect" where
  "named_path scope first node path m =
     (case module_position m first of
        Some p \<Rightarrow>
          (case path of
             [] \<Rightarrow> (Inr RsUnresolved, m)
           | name # tail \<Rightarrow>
               query (exported m (p mod 2 ^ 32) name) m (\<lambda>state. tail_effect tail state m))
      | None \<Rightarrow> seq (lookup scope node first False m) (tail_effect path))"

definition static_path :: "scope_id \<Rightarrow> hir_id \<Rightarrow> string list \<Rightarrow> mir \<Rightarrow> resolve_state effect" where
  "static_path scope node path m =
     (case path of
        [] \<Rightarrow> (Inr RsUnresolved, m)
      | first # rest \<Rightarrow>
          query (idx (mir_scopes m) scope) m (\<lambda>sc.
            if keyword_module first [] \<noteq> None then
              query (idx (mir_modules m) (sc_module sc)) m (\<lambda>md.
                keyword_path (the (keyword_module first (md_name md))) node rest m)
            else named_path scope first node rest m))"

section \<open>Symbols and references\<close>

definition export_step :: "mir \<Rightarrow> symbol_id \<Rightarrow> hir_id \<Rightarrow> stop + resolve_state" where
  "export_step m i node =
     rbind (child m node RoValue) (\<lambda>v.
       case v of
         None \<Rightarrow> Inr (RsBound i)
       | Some v \<Rightarrow>
           rbind (reference_value m v) (\<lambda>state.
             Inr (case state of Some state \<Rightarrow> state | None \<Rightarrow> RsBound i)))"

text \<open>A binding that imports a name from a module, or the module itself.\<close>

definition module_import :: "symbol_id \<Rightarrow> hir_id \<Rightarrow> module_id \<Rightarrow> mir \<Rightarrow> resolve_state effect" where
  "module_import i node module m =
     query (hir_at m node) m (\<lambda>n.
       case hn_kind n of
         HkBinding _ _ (Some name) \<Rightarrow> query (exported m module name) m (\<lambda>state. (Inr state, m))
       | HkBinding _ _ None \<Rightarrow> commit (set_symbol_kind i (SkNamespace module) m) m (RsBound i)
       | _ \<Rightarrow> (Inl Panic, m))"

text \<open>A binding that imports the value of a path.\<close>

definition path_import :: "symbol_id \<Rightarrow> hir_id \<Rightarrow> mir \<Rightarrow> resolve_state effect" where
  "path_import i node m =
     query (child m node RoValue) m (\<lambda>v.
       case v of
         None \<Rightarrow> (Inr RsUnresolved, m)
       | Some v \<Rightarrow>
           query (reference_value m v) m (\<lambda>state.
             case (case state of Some state \<Rightarrow> state | None \<Rightarrow> RsUnresolved) of
               RsBound target \<Rightarrow>
                 query (symbol_at m target) m (\<lambda>t.
                   case sy_kind t of
                     SkNamespace module \<Rightarrow> commit (set_symbol_kind i (SkNamespace module) m) m (RsBound i)
                   | _ \<Rightarrow> (Inr (RsBound target), m))
             | RsMember _ _ \<Rightarrow>
                 commit (rbind (set_binding_def node m) (set_symbol_kind i (SkDeclaration BkDef))) m (RsBound i)
             | state \<Rightarrow> (Inr state, m)))"

definition import_step ::
  "(hir_id \<rightharpoonup> nat) \<Rightarrow> symbol_id \<Rightarrow> hir_id \<Rightarrow> mir \<Rightarrow> resolve_state effect" where
  "import_step edges i node m =
     (case edges node of
        None \<Rightarrow> path_import i node m
      | Some e \<Rightarrow>
          query (idx (mir_imports m) e) m (\<lambda>edge.
            case ie_target edge of
              MtBound module \<Rightarrow> module_import i node module m
            | MtConflicted candidates \<Rightarrow> conflict (ModuleCandidates candidates) m
            | MtUnresolved _ \<Rightarrow> (Inr RsUnresolved, m)))"

text \<open>A name in a pattern is a constructor in scope, or binds a new variable.\<close>

definition pattern_step :: "symbol_id \<Rightarrow> hir_id \<Rightarrow> symbol \<Rightarrow> mir \<Rightarrow> resolve_state effect" where
  "pattern_step i node s m =
     query (unwrap (sy_scope s)) m (\<lambda>scope.
     query (idx (mir_scopes m) scope) m (\<lambda>sc.
     seq (case sc_parent sc of
            Some parent \<Rightarrow> lookup parent node (sy_name s) True m
          | None \<Rightarrow> (Inr RsUnresolved, m))
       (\<lambda>state m. (Inr (if state = RsUnresolved then RsBound i else state), m))))"

definition symbol_step :: "(hir_id \<rightharpoonup> nat) \<Rightarrow> symbol_id \<Rightarrow> mir \<Rightarrow> resolve_state effect" where
  "symbol_step edges i m =
     query (symbol_at m i) m (\<lambda>s.
     query (idx (sy_declarations s) 0) m (\<lambda>node.
       case sy_kind s of
         SkExport \<Rightarrow> query (export_step m i node) m (\<lambda>state. (Inr state, m))
       | SkImport \<Rightarrow> import_step edges i node m
       | SkPattern \<Rightarrow> pattern_step i node s m
       | _ \<Rightarrow> (Inl Panic, m)))"

definition field_state :: "mir \<Rightarrow> hir_id \<Rightarrow> stop + resolve_state" where
  "field_state m node =
     rbind (child m node RoReceiver) (\<lambda>r. rbind (unwrap r) (\<lambda>receiver.
     rbind (child m node RoName) (\<lambda>n. rbind (unwrap n) (\<lambda>name.
     rbind (hir_at m name) (\<lambda>nn.
       if hn_kind nn = HkMissing then Inr RsUnresolved
       else
         rbind (reference_value m receiver) (\<lambda>state.
           case state of
             Some (RsBound i) \<Rightarrow>
               rbind (namespace_fact m i) (\<lambda>module.
                 case module of
                   Some module \<Rightarrow> rbind (node_name m name) (exported m module)
                 | None \<Rightarrow> Inr (RsMember receiver name))
           | Some RsUnresolved \<Rightarrow> Inr RsUnresolved
           | Some (RsConflicted c) \<Rightarrow> Inr (RsConflicted c)
           | _ \<Rightarrow> Inr (RsMember receiver name)))))))"

definition reference_step :: "hir_id \<Rightarrow> mir \<Rightarrow> resolve_state effect" where
  "reference_step node m =
     query (idx (mir_hir_scopes m) node) m (\<lambda>scope.
     query (unwrap scope) m (\<lambda>scope.
     query (hir_at m node) m (\<lambda>n.
       case hn_kind n of
         HkVariable name \<Rightarrow> lookup scope node name False m
       | HkStaticPath path \<Rightarrow> static_path scope node path m
       | HkPatternName _ \<Rightarrow>
           query (idx (mir_hir_symbols m) node) m (\<lambda>i.
           query (unwrap i) m (\<lambda>i. query (resolve_symbol m i) m (\<lambda>state. (Inr state, m))))
       | HkField \<Rightarrow> query (field_state m node) m (\<lambda>state. (Inr state, m))
       | _ \<Rightarrow> (Inl Panic, m))))"

end
