(* ===== verification/Resolve_Schedule.thy ===== *)
theory Resolve_Schedule
  imports Resolve_Steps
begin

text \<open>
  The scheduler of the symbol pass, \<^verbatim>\<open>symbol_resolve/schedule.rs\<close>. A task that lacks a fact waits for
  the task that establishes it; when nothing else can run, the waiting tasks contain cycles, and one
  task of each is answered in the negative.
\<close>

section \<open>The scheduler\<close>

record scheduler =
  sh_ready :: "resolve_task list"
  sh_queued :: "resolve_task set"
  sh_consumers :: "resolve_task \<rightharpoonup> resolve_task list"

record pass =
  ps_mir :: mir
  ps_scheduler :: scheduler
  ps_import_edges :: "hir_id \<rightharpoonup> nat"

definition scheduler_default :: scheduler where
  "scheduler_default = \<lparr>sh_ready = [], sh_queued = {}, sh_consumers = Map.empty\<rparr>"

definition enqueue :: "resolve_task \<Rightarrow> scheduler \<Rightarrow> scheduler" where
  "enqueue task s =
     (if task \<in> sh_queued s then s
      else s\<lparr>sh_queued := insert task (sh_queued s), sh_ready := sh_ready s @ [task]\<rparr>)"

section \<open>Tasks\<close>

fun finished :: "mir \<Rightarrow> resolve_task \<Rightarrow> stop + bool" where
  "finished m (TaskSymbol i) = rbind (symbol_at m i) (\<lambda>s. Inr (sy_resolution s \<noteq> RsPending))"
| "finished m (TaskReference node) =
     rbind (hir_at m node) (\<lambda>n. rbind (unwrap (hn_resolution n)) (\<lambda>slot.
     rbind (idx (mir_slots m) slot) (\<lambda>state. Inr (state \<noteq> RsPending))))"
| "finished m (TaskNamespace i) = rbind (idx (mir_namespaces m) i) (\<lambda>f. Inr (f \<noteq> None))"
| "finished m (TaskConstructor i) = rbind (idx (mir_constructors m) i) (\<lambda>f. Inr (f \<noteq> None))"
| "finished m (TaskConstructorNamespace node) =
     rbind (idx (mir_constructor_namespaces m) node) (\<lambda>f. Inr (f \<noteq> None))"

definition set_reference :: "hir_id \<Rightarrow> resolve_state \<Rightarrow> mir \<Rightarrow> stop + mir" where
  "set_reference node r m =
     rbind (hir_at m node) (\<lambda>n. rbind (unwrap (hn_resolution n)) (\<lambda>slot. set_slot slot r m))"

fun run_task :: "(hir_id \<rightharpoonup> nat) \<Rightarrow> resolve_task \<Rightarrow> mir \<Rightarrow> unit effect" where
  "run_task edges (TaskSymbol i) m =
     seq (symbol_step edges i m) (\<lambda>r m. commit (set_symbol_resolution i r m) m ())"
| "run_task edges (TaskReference node) m =
     seq (reference_step node m) (\<lambda>r m. commit (set_reference node r m) m ())"
| "run_task edges (TaskNamespace i) m =
     query (namespace_step m i) m (\<lambda>r. commit (set_namespace i r m) m ())"
| "run_task edges (TaskConstructor i) m =
     query (constructor_step m i) m (\<lambda>r. commit (set_constructor i r m) m ())"
| "run_task edges (TaskConstructorNamespace node) m =
     query (constructor_namespace_step m node) m (\<lambda>r. commit (set_constructor_namespace node r m) m ())"

text \<open>The negative answer to a query in a cycle.\<close>

fun deny :: "resolve_task \<Rightarrow> mir \<Rightarrow> stop + mir" where
  "deny (TaskNamespace i) m = set_namespace i None m"
| "deny (TaskConstructor i) m = set_constructor i False m"
| "deny (TaskConstructorNamespace node) m = set_constructor_namespace node False m"
| "deny (TaskSymbol i) m = set_symbol_resolution i RsUnresolved m"
| "deny (TaskReference node) m = set_reference node RsUnresolved m"

section \<open>Waiting\<close>

definition wake :: "resolve_task \<Rightarrow> resolve_task \<Rightarrow> pass \<Rightarrow> pass" where
  "wake task consumer p =
     (if bt_get (mir_waiting (ps_mir p)) consumer = Some task then
        p\<lparr>ps_mir := (ps_mir p)\<lparr>mir_waiting := bt_remove consumer (mir_waiting (ps_mir p))\<rparr>,
          ps_scheduler := enqueue consumer (ps_scheduler p)\<rparr>
      else p)"

definition notify :: "resolve_task \<Rightarrow> pass \<Rightarrow> pass" where
  "notify task p =
     (let p = p\<lparr>ps_mir := (ps_mir p)\<lparr>mir_waiting := bt_remove task (mir_waiting (ps_mir p))\<rparr>\<rparr> in
      case sh_consumers (ps_scheduler p) task of
        None \<Rightarrow> p
      | Some consumers \<Rightarrow>
          fold (wake task) consumers
            (p\<lparr>ps_scheduler := (ps_scheduler p)\<lparr>sh_consumers := (sh_consumers (ps_scheduler p))(task := None)\<rparr>\<rparr>))"

definition suspend :: "resolve_task \<Rightarrow> resolve_task \<Rightarrow> pass \<Rightarrow> pass" where
  "suspend task dependency p =
     (let m = (ps_mir p)\<lparr>mir_waiting := bt_insert task dependency (mir_waiting (ps_mir p))\<rparr>;
          cs = sh_consumers (ps_scheduler p);
          s = (ps_scheduler p)\<lparr>sh_consumers := cs(dependency \<mapsto>
                 (case cs dependency of None \<Rightarrow> [] | Some xs \<Rightarrow> xs) @ [task])\<rparr> in
      p\<lparr>ps_mir := m,
        ps_scheduler := (if bt_get (mir_waiting m) dependency = None then enqueue dependency s else s)\<rparr>)"

text \<open>The body of the inner loop.\<close>

definition drain_task :: "resolve_task \<Rightarrow> pass \<Rightarrow> stop + pass" where
  "drain_task task p =
     rbind (finished (ps_mir p) task) (\<lambda>f.
       if f then Inr (notify task p)
       else if bt_get (mir_waiting (ps_mir p)) task \<noteq> None then Inr p
       else
         (case run_task (ps_import_edges p) task (ps_mir p) of
            (Inr (), m) \<Rightarrow> Inr (notify task (p\<lparr>ps_mir := m\<rparr>))
          | (Inl (Wait dependency), m) \<Rightarrow>
              rbind (finished m dependency) (\<lambda>f.
                if f then Inl Panic else Inr (suspend task dependency (p\<lparr>ps_mir := m\<rparr>)))
          | (Inl e, m) \<Rightarrow> Inl e))"

definition pop_ready :: "pass \<Rightarrow> resolve_task \<Rightarrow> resolve_task list \<Rightarrow> pass" where
  "pop_ready p task rest =
     p\<lparr>ps_scheduler := (ps_scheduler p)\<lparr>sh_ready := rest, sh_queued := sh_queued (ps_scheduler p) - {task}\<rparr>\<rparr>"

section \<open>Cycles\<close>

function cycle_walk ::
  "(resolve_task, resolve_task) btree \<Rightarrow> resolve_task set \<Rightarrow> resolve_task list \<Rightarrow>
     (resolve_task \<rightharpoonup> nat) \<Rightarrow> resolve_task \<Rightarrow> resolve_task set \<times> resolve_task list option" where
  "cycle_walk waiting visited path positions task =
     (case positions task of
        Some index \<Rightarrow> (visited, Some (drop index path))
      | None \<Rightarrow>
          if task \<in> visited then (visited, None)
          else
            (case bt_get waiting task of
               None \<Rightarrow> (insert task visited, None)
             | Some dependency \<Rightarrow>
                 cycle_walk waiting (insert task visited) (path @ [task])
                   (positions(task \<mapsto> length path)) dependency))"
  by pat_completeness auto
termination
proof (relation "measure (\<lambda>(w, v, _). card (dom (bt_get w) - v))", goal_cases)
  case (2 waiting visited path positions task dependency)
  then have "dom (bt_get waiting) - insert task visited \<subset> dom (bt_get waiting) - visited" by auto
  then show ?case by (simp add: psubset_card_mono bt.dom_finite)
qed simp

declare cycle_walk.simps [simp del]

fun cycles_from ::
  "(resolve_task, resolve_task) btree \<Rightarrow> resolve_task list \<Rightarrow> resolve_task set \<Rightarrow> resolve_task list list" where
  "cycles_from waiting [] visited = []"
| "cycles_from waiting (start # starts) visited =
     (if start \<in> visited then cycles_from waiting starts visited
      else
        (case cycle_walk waiting visited [] Map.empty start of
           (visited, Some c) \<Rightarrow> c # cycles_from waiting starts visited
         | (visited, None) \<Rightarrow> cycles_from waiting starts visited))"

definition cycles :: "(resolve_task, resolve_task) btree \<Rightarrow> resolve_task list list" where
  "cycles waiting = cycles_from waiting (bt_keys waiting) {}"

text \<open>\<open>min_by_key\<close>: a negative classification is preferred to discarding a reference.\<close>

fun is_binding_task :: "resolve_task \<Rightarrow> bool" where
  "is_binding_task (TaskSymbol _) = True"
| "is_binding_task (TaskReference _) = True"
| "is_binding_task _ = False"

definition break_before :: "resolve_task \<Rightarrow> resolve_task \<Rightarrow> bool" where
  "break_before a b \<longleftrightarrow> \<not> is_binding_task a \<and> is_binding_task b \<or>
     is_binding_task a = is_binding_task b \<and> a < b"

definition break_choice :: "resolve_task list \<Rightarrow> stop + resolve_task" where
  "break_choice ts =
     (case ts of [] \<Rightarrow> Inl Panic | t # ts \<Rightarrow> Inr (foldl (\<lambda>a b. if break_before b a then b else a) t ts))"

definition break_cycle :: "resolve_task list \<Rightarrow> pass \<Rightarrow> stop + pass" where
  "break_cycle c p =
     rbind (break_choice c) (\<lambda>task.
     rbind (deny task (ps_mir p)) (\<lambda>m. Inr (notify task (p\<lparr>ps_mir := m\<rparr>))))"

definition break_cycles :: "pass \<Rightarrow> stop + pass" where
  "break_cycles p =
     (let cs = cycles (mir_waiting (ps_mir p)) in if cs = [] then Inl Panic else foldm break_cycle cs p)"

text \<open>\<open>drain\<close>: both loops.\<close>

partial_function (option) drain :: "pass \<Rightarrow> (stop + pass) option" where
  "drain p =
     (case sh_ready (ps_scheduler p) of
        task # rest \<Rightarrow>
          (case drain_task task (pop_ready p task rest) of
             Inl e \<Rightarrow> Some (Inl e)
           | Inr p \<Rightarrow> drain p)
      | [] \<Rightarrow>
          if mir_waiting (ps_mir p) = [] then Some (Inr p)
          else
            (case break_cycles p of
               Inl e \<Rightarrow> Some (Inl e)
             | Inr p \<Rightarrow> drain p))"

end
