(* ===== verification/Resolve_Facts.thy ===== *)
theory Resolve_Facts
  imports Resolve_Schedule
begin

text \<open>
  The invariant of the graph during the symbol pass, and what a query of the pass does on a
  well-formed graph: it answers, or names a task that is still open; it does not panic, every loop
  ends, and it changes nothing but its own answer.
\<close>

named_theorems answers_intro \<open>what the queries answer\<close>

section \<open>Answers\<close>

datatype task_fact = FactState resolve_state | FactModule "module_id option" | FactBool bool

fun task_ok :: "mir \<Rightarrow> resolve_task \<Rightarrow> bool" where
  "task_ok m (TaskSymbol i) \<longleftrightarrow> i < length (mir_symbols m)"
| "task_ok m (TaskReference n) \<longleftrightarrow> n < length (mir_hir m) \<and> hn_resolution (mir_hir m ! n) \<noteq> None"
| "task_ok m (TaskNamespace i) \<longleftrightarrow> i < length (mir_symbols m)"
| "task_ok m (TaskConstructor i) \<longleftrightarrow> i < length (mir_symbols m)"
| "task_ok m (TaskConstructorNamespace n) \<longleftrightarrow> n < length (mir_hir m)"

fun state_fact :: "resolve_state \<Rightarrow> task_fact option" where
  "state_fact RsPending = None"
| "state_fact r = Some (FactState r)"

text \<open>The published answer of a task.\<close>

fun task_answer :: "mir \<Rightarrow> resolve_task \<Rightarrow> task_fact option" where
  "task_answer m (TaskSymbol i) = state_fact (sy_resolution (mir_symbols m ! i))"
| "task_answer m (TaskReference n) = state_fact (mir_slots m ! the (hn_resolution (mir_hir m ! n)))"
| "task_answer m (TaskNamespace i) = map_option FactModule (mir_namespaces m ! i)"
| "task_answer m (TaskConstructor i) = map_option FactBool (mir_constructors m ! i)"
| "task_answer m (TaskConstructorNamespace n) = map_option FactBool (mir_constructor_namespaces m ! n)"

definition task_done :: "mir \<Rightarrow> resolve_task \<Rightarrow> bool" where
  "task_done m t \<longleftrightarrow> task_answer m t \<noteq> None"

lemma state_fact_None [simp]: "state_fact r = None \<longleftrightarrow> r = RsPending"
  by (cases r) simp_all

section \<open>Well-formed graphs\<close>

abbreviation (input) n_hir :: "mir \<Rightarrow> nat" where "n_hir m \<equiv> length (mir_hir m)"
abbreviation (input) n_symbols :: "mir \<Rightarrow> nat" where "n_symbols m \<equiv> length (mir_symbols m)"
abbreviation (input) n_modules :: "mir \<Rightarrow> nat" where "n_modules m \<equiv> length (mir_modules m)"
abbreviation (input) n_scopes :: "mir \<Rightarrow> nat" where "n_scopes m \<equiv> length (mir_scopes m)"

fun state_ok :: "mir \<Rightarrow> resolve_state \<Rightarrow> bool" where
  "state_ok m (RsBound i) \<longleftrightarrow> i < length (mir_symbols m)"
| "state_ok m _ \<longleftrightarrow> True"

definition result_ok :: "mir \<Rightarrow> resolve_state \<Rightarrow> bool" where
  "result_ok m r \<longleftrightarrow> r \<noteq> RsPending \<and> state_ok m r"

text \<open>A node whose text is a name.\<close>

definition named_node :: "mir \<Rightarrow> hir_id \<Rightarrow> bool" where
  "named_node m n \<longleftrightarrow>
     (case find_child (hn_children (mir_hir m ! n)) RoName of
        None \<Rightarrow> kind_name (hn_kind (mir_hir m ! n)) \<noteq> None
      | Some c \<Rightarrow> kind_name (hn_kind (mir_hir m ! c)) \<noteq> None)"

definition field_ok :: "mir \<Rightarrow> hir_node \<Rightarrow> bool" where
  "field_ok m n \<longleftrightarrow>
     find_child (hn_children n) RoReceiver \<noteq> None \<and>
     (\<exists>c. find_child (hn_children n) RoName = Some c \<and>
        (hn_kind (mir_hir m ! c) = HkMissing \<or> named_node m c))"

text \<open>A node with a slot is a reference, in a scope.\<close>

definition reference_ok :: "mir \<Rightarrow> hir_id \<Rightarrow> bool" where
  "reference_ok m i \<longleftrightarrow>
     (\<exists>sc. mir_hir_scopes m ! i = Some sc \<and> sc < n_scopes m) \<and>
     (case hn_kind (mir_hir m ! i) of
        HkVariable _ \<Rightarrow> True
      | HkStaticPath _ \<Rightarrow> True
      | HkField \<Rightarrow> True
      | HkPatternName _ \<Rightarrow> (\<exists>s. mir_hir_symbols m ! i = Some s \<and> s < n_symbols m)
      | _ \<Rightarrow> False)"

definition hirs_ok :: "mir \<Rightarrow> bool" where
  "hirs_ok m \<longleftrightarrow> (\<forall>i < n_hir m.
     (\<forall>e \<in> set (hn_children (mir_hir m ! i)). he_node e < n_hir m) \<and>
     (hn_kind (mir_hir m ! i) = HkField \<longrightarrow> field_ok m (mir_hir m ! i)) \<and>
     (\<forall>slot. hn_resolution (mir_hir m ! i) = Some slot \<longrightarrow> slot < length (mir_slots m) \<and> reference_ok m i \<and>
        (\<forall>j < n_hir m. hn_resolution (mir_hir m ! j) = Some slot \<longrightarrow> j = i)))"

definition sizes_ok :: "mir \<Rightarrow> bool" where
  "sizes_ok m \<longleftrightarrow>
     length (mir_exports m) = n_modules m \<and> length (mir_module_scopes m) = n_modules m \<and>
     length (mir_hir_scopes m) = n_hir m \<and> length (mir_hir_symbols m) = n_hir m \<and>
     length (mir_namespaces m) = n_symbols m \<and> length (mir_constructors m) = n_symbols m \<and>
     length (mir_constructor_namespaces m) = n_hir m"

definition modules_ok :: "mir \<Rightarrow> bool" where
  "modules_ok m \<longleftrightarrow>
     (\<forall>e \<in> set (mir_imports m). \<forall>md. ie_target e = MtBound md \<longrightarrow> md < n_modules m) \<and>
     (\<forall>ids \<in> set (mir_exports m). \<forall>i \<in> set ids. i < n_symbols m) \<and>
     (\<forall>sc. Some sc \<in> set (mir_module_scopes m) \<longrightarrow> sc < n_scopes m) \<and>
     (\<forall>md. Some (Some md) \<in> set (mir_namespaces m) \<longrightarrow> md < n_modules m)"

definition scopes_ok :: "mir \<Rightarrow> bool" where
  "scopes_ok m \<longleftrightarrow> (\<forall>i < n_scopes m.
     (\<forall>p. sc_parent (mir_scopes m ! i) = Some p \<longrightarrow> p < i) \<and>
     sc_module (mir_scopes m ! i) < n_modules m \<and>
     (\<forall>b \<in> set (sc_bindings (mir_scopes m ! i)). sb_symbol b < n_symbols m) \<and>
     (\<forall>e \<in> set (sc_open_imports (mir_scopes m ! i)). e < length (mir_imports m)))"

definition symbol_ok :: "mir \<Rightarrow> symbol \<Rightarrow> bool" where
  "symbol_ok m s \<longleftrightarrow>
     (\<forall>n \<in> set (sy_declarations s). n < n_hir m) \<and>
     (sy_native_type s \<noteq> None \<longrightarrow>
        (\<exists>md. sy_module s = Some md \<and> md < n_modules m \<and> md_native (mir_modules m ! md) \<noteq> None)) \<and>
     (\<forall>md. sy_kind s = SkNamespace md \<longrightarrow> md < n_modules m) \<and> state_ok m (sy_resolution s)"

definition graph_ok :: "mir \<Rightarrow> bool" where
  "graph_ok m \<longleftrightarrow> sizes_ok m \<and> hirs_ok m \<and> modules_ok m \<and> scopes_ok m \<and>
     (\<forall>s \<in> set (mir_symbols m). symbol_ok m s) \<and> (\<forall>r \<in> set (mir_slots m). state_ok m r)"

definition is_binding :: "hir_kind \<Rightarrow> bool" where
  "is_binding k = (case k of HkBinding _ _ _ \<Rightarrow> True | _ \<Rightarrow> False)"

text \<open>A symbol without an answer is an import, an export or a name in a pattern.\<close>

definition pending_ok :: "mir \<Rightarrow> symbol_id \<Rightarrow> bool" where
  "pending_ok m i \<longleftrightarrow> (let s = mir_symbols m ! i in
     sy_resolution s = RsPending \<longrightarrow> sy_declarations s \<noteq> [] \<and>
       (case sy_kind s of
          SkExport \<Rightarrow> True
        | SkImport \<Rightarrow> is_binding (hn_kind (mir_hir m ! hd (sy_declarations s)))
        | SkPattern \<Rightarrow> (\<exists>sc. sy_scope s = Some sc \<and> sc < n_scopes m)
        | _ \<Rightarrow> False))"

definition mir_ok :: "mir \<Rightarrow> bool" where
  "mir_ok m \<longleftrightarrow> graph_ok m \<and> (\<forall>i < n_symbols m. pending_ok m i)"

definition edges_ok :: "(hir_id \<rightharpoonup> nat) \<Rightarrow> mir \<Rightarrow> bool" where
  "edges_ok edges m \<longleftrightarrow> (\<forall>n e. edges n = Some e \<longrightarrow> e < length (mir_imports m))"

lemma graphD:
  assumes "graph_ok m"
  shows "sizes_ok m" and "hirs_ok m" and "modules_ok m" and "scopes_ok m"
    and "i < n_symbols m \<Longrightarrow> symbol_ok m (mir_symbols m ! i)"
    and "j < length (mir_slots m) \<Longrightarrow> state_ok m (mir_slots m ! j)"
  using assms by (auto simp: graph_ok_def)

section \<open>Pure queries\<close>

definition answers :: "mir \<Rightarrow> ('a \<Rightarrow> bool) \<Rightarrow> stop + 'a \<Rightarrow> bool" where
  "answers m P r \<longleftrightarrow>
     (case r of
        Inr x \<Rightarrow> P x
      | Inl (Wait t) \<Rightarrow> task_ok m t \<and> \<not> task_done m t
      | Inl _ \<Rightarrow> False)"

lemma answers_simps [simp]:
  "answers m P (Inr x) \<longleftrightarrow> P x"
  "answers m P (Inl (Wait t)) \<longleftrightarrow> task_ok m t \<and> \<not> task_done m t"
  by (simp_all add: answers_def)

lemma answers_bind:
  "answers m Q r \<Longrightarrow> (\<And>x. Q x \<Longrightarrow> answers m P (f x)) \<Longrightarrow> answers m P (rbind r f)"
  by (cases r) (auto simp: answers_def split: stop.splits)

lemma answers_mono: "answers m Q r \<Longrightarrow> (\<And>x. Q x \<Longrightarrow> P x) \<Longrightarrow> answers m P r"
  by (auto simp: answers_def split: sum.splits)

lemma answersE:
  assumes "answers m P r"
  obtains x where "r = Inr x" "P x" | t where "r = Inl (Wait t)" "task_ok m t" "\<not> task_done m t"
  using assms by (auto simp: answers_def split: sum.splits stop.splits)

lemma at_simps [simp]:
  "i < length xs \<Longrightarrow> idx xs i = Inr (xs ! i)"
  "n < n_hir m \<Longrightarrow> hir_at m n = Inr (mir_hir m ! n)"
  "i < n_symbols m \<Longrightarrow> symbol_at m i = Inr (mir_symbols m ! i)"
  "n < n_hir m \<Longrightarrow> child m n r = Inr (find_child (hn_children (mir_hir m ! n)) r)"
  "unwrap (Some x) = Inr x"
  by (simp_all add: idx_def hir_at_def symbol_at_def child_def unwrap_def)

lemma find_child_less:
  assumes "graph_ok m" and "n < n_hir m" and "find_child (hn_children (mir_hir m ! n)) r = Some c"
  shows "c < n_hir m"
  using assms graphD(2) [OF assms(1)]
  by (auto simp: find_child_def hirs_ok_def find_Some_iff)

lemma last_declaration:
  "graph_ok m \<Longrightarrow> i < n_symbols m \<Longrightarrow> sy_declarations (mir_symbols m ! i) \<noteq> [] \<Longrightarrow>
    last (sy_declarations (mir_symbols m ! i)) < n_hir m"
  using graphD(5) [of m i] by (auto simp: symbol_ok_def)

lemma resolve_symbol_ok [answers_intro]:
  "graph_ok m \<Longrightarrow> i < n_symbols m \<Longrightarrow> answers m (result_ok m) (resolve_symbol m i)"
  using graphD(5) [of m i] by (auto simp: resolve_symbol_def result_ok_def symbol_ok_def task_done_def)

lemma reference_value_ok [answers_intro]:
  assumes "graph_ok m" and "n < n_hir m"
  shows "answers m (\<lambda>s. \<forall>r. s = Some r \<longrightarrow> result_ok m r) (reference_value m n)"
proof (cases "hn_resolution (mir_hir m ! n)")
  case (Some slot)
  then have "slot < length (mir_slots m)" using graphD(2) [OF assms(1)] assms(2) by (simp add: hirs_ok_def)
  with Some assms show ?thesis
    using graphD(6) [of m slot] by (auto simp: reference_value_def result_ok_def task_done_def)
qed (use assms in \<open>simp add: reference_value_def\<close>)

lemma constructor_fact_ok [answers_intro]:
  "graph_ok m \<Longrightarrow> state_ok m r \<Longrightarrow> answers m (\<lambda>_. True) (constructor_fact m r)"
  using graphD(1) [of m]
  by (cases r) (auto simp: constructor_fact_def sizes_ok_def ready_def task_done_def split: option.split)

lemma constructor_namespace_ok [answers_intro]:
  "graph_ok m \<Longrightarrow> n < n_hir m \<Longrightarrow> answers m (\<lambda>_. True) (constructor_namespace m n)"
  using graphD(1) [of m]
  by (auto simp: constructor_namespace_def sizes_ok_def ready_def task_done_def split: option.split)

lemma namespace_fact_ok [answers_intro]:
  assumes "graph_ok m" and "i < n_symbols m"
  shows "answers m (\<lambda>r. \<forall>md. r = Some md \<longrightarrow> md < n_modules m) (namespace_fact m i)"
proof -
  have i: "i < length (mir_namespaces m)" using graphD(1) [OF assms(1)] assms(2) by (simp add: sizes_ok_def)
  have "md < n_modules m" if "mir_namespaces m ! i = Some (Some md)" for md
    using graphD(3) [OF assms(1)] i that by (metis modules_ok_def nth_mem)
  with i assms show ?thesis by (auto simp: namespace_fact_def ready_def task_done_def split: option.split)
qed

lemma value_constructor_ok [answers_intro]:
  assumes "graph_ok m" and "v < n_hir m"
  shows "answers m (\<lambda>_. True) (value_constructor m b v)"
proof (cases "b = BkDef \<and> hn_kind (mir_hir m ! v) = HkField")
  case True
  then obtain r where "find_child (hn_children (mir_hir m ! v)) RoReceiver = Some r"
    using graphD(2) [OF assms(1)] assms(2) by (auto simp: hirs_ok_def field_ok_def)
  with True assms find_child_less [OF assms this] show ?thesis
    by (simp add: value_constructor_def constructor_namespace_ok)
next
  case False
  with assms show ?thesis
    by (auto simp: value_constructor_def result_ok_def split: option.split
        intro!: answers_bind [OF reference_value_ok] constructor_fact_ok)
qed

lemma constructor_step_ok:
  assumes "graph_ok m" and "i < n_symbols m"
  shows "answers m (\<lambda>_. True) (constructor_step m i)"
  using assms last_declaration [OF assms] find_child_less [OF assms(1)]
  by (auto simp: constructor_step_def Let_def split: option.split intro!: value_constructor_ok)

lemma symbol_namespace_ok [answers_intro]:
  assumes "graph_ok m" and "i < n_symbols m"
  shows "answers m (\<lambda>_. True) (symbol_namespace m i)"
proof (cases "sy_native_type (mir_symbols m ! i)")
  case None
  with assms last_declaration [OF assms] show ?thesis by (simp add: symbol_namespace_def)
next
  case (Some t)
  then obtain md nm where "sy_module (mir_symbols m ! i) = Some md" "md < n_modules m"
    "md_native (mir_modules m ! md) = Some nm"
    using graphD(5) [OF assms] by (auto simp: symbol_ok_def)
  with Some assms show ?thesis by (simp add: symbol_namespace_def)
qed

lemma constructor_namespace_step_ok:
  assumes "graph_ok m" and "n < n_hir m"
  shows "answers m (\<lambda>_. True) (constructor_namespace_step m n)"
proof (cases "hn_kind (mir_hir m ! n) = HkCall \<or> hn_kind (mir_hir m ! n) = HkTypeApply")
  case True
  with assms find_child_less [OF assms] show ?thesis
    by (auto simp: constructor_namespace_step_def split: option.split intro!: constructor_namespace_ok)
next
  case False
  with assms show ?thesis
    by (auto simp: constructor_namespace_step_def result_ok_def split: option.split resolve_state.split
        intro!: answers_bind [OF reference_value_ok] symbol_namespace_ok)
qed

lemma namespace_step_ok:
  assumes "graph_ok m" and "i < n_symbols m"
  shows "answers m (\<lambda>r. \<forall>md. r = Some md \<longrightarrow> md < n_modules m) (namespace_step m i)"
proof -
  let ?s = "mir_symbols m ! i"
  have kind: "md < n_modules m" if "sy_kind ?s = SkNamespace md" for md
    using graphD(5) [OF assms] that by (simp add: symbol_ok_def)
  have deep: "answers m (\<lambda>r. \<forall>md. r = Some md \<longrightarrow> md < n_modules m)
      (rbind (reference_value m v) (\<lambda>state. case state of Some (RsBound j) \<Rightarrow> namespace_fact m j | _ \<Rightarrow> Inr None))"
    if "v < n_hir m" for v
    using assms that
    by (auto simp: result_ok_def split: option.split resolve_state.split
        intro!: answers_bind [OF reference_value_ok] namespace_fact_ok)
  show ?thesis unfolding namespace_step_def
  proof (rule answers_bind [OF resolve_symbol_ok [OF assms]])
    show "answers m (\<lambda>r. \<forall>md. r = Some md \<longrightarrow> md < n_modules m) (rbind (symbol_at m i) (\<lambda>s.
       case sy_kind s of
         SkNamespace module \<Rightarrow> Inr (Some module)
       | k \<Rightarrow>
           if k \<noteq> SkDeclaration BkDef \<or> sy_declarations s = [] then Inr None
           else
             rbind (child m (last (sy_declarations s)) RoValue) (\<lambda>v.
               case v of
                 None \<Rightarrow> Inr None
               | Some v \<Rightarrow>
                   rbind (reference_value m v) (\<lambda>state.
                     case state of Some (RsBound j) \<Rightarrow> namespace_fact m j | _ \<Rightarrow> Inr None))))"
      using assms kind deep last_declaration [OF assms] find_child_less [OF assms(1)]
      by (auto split: symbol_kind.split option.split)
  qed
qed

end
