(* ===== verification/Resolve_Effects.thy ===== *)
theory Resolve_Effects
  imports Resolve_Facts
begin

text \<open>
  The methods of the pass that write to the graph. A computation that has to wait has changed nothing;
  one that answers has at most recorded a conflict, a diagnostic, and what an import turned out to be.
\<close>

section \<open>Effects\<close>

definition yields :: "mir \<Rightarrow> ('a \<Rightarrow> mir \<Rightarrow> bool) \<Rightarrow> 'a effect \<Rightarrow> bool" where
  "yields m P e \<longleftrightarrow>
     (case fst e of
        Inr x \<Rightarrow> P x (snd e)
      | Inl (Wait t) \<Rightarrow> task_ok m t \<and> \<not> task_done m t \<and> snd e = m
      | Inl _ \<Rightarrow> False)"

lemma yields_simps [simp]:
  "yields m P (Inr x, m') \<longleftrightarrow> P x m'"
  "yields m P (Inl (Wait t), m') \<longleftrightarrow> task_ok m t \<and> \<not> task_done m t \<and> m' = m"
  by (simp_all add: yields_def)

lemma yields_query:
  "answers m Q r \<Longrightarrow> (\<And>x. Q x \<Longrightarrow> yields m P (f x)) \<Longrightarrow> yields m P (query r m f)"
  by (erule answersE) (simp_all add: query_def)

lemma query_Inr [simp]: "query (Inr x) m f = f x"
  by (simp add: query_def)

lemma yields_mono: "yields m Q e \<Longrightarrow> (\<And>x m'. Q x m' \<Longrightarrow> P x m') \<Longrightarrow> yields m P e"
  by (auto simp: yields_def split: sum.splits)

lemma yieldsE:
  assumes "yields m P e"
  obtains x m' where "e = (Inr x, m')" "P x m'"
  | t where "e = (Inl (Wait t), m)" "task_ok m t" "\<not> task_done m t"
  using assms by (cases e) (auto simp: yields_def split: sum.splits stop.splits)

lemma seq_simps [simp]: "seq (Inr x, m) f = f x m" "seq (Inl e, m) f = (Inl e, m)"
  by (simp_all add: seq_def)

lemma yields_seq:
  "yields m Q e \<Longrightarrow> (\<And>x m'. Q x m' \<Longrightarrow> yields m P (f x m')) \<Longrightarrow> yields m P (seq e f)"
  by (erule yieldsE) simp_all

section \<open>Exports, scopes and lookup\<close>

lemma find_named_ok [answers_intro]:
  "\<forall>i \<in> set ids. i < n_symbols m \<Longrightarrow>
    answers m (\<lambda>r. \<forall>i. r = Some i \<longrightarrow> i < n_symbols m) (find_named m name ids)"
  by (induction ids) auto

lemma filter_named_ok:
  "\<forall>i \<in> set ids. i < n_symbols m \<Longrightarrow>
    answers m (\<lambda>r. \<forall>i \<in> set r. i < n_symbols m) (filter_named m name ids)"
proof (induction ids)
  case (Cons i ids)
  then have rest: "answers m (\<lambda>r. \<forall>i \<in> set r. i < n_symbols m) (filter_named m name ids)" by simp
  with Cons.prems show ?case by (auto intro!: answers_bind [OF rest])
qed simp

lemma exportsD:
  assumes "graph_ok m" and "md < n_modules m"
  shows "md < length (mir_exports m)" and "\<forall>i \<in> set (mir_exports m ! md). i < n_symbols m"
  using graphD(1,3) [OF assms(1)] assms(2) by (auto simp: sizes_ok_def modules_ok_def)

lemma exported_ok [answers_intro]:
  assumes "graph_ok m" and "md < n_modules m"
  shows "answers m (result_ok m) (exported m md name)"
  using exportsD [OF assms] assms(1)
  by (auto simp: exported_def split: option.split
      intro!: answers_bind [OF find_named_ok] resolve_symbol_ok) (simp add: result_ok_def)

lemma find_binding_ok [answers_intro]:
  "\<forall>b \<in> set bs. sb_symbol b < n_symbols m \<Longrightarrow>
    answers m (\<lambda>r. \<forall>i. r = Some i \<longrightarrow> i < n_symbols m) (find_binding m name node bs)"
  by (induction bs) auto

lemma open_import_ok:
  assumes "graph_ok m" and "e < length (mir_imports m)"
    and "\<forall>i \<in> set (fst s) \<union> set (snd s). i < n_symbols m"
  shows "answers m (\<lambda>s. \<forall>i \<in> set (fst s) \<union> set (snd s). i < n_symbols m) (open_import m name e s)"
proof (cases "ie_target (mir_imports m ! e)")
  case (MtBound md)
  then have "md < n_modules m" using graphD(3) [OF assms(1)] assms(2) by (auto simp: modules_ok_def)
  note exports = exportsD [OF assms(1) this]
  show ?thesis using MtBound assms(2,3) exports(1)
    by (auto simp: open_import_def case_prod_beta intro!: answers_bind [OF filter_named_ok [OF exports(2)]])
qed (use assms in \<open>simp_all add: open_import_def case_prod_beta\<close>)

lemma answers_foldm:
  assumes "\<And>x s. x \<in> set xs \<Longrightarrow> P s \<Longrightarrow> answers m P (f x s)" and "P s"
  shows "answers m P (foldm f xs s)"
  using assms by (induction xs arbitrary: s) (auto intro: answers_bind)

lemma open_candidates_ok [answers_intro]:
  assumes "graph_ok m" and "\<forall>e \<in> set es. e < length (mir_imports m)"
  shows "answers m (\<lambda>r. \<forall>i \<in> set r. i < n_symbols m) (open_candidates m name es)"
proof -
  have "answers m (\<lambda>s. \<forall>i \<in> set (fst s) \<union> set (snd s). i < n_symbols m)
      (foldm (open_import m name) es ([], []))"
    using assms by (intro answers_foldm open_import_ok) auto
  then show ?thesis unfolding open_candidates_def by (rule answers_bind) auto
qed

definition targets_ok :: "mir \<Rightarrow> (symbol_id, symbol_id \<times> resolve_state) btree \<Rightarrow> bool" where
  "targets_ok m ts \<longleftrightarrow> (\<forall>e \<in> set ts. result_ok m (snd (snd e)))"

lemma bt_insert_set: "set (bt_insert k v t) \<subseteq> {(k, v)} \<union> set t"
  by (induction k v t rule: bt_insert.induct) auto

lemma add_target_ok [answers_intro]:
  assumes "graph_ok m" and "i < n_symbols m" and "targets_ok m ts"
  shows "answers m (targets_ok m) (add_target m i ts)"
  unfolding add_target_def
proof (rule answers_bind [OF resolve_symbol_ok [OF assms(1,2)]])
  fix r assume "result_ok m r"
  then show "answers m (targets_ok m)
      (Inr (bt_or_insert (case r of RsBound i \<Rightarrow> i | _ \<Rightarrow> i) (i, r) ts))"
    using assms(3) bt_insert_set by (fastforce simp: targets_ok_def bt_or_insert_def split: option.split)
qed

lemma targets_foldm_ok [answers_intro]:
  "graph_ok m \<Longrightarrow> \<forall>i \<in> set cs. i < n_symbols m \<Longrightarrow> answers m (targets_ok m) (foldm (add_target m) cs [])"
  by (intro answers_foldm add_target_ok) (auto simp: targets_ok_def)

lemma any_constructor_ok [answers_intro]:
  "graph_ok m \<Longrightarrow> \<forall>r \<in> set rs. state_ok m r \<Longrightarrow> answers m (\<lambda>_. True) (any_constructor m rs)"
proof (induction rs)
  case (Cons r rs)
  then show ?case by (auto intro!: answers_bind [OF constructor_fact_ok])
qed simp

lemma local_state_ok [answers_intro]:
  assumes "graph_ok m" and "i < n_symbols m"
  shows "answers m (result_ok m) (local_state m pattern i)"
  unfolding local_state_def
proof (rule answers_bind [OF resolve_symbol_ok [OF assms]])
  fix r assume r: "result_ok m r"
  then have "answers m (\<lambda>_. True) (if pattern then constructor_fact m r else Inr True)"
    using assms constructor_fact_ok by (auto simp: result_ok_def)
  then show "answers m (result_ok m) (rbind (if pattern then constructor_fact m r else Inr True)
      (\<lambda>ok. Inr (if ok then r else RsUnresolved)))"
    by (rule answers_bind) (use r in \<open>simp add: result_ok_def\<close>)
qed

text \<open>The graph with one more conflict and diagnostic.\<close>

definition noted :: "mir \<Rightarrow> mir \<Rightarrow> bool" where
  "noted m m' \<longleftrightarrow> (\<exists>c ds. m' = m\<lparr>mir_conflicts := mir_conflicts m @ [c], mir_diagnostics := ds\<rparr>)"

text \<open>A lookup gives a final state, and writes only to report a conflict.\<close>

definition looked_up :: "mir \<Rightarrow> resolve_state \<Rightarrow> mir \<Rightarrow> bool" where
  "looked_up m r m' \<longleftrightarrow> result_ok m r \<and> (m' = m \<or> noted m m' \<and> (\<exists>c. r = RsConflicted c))"

lemma conflict_ok:
  assumes "length (mir_conflicts m) < 2 ^ 32"
  shows "yields m (looked_up m) (conflict c m)"
proof -
  have "noted m (m\<lparr>mir_conflicts := mir_conflicts m @ [c]\<rparr>)"
    unfolding noted_def by (intro exI [of _ c] exI [of _ "mir_diagnostics m"]) (cases m, simp)
  with assms show ?thesis by (simp add: conflict_def looked_up_def result_ok_def)
qed

lemma import_state_ok:
  assumes "graph_ok m" and "length (mir_conflicts m) < 2 ^ 32" and "targets_ok m ts" and "ts \<noteq> []"
    and "node < n_hir m"
  shows "yields m (looked_up m) (import_state node name pattern ts m)"
  unfolding import_state_def
proof (rule yields_query)
  show "answers m (\<lambda>_. True) (if pattern then any_constructor m (map (snd \<circ> snd) ts) else Inr True)"
    using assms by (auto simp: targets_ok_def result_ok_def intro!: any_constructor_ok)
next
  fix found
  have "result_ok m (snd (snd (hd ts)))" using assms(3,4) by (simp add: targets_ok_def)
  moreover have "yields m (looked_up m)
      (seq (conflict (AmbiguousImport name (map (fst \<circ> snd) ts)) m) (\<lambda>state m.
         seq (diagnose (MsgAmbiguousImport name) node m) (\<lambda>_ m. (Inr state, m))))"
    using assms(2,5) by (auto simp: conflict_def diagnose_def seq_def looked_up_def result_ok_def noted_def
        idx_def hir_at_def)
  ultimately show "yields m (looked_up m)
      (if \<not> found then (Inr RsUnresolved, m)
       else if length ts = 1 then (Inr (snd (snd (hd ts))), m)
       else seq (conflict (AmbiguousImport name (map (fst \<circ> snd) ts)) m) (\<lambda>state m.
         seq (diagnose (MsgAmbiguousImport name) node m) (\<lambda>_ m. (Inr state, m))))"
    by (auto simp: looked_up_def result_ok_def)
qed

lemma add_target_nonempty: "add_target m i ts = Inr us \<Longrightarrow> us \<noteq> []"
proof -
  have "bt_insert k v t \<noteq> []" for k :: nat and v :: "nat \<times> resolve_state" and t
    by (induction k v t rule: bt_insert.induct) auto
  then show "add_target m i ts = Inr us \<Longrightarrow> us \<noteq> []"
    by (auto simp: add_target_def bt_or_insert_def rbind_eq_Inr bt_get_def split: option.splits)
qed

lemma targets_nonempty: "foldm (add_target m) cs ts = Inr us \<Longrightarrow> cs \<noteq> [] \<Longrightarrow> us \<noteq> []"
proof -
  have "foldm (add_target m) cs ts = Inr us \<Longrightarrow> ts \<noteq> [] \<Longrightarrow> us \<noteq> []" for cs ts
    by (induction cs arbitrary: ts) (auto simp: rbind_eq_Inr dest: add_target_nonempty)
  then show "foldm (add_target m) cs ts = Inr us \<Longrightarrow> cs \<noteq> [] \<Longrightarrow> us \<noteq> []"
    by (cases cs) (auto simp: rbind_eq_Inr dest: add_target_nonempty)
qed

lemma scopeD:
  assumes "graph_ok m" and "sc < n_scopes m"
  shows "sc_parent (mir_scopes m ! sc) = Some p \<Longrightarrow> p < sc" and "sc_module (mir_scopes m ! sc) < n_modules m"
    and "\<forall>b \<in> set (rev (sc_bindings (mir_scopes m ! sc))). sb_symbol b < n_symbols m"
    and "\<forall>e \<in> set (sc_open_imports (mir_scopes m ! sc)). e < length (mir_imports m)"
  using graphD(4) [OF assms(1)] assms(2) by (auto simp: scopes_ok_def)

lemma lookup_loop_ok:
  assumes "graph_ok m" and "length (mir_conflicts m) < 2 ^ 32" and "node < n_hir m"
  shows "sc < n_scopes m \<Longrightarrow> sc < fuel \<Longrightarrow> yields m (looked_up m) (lookup_loop fuel sc node name pattern m)"
proof (induction fuel arbitrary: sc)
  case (Suc fuel)
  note S = scopeD [OF assms(1) Suc.prems(1)]
  let ?sc = "mir_scopes m ! sc"
  have parent: "yields m (looked_up m) (case sc_parent ?sc of
      Some parent \<Rightarrow> lookup_loop fuel parent node name pattern m | None \<Rightarrow> (Inr RsUnresolved, m))"
  proof (cases "sc_parent ?sc")
    case (Some p)
    with S(1) Suc show ?thesis by simp
  qed (simp add: looked_up_def result_ok_def)
  have selected: "yields m (looked_up m) (query (foldm (add_target m) cs []) m (\<lambda>targets.
      import_state node name pattern targets m))" if cs: "\<forall>i \<in> set cs. i < n_symbols m" "cs \<noteq> []" for cs
  proof -
    have "answers m (\<lambda>ts. targets_ok m ts \<and> ts \<noteq> []) (foldm (add_target m) cs [])"
      using targets_foldm_ok [OF assms(1) cs(1)] targets_nonempty [OF _ cs(2)]
      by (auto elim!: answersE)
    then show ?thesis by (rule yields_query) (use assms import_state_ok in blast)
  qed
  have located: "yields m (looked_up m) (query (local_state m pattern i) m (\<lambda>state. (Inr state, m)))"
    if "i < n_symbols m" for i
    by (rule yields_query [OF local_state_ok [OF assms(1) that]]) (simp add: looked_up_def)
  have opened: "yields m (looked_up m) (query (open_candidates m name (sc_open_imports ?sc)) m (\<lambda>candidates.
      if candidates \<noteq> [] then
        query (foldm (add_target m) candidates []) m (\<lambda>targets. import_state node name pattern targets m)
      else (case sc_parent ?sc of Some parent \<Rightarrow> lookup_loop fuel parent node name pattern m
            | None \<Rightarrow> (Inr RsUnresolved, m))))"
    by (rule yields_query [OF open_candidates_ok [OF assms(1) S(4)]]) (use selected parent in auto)
  have "yields m (looked_up m) (query (find_binding m name node (rev (sc_bindings ?sc))) m (\<lambda>found.
      case found of
        Some i \<Rightarrow> query (local_state m pattern i) m (\<lambda>state. (Inr state, m))
      | None \<Rightarrow> query (open_candidates m name (sc_open_imports ?sc)) m (\<lambda>candidates.
          if candidates \<noteq> [] then
            query (foldm (add_target m) candidates []) m (\<lambda>targets. import_state node name pattern targets m)
          else (case sc_parent ?sc of Some parent \<Rightarrow> lookup_loop fuel parent node name pattern m
                | None \<Rightarrow> (Inr RsUnresolved, m)))))"
    by (rule yields_query [OF find_binding_ok [OF S(3)]]) (use located opened in \<open>auto split: option.split\<close>)
  with Suc.prems(1) show ?case by simp
qed simp

lemma lookup_ok:
  "graph_ok m \<Longrightarrow> length (mir_conflicts m) < 2 ^ 32 \<Longrightarrow> node < n_hir m \<Longrightarrow> sc < n_scopes m \<Longrightarrow>
    yields m (looked_up m) (lookup sc node name pattern m)"
  unfolding lookup_def by (rule lookup_loop_ok) simp_all

end
