(* ===== verification/Resolve_Tasks.thy ===== *)
theory Resolve_Tasks
  imports Resolve_Effects
begin

text \<open>
  Running one task: on a well-formed graph with an open task, \<open>step\<close> of
  \<^verbatim>\<open>symbol_resolve/schedule.rs\<close> either names an open task it needs and changes nothing, or publishes
  the answer of its task and no other.
\<close>

section \<open>Paths and references\<close>

lemma result_ok_simps [simp]:
  "result_ok m RsUnresolved" "result_ok m (RsConflicted c)" "result_ok m (RsMember r n)"
  by (simp_all add: result_ok_def)

lemma static_path_tail_ok:
  "graph_ok m \<Longrightarrow> result_ok m r \<Longrightarrow> answers m (result_ok m) (static_path_tail m r path)"
proof (induction path arbitrary: r)
  case (Cons name path)
  show ?case
  proof (cases r)
    case (RsBound i)
    then have i: "i < n_symbols m" using Cons.prems by (simp add: result_ok_def)
    have tail: "answers m (result_ok m) (rbind (exported m md name) (\<lambda>r. static_path_tail m r path))"
      if "md < n_modules m" for md
      by (rule answers_bind [OF exported_ok [OF Cons.prems(1) that]]) (use Cons in blast)
    show ?thesis unfolding RsBound
      by (simp, rule answers_bind [OF namespace_fact_ok [OF Cons.prems(1) i]])
        (use tail in \<open>auto split: option.split\<close>)
  qed (use Cons.prems in \<open>simp_all add: result_ok_def\<close>)
qed simp

lemma tail_effect_ok:
  assumes "graph_ok m" and "looked_up m r m'"
  shows "yields m (looked_up m) (tail_effect path r m')"
proof (cases "m' = m")
  case True
  have "answers m (result_ok m) (static_path_tail m r path)"
    using assms static_path_tail_ok by (auto simp: looked_up_def)
  then show ?thesis unfolding tail_effect_def True by (rule yields_query) (simp add: looked_up_def)
next
  case False
  then obtain c where r: "r = RsConflicted c" using assms by (auto simp: looked_up_def)
  have "static_path_tail m' r path = Inr r" unfolding r by (cases path) simp_all
  with assms show ?thesis by (simp add: tail_effect_def)
qed

lemma module_position_less: "module_position m name = Some p \<Longrightarrow> p mod 2 ^ 32 < n_modules m"
  by (auto simp: module_position_def find_Some_iff)

lemma none_looked_up [simp]: "looked_up m RsUnresolved m"
  by (simp add: looked_up_def result_ok_def)

lemma keyword_path_ok:
  assumes "graph_ok m" and "length (mir_conflicts m) < 2 ^ 32" and "node < n_hir m"
  shows "yields m (looked_up m) (keyword_path module_name node path m)"
proof (cases "module_position m module_name")
  case (Some p)
  note p = module_position_less [OF Some]
  show ?thesis
  proof (cases path)
    case (Cons name tail)
    have len: "p mod 2 ^ 32 < length (mir_module_scopes m)"
      using p graphD(1) [OF assms(1)] by (simp add: sizes_ok_def)
    show ?thesis
    proof (cases "mir_module_scopes m ! (p mod 2 ^ 32)")
      case (Some sc)
      then have "sc < n_scopes m" using graphD(3) [OF assms(1)] len by (metis modules_ok_def nth_mem)
      from yields_seq [OF lookup_ok [OF assms this] tail_effect_ok [OF assms(1)]]
      show ?thesis using \<open>module_position m module_name = Some p\<close> Cons len Some
        by (simp add: keyword_path_def)
    qed (use \<open>module_position m module_name = Some p\<close> Cons len in \<open>simp add: keyword_path_def\<close>)
  qed (use Some in \<open>simp add: keyword_path_def\<close>)
qed (simp add: keyword_path_def)

lemma named_path_ok:
  assumes "graph_ok m" and "length (mir_conflicts m) < 2 ^ 32" and "node < n_hir m" and "sc < n_scopes m"
  shows "yields m (looked_up m) (named_path sc first node path m)"
proof (cases "module_position m first")
  case None
  from yields_seq [OF lookup_ok [OF assms] tail_effect_ok [OF assms(1)]] None
  show ?thesis by (simp add: named_path_def)
next
  case (Some p)
  note p = module_position_less [OF Some]
  show ?thesis
  proof (cases path)
    case (Cons name tail)
    have "yields m (looked_up m) (query (exported m (p mod 2 ^ 32) name) m (\<lambda>r. tail_effect tail r m))"
      by (rule yields_query [OF exported_ok [OF assms(1) p]])
        (use tail_effect_ok [OF assms(1)] in \<open>simp add: looked_up_def\<close>)
    with Some Cons show ?thesis by (simp add: named_path_def)
  qed (use Some in \<open>simp add: named_path_def\<close>)
qed

lemma static_path_ok:
  assumes "graph_ok m" and "length (mir_conflicts m) < 2 ^ 32" and "node < n_hir m" and "sc < n_scopes m"
  shows "yields m (looked_up m) (static_path sc node path m)"
proof (cases path)
  case (Cons first rest)
  with assms scopeD(2) [OF assms(1,4)] keyword_path_ok [OF assms(1-3)] named_path_ok [OF assms]
  show ?thesis by (auto simp: static_path_def)
qed (simp add: static_path_def)

lemma node_name_ok:
  assumes "graph_ok m" and "n < n_hir m" and "named_node m n"
  shows "\<exists>s. node_name m n = Inr s"
proof (cases "find_child (hn_children (mir_hir m ! n)) RoName")
  case (Some c)
  with assms find_child_less [OF assms(1,2) Some] show ?thesis by (auto simp: node_name_def named_node_def)
qed (use assms in \<open>auto simp: node_name_def named_node_def\<close>)

lemma field_state_ok:
  assumes "graph_ok m" and "n < n_hir m" and "hn_kind (mir_hir m ! n) = HkField"
  shows "answers m (result_ok m) (field_state m n)"
proof -
  have "field_ok m (mir_hir m ! n)" using assms graphD(2) [OF assms(1)] by (simp add: hirs_ok_def)
  then obtain r c where f: "find_child (hn_children (mir_hir m ! n)) RoReceiver = Some r"
    "find_child (hn_children (mir_hir m ! n)) RoName = Some c"
    and named: "hn_kind (mir_hir m ! c) = HkMissing \<or> named_node m c" by (auto simp: field_ok_def)
  have c: "r < n_hir m" "c < n_hir m" using f find_child_less [OF assms(1,2)] by blast+
  show ?thesis
  proof (cases "hn_kind (mir_hir m ! c) = HkMissing")
    case True
    with assms f c show ?thesis by (simp add: field_state_def result_ok_def)
  next
    case False
    then obtain s where s: "node_name m c = Inr s" using named node_name_ok assms(1) c by blast
    have member: "result_ok m (RsMember r c)" by (simp add: result_ok_def)
    have bound: "answers m (result_ok m) (rbind (namespace_fact m i) (\<lambda>md.
        case md of Some md \<Rightarrow> rbind (node_name m c) (exported m md) | None \<Rightarrow> Inr (RsMember r c)))"
      if "i < n_symbols m" for i
      by (rule answers_bind [OF namespace_fact_ok [OF assms(1) that]])
        (use s member exported_ok [OF assms(1)] in \<open>auto split: option.split\<close>)
    have "answers m (result_ok m) (rbind (reference_value m r) (\<lambda>state.
           case state of
             Some (RsBound i) \<Rightarrow>
               rbind (namespace_fact m i) (\<lambda>md.
                 case md of
                   Some md \<Rightarrow> rbind (node_name m c) (exported m md)
                 | None \<Rightarrow> Inr (RsMember r c))
           | Some RsUnresolved \<Rightarrow> Inr RsUnresolved
           | Some (RsConflicted k) \<Rightarrow> Inr (RsConflicted k)
           | _ \<Rightarrow> Inr (RsMember r c)))"
      by (rule answers_bind [OF reference_value_ok [OF assms(1) c(1)]])
        (use bound in \<open>auto simp: result_ok_def split: option.split resolve_state.split\<close>)
    with assms f c False show ?thesis by (simp add: field_state_def)
  qed
qed

lemma reference_step_ok:
  assumes "graph_ok m" and "length (mir_conflicts m) < 2 ^ 32" and "task_ok m (TaskReference n)"
  shows "yields m (looked_up m) (reference_step n m)"
proof -
  have n: "n < n_hir m" using assms(3) by simp
  then have len: "n < length (mir_hir_scopes m)" "n < length (mir_hir_symbols m)"
    using graphD(1) [OF assms(1)] by (simp_all add: sizes_ok_def)
  have "reference_ok m n" using assms(3) graphD(2) [OF assms(1)] by (auto simp: hirs_ok_def)
  then obtain sc where sc: "mir_hir_scopes m ! n = Some sc" "sc < n_scopes m"
    and kind: "case hn_kind (mir_hir m ! n) of HkVariable _ \<Rightarrow> True | HkStaticPath _ \<Rightarrow> True
      | HkField \<Rightarrow> True | HkPatternName _ \<Rightarrow> (\<exists>s. mir_hir_symbols m ! n = Some s \<and> s < n_symbols m)
      | _ \<Rightarrow> False"
    by (auto simp: reference_ok_def)
  have pure: "yields m (looked_up m) (query q m (\<lambda>r. (Inr r, m)))" if "answers m (result_ok m) q" for q
    by (rule yields_query [OF that]) (simp add: looked_up_def)
  note leaves = lookup_ok [OF assms(1,2) n sc(2)] static_path_ok [OF assms(1,2) n sc(2)]
    pure [OF field_state_ok [OF assms(1) n]] pure [OF resolve_symbol_ok [OF assms(1)]]
  show ?thesis
    using kind leaves n len sc by (auto simp: reference_step_def split: hir_kind.splits)
qed

end
