(* ===== verification/Resolve_Publish.thy ===== *)
theory Resolve_Publish
  imports Resolve_Tasks
begin

text \<open>
  Publishing the answer of a task. The writes of the pass keep the graph well-formed; each step
  answers its own task, and no answer is ever changed.
\<close>

section \<open>Writes keep the graph well-formed\<close>

lemma state_ok_cong: "length (mir_symbols m') = length (mir_symbols m) \<Longrightarrow> state_ok m' r = state_ok m r"
  by (cases r) simp_all

lemma symbol_ok_cong:
  "length (mir_symbols m') = length (mir_symbols m) \<Longrightarrow> length (mir_hir m') = length (mir_hir m) \<Longrightarrow>
    mir_modules m' = mir_modules m \<Longrightarrow> symbol_ok m' s = symbol_ok m s"
  by (simp add: symbol_ok_def state_ok_cong [of m' m])

text \<open>The fields that only their lengths matter of.\<close>

lemma graph_ok_cong:
  assumes ok: "graph_ok m"
    and same: "mir_modules m' = mir_modules m" "mir_imports m' = mir_imports m" "mir_hir m' = mir_hir m"
      "mir_hir_scopes m' = mir_hir_scopes m" "mir_hir_symbols m' = mir_hir_symbols m"
      "mir_module_scopes m' = mir_module_scopes m" "mir_exports m' = mir_exports m"
      "mir_scopes m' = mir_scopes m"
    and lens: "length (mir_slots m') = length (mir_slots m)" "n_symbols m' = n_symbols m"
      "length (mir_namespaces m') = length (mir_namespaces m)"
      "length (mir_constructors m') = length (mir_constructors m)"
      "length (mir_constructor_namespaces m') = length (mir_constructor_namespaces m)"
    and parts: "\<forall>s \<in> set (mir_symbols m'). symbol_ok m s" "\<forall>r \<in> set (mir_slots m'). state_ok m r"
      "\<forall>x \<in> set (mir_namespaces m'). \<forall>md. x = Some (Some md) \<longrightarrow> md < n_modules m"
  shows "graph_ok m'"
proof -
  have named: "named_node m' n = named_node m n" for n unfolding named_node_def same by simp
  have field: "field_ok m' n = field_ok m n" for n unfolding field_ok_def named same by simp
  have refs: "reference_ok m' n = reference_ok m n" for n unfolding reference_ok_def same lens by simp
  have sizes: "sizes_ok m'" using ok unfolding graph_ok_def sizes_ok_def same lens by blast
  have hirs: "hirs_ok m'" using ok unfolding graph_ok_def hirs_ok_def same lens field refs by blast
  have modules: "modules_ok m'" using ok parts(3) unfolding graph_ok_def modules_ok_def same lens by blast
  have scopes: "scopes_ok m'" using ok unfolding graph_ok_def scopes_ok_def same lens by blast
  have "\<forall>s \<in> set (mir_symbols m'). symbol_ok m' s"
    using parts(1) symbol_ok_cong [OF lens(2)] same by simp
  moreover have "\<forall>r \<in> set (mir_slots m'). state_ok m' r" using parts(2) state_ok_cong [OF lens(2)] by simp
  ultimately show ?thesis using sizes hirs modules scopes unfolding graph_ok_def by blast
qed

lemma graph_parts:
  assumes "graph_ok m"
  shows "\<forall>s \<in> set (mir_symbols m). symbol_ok m s" "\<forall>r \<in> set (mir_slots m). state_ok m r"
    "\<forall>x \<in> set (mir_namespaces m). \<forall>md. x = Some (Some md) \<longrightarrow> md < n_modules m"
  using assms unfolding graph_ok_def modules_ok_def by blast+

lemma all_set_update: "\<forall>x \<in> set xs. P x \<Longrightarrow> P y \<Longrightarrow> \<forall>x \<in> set (xs[i := y]). P x"
  using set_update_subset_insert by fast

lemma graph_ok_notes:
  assumes "graph_ok m"
  shows "graph_ok (m\<lparr>mir_conflicts := cs, mir_diagnostics := ds\<rparr>)" and "graph_ok (m\<lparr>mir_waiting := w\<rparr>)"
  by (rule graph_ok_cong [OF assms]; use graph_parts [OF assms] in simp)+

lemma graph_ok_symbol:
  assumes "graph_ok m" and "symbol_ok m s"
  shows "graph_ok (m\<lparr>mir_symbols := (mir_symbols m)[i := s]\<rparr>)"
  by (rule graph_ok_cong [OF assms(1)]; use graph_parts [OF assms(1)] assms(2) all_set_update in simp)

lemma graph_ok_slot:
  assumes "graph_ok m" and "state_ok m r"
  shows "graph_ok (m\<lparr>mir_slots := (mir_slots m)[i := r]\<rparr>)"
  by (rule graph_ok_cong [OF assms(1)]; use graph_parts [OF assms(1)] assms(2) all_set_update in simp)

lemma graph_ok_namespace:
  assumes "graph_ok m" and "\<forall>md. r = Some md \<longrightarrow> md < n_modules m"
  shows "graph_ok (m\<lparr>mir_namespaces := (mir_namespaces m)[i := Some r]\<rparr>)"
proof -
  let ?P = "\<lambda>x. \<forall>md. x = Some (Some md) \<longrightarrow> md < n_modules m"
  have "\<forall>x \<in> set ((mir_namespaces m)[i := Some r]). ?P x"
    by (rule all_set_update [where P = ?P]) (use graph_parts(3) [OF assms(1)] assms(2) in auto)
  then show ?thesis
    by (intro graph_ok_cong [OF assms(1)]) (use graph_parts [OF assms(1)] in simp_all)
qed

lemma graph_ok_constructors:
  assumes "graph_ok m"
  shows "graph_ok (m\<lparr>mir_constructors := (mir_constructors m)[i := a]\<rparr>)"
    and "graph_ok (m\<lparr>mir_constructor_namespaces := (mir_constructor_namespaces m)[i := b]\<rparr>)"
  by (rule graph_ok_cong [OF assms]; use graph_parts [OF assms] in simp)+

text \<open>A binding stays a binding.\<close>

definition with_kind :: "mir \<Rightarrow> hir_id \<Rightarrow> hir_kind \<Rightarrow> mir" where
  "with_kind m n k = m\<lparr>mir_hir := (mir_hir m)[n := (mir_hir m ! n)\<lparr>hn_kind := k\<rparr>]\<rparr>"

lemma with_kind_nth:
  "n < n_hir m \<Longrightarrow> mir_hir (with_kind m n k) ! j =
    (if j = n then (mir_hir m ! n)\<lparr>hn_kind := k\<rparr> else mir_hir m ! j)"
  by (simp add: with_kind_def nth_list_update)

lemma with_kind_same [simp]:
  "n_hir (with_kind m n k) = n_hir m" "mir_imports (with_kind m n k) = mir_imports m"
  "mir_modules (with_kind m n k) = mir_modules m" "mir_hir_scopes (with_kind m n k) = mir_hir_scopes m"
  "mir_hir_symbols (with_kind m n k) = mir_hir_symbols m" "mir_exports (with_kind m n k) = mir_exports m"
  "mir_module_scopes (with_kind m n k) = mir_module_scopes m"
  "mir_scopes (with_kind m n k) = mir_scopes m" "mir_slots (with_kind m n k) = mir_slots m"
  "mir_symbols (with_kind m n k) = mir_symbols m" "mir_conflicts (with_kind m n k) = mir_conflicts m"
  "mir_namespaces (with_kind m n k) = mir_namespaces m" "mir_waiting (with_kind m n k) = mir_waiting m"
  "mir_constructors (with_kind m n k) = mir_constructors m"
  "mir_constructor_namespaces (with_kind m n k) = mir_constructor_namespaces m"
  by (simp_all add: with_kind_def)

lemma binding_not:
  "is_binding k \<Longrightarrow> k \<noteq> HkField \<and> k \<noteq> HkMissing \<and> kind_name k = None"
  by (cases k) (simp_all add: is_binding_def kind_name_def)

lemma graph_ok_with_kind:
  assumes "graph_ok m" and "n < n_hir m" and "is_binding (hn_kind (mir_hir m ! n))" and "is_binding k"
  shows "graph_ok (with_kind m n k)"
proof -
  let ?m = "with_kind m n k"
  note nth = with_kind_nth [OF assms(2)]
  note nots = binding_not [OF assms(3)] binding_not [OF assms(4)]
  have kids: "hn_children (mir_hir ?m ! j) = hn_children (mir_hir m ! j)"
    "hn_resolution (mir_hir ?m ! j) = hn_resolution (mir_hir m ! j)" for j by (simp_all add: nth)
  have * : "state_ok ?m r = state_ok m r" "symbol_ok ?m t = symbol_ok m t" for r t
    by (rule state_ok_cong symbol_ok_cong; simp)+
  have "kind_name (hn_kind (mir_hir ?m ! j)) = kind_name (hn_kind (mir_hir m ! j))" for j
    using nots by (simp add: nth)
  then have named: "named_node ?m j = named_node m j" for j
    by (simp add: named_node_def kids split: option.split)
  have field: "field_ok ?m (mir_hir ?m ! j) = field_ok m (mir_hir m ! j)" for j
  proof -
    have "hn_kind (mir_hir ?m ! c) = HkMissing \<longleftrightarrow> hn_kind (mir_hir m ! c) = HkMissing" for c
      using nots by (simp add: nth)
    then show ?thesis by (simp add: field_ok_def kids named)
  qed
  have ref: "reference_ok m j \<Longrightarrow> reference_ok ?m j" for j
    using assms(3) by (cases "j = n") (auto simp: reference_ok_def nth is_binding_def split: hir_kind.splits)
  have "hirs_ok ?m" unfolding hirs_ok_def
  proof (intro allI impI conjI)
    fix j assume j: "j < n_hir ?m"
    show "\<forall>e \<in> set (hn_children (mir_hir ?m ! j)). he_node e < n_hir ?m"
      using graphD(2) [OF assms(1)] j by (simp add: hirs_ok_def kids)
    show "field_ok ?m (mir_hir ?m ! j)" if "hn_kind (mir_hir ?m ! j) = HkField"
    proof -
      have "hn_kind (mir_hir m ! j) = HkField" using that nots by (auto simp: nth split: if_splits)
      then have "field_ok m (mir_hir m ! j)" using graphD(2) [OF assms(1)] j by (simp add: hirs_ok_def)
      then show ?thesis by (simp only: field)
    qed
    fix slot assume "hn_resolution (mir_hir ?m ! j) = Some slot"
    then have slot: "slot < length (mir_slots m) \<and> reference_ok m j \<and>
      (\<forall>i < n_hir m. hn_resolution (mir_hir m ! i) = Some slot \<longrightarrow> i = j)"
      using graphD(2) [OF assms(1)] j unfolding hirs_ok_def kids with_kind_same by blast
    then show "slot < length (mir_slots ?m)" by simp
    from slot show "reference_ok ?m j" using ref by blast
    fix i assume "i < n_hir ?m" "hn_resolution (mir_hir ?m ! i) = Some slot"
    with slot show "i = j" unfolding kids with_kind_same by blast
  qed
  then show ?thesis using assms(1)
    unfolding graph_ok_def * sizes_ok_def modules_ok_def scopes_ok_def with_kind_same by blast
qed

section \<open>What a step may write\<close>

text \<open>
  The graph after the queries of the task \<open>TaskSymbol i\<close>: the symbol, its binding, and one more
  conflict.
\<close>

definition amended :: "symbol_id \<Rightarrow> mir \<Rightarrow> mir \<Rightarrow> bool" where
  "amended i m m' \<longleftrightarrow>
     graph_ok m' \<and> mir_imports m' = mir_imports m \<and> mir_scopes m' = mir_scopes m \<and>
     mir_exports m' = mir_exports m \<and>
     mir_slots m' = mir_slots m \<and> mir_namespaces m' = mir_namespaces m \<and>
     mir_constructors m' = mir_constructors m \<and>
     mir_constructor_namespaces m' = mir_constructor_namespaces m \<and> mir_waiting m' = mir_waiting m \<and>
     length (mir_conflicts m') \<le> Suc (length (mir_conflicts m)) \<and>
     n_hir m' = n_hir m \<and> n_symbols m' = n_symbols m \<and>
     (\<forall>n < n_hir m. hn_resolution (mir_hir m' ! n) = hn_resolution (mir_hir m ! n) \<and>
        is_binding (hn_kind (mir_hir m' ! n)) = is_binding (hn_kind (mir_hir m ! n))) \<and>
     (\<forall>j. j \<noteq> i \<longrightarrow> mir_symbols m' ! j = mir_symbols m ! j) \<and>
     sy_declarations (mir_symbols m' ! i) = sy_declarations (mir_symbols m ! i) \<and>
     sy_resolution (mir_symbols m' ! i) = sy_resolution (mir_symbols m ! i)"

lemma amended_refl: "graph_ok m \<Longrightarrow> amended i m m"
  by (simp add: amended_def)

lemma amended_noted: "graph_ok m \<Longrightarrow> noted m m' \<Longrightarrow> amended i m m'"
  by (auto simp: amended_def noted_def graph_ok_notes)

definition stepped :: "symbol_id \<Rightarrow> mir \<Rightarrow> resolve_state \<Rightarrow> mir \<Rightarrow> bool" where
  "stepped i m r m' \<longleftrightarrow> result_ok m r \<and> amended i m m'"

lemma stepped_looked_up: "graph_ok m \<Longrightarrow> looked_up m r m' \<Longrightarrow> stepped i m r m'"
  by (auto simp: stepped_def looked_up_def amended_refl amended_noted)

lemma stepped_same: "graph_ok m \<Longrightarrow> result_ok m r \<Longrightarrow> stepped i m r m"
  by (simp add: stepped_def amended_refl)

definition with_symbol_kind :: "mir \<Rightarrow> symbol_id \<Rightarrow> symbol_kind \<Rightarrow> mir" where
  "with_symbol_kind m i k = m\<lparr>mir_symbols := (mir_symbols m)[i := (mir_symbols m ! i)\<lparr>sy_kind := k\<rparr>]\<rparr>"

lemma set_symbol_kind_ok: "i < n_symbols m \<Longrightarrow> set_symbol_kind i k m = Inr (with_symbol_kind m i k)"
  by (simp add: set_symbol_kind_def update_at_def with_symbol_kind_def)

lemma amended_kind:
  assumes "graph_ok m" and "i < n_symbols m" and "\<forall>md. k = SkNamespace md \<longrightarrow> md < n_modules m"
  shows "amended i m (with_symbol_kind m i k)"
proof -
  have "symbol_ok m ((mir_symbols m ! i)\<lparr>sy_kind := k\<rparr>)"
    using graphD(5) [OF assms(1,2)] assms(3) by (simp add: symbol_ok_def)
  then have "graph_ok (with_symbol_kind m i k)"
    unfolding with_symbol_kind_def by (rule graph_ok_symbol [OF assms(1)])
  with assms(2) show ?thesis
    by (simp add: amended_def) (simp add: with_symbol_kind_def nth_list_update)
qed

lemma amended_with_kind:
  assumes "graph_ok m" and "n < n_hir m" and "is_binding (hn_kind (mir_hir m ! n))" and "is_binding k"
  shows "amended i m (with_kind m n k)"
proof -
  have kinds: "hn_resolution (mir_hir (with_kind m n k) ! j) = hn_resolution (mir_hir m ! j)"
    "is_binding (hn_kind (mir_hir (with_kind m n k) ! j)) = is_binding (hn_kind (mir_hir m ! j))" for j
    using assms by (auto simp: with_kind_nth)
  show ?thesis unfolding amended_def using graph_ok_with_kind [OF assms] kinds by simp
qed

lemma amended_trans:
  assumes "amended i m m'" and "amended i m' m''" and "mir_conflicts m' = mir_conflicts m"
  shows "amended i m m''"
  using assms unfolding amended_def by auto

end
