(* ===== verification/Resolve_Progress.thy ===== *)
theory Resolve_Progress
  imports Resolve_Publish
begin

text \<open>
  Every task makes progress: on a well-formed graph an open task is answered, or it names another
  open task and has changed nothing.
\<close>

section \<open>Symbols\<close>

lemma export_step_ok:
  assumes "graph_ok m" and "i < n_symbols m" and "n < n_hir m"
  shows "answers m (result_ok m) (export_step m i n)"
proof (cases "find_child (hn_children (mir_hir m ! n)) RoValue")
  case None
  with assms show ?thesis by (simp add: export_step_def result_ok_def)
next
  case (Some v)
  note v = find_child_less [OF assms(1,3) Some]
  have "answers m (result_ok m) (rbind (reference_value m v) (\<lambda>state.
      Inr (case state of Some state \<Rightarrow> state | None \<Rightarrow> RsBound i)))"
    by (rule answers_bind [OF reference_value_ok [OF assms(1) v]])
      (use assms in \<open>auto simp: result_ok_def split: option.split\<close>)
  with assms Some show ?thesis by (simp add: export_step_def)
qed

lemma pure_stepped:
  assumes "graph_ok m" and "answers m (result_ok m) q"
  shows "yields m (stepped i m) (query q m (\<lambda>r. (Inr r, m)))"
  by (rule yields_query [OF assms(2)]) (simp add: stepped_same assms(1))

lemma bound_kind:
  assumes "graph_ok m" and "i < n_symbols m" and "\<forall>md. k = SkNamespace md \<longrightarrow> md < n_modules m"
  shows "yields m (stepped i m) (commit (set_symbol_kind i k m) m (RsBound i))"
  using assms amended_kind [OF assms]
  by (simp add: set_symbol_kind_ok commit_def stepped_def result_ok_def)

lemma module_import_ok:
  assumes "graph_ok m" and "i < n_symbols m" and "n < n_hir m" and "is_binding (hn_kind (mir_hir m ! n))"
    and "md < n_modules m"
  shows "yields m (stepped i m) (module_import i n md m)"
proof -
  obtain b init imported where kind: "hn_kind (mir_hir m ! n) = HkBinding b init imported"
    using assms(4) by (cases "hn_kind (mir_hir m ! n)") (auto simp: is_binding_def)
  show ?thesis
  proof (cases imported)
    case None
    with kind assms(3) bound_kind [OF assms(1,2), of "SkNamespace md"] assms(5) show ?thesis
      by (simp add: module_import_def)
  next
    case (Some name)
    with kind assms(3) pure_stepped [OF assms(1) exported_ok [OF assms(1,5)]] show ?thesis
      by (simp add: module_import_def)
  qed
qed

lemma set_binding_def_ok:
  assumes "n < n_hir m" and "is_binding (hn_kind (mir_hir m ! n))"
  shows "\<exists>k. is_binding k \<and> set_binding_def n m = Inr (with_kind m n k)"
proof -
  obtain b init imported where "hn_kind (mir_hir m ! n) = HkBinding b init imported"
    using assms(2) by (cases "hn_kind (mir_hir m ! n)") (auto simp: is_binding_def)
  with assms(1) show ?thesis
    by (intro exI [of _ "HkBinding BkDef init imported"])
      (simp add: is_binding_def set_binding_def_def with_kind_def)
qed

lemma typed_alias_ok:
  assumes "graph_ok m" and "i < n_symbols m" and "n < n_hir m" and "is_binding (hn_kind (mir_hir m ! n))"
  shows "yields m (stepped i m)
    (commit (rbind (set_binding_def n m) (set_symbol_kind i (SkDeclaration BkDef))) m (RsBound i))"
proof -
  obtain k where k: "is_binding k" "set_binding_def n m = Inr (with_kind m n k)"
    using set_binding_def_ok assms(3,4) by blast
  let ?m = "with_kind m n k"
  note a = amended_with_kind [OF assms(1,3,4) k(1)]
  have i: "i < n_symbols ?m" using assms(2) by simp
  have "amended i ?m (with_symbol_kind ?m i (SkDeclaration BkDef))"
    by (rule amended_kind [OF graph_ok_with_kind [OF assms(1,3,4) k(1)] i]) simp
  from amended_trans [OF a this] have "amended i m (with_symbol_kind ?m i (SkDeclaration BkDef))" by simp
  with k(2) set_symbol_kind_ok [OF i] assms(2) show ?thesis
    by (simp add: commit_def stepped_def result_ok_def)
qed

lemma path_import_ok:
  assumes "graph_ok m" and "i < n_symbols m" and "n < n_hir m" and "is_binding (hn_kind (mir_hir m ! n))"
  shows "yields m (stepped i m) (path_import i n m)"
proof (cases "find_child (hn_children (mir_hir m ! n)) RoValue")
  case None
  with assms show ?thesis by (simp add: path_import_def stepped_same)
next
  case (Some v)
  note v = find_child_less [OF assms(1,3) Some]
  have kinds: "md < n_modules m" if "t < n_symbols m" "sy_kind (mir_symbols m ! t) = SkNamespace md" for t md
    using graphD(5) [OF assms(1) that(1)] that(2) by (simp add: symbol_ok_def)
  have bound: "yields m (stepped i m) (query (symbol_at m t) m (\<lambda>s.
      case sy_kind s of
        SkNamespace md \<Rightarrow> commit (set_symbol_kind i (SkNamespace md) m) m (RsBound i)
      | _ \<Rightarrow> (Inr (RsBound t), m)))" if "t < n_symbols m" for t
  proof -
    have "stepped i m (RsBound t) m" using that by (simp add: stepped_same assms(1) result_ok_def)
    with that kinds [OF that] bound_kind [OF assms(1,2)] show ?thesis by (simp split: symbol_kind.split)
  qed
  have "yields m (stepped i m) (query (reference_value m v) m (\<lambda>state.
             case (case state of Some state \<Rightarrow> state | None \<Rightarrow> RsUnresolved) of
               RsBound target \<Rightarrow>
                 query (symbol_at m target) m (\<lambda>t.
                   case sy_kind t of
                     SkNamespace module \<Rightarrow> commit (set_symbol_kind i (SkNamespace module) m) m (RsBound i)
                   | _ \<Rightarrow> (Inr (RsBound target), m))
             | RsMember _ _ \<Rightarrow>
                 commit (rbind (set_binding_def n m) (set_symbol_kind i (SkDeclaration BkDef))) m (RsBound i)
             | state \<Rightarrow> (Inr state, m)))"
  proof (rule yields_query [OF reference_value_ok [OF assms(1) v]])
    fix state assume s: "\<forall>r. state = Some r \<longrightarrow> result_ok m r"
    show "yields m (stepped i m)
      (case (case state of Some state \<Rightarrow> state | None \<Rightarrow> RsUnresolved) of
               RsBound target \<Rightarrow>
                 query (symbol_at m target) m (\<lambda>t.
                   case sy_kind t of
                     SkNamespace module \<Rightarrow> commit (set_symbol_kind i (SkNamespace module) m) m (RsBound i)
                   | _ \<Rightarrow> (Inr (RsBound target), m))
             | RsMember _ _ \<Rightarrow>
                 commit (rbind (set_binding_def n m) (set_symbol_kind i (SkDeclaration BkDef))) m (RsBound i)
             | state \<Rightarrow> (Inr state, m))"
    proof (cases "case state of Some state \<Rightarrow> state | None \<Rightarrow> RsUnresolved")
      case (RsBound t)
      then have "t < n_symbols m" using s by (auto simp: result_ok_def split: option.splits)
      with bound RsBound show ?thesis by simp
    next
      case RsPending
      with s show ?thesis by (auto simp: result_ok_def split: option.splits)
    qed (use typed_alias_ok [OF assms] stepped_same [OF assms(1)] in simp_all)
  qed
  with Some assms(3) show ?thesis by (simp add: path_import_def)
qed

lemma import_step_ok:
  assumes "graph_ok m" and "edges_ok edges m" and "length (mir_conflicts m) < 2 ^ 32"
    and "i < n_symbols m" and "n < n_hir m" and "is_binding (hn_kind (mir_hir m ! n))"
  shows "yields m (stepped i m) (import_step edges i n m)"
proof (cases "edges n")
  case None
  with path_import_ok [OF assms(1,4,5,6)] show ?thesis by (simp add: import_step_def)
next
  case (Some e)
  then have e: "e < length (mir_imports m)" using assms(2) by (auto simp: edges_ok_def)
  show ?thesis
  proof (cases "ie_target (mir_imports m ! e)")
    case (MtBound md)
    then have "md < n_modules m" using graphD(3) [OF assms(1)] e by (auto simp: modules_ok_def)
    from module_import_ok [OF assms(1,4,5,6) this] MtBound Some e show ?thesis
      by (simp add: import_step_def)
  next
    case (MtConflicted ms)
    have "yields m (stepped i m) (conflict (ModuleCandidates ms) m)"
      by (rule yields_mono [OF conflict_ok [OF assms(3)]]) (rule stepped_looked_up [OF assms(1)])
    with MtConflicted Some e show ?thesis by (simp add: import_step_def)
  qed (use Some e assms(1) in \<open>simp add: import_step_def stepped_same\<close>)
qed

lemma pattern_step_ok:
  assumes "graph_ok m" and "length (mir_conflicts m) < 2 ^ 32" and "i < n_symbols m" and "n < n_hir m"
    and "sy_scope s = Some sc" and "sc < n_scopes m"
  shows "yields m (stepped i m) (pattern_step i n s m)"
proof -
  have "yields m (looked_up m) (case sc_parent (mir_scopes m ! sc) of
      Some parent \<Rightarrow> lookup parent n (sy_name s) True m | None \<Rightarrow> (Inr RsUnresolved, m))"
  proof (cases "sc_parent (mir_scopes m ! sc)")
    case (Some p)
    then have "p < n_scopes m" using scopeD(1) [OF assms(1,6)] assms(6) by fastforce
    with Some lookup_ok [OF assms(1,2,4)] show ?thesis by simp
  qed simp
  then have "yields m (stepped i m) (seq (case sc_parent (mir_scopes m ! sc) of
      Some parent \<Rightarrow> lookup parent n (sy_name s) True m | None \<Rightarrow> (Inr RsUnresolved, m))
      (\<lambda>state m. (Inr (if state = RsUnresolved then RsBound i else state), m)))"
  proof (rule yields_seq)
    fix r m' assume "looked_up m r m'"
    from stepped_looked_up [OF assms(1) this, of i]
    show "yields m (stepped i m) (Inr (if r = RsUnresolved then RsBound i else r), m')"
      using assms(3) by (auto simp: stepped_def result_ok_def)
  qed
  with assms(5,6) show ?thesis by (simp add: pattern_step_def)
qed

lemma symbol_step_ok:
  assumes "mir_ok m" and "edges_ok edges m" and "length (mir_conflicts m) < 2 ^ 32"
    and "i < n_symbols m" and "sy_resolution (mir_symbols m ! i) = RsPending"
  shows "yields m (stepped i m) (symbol_step edges i m)"
proof -
  let ?s = "mir_symbols m ! i"
  have g: "graph_ok m" and p: "pending_ok m i" using assms(1,4) by (auto simp: mir_ok_def)
  from p assms(5) have decl: "sy_declarations ?s \<noteq> []" and kind: "case sy_kind ?s of
      SkExport \<Rightarrow> True
    | SkImport \<Rightarrow> is_binding (hn_kind (mir_hir m ! hd (sy_declarations ?s)))
    | SkPattern \<Rightarrow> (\<exists>sc. sy_scope ?s = Some sc \<and> sc < n_scopes m)
    | _ \<Rightarrow> False"
    by (simp_all add: pending_ok_def Let_def)
  then have n: "sy_declarations ?s ! 0 < n_hir m" "hd (sy_declarations ?s) = sy_declarations ?s ! 0"
    using graphD(5) [OF g assms(4)] by (auto simp: symbol_ok_def hd_conv_nth)
  note steps = pure_stepped [OF g export_step_ok [OF g assms(4) n(1)]]
    import_step_ok [OF g assms(2,3,4) n(1)] pattern_step_ok [OF g assms(3,4) n(1)]
  show ?thesis
    using kind steps decl n assms(4) by (auto simp: symbol_step_def split: symbol_kind.splits)
qed

section \<open>Publishing\<close>

definition advanced :: "mir \<Rightarrow> resolve_task \<Rightarrow> mir \<Rightarrow> bool" where
  "advanced m t m' \<longleftrightarrow>
     mir_ok m' \<and> (\<forall>u. task_ok m' u = task_ok m u) \<and>
     (\<forall>u. task_ok m u \<longrightarrow> u \<noteq> t \<longrightarrow> task_answer m' u = task_answer m u) \<and> task_done m' t \<and>
     mir_waiting m' = mir_waiting m \<and> mir_imports m' = mir_imports m \<and> mir_scopes m' = mir_scopes m \<and>
     mir_exports m' = mir_exports m \<and>
     (\<forall>j. sy_declarations (mir_symbols m' ! j) = sy_declarations (mir_symbols m ! j)) \<and>
     length (mir_conflicts m') \<le> Suc (length (mir_conflicts m))"

lemma pending_ok_cong:
  assumes "pending_ok m i" and "mir_symbols m' ! i = mir_symbols m ! i" and "mir_scopes m' = mir_scopes m"
    and "sy_declarations (mir_symbols m ! i) \<noteq> [] \<Longrightarrow>
      is_binding (hn_kind (mir_hir m' ! hd (sy_declarations (mir_symbols m ! i)))) =
      is_binding (hn_kind (mir_hir m ! hd (sy_declarations (mir_symbols m ! i))))"
  shows "pending_ok m' i"
  using assms by (auto simp: pending_ok_def Let_def split: symbol_kind.splits)

definition with_resolution :: "mir \<Rightarrow> symbol_id \<Rightarrow> resolve_state \<Rightarrow> mir" where
  "with_resolution m i r = m\<lparr>mir_symbols := (mir_symbols m)[i := (mir_symbols m ! i)\<lparr>sy_resolution := r\<rparr>]\<rparr>"

lemma with_resolution_same [simp]:
  "mir_hir (with_resolution m i r) = mir_hir m" "mir_imports (with_resolution m i r) = mir_imports m"
  "mir_exports (with_resolution m i r) = mir_exports m"
  "mir_scopes (with_resolution m i r) = mir_scopes m" "mir_slots (with_resolution m i r) = mir_slots m"
  "n_symbols (with_resolution m i r) = n_symbols m" "mir_conflicts (with_resolution m i r) = mir_conflicts m"
  "mir_namespaces (with_resolution m i r) = mir_namespaces m" "mir_waiting (with_resolution m i r) = mir_waiting m"
  "mir_constructors (with_resolution m i r) = mir_constructors m"
  "mir_constructor_namespaces (with_resolution m i r) = mir_constructor_namespaces m"
  by (simp_all add: with_resolution_def)

lemma with_resolution_nth:
  "i < n_symbols m \<Longrightarrow> mir_symbols (with_resolution m i r) ! j =
    (if j = i then (mir_symbols m ! i)\<lparr>sy_resolution := r\<rparr> else mir_symbols m ! j)"
  by (simp add: with_resolution_def nth_list_update)

lemma publish_symbol:
  assumes "mir_ok m" and "i < n_symbols m" and "stepped i m r m'"
  shows "set_symbol_resolution i r m' = Inr (with_resolution m' i r)"
    and "advanced m (TaskSymbol i) (with_resolution m' i r)"
proof -
  have r: "result_ok m r" and a: "amended i m m'" using assms(3) by (simp_all add: stepped_def)
  then have g: "graph_ok m'" and n: "n_symbols m' = n_symbols m" by (simp_all add: amended_def)
  then have i: "i < n_symbols m'" using assms(2) by simp
  then show "set_symbol_resolution i r m' = Inr (with_resolution m' i r)"
    by (simp add: set_symbol_resolution_def update_at_def with_resolution_def)
  let ?m = "with_resolution m' i r"
  have "state_ok m' r" using r n by (simp add: result_ok_def state_ok_cong [of m' m])
  then have "symbol_ok m' ((mir_symbols m' ! i)\<lparr>sy_resolution := r\<rparr>)"
    using graphD(5) [OF g i] by (simp add: symbol_ok_def)
  then have graph: "graph_ok ?m" unfolding with_resolution_def by (rule graph_ok_symbol [OF g])
  have "pending_ok ?m j" if j: "j < n_symbols m" for j
  proof (cases "j = i")
    case True
    with r i show ?thesis by (simp add: pending_ok_def Let_def with_resolution_nth result_ok_def)
  next
    case False
    have decl: "\<forall>d \<in> set (sy_declarations (mir_symbols m ! j)). d < n_hir m"
      using assms(1) graphD(5) [of m j] j by (simp add: mir_ok_def symbol_ok_def)
    have "pending_ok m j" using assms(1) j by (simp add: mir_ok_def)
    then show ?thesis
      by (rule pending_ok_cong) (use a i False decl in \<open>auto simp: amended_def with_resolution_nth\<close>)
  qed
  with graph n have ok: "mir_ok ?m" by (simp add: mir_ok_def)
  have "task_ok ?m u = task_ok m u" for u
    using a n by (cases u) (auto simp: amended_def)
  moreover have "task_answer ?m u = task_answer m u" if "task_ok m u" "u \<noteq> TaskSymbol i" for u
    using a i that by (cases u) (auto simp: amended_def with_resolution_nth)
  moreover have "task_done ?m (TaskSymbol i)"
    using r i by (simp add: task_done_def with_resolution_nth result_ok_def)
  moreover have "sy_declarations (mir_symbols ?m ! j) = sy_declarations (mir_symbols m ! j)" for j
    using a i by (cases "j = i") (simp_all add: amended_def with_resolution_nth)
  ultimately show "advanced m (TaskSymbol i) ?m" using ok a by (auto simp: advanced_def amended_def)
qed

text \<open>A graph that differs from a well-formed one in facts and notes only.\<close>

definition same_syntax :: "mir \<Rightarrow> mir \<Rightarrow> bool" where
  "same_syntax m m' \<longleftrightarrow>
     mir_symbols m' = mir_symbols m \<and> mir_hir m' = mir_hir m \<and> mir_scopes m' = mir_scopes m \<and>
     mir_imports m' = mir_imports m \<and> mir_waiting m' = mir_waiting m \<and> mir_exports m' = mir_exports m \<and>
     length (mir_conflicts m') \<le> Suc (length (mir_conflicts m))"

lemma advancedI:
  assumes "mir_ok m" and "graph_ok m'" and "same_syntax m m'"
    and "\<And>u. task_ok m u \<Longrightarrow> u \<noteq> t \<Longrightarrow> task_answer m' u = task_answer m u" and "task_done m' t"
  shows "advanced m t m'"
proof -
  have "mir_ok m'"
    using assms(1-3) pending_ok_cong [of m _ m'] by (auto simp: mir_ok_def same_syntax_def)
  moreover have "task_ok m' u = task_ok m u" for u
    using assms(3) by (cases u) (simp_all add: same_syntax_def)
  ultimately show ?thesis using assms by (simp add: advanced_def same_syntax_def)
qed

lemma publish_reference:
  assumes "mir_ok m" and "task_ok m (TaskReference n)" and "looked_up m r m'"
  shows "\<exists>m''. set_reference n r m' = Inr m'' \<and> advanced m (TaskReference n) m''"
proof -
  have g: "graph_ok m" using assms(1) by (simp add: mir_ok_def)
  obtain slot where slot: "hn_resolution (mir_hir m ! n) = Some slot" and n: "n < n_hir m"
    using assms(2) by auto
  then have len: "slot < length (mir_slots m)"
    and inj: "\<And>j. j < n_hir m \<Longrightarrow> hn_resolution (mir_hir m ! j) = Some slot \<Longrightarrow> j = n"
    using graphD(2) [OF g] unfolding hirs_ok_def by blast+
  have g': "graph_ok m'" and same: "mir_slots m' = mir_slots m" "mir_namespaces m' = mir_namespaces m"
    "mir_constructors m' = mir_constructors m" "mir_constructor_namespaces m' = mir_constructor_namespaces m"
    "same_syntax m m'"
  proof (atomize (full), goal_cases)
    case 1
    from assms(3) consider "m' = m" | c ds where "m' = m\<lparr>mir_conflicts := mir_conflicts m @ [c], mir_diagnostics := ds\<rparr>"
      by (auto simp: looked_up_def noted_def)
    then show ?case using g by cases (simp_all add: graph_ok_notes same_syntax_def)
  qed
  have hir: "mir_hir m' = mir_hir m" and syms: "mir_symbols m' = mir_symbols m"
    using same(5) by (simp_all add: same_syntax_def)
  let ?m = "m'\<lparr>mir_slots := (mir_slots m')[slot := r]\<rparr>"
  have set: "set_reference n r m' = Inr ?m"
    using n slot len by (simp add: set_reference_def set_slot_def update_at_def hir same)
  have r: "result_ok m r" using assms(3) by (simp add: looked_up_def)
  then have "state_ok m' r" by (simp add: result_ok_def state_ok_cong [of m' m] syms)
  then have graph: "graph_ok ?m" by (rule graph_ok_slot [OF g'])
  have "advanced m (TaskReference n) ?m"
  proof (rule advancedI [OF assms(1) graph])
    show "same_syntax m ?m" using same(5) by (simp add: same_syntax_def)
    show "task_done ?m (TaskReference n)"
      using slot len r by (simp add: task_done_def hir same result_ok_def)
    fix u assume u: "task_ok m u" "u \<noteq> TaskReference n"
    show "task_answer ?m u = task_answer m u"
    proof (cases u)
      case (TaskReference k)
      then obtain s where s: "hn_resolution (mir_hir m ! k) = Some s" using u(1) by auto
      then have "s \<noteq> slot" using inj [of k] u TaskReference by fastforce
      with TaskReference s show ?thesis by (simp add: hir same)
    qed (simp_all add: hir same syms)
  qed
  with set show ?thesis by blast
qed

lemma publish_namespace:
  assumes "mir_ok m" and "i < n_symbols m" and "\<forall>md. r = Some md \<longrightarrow> md < n_modules m"
  shows "\<exists>m'. set_namespace i r m = Inr m' \<and> advanced m (TaskNamespace i) m'"
proof -
  have g: "graph_ok m" using assms(1) by (simp add: mir_ok_def)
  then have i: "i < length (mir_namespaces m)" using assms(2) graphD(1) by (simp add: sizes_ok_def)
  let ?m = "m\<lparr>mir_namespaces := (mir_namespaces m)[i := Some r]\<rparr>"
  have "advanced m (TaskNamespace i) ?m"
  proof (rule advancedI [OF assms(1) graph_ok_namespace [OF g assms(3)]])
    fix u assume "task_ok m u" "u \<noteq> TaskNamespace i"
    then show "task_answer ?m u = task_answer m u" by (cases u) auto
  qed (use i in \<open>simp_all add: same_syntax_def task_done_def\<close>)
  with i show ?thesis by (simp add: set_namespace_def update_at_def)
qed

lemma publish_constructor:
  assumes "mir_ok m" and "i < n_symbols m"
  shows "\<exists>m'. set_constructor i r m = Inr m' \<and> advanced m (TaskConstructor i) m'"
proof -
  have g: "graph_ok m" using assms(1) by (simp add: mir_ok_def)
  then have i: "i < length (mir_constructors m)" using assms(2) graphD(1) by (simp add: sizes_ok_def)
  let ?m = "m\<lparr>mir_constructors := (mir_constructors m)[i := Some r]\<rparr>"
  have "advanced m (TaskConstructor i) ?m"
  proof (rule advancedI [OF assms(1) graph_ok_constructors(1) [OF g]])
    fix u assume "task_ok m u" "u \<noteq> TaskConstructor i"
    then show "task_answer ?m u = task_answer m u" by (cases u) auto
  qed (use i in \<open>simp_all add: same_syntax_def task_done_def\<close>)
  with i show ?thesis by (simp add: set_constructor_def update_at_def)
qed

lemma publish_constructor_namespace:
  assumes "mir_ok m" and "n < n_hir m"
  shows "\<exists>m'. set_constructor_namespace n r m = Inr m' \<and> advanced m (TaskConstructorNamespace n) m'"
proof -
  have g: "graph_ok m" using assms(1) by (simp add: mir_ok_def)
  then have n: "n < length (mir_constructor_namespaces m)" using assms(2) graphD(1) by (simp add: sizes_ok_def)
  let ?m = "m\<lparr>mir_constructor_namespaces := (mir_constructor_namespaces m)[n := Some r]\<rparr>"
  have "advanced m (TaskConstructorNamespace n) ?m"
  proof (rule advancedI [OF assms(1) graph_ok_constructors(2) [OF g]])
    fix u assume "task_ok m u" "u \<noteq> TaskConstructorNamespace n"
    then show "task_answer ?m u = task_answer m u" by (cases u) auto
  qed (use n in \<open>simp_all add: same_syntax_def task_done_def\<close>)
  with n show ?thesis by (simp add: set_constructor_namespace_def update_at_def)
qed

section \<open>Every task\<close>

lemma commit_yields:
  assumes "\<exists>m''. w = Inr m'' \<and> P x m''"
  shows "yields m P (commit w m' x)"
  using assms by (auto simp: commit_def)

lemma run_task_ok:
  assumes "mir_ok m" and "edges_ok edges m" and "length (mir_conflicts m) < 2 ^ 32"
    and "task_ok m t" and "\<not> task_done m t"
  shows "yields m (\<lambda>_ m'. advanced m t m') (run_task edges t m)"
proof -
  have g: "graph_ok m" using assms(1) by (simp add: mir_ok_def)
  show ?thesis
  proof (cases t)
    case (TaskSymbol i)
    then have i: "i < n_symbols m" "sy_resolution (mir_symbols m ! i) = RsPending"
      using assms(4,5) by (simp_all add: task_done_def)
    show ?thesis unfolding TaskSymbol run_task.simps
    proof (rule yields_seq [OF symbol_step_ok [OF assms(1-3) i]])
      fix r m' assume "stepped i m r m'"
      from publish_symbol [OF assms(1) i(1) this]
      show "yields m (\<lambda>_ m'. advanced m (TaskSymbol i) m') (commit (set_symbol_resolution i r m') m' ())"
        by (intro commit_yields) blast
    qed
  next
    case (TaskReference n)
    show ?thesis unfolding TaskReference run_task.simps
    proof (rule yields_seq [OF reference_step_ok [OF g assms(3,4) [unfolded TaskReference]]])
      fix r m' assume "looked_up m r m'"
      from publish_reference [OF assms(1,4) [unfolded TaskReference] this]
      show "yields m (\<lambda>_ m'. advanced m (TaskReference n) m') (commit (set_reference n r m') m' ())"
        by (intro commit_yields) blast
    qed
  next
    case (TaskNamespace i)
    then have i: "i < n_symbols m" using assms(4) by simp
    show ?thesis unfolding TaskNamespace run_task.simps
      by (rule yields_query [OF namespace_step_ok [OF g i]], rule commit_yields)
        (rule publish_namespace [OF assms(1) i])
  next
    case (TaskConstructor i)
    then have i: "i < n_symbols m" using assms(4) by simp
    show ?thesis unfolding TaskConstructor run_task.simps
      by (rule yields_query [OF constructor_step_ok [OF g i]], rule commit_yields)
        (rule publish_constructor [OF assms(1) i])
  next
    case (TaskConstructorNamespace n)
    then have n: "n < n_hir m" using assms(4) by simp
    show ?thesis unfolding TaskConstructorNamespace run_task.simps
      by (rule yields_query [OF constructor_namespace_step_ok [OF g n]], rule commit_yields)
        (rule publish_constructor_namespace [OF assms(1) n])
  qed
qed

lemma deny_ok:
  assumes "mir_ok m" and "task_ok m t"
  shows "\<exists>m'. deny t m = Inr m' \<and> advanced m t m'"
proof -
  have g: "graph_ok m" using assms(1) by (simp add: mir_ok_def)
  show ?thesis
  proof (cases t)
    case (TaskSymbol i)
    then have "i < n_symbols m" using assms(2) by simp
    from publish_symbol [OF assms(1) this stepped_same [OF g]] TaskSymbol show ?thesis
      by (auto simp: result_ok_def)
  next
    case (TaskReference n)
    with publish_reference [OF assms(1)] assms(2) show ?thesis by simp
  next
    case (TaskNamespace i)
    with publish_namespace [OF assms(1), of i None] assms(2) show ?thesis by simp
  next
    case (TaskConstructor i)
    with publish_constructor [OF assms(1), of i False] assms(2) show ?thesis by simp
  next
    case (TaskConstructorNamespace n)
    with publish_constructor_namespace [OF assms(1), of n False] assms(2) show ?thesis by simp
  qed
qed

lemma finished_ok: "graph_ok m \<Longrightarrow> task_ok m t \<Longrightarrow> finished m t = Inr (task_done m t)"
proof (cases t)
  case (TaskReference n)
  assume g: "graph_ok m" and t: "task_ok m t"
  then obtain slot where slot: "hn_resolution (mir_hir m ! n) = Some slot" "n < n_hir m"
    using TaskReference by auto
  then have "slot < length (mir_slots m)" using graphD(2) [OF g] by (simp add: hirs_ok_def)
  with slot TaskReference show ?thesis by (simp add: task_done_def)
qed (auto simp: task_done_def dest!: graphD(1) simp: sizes_ok_def)

end
