(* ===== verification/Resolve_Cycles.thy ===== *)
theory Resolve_Cycles
  imports Resolve_Schedule
begin

text \<open>
  What \<open>cycles\<close> of \<^verbatim>\<open>symbol_resolve/schedule.rs\<close> returns: every task waits for at most one other, so
  the cycles of the waiting relation are disjoint, and the walks find each of them once.
\<close>

section \<open>Cycles of a relation with one successor\<close>

type_synonym waiting = "(resolve_task, resolve_task) btree"

definition waits :: "waiting \<Rightarrow> (resolve_task \<times> resolve_task) set" where
  "waits w = {(a, b). bt_get w a = Some b}"

definition on_cycle :: "waiting \<Rightarrow> resolve_task \<Rightarrow> bool" where
  "on_cycle w t \<longleftrightarrow> (t, t) \<in> (waits w)\<^sup>+"

definition wait_cycle :: "waiting \<Rightarrow> resolve_task list \<Rightarrow> bool" where
  "wait_cycle w c \<longleftrightarrow> c \<noteq> [] \<and> distinct c \<and>
     (\<forall>i < length c. bt_get w (c ! i) = Some (c ! (Suc i mod length c)))"

definition wait_chain :: "waiting \<Rightarrow> resolve_task list \<Rightarrow> resolve_task \<Rightarrow> bool" where
  "wait_chain w path task \<longleftrightarrow>
     (\<forall>i < length path. bt_get w (path ! i) = Some ((path @ [task]) ! Suc i))"

definition wait_closed :: "waiting \<Rightarrow> resolve_task set \<Rightarrow> bool" where
  "wait_closed w V \<longleftrightarrow> (\<forall>a \<in> V. \<forall>b. bt_get w a = Some b \<longrightarrow> b \<in> V)"

lemma waits_iff [simp]: "(a, b) \<in> waits w \<longleftrightarrow> bt_get w a = Some b"
  by (simp add: waits_def)

lemma cycle_back:
  assumes "on_cycle w t" and "(t, x) \<in> (waits w)\<^sup>*"
  shows "(x, t) \<in> (waits w)\<^sup>*"
  using assms(2)
proof (induction rule: rtrancl_induct)
  case (step x y)
  show ?case
  proof (cases "x = t")
    case True
    with assms(1) obtain z where "(t, z) \<in> waits w" "(z, t) \<in> (waits w)\<^sup>*"
      unfolding on_cycle_def by (meson tranclD)
    with step.hyps(2) True show ?thesis by simp
  next
    case False
    with step.IH obtain z where "(x, z) \<in> waits w" "(z, t) \<in> (waits w)\<^sup>*" by (meson converse_rtranclE)
    with step.hyps(2) show ?thesis by simp
  qed
qed simp

lemma closed_reach: "(a, b) \<in> (waits w)\<^sup>* \<Longrightarrow> wait_closed w V \<Longrightarrow> a \<in> V \<Longrightarrow> b \<in> V"
  by (induction rule: rtrancl_induct) (auto simp: wait_closed_def)

lemma chain_snoc:
  "wait_chain w path task \<Longrightarrow> bt_get w task = Some next' \<Longrightarrow> wait_chain w (path @ [task]) next'"
  by (auto simp: wait_chain_def nth_append less_Suc_eq split: if_splits)

lemma chain_reach:
  assumes "wait_chain w path task" and "i \<le> length path"
  shows "((path @ [task]) ! i, task) \<in> (waits w)\<^sup>*"
  using assms(2)
proof (induction "length path - i" arbitrary: i)
  case (Suc n)
  then have "((path @ [task]) ! i, (path @ [task]) ! Suc i) \<in> waits w"
    using assms(1) by (auto simp: wait_chain_def nth_append)
  moreover have "((path @ [task]) ! Suc i, task) \<in> (waits w)\<^sup>*" using Suc by simp
  ultimately show ?case by (meson converse_rtrancl_into_rtrancl)
qed simp

lemma chain_reach_set: "wait_chain w path task \<Longrightarrow> t \<in> set path \<Longrightarrow> (t, task) \<in> (waits w)\<^sup>*"
  by (metis chain_reach in_set_conv_nth less_imp_le nth_append)

lemma chain_closed:
  assumes "wait_chain w path task" and "wait_closed w V" and "task \<in> V \<union> set path"
  shows "wait_closed w (V \<union> set path)"
proof -
  have "b \<in> V \<union> set path" if a: "a \<in> set path" "bt_get w a = Some b" for a b
  proof -
    obtain i where i: "i < length path" "path ! i = a" using a(1) by (metis in_set_conv_nth)
    then have "b = (path @ [task]) ! Suc i" using assms(1) a(2) by (auto simp: wait_chain_def)
    then show ?thesis using i(1) assms(3) by (cases "Suc i < length path") (auto simp: nth_append)
  qed
  with assms(2) show ?thesis by (auto simp: wait_closed_def)
qed

lemma cycle_on_cycle:
  assumes "wait_cycle w c" and "t \<in> set c"
  shows "on_cycle w t"
proof -
  have reach: "(c ! i, c ! ((i + n) mod length c)) \<in> (waits w)\<^sup>*" if "i < length c" for i n
  proof (induction n)
    case (Suc n)
    have "(c ! ((i + n) mod length c), c ! (Suc ((i + n) mod length c) mod length c)) \<in> waits w"
      using assms(1) that by (auto simp: wait_cycle_def)
    then have "(c ! ((i + n) mod length c), c ! ((i + Suc n) mod length c)) \<in> waits w"
      by (simp add: mod_Suc_eq)
    with Suc show ?case by (rule rtrancl_into_rtrancl)
  qed (use that in simp)
  obtain i where i: "i < length c" "c ! i = t" using assms(2) by (auto simp: in_set_conv_nth)
  have "(t, c ! (Suc i mod length c)) \<in> waits w" using assms(1) i by (auto simp: wait_cycle_def)
  moreover have "(c ! (Suc i mod length c), t) \<in> (waits w)\<^sup>*"
  proof -
    have "(Suc i mod length c + (length c - 1)) mod length c = (Suc i + (length c - 1)) mod length c"
      by (rule mod_add_left_eq)
    also have "Suc i + (length c - 1) = i + length c" using i by simp
    finally have "(Suc i mod length c + (length c - 1)) mod length c = i" using i by simp
    moreover have "Suc i mod length c < length c" by (intro mod_less_divisor) (use i in linarith)
    ultimately show ?thesis using reach [of "Suc i mod length c" "length c - 1"] i by simp
  qed
  ultimately show ?thesis unfolding on_cycle_def by (meson rtrancl_into_trancl2)
qed

lemma cycle_closed: "wait_cycle w c \<Longrightarrow> wait_closed w (set c)"
proof -
  assume c: "wait_cycle w c"
  have "c ! (Suc i mod length c) \<in> set c" if "i < length c" for i
    using c that by (intro nth_mem mod_less_divisor) auto
  with c show ?thesis by (fastforce simp: wait_cycle_def wait_closed_def in_set_conv_nth [of _ c])
qed

section \<open>One walk\<close>

definition walk_inv ::
  "waiting \<Rightarrow> resolve_task set \<Rightarrow> resolve_task list \<Rightarrow> (resolve_task \<rightharpoonup> nat) \<Rightarrow> resolve_task \<Rightarrow> bool" where
  "walk_inv w V path positions task \<longleftrightarrow>
     wait_closed w V \<and> V \<inter> set path = {} \<and> distinct path \<and> wait_chain w path task \<and>
     (\<forall>t i. positions t = Some i \<longleftrightarrow> i < length path \<and> path ! i = t)"

text \<open>The cycle of the new visited tasks, if there is one.\<close>

definition walk_done ::
  "waiting \<Rightarrow> resolve_task set \<Rightarrow> resolve_task set \<Rightarrow> resolve_task set \<times> resolve_task list option \<Rightarrow> bool" where
  "walk_done w V P r \<longleftrightarrow>
     wait_closed w (fst r) \<and> V \<subseteq> fst r \<and> P \<subseteq> fst r \<and>
     (case snd r of
        None \<Rightarrow> {t \<in> fst r. on_cycle w t} \<subseteq> V
      | Some c \<Rightarrow> wait_cycle w c \<and> set c \<subseteq> fst r \<and> set c \<inter> V = {} \<and>
          {t \<in> fst r. on_cycle w t} \<subseteq> V \<union> set c)"

lemma walk_back_to_path:
  assumes inv: "walk_inv w V path positions task" and hit: "positions task = Some i"
  shows "walk_done w V (insert task (set path)) (V \<union> set path, Some (drop i path))"
proof -
  have i: "i < length path" "path ! i = task" and V: "wait_closed w V" "V \<inter> set path = {}"
    and path: "distinct path" "wait_chain w path task"
    using inv hit by (auto simp: walk_inv_def)
  let ?c = "drop i path"
  have cyc: "wait_cycle w ?c" unfolding wait_cycle_def
  proof (intro conjI allI impI)
    fix j assume j: "j < length ?c"
    have "bt_get w (path ! (i + j)) = Some ((path @ [task]) ! Suc (i + j))"
      using path(2) j by (auto simp: wait_chain_def)
    moreover have "(path @ [task]) ! Suc (i + j) = ?c ! (Suc j mod length ?c)"
    proof (cases "Suc j < length ?c")
      case False
      then have "Suc j = length ?c" using j by simp
      then have "Suc (i + j) = length path" "Suc j mod length ?c = 0" using i by simp_all
      with i show ?thesis by (simp add: nth_append)
    next
      case True
      then have "Suc (i + j) < length path" by simp
      with True show ?thesis by (simp add: nth_append)
    qed
    ultimately show "bt_get w (?c ! j) = Some (?c ! (Suc j mod length ?c))" using j by simp
  qed (use i path in auto)
  have task: "task \<in> set ?c" using i by (metis drop_eq_Nil hd_drop_conv_nth hd_in_set linorder_not_le)
  have "t \<in> V \<union> set ?c" if t: "t \<in> V \<union> set path" "on_cycle w t" for t
  proof (cases "t \<in> V")
    case False
    with t have "(t, task) \<in> (waits w)\<^sup>*" using chain_reach_set path(2) by blast
    from cycle_back [OF t(2) this] closed_reach [OF _ cycle_closed [OF cyc] task] show ?thesis by blast
  qed simp
  moreover have "task \<in> set path" using i by auto
  ultimately show ?thesis
    using cyc V chain_closed [OF path(2) V(1)] set_drop_subset [of i path]
    by (auto simp: walk_done_def)
qed

lemma walk_into_visited:
  assumes inv: "walk_inv w V path positions task" and "task \<in> V"
  shows "walk_done w V (insert task (set path)) (V \<union> set path, None)"
proof -
  have V: "wait_closed w V" "V \<inter> set path = {}" and path: "wait_chain w path task"
    using inv by (auto simp: walk_inv_def)
  have "t \<in> V" if "t \<in> V \<union> set path" "on_cycle w t" for t
  proof (rule ccontr)
    assume "t \<notin> V"
    with that have "(t, task) \<in> (waits w)\<^sup>*" using chain_reach_set path by blast
    from closed_reach [OF cycle_back [OF that(2) this] V(1) assms(2)] \<open>t \<notin> V\<close> show False by simp
  qed
  with chain_closed [OF path V(1)] assms(2) show ?thesis by (auto simp: walk_done_def)
qed

lemma walk_stuck:
  assumes inv: "walk_inv w V path positions task" and none: "bt_get w task = None"
  shows "walk_done w V (insert task (set path)) (insert task (V \<union> set path), None)"
proof -
  have V: "wait_closed w V" and path: "wait_chain w path task" using inv by (auto simp: walk_inv_def)
  have "wait_closed w (insert task V)" using V none by (auto simp: wait_closed_def)
  from chain_closed [OF path this] have closed: "wait_closed w (insert task (V \<union> set path))" by simp
  have "t \<in> V" if "t \<in> insert task (V \<union> set path)" "on_cycle w t" for t
  proof (rule ccontr)
    assume "t \<notin> V"
    with that have "(t, task) \<in> (waits w)\<^sup>*" using chain_reach_set path by blast
    from cycle_back [OF that(2) this] have "task = t" using none by (metis converse_rtranclE option.distinct(1) waits_iff)
    with that(2) none show False unfolding on_cycle_def by (metis option.distinct(1) tranclD waits_iff)
  qed
  with closed show ?thesis by (auto simp: walk_done_def)
qed

lemma walk_correct:
  "walk_inv w V path positions task \<Longrightarrow>
    walk_done w V (insert task (set path)) (cycle_walk w (V \<union> set path) path positions task)"
proof (induction w "V \<union> set path" path positions task rule: cycle_walk.induct)
  case (1 w path positions task)
  note step = cycle_walk.simps [of w "V \<union> set path" path positions task]
  show ?case
  proof (cases "positions task")
    case (Some i)
    then show ?thesis using walk_back_to_path [OF 1(2) Some] step by simp
  next
    case None
    have notin: "task \<notin> set path"
    proof
      assume "task \<in> set path"
      then obtain i where "i < length path" "path ! i = task" by (meson in_set_conv_nth)
      then have "positions task = Some i" using 1(2) by (simp add: walk_inv_def)
      with None show False by simp
    qed
    show ?thesis
    proof (cases "task \<in> V")
      case True
      then show ?thesis using walk_into_visited [OF 1(2) True] step None by simp
    next
      case False
      show ?thesis
      proof (cases "bt_get w task")
        case n: None
        show ?thesis using walk_stuck [OF 1(2) n] step None n notin False by simp
      next
        case (Some d)
        have inv: "walk_inv w V (path @ [task]) (positions(task \<mapsto> length path)) d"
          using 1(2) False notin Some
          by (auto simp: walk_inv_def chain_snoc nth_append less_Suc_eq in_set_conv_nth split: if_splits)
        have "walk_done w V (insert d (set (path @ [task])))
            (cycle_walk w (insert task (V \<union> set path)) (path @ [task]) (positions(task \<mapsto> length path)) d)"
          using 1(1) [OF None _ Some _ inv] notin False by simp
        then have "walk_done w V (insert d (set (path @ [task])))
            (cycle_walk w (V \<union> set path) path positions task)"
          using step None notin False Some by simp
        then show ?thesis by (simp add: walk_done_def)
      qed
    qed
  qed
qed

section \<open>All walks\<close>

lemma cycles_from_correct:
  assumes "wait_closed w V"
  shows "(\<forall>c \<in> set (cycles_from w starts V). wait_cycle w c \<and> set c \<inter> V = {}) \<and>
    distinct (concat (cycles_from w starts V)) \<and>
    {t. on_cycle w t} \<inter> set starts \<subseteq> V \<union> set (concat (cycles_from w starts V))"
  using assms
proof (induction starts arbitrary: V)
  case (Cons start starts)
  show ?case
  proof (cases "start \<in> V")
    case True
    with Cons.IH [OF Cons.prems] show ?thesis by auto
  next
    case False
    have "walk_inv w V [] Map.empty start" using Cons.prems by (simp add: walk_inv_def wait_chain_def)
    from walk_correct [OF this] have walked: "walk_done w V {start} (cycle_walk w V [] Map.empty start)"
      by simp
    obtain V' r where r: "cycle_walk w V [] Map.empty start = (V', r)" by force
    with walked have V': "wait_closed w V'" "V \<subseteq> V'" "start \<in> V'" by (auto simp: walk_done_def)
    let ?rest = "cycles_from w starts V'"
    have IH: "\<forall>c \<in> set ?rest. wait_cycle w c \<and> set c \<inter> V' = {}" "distinct (concat ?rest)"
      "{t. on_cycle w t} \<inter> set starts \<subseteq> V' \<union> set (concat ?rest)"
      using Cons.IH [OF V'(1)] by blast+
    show ?thesis
    proof (cases r)
      case None
      then have sub: "{t \<in> V'. on_cycle w t} \<subseteq> V" using walked r by (simp add: walk_done_def)
      have eq: "cycles_from w (start # starts) V = ?rest" using False r None by simp
      have "{t. on_cycle w t} \<inter> set (start # starts) \<subseteq> V \<union> set (concat ?rest)"
        using sub IH(3) V'(3) by (auto simp del: set_concat)
      moreover have "\<forall>c \<in> set ?rest. wait_cycle w c \<and> set c \<inter> V = {}" using IH(1) V'(2) by blast
      ultimately show ?thesis unfolding eq using IH(2) by blast
    next
      case (Some c)
      then have c: "wait_cycle w c" "set c \<subseteq> V'" "set c \<inter> V = {}" "{t \<in> V'. on_cycle w t} \<subseteq> V \<union> set c"
        using walked r by (auto simp: walk_done_def)
      have eq: "cycles_from w (start # starts) V = c # ?rest" using False r Some by simp
      have "{t. on_cycle w t} \<inter> set (start # starts) \<subseteq> V \<union> set (concat (c # ?rest))"
        using c(4) IH(3) V'(3) by auto
      moreover have "\<forall>c \<in> set (c # ?rest). wait_cycle w c \<and> set c \<inter> V = {}" using IH(1) V'(2) c by auto
      moreover have "set c \<inter> set (concat ?rest) = {}" using IH(1) c(2) by auto
      with c(1) IH(2) have "distinct (concat (c # ?rest))" by (simp add: wait_cycle_def)
      ultimately show ?thesis unfolding eq by blast
    qed
  qed
qed simp

lemma on_cycle_key: "on_cycle w t \<Longrightarrow> t \<in> set (bt_keys w)"
  unfolding on_cycle_def by (auto simp: bt_keys_dom dest: tranclD)

text \<open>If every task that is waited for waits itself, there is a cycle.\<close>

lemma cycles_exist:
  assumes "wait_closed w (set (bt_keys w))" and "w \<noteq> []"
  shows "cycles w \<noteq> []"
proof
  assume none: "cycles w = []"
  let ?r = "(waits w)\<inverse>"
  have "finite (waits w)"
  proof (rule finite_subset)
    show "waits w \<subseteq> set w" by (auto simp: bt_get_def dest: map_of_SomeD)
  qed simp
  moreover have "acyclic (waits w)"
    using cycles_from_correct [of w "{}" "bt_keys w"] none on_cycle_key
    by (auto simp: cycles_def wait_closed_def acyclic_def on_cycle_def)
  ultimately have "wf ?r" by (simp add: finite_acyclic_wf_converse)
  moreover obtain t where "t \<in> set (bt_keys w)" using assms(2) by (cases w) (auto simp: bt_keys_def)
  ultimately obtain z where z: "z \<in> set (bt_keys w)" "\<forall>y. (y, z) \<in> ?r \<longrightarrow> y \<notin> set (bt_keys w)"
    by (meson wfE_min)
  then obtain y where "bt_get w z = Some y" by (auto simp: bt_keys_dom)
  with z assms(1) show False by (auto simp: wait_closed_def)
qed

lemma cycles_waiting:
  assumes "c \<in> set (cycles w)"
  shows "wait_cycle w c" and "set c \<subseteq> dom (bt_get w)"
proof -
  show "wait_cycle w c"
    using assms cycles_from_correct [of w "{}" "bt_keys w"] by (simp add: cycles_def wait_closed_def)
  from cycle_on_cycle [OF this] on_cycle_key show "set c \<subseteq> dom (bt_get w)"
    unfolding bt_keys_dom by blast
qed

lemma cycles_disjoint: "distinct (concat (cycles w))"
  using cycles_from_correct [of w "{}" "bt_keys w"] by (simp add: cycles_def wait_closed_def)

text \<open>
  C20: Cycle detection is exact. Whatever the waiting relation, each list that is returned is a cycle
  of it, in order and without repetition, the lists are disjoint, and together they hold every task
  that transitively waits for itself.
\<close>

theorem cycles_exact:
  "(\<forall>c \<in> set (cycles w). wait_cycle w c) \<and> distinct (concat (cycles w)) \<and>
    set (concat (cycles w)) = {t. on_cycle w t}"
proof (intro conjI)
  show "\<forall>c \<in> set (cycles w). wait_cycle w c" using cycles_waiting by blast
  show "distinct (concat (cycles w))" by (rule cycles_disjoint)
  have "{t. on_cycle w t} \<subseteq> set (concat (cycles w))"
    using cycles_from_correct [of w "{}" "bt_keys w"] on_cycle_key by (auto simp: cycles_def wait_closed_def)
  moreover have "set (concat (cycles w)) \<subseteq> {t. on_cycle w t}"
    using cycles_waiting(1) cycle_on_cycle by fastforce
  ultimately show "set (concat (cycles w)) = {t. on_cycle w t}" by blast
qed

lemma cycles_exact_witness:
  "let w = [(TaskSymbol 0, TaskReference 1), (TaskReference 1, TaskSymbol 0), (TaskReference 2, TaskSymbol 0)] in
    set (concat (cycles w)) = {t. on_cycle w t} \<and> cycles w = [[TaskSymbol 0, TaskReference 1]]"
  using cycles_exact
  by (simp add: Let_def cycles_def bt_keys_def bt_get_def cycle_walk.simps del: concat.simps)

end
