(* ===== verification/Resolve_Drain.thy ===== *)
theory Resolve_Drain
  imports Resolve_Progress Resolve_Cycles
begin

text \<open>
  The scheduler runs every task to an answer: its invariant, a measure for the two loops of \<open>drain\<close>,
  and what holds when it returns.
\<close>

section \<open>Open tasks\<close>

definition open_tasks :: "mir \<Rightarrow> resolve_task set" where
  "open_tasks m = {t. task_ok m t \<and> \<not> task_done m t}"

lemma finite_tasks: "finite {t. task_ok m t}"
proof (rule finite_subset)
  show "{t. task_ok m t} \<subseteq>
      TaskSymbol ` {..<n_symbols m} \<union> TaskReference ` {..<n_hir m} \<union> TaskNamespace ` {..<n_symbols m} \<union>
      TaskConstructor ` {..<n_symbols m} \<union> TaskConstructorNamespace ` {..<n_hir m}"
  proof
    fix t assume "t \<in> {t. task_ok m t}"
    then show "t \<in> TaskSymbol ` {..<n_symbols m} \<union> TaskReference ` {..<n_hir m} \<union>
      TaskNamespace ` {..<n_symbols m} \<union> TaskConstructor ` {..<n_symbols m} \<union>
      TaskConstructorNamespace ` {..<n_hir m}" by (cases t) auto
  qed
qed simp

lemma finite_open [simp]: "finite (open_tasks m)"
  by (rule finite_subset [OF _ finite_tasks [of m]]) (auto simp: open_tasks_def)

lemma task_answer_waiting [simp]: "task_answer (m\<lparr>mir_waiting := w\<rparr>) t = task_answer m t"
  by (cases t) simp_all

lemma task_ok_waiting [simp]: "task_ok (m\<lparr>mir_waiting := w\<rparr>) t = task_ok m t"
  by (cases t) simp_all

lemma task_done_waiting [simp]: "task_done (m\<lparr>mir_waiting := w\<rparr>) t = task_done m t"
  by (simp add: task_done_def)

lemma open_waiting [simp]: "open_tasks (m\<lparr>mir_waiting := w\<rparr>) = open_tasks m"
  by (simp add: open_tasks_def)

lemma mir_ok_waiting: "mir_ok m \<Longrightarrow> mir_ok (m\<lparr>mir_waiting := w\<rparr>)"
  using pending_ok_cong [of m _ "m\<lparr>mir_waiting := w\<rparr>"] by (auto simp: mir_ok_def graph_ok_notes)

lemma advancedD:
  assumes "advanced m t m'"
  shows "mir_ok m'" and "task_ok m' u = task_ok m u"
    and "task_ok m u \<Longrightarrow> task_done m' u \<longleftrightarrow> u = t \<or> task_done m u"
    and "mir_waiting m' = mir_waiting m" and "mir_imports m' = mir_imports m"
    and "length (mir_conflicts m') \<le> Suc (length (mir_conflicts m))"
    and "sy_declarations (mir_symbols m' ! j) = sy_declarations (mir_symbols m ! j)"
    and "mir_scopes m' = mir_scopes m" and "mir_exports m' = mir_exports m"
  using assms by (auto simp: advanced_def task_done_def)

lemma advanced_open:
  assumes "advanced m t m'" and "task_ok m t"
  shows "open_tasks m' = open_tasks m - {t}"
  using advancedD(2,3) [OF assms(1)] by (auto simp: open_tasks_def)

section \<open>The invariant\<close>

abbreviation (input) waits_for :: "pass \<Rightarrow> resolve_task \<rightharpoonup> resolve_task" where
  "waits_for p \<equiv> bt_get (mir_waiting (ps_mir p))"

abbreviation (input) ready_tasks :: "pass \<Rightarrow> resolve_task list" where
  "ready_tasks p \<equiv> sh_ready (ps_scheduler p)"

definition queue_ok :: "pass \<Rightarrow> bool" where
  "queue_ok p \<longleftrightarrow> sh_queued (ps_scheduler p) = set (ready_tasks p) \<and> distinct (ready_tasks p) \<and>
     (\<forall>t \<in> set (ready_tasks p). task_ok (ps_mir p) t)"

definition room_ok :: "mir \<Rightarrow> bool" where
  "room_ok m \<longleftrightarrow> length (mir_conflicts m) + card (open_tasks m) \<le> 2 ^ 32"

text \<open>
  \<open>T\<close> are the tasks in hand, taken from the queue and not yet dealt with. A waiting task and the one it
  waits for are open, and the latter knows it; it is queued or waits as well.
\<close>

definition waiting_ok :: "resolve_task set \<Rightarrow> pass \<Rightarrow> bool" where
  "waiting_ok T p \<longleftrightarrow> bt_ok (mir_waiting (ps_mir p)) \<and>
     (\<forall>t d. waits_for p t = Some d \<longrightarrow>
        task_ok (ps_mir p) t \<and> task_ok (ps_mir p) d \<and>
        (t \<notin> T \<longrightarrow> \<not> task_done (ps_mir p) t) \<and> (d \<notin> T \<longrightarrow> \<not> task_done (ps_mir p) d) \<and>
        (\<exists>cs. sh_consumers (ps_scheduler p) d = Some cs \<and> t \<in> set cs) \<and>
        (d \<in> set (ready_tasks p) \<union> T \<or> waits_for p d \<noteq> None))"

definition served :: "resolve_task set \<Rightarrow> resolve_task set \<Rightarrow> pass \<Rightarrow> bool" where
  "served E T p \<longleftrightarrow> (\<forall>t \<in> E. task_ok (ps_mir p) t \<and>
     (task_done (ps_mir p) t \<or> t \<in> set (ready_tasks p) \<union> T \<or> waits_for p t \<noteq> None))"

text \<open>
  Nothing that was answered in \<open>m0\<close> is answered differently, each new conflict is the answer of a task,
  and declarations and scopes stay what they are.
\<close>

definition kept :: "mir \<Rightarrow> mir \<Rightarrow> bool" where
  "kept m0 m \<longleftrightarrow> (\<forall>u. task_ok m u = task_ok m0 u) \<and> mir_scopes m = mir_scopes m0 \<and>
     mir_imports m = mir_imports m0 \<and> mir_exports m = mir_exports m0 \<and>
     (\<forall>j. sy_declarations (mir_symbols m ! j) = sy_declarations (mir_symbols m0 ! j)) \<and>
     length (mir_conflicts m) + card (open_tasks m) \<le> length (mir_conflicts m0) + card (open_tasks m0) \<and>
     (\<forall>u a. task_ok m0 u \<longrightarrow> task_answer m0 u = Some a \<longrightarrow> task_answer m u = Some a)"

definition drain_inv :: "mir \<Rightarrow> resolve_task set \<Rightarrow> resolve_task set \<Rightarrow> pass \<Rightarrow> bool" where
  "drain_inv m0 E T p \<longleftrightarrow>
     mir_ok (ps_mir p) \<and> edges_ok (ps_import_edges p) (ps_mir p) \<and> room_ok (ps_mir p) \<and>
     queue_ok p \<and> waiting_ok T p \<and> served E T p \<and> kept m0 (ps_mir p)"

lemma drain_invD:
  assumes "drain_inv m0 E T p"
  shows "mir_ok (ps_mir p)" and "graph_ok (ps_mir p)" and "edges_ok (ps_import_edges p) (ps_mir p)"
    and "room_ok (ps_mir p)" and "queue_ok p" and "waiting_ok T p" and "served E T p"
    and "kept m0 (ps_mir p)"
  using assms by (simp_all add: drain_inv_def mir_ok_def)

section \<open>Waking\<close>

lemma wake_simps [simp]:
  "ps_import_edges (wake t c p) = ps_import_edges p"
  "sh_consumers (ps_scheduler (wake t c p)) = sh_consumers (ps_scheduler p)"
  "\<exists>w. ps_mir (wake t c p) = (ps_mir p)\<lparr>mir_waiting := w\<rparr>"
  by (auto simp: wake_def enqueue_def intro: exI [of _ "mir_waiting (ps_mir p)"])

lemma wake_waits:
  "waits_for (wake t c p) = (if waits_for p c = Some t then (waits_for p)(c := None) else waits_for p)"
  by (auto simp: wake_def bt_get_remove)

lemma wake_ready:
  "set (ready_tasks (wake t c p)) =
    (if waits_for p c = Some t \<and> c \<notin> sh_queued (ps_scheduler p) then {c} else {}) \<union> set (ready_tasks p)"
  "sh_queued (ps_scheduler (wake t c p)) =
    (if waits_for p c = Some t then {c} else {}) \<union> sh_queued (ps_scheduler p)"
  by (auto simp: wake_def enqueue_def)

definition queue_sync :: "pass \<Rightarrow> bool" where
  "queue_sync p \<longleftrightarrow> sh_queued (ps_scheduler p) = set (ready_tasks p) \<and> distinct (ready_tasks p)"

lemma wake_sync: "queue_sync p \<Longrightarrow> queue_sync (wake t c p)"
  by (auto simp: queue_sync_def wake_def enqueue_def)

lemma fold_wake:
  assumes "queue_sync p" and "bt_ok (mir_waiting (ps_mir p))"
  shows "ps_import_edges (fold (wake t) cs p) = ps_import_edges p"
    and "sh_consumers (ps_scheduler (fold (wake t) cs p)) = sh_consumers (ps_scheduler p)"
    and "\<exists>w. ps_mir (fold (wake t) cs p) = (ps_mir p)\<lparr>mir_waiting := w\<rparr> \<and> bt_ok w"
    and "waits_for (fold (wake t) cs p) = (\<lambda>x. if x \<in> set cs \<and> waits_for p x = Some t then None else waits_for p x)"
    and "set (ready_tasks (fold (wake t) cs p)) = set (ready_tasks p) \<union> {x \<in> set cs. waits_for p x = Some t}"
    and "queue_sync (fold (wake t) cs p)"
proof -
  have "ps_import_edges (fold (wake t) cs p) = ps_import_edges p \<and>
    sh_consumers (ps_scheduler (fold (wake t) cs p)) = sh_consumers (ps_scheduler p) \<and>
    (\<exists>w. ps_mir (fold (wake t) cs p) = (ps_mir p)\<lparr>mir_waiting := w\<rparr> \<and> bt_ok w) \<and>
    waits_for (fold (wake t) cs p) = (\<lambda>x. if x \<in> set cs \<and> waits_for p x = Some t then None else waits_for p x) \<and>
    set (ready_tasks (fold (wake t) cs p)) = set (ready_tasks p) \<union> {x \<in> set cs. waits_for p x = Some t} \<and>
    queue_sync (fold (wake t) cs p)"
    using assms
  proof (induction cs arbitrary: p)
    case Nil
    have "\<exists>w. ps_mir p = (ps_mir p)\<lparr>mir_waiting := w\<rparr> \<and> bt_ok w"
      by (rule exI [of _ "mir_waiting (ps_mir p)"]) (use Nil in simp)
    with Nil show ?case by simp
  next
    case (Cons c cs)
    have ok: "bt_ok (mir_waiting (ps_mir (wake t c p)))"
      using Cons.prems by (simp add: wake_def bt_remove_ok)
    note IH = Cons.IH [OF wake_sync [OF Cons.prems(1)] ok]
    obtain w v where "ps_mir (wake t c p) = (ps_mir p)\<lparr>mir_waiting := v\<rparr>" "bt_ok w"
      "ps_mir (fold (wake t) cs (wake t c p)) = (ps_mir (wake t c p))\<lparr>mir_waiting := w\<rparr>"
      using IH wake_simps(3) by blast
    then have mir: "\<exists>w. ps_mir (fold (wake t) (c # cs) p) = (ps_mir p)\<lparr>mir_waiting := w\<rparr> \<and> bt_ok w" by auto
    have ws: "waits_for (fold (wake t) (c # cs) p) =
        (\<lambda>x. if x \<in> set (c # cs) \<and> waits_for p x = Some t then None else waits_for p x)"
      using IH by (auto simp: wake_waits fun_eq_iff)
    have "set (ready_tasks (fold (wake t) (c # cs) p)) =
        set (ready_tasks p) \<union> {x \<in> set (c # cs). waits_for p x = Some t}"
      using IH Cons.prems(1) by (auto simp: wake_waits wake_ready queue_sync_def)
    with IH mir ws show ?case by simp
  qed
  then show "ps_import_edges (fold (wake t) cs p) = ps_import_edges p"
    "sh_consumers (ps_scheduler (fold (wake t) cs p)) = sh_consumers (ps_scheduler p)"
    "\<exists>w. ps_mir (fold (wake t) cs p) = (ps_mir p)\<lparr>mir_waiting := w\<rparr> \<and> bt_ok w"
    "waits_for (fold (wake t) cs p) = (\<lambda>x. if x \<in> set cs \<and> waits_for p x = Some t then None else waits_for p x)"
    "set (ready_tasks (fold (wake t) cs p)) = set (ready_tasks p) \<union> {x \<in> set cs. waits_for p x = Some t}"
    "queue_sync (fold (wake t) cs p)" by blast+
qed

definition consumers_of :: "pass \<Rightarrow> resolve_task \<Rightarrow> resolve_task list" where
  "consumers_of p t = (case sh_consumers (ps_scheduler p) t of None \<Rightarrow> [] | Some cs \<Rightarrow> cs)"

lemma notify_effect:
  assumes "queue_sync p" and "bt_ok (mir_waiting (ps_mir p))"
  shows "ps_import_edges (notify t p) = ps_import_edges p"
    and "sh_consumers (ps_scheduler (notify t p)) = (sh_consumers (ps_scheduler p))(t := None)"
    and "\<exists>w. ps_mir (notify t p) = (ps_mir p)\<lparr>mir_waiting := w\<rparr> \<and> bt_ok w"
    and "waits_for (notify t p) = (\<lambda>x. if x = t \<or> x \<in> set (consumers_of p t) \<and> waits_for p x = Some t
      then None else waits_for p x)"
    and "set (ready_tasks (notify t p)) =
      set (ready_tasks p) \<union> {x \<in> set (consumers_of p t). x \<noteq> t \<and> waits_for p x = Some t}"
    and "queue_sync (notify t p)"
proof -
  let ?q = "p\<lparr>ps_mir := (ps_mir p)\<lparr>mir_waiting := bt_remove t (mir_waiting (ps_mir p))\<rparr>,
    ps_scheduler := (ps_scheduler p)\<lparr>sh_consumers := (sh_consumers (ps_scheduler p))(t := None)\<rparr>\<rparr>"
  have n: "notify t p = fold (wake t) (consumers_of p t) ?q"
  proof (cases "sh_consumers (ps_scheduler p) t")
    case None
    then have "(sh_consumers (ps_scheduler p))(t := None) = sh_consumers (ps_scheduler p)" by auto
    with None show ?thesis by (simp add: notify_def consumers_of_def)
  qed (simp add: notify_def consumers_of_def)
  have q: "queue_sync ?q" "bt_ok (mir_waiting (ps_mir ?q))"
    using assms by (simp_all add: queue_sync_def bt_remove_ok)
  have w: "waits_for ?q = (waits_for p)(t := None)" by (simp add: bt_get_remove)
  note f = fold_wake [OF q, of t "consumers_of p t", folded n, unfolded w]
  show "ps_import_edges (notify t p) = ps_import_edges p"
    "sh_consumers (ps_scheduler (notify t p)) = (sh_consumers (ps_scheduler p))(t := None)"
    using f(1,2) by simp_all
  show "\<exists>w. ps_mir (notify t p) = (ps_mir p)\<lparr>mir_waiting := w\<rparr> \<and> bt_ok w" using f(3) by auto
  show "waits_for (notify t p) = (\<lambda>x. if x = t \<or> x \<in> set (consumers_of p t) \<and> waits_for p x = Some t
      then None else waits_for p x)"
    using f(4) by (auto simp: fun_eq_iff)
  show "set (ready_tasks (notify t p)) =
      set (ready_tasks p) \<union> {x \<in> set (consumers_of p t). x \<noteq> t \<and> waits_for p x = Some t}"
    using f(5) by (auto split: if_splits)
  show "queue_sync (notify t p)" by (rule f(6))
qed

lemma queue_ok_sync: "queue_ok p \<longleftrightarrow> queue_sync p \<and> (\<forall>t \<in> set (ready_tasks p). task_ok (ps_mir p) t)"
  by (auto simp: queue_ok_def queue_sync_def)

text \<open>Once its task is answered, a notification leaves nothing in hand.\<close>

lemma notify_inv:
  assumes inv: "drain_inv m0 E {t} p" and "task_done (ps_mir p) t"
  shows "drain_inv m0 E {} (notify t p)" and "open_tasks (ps_mir (notify t p)) = open_tasks (ps_mir p)"
proof -
  note D = drain_invD [OF inv]
  have w: "bt_ok (mir_waiting (ps_mir p))" and q: "queue_sync p"
    using D(5,6) by (simp_all add: waiting_ok_def queue_ok_sync)
  note N = notify_effect [OF q w, of t]
  have W: "waits_for p x = Some d \<Longrightarrow> task_ok (ps_mir p) x \<and> task_ok (ps_mir p) d \<and>
      (x \<noteq> t \<longrightarrow> \<not> task_done (ps_mir p) x) \<and> (d \<noteq> t \<longrightarrow> \<not> task_done (ps_mir p) d) \<and>
      (\<exists>cs. sh_consumers (ps_scheduler p) d = Some cs \<and> x \<in> set cs) \<and>
      (d \<in> set (ready_tasks p) \<union> {t} \<or> waits_for p d \<noteq> None)" for x d
    using D(6) by (simp add: waiting_ok_def)
  then have knows: "waits_for p x = Some t \<Longrightarrow> x \<in> set (consumers_of p t)" for x
    by (fastforce simp: consumers_of_def)
  have ws: "waits_for (notify t p) x = (if x = t \<or> waits_for p x = Some t then None else waits_for p x)" for x
    using N(4) knows by simp
  have rs: "set (ready_tasks (notify t p)) = set (ready_tasks p) \<union> {x. x \<noteq> t \<and> waits_for p x = Some t}"
    using N(5) knows by auto
  obtain w' where m: "ps_mir (notify t p) = (ps_mir p)\<lparr>mir_waiting := w'\<rparr>" "bt_ok w'" using N(3) by blast
  have "queue_ok (notify t p)"
    using N(6) D(5) W rs m(1) by (auto simp: queue_ok_sync)
  moreover have "waiting_ok {} (notify t p)"
    unfolding waiting_ok_def
  proof (intro conjI allI impI)
    show "bt_ok (mir_waiting (ps_mir (notify t p)))" using m by simp
    fix x d assume "waits_for (notify t p) x = Some d"
    then have xd: "x \<noteq> t" "d \<noteq> t" "waits_for p x = Some d" by (auto simp: ws split: if_splits)
    note x = W [OF xd(3)]
    show "task_ok (ps_mir (notify t p)) x" "task_ok (ps_mir (notify t p)) d"
      "\<not> task_done (ps_mir (notify t p)) x" "\<not> task_done (ps_mir (notify t p)) d"
      using x xd m(1) by simp_all
    show "\<exists>cs. sh_consumers (ps_scheduler (notify t p)) d = Some cs \<and> x \<in> set cs"
      using x xd N(2) by simp
    show "d \<in> set (ready_tasks (notify t p)) \<union> {} \<or> waits_for (notify t p) d \<noteq> None"
      using x xd by (auto simp: ws rs)
  qed
  moreover have "served E {} (notify t p)"
  proof -
    have same: "task_ok (ps_mir (notify t p)) u = task_ok (ps_mir p) u"
      "task_done (ps_mir (notify t p)) u = task_done (ps_mir p) u" for u using m(1) by simp_all
    show ?thesis unfolding served_def same ws rs using D(7) assms(2) by (auto simp: served_def)
  qed
  moreover have "room_ok (ps_mir (notify t p))" "kept m0 (ps_mir (notify t p))"
    "mir_ok (ps_mir (notify t p))" "edges_ok (ps_import_edges (notify t p)) (ps_mir (notify t p))"
    using D m(1) N(1) by (simp_all add: room_ok_def kept_def mir_ok_waiting edges_ok_def)
  ultimately show "drain_inv m0 E {} (notify t p)" by (simp add: drain_inv_def)
  show "open_tasks (ps_mir (notify t p)) = open_tasks (ps_mir p)" using m(1) by simp
qed

text \<open>Publishing the answer of a task in hand.\<close>

lemma advanced_inv:
  assumes inv: "drain_inv m0 E {t} p" and adv: "advanced (ps_mir p) t m"
    and t: "task_ok (ps_mir p) t" "\<not> task_done (ps_mir p) t"
  shows "drain_inv m0 E {t} (p\<lparr>ps_mir := m\<rparr>)" and "card (open_tasks m) < card (open_tasks (ps_mir p))"
    and "task_done m t"
proof -
  note D = drain_invD [OF inv] and A = advancedD [OF adv]
  have op: "t \<in> open_tasks (ps_mir p)" using t by (simp add: open_tasks_def)
  with advanced_open [OF adv t(1)] show less: "card (open_tasks m) < card (open_tasks (ps_mir p))"
    by (metis card_Diff1_less finite_open)
  show "task_done m t" using A(3) t by blast
  have "room_ok m" using D(4) A(6) less by (simp add: room_ok_def)
  moreover have "queue_ok (p\<lparr>ps_mir := m\<rparr>)" using D(5) A(2) by (simp add: queue_ok_def)
  moreover have "waiting_ok {t} (p\<lparr>ps_mir := m\<rparr>)"
    using D(6) A(2,3,4) unfolding waiting_ok_def by simp
  moreover have "served E {t} (p\<lparr>ps_mir := m\<rparr>)"
    using D(7) A(2,3,4) by (simp add: served_def)
  moreover have "kept m0 m"
  proof -
    have "task_answer m u = Some a" if "task_ok m0 u" "task_answer m0 u = Some a" for u a
    proof -
      have u: "task_answer (ps_mir p) u = Some a" "task_ok (ps_mir p) u"
        using D(8) that by (auto simp: kept_def)
      then have "u \<noteq> t" using t(2) by (auto simp: task_done_def)
      with u adv show ?thesis by (simp add: advanced_def)
    qed
    moreover have "length (mir_conflicts m) + card (open_tasks m) \<le>
        length (mir_conflicts m0) + card (open_tasks m0)"
      using D(8) A(6) less by (simp add: kept_def)
    ultimately show ?thesis using D(8) A(2,5,7-9) by (simp add: kept_def)
  qed
  ultimately show "drain_inv m0 E {t} (p\<lparr>ps_mir := m\<rparr>)"
    using A(1,5) D(3) by (simp add: drain_inv_def edges_ok_def)
qed

section \<open>One task\<close>

text \<open>
  The measure of the loops: the open tasks, then those that do not wait, then the queue.
\<close>

definition drain_measure :: "pass \<Rightarrow> nat \<times> nat \<times> nat" where
  "drain_measure p =
     (card (open_tasks (ps_mir p)), card (open_tasks (ps_mir p)) - card (dom (waits_for p)),
      length (ready_tasks p))"

definition drain_order :: "(pass \<times> pass) set" where
  "drain_order = inv_image (less_than <*lex*> less_than <*lex*> less_than) drain_measure"

lemma wf_drain_order: "wf drain_order"
  unfolding drain_order_def by (intro wf_inv_image wf_lex_prod wf_less_than)

lemma waiting_open:
  assumes "waiting_ok {} p"
  shows "dom (waits_for p) \<subseteq> open_tasks (ps_mir p)"
  using assms by (auto simp: waiting_ok_def open_tasks_def)

lemma popped_inv:
  assumes "drain_inv m0 E {} p" and "ready_tasks p = t # ts"
  shows "drain_inv m0 E {t} (pop_ready p t ts)" and "task_ok (ps_mir p) t"
    and "\<And>x d. waits_for p x = Some d \<Longrightarrow> \<not> task_done (ps_mir p) x \<and> \<not> task_done (ps_mir p) d"
proof -
  note D = drain_invD [OF assms(1)]
  show "task_ok (ps_mir p) t" using D(5) assms(2) by (simp add: queue_ok_def)
  show "waits_for p x = Some d \<Longrightarrow> \<not> task_done (ps_mir p) x \<and> \<not> task_done (ps_mir p) d" for x d
    using D(6) by (simp add: waiting_ok_def)
  have "queue_ok (pop_ready p t ts)" using D(5) assms(2) by (auto simp: queue_ok_def pop_ready_def)
  moreover have "waiting_ok {t} (pop_ready p t ts)"
    using D(6) assms(2) by (auto simp: waiting_ok_def pop_ready_def)
  moreover have "served E {t} (pop_ready p t ts)"
    using D(7) assms(2) by (auto simp: served_def pop_ready_def)
  ultimately show "drain_inv m0 E {t} (pop_ready p t ts)"
    using D by (simp add: drain_inv_def) (simp add: pop_ready_def)
qed

text \<open>A task in hand that waits already, or was put to wait, is dealt with.\<close>

lemma drop_inv:
  assumes "drain_inv m0 E {t} p" and "waits_for p t \<noteq> None"
    and "\<And>x d. waits_for p x = Some d \<Longrightarrow> \<not> task_done (ps_mir p) x \<and> \<not> task_done (ps_mir p) d"
  shows "drain_inv m0 E {} p"
proof -
  note D = drain_invD [OF assms(1)]
  have "waiting_ok {} p" using D(6) assms(2,3) unfolding waiting_ok_def by blast
  moreover have "served E {} p" using D(7) assms(2) unfolding served_def by blast
  ultimately show ?thesis using D by (simp add: drain_inv_def)
qed

lemma suspend_simps [simp]:
  "ps_import_edges (suspend t d p) = ps_import_edges p"
  "ps_mir (suspend t d p) = (ps_mir p)\<lparr>mir_waiting := bt_insert t d (mir_waiting (ps_mir p))\<rparr>"
  "sh_consumers (ps_scheduler (suspend t d p)) = (sh_consumers (ps_scheduler p))(d \<mapsto> consumers_of p d @ [t])"
  by (simp_all add: suspend_def Let_def enqueue_def consumers_of_def)

lemma suspend_queue:
  assumes "queue_sync p"
  shows "queue_sync (suspend t d p)"
    and "set (ready_tasks (suspend t d p)) = set (ready_tasks p) \<union> (if d = t \<or> waits_for p d \<noteq> None then {} else {d})"
  using assms by (auto simp: queue_sync_def suspend_def Let_def enqueue_def bt_get_insert split: if_splits)

lemma suspend_inv:
  assumes inv: "drain_inv m0 E {t} p" and t: "task_ok (ps_mir p) t" "\<not> task_done (ps_mir p) t"
    and d: "task_ok (ps_mir p) d" "\<not> task_done (ps_mir p) d"
    and waits: "\<And>x d. waits_for p x = Some d \<Longrightarrow> \<not> task_done (ps_mir p) x \<and> \<not> task_done (ps_mir p) d"
  shows "drain_inv m0 E {} (suspend t d p)"
proof -
  note D = drain_invD [OF inv]
  let ?q = "suspend t d p"
  have sync: "queue_sync p" using D(5) by (simp add: queue_ok_sync)
  note S = suspend_queue [OF sync, of t d]
  have ws: "waits_for ?q = (waits_for p)(t \<mapsto> d)" by (simp add: bt_get_insert)
  have w: "waits_for p x = Some e \<Longrightarrow> task_ok (ps_mir p) x \<and> task_ok (ps_mir p) e \<and>
      (\<exists>cs. sh_consumers (ps_scheduler p) e = Some cs \<and> x \<in> set cs) \<and>
      (e \<in> set (ready_tasks p) \<union> {t} \<or> waits_for p e \<noteq> None)" for x e
    using D(6) unfolding waiting_ok_def by blast
  have "queue_ok ?q" using S D(5) d by (auto simp: queue_ok_sync split: if_splits)
  moreover have "waiting_ok {} ?q" unfolding waiting_ok_def
  proof (intro conjI allI impI)
    show "bt_ok (mir_waiting (ps_mir ?q))" using D(6) by (simp add: waiting_ok_def bt_insert_ok)
    fix x e assume "waits_for ?q x = Some e"
    then consider "x = t" "e = d" | "x \<noteq> t" "waits_for p x = Some e" by (auto simp: bt_get_insert split: if_splits)
    then have "task_ok (ps_mir p) x \<and> task_ok (ps_mir p) e \<and> \<not> task_done (ps_mir p) x \<and> \<not> task_done (ps_mir p) e \<and>
      (\<exists>cs. sh_consumers (ps_scheduler ?q) e = Some cs \<and> x \<in> set cs) \<and>
      (e \<in> set (ready_tasks ?q) \<or> waits_for ?q e \<noteq> None)"
    proof cases
      case 1
      with t d S(2) show ?thesis by (auto simp: bt_get_insert split: if_splits)
    next
      case 2
      from w [OF 2(2)] waits [OF 2(2)] S(2) show ?thesis by (auto simp: bt_get_insert consumers_of_def)
    qed
    then show "task_ok (ps_mir ?q) x" "task_ok (ps_mir ?q) e" "\<not> task_done (ps_mir ?q) x"
      "\<not> task_done (ps_mir ?q) e" "\<exists>cs. sh_consumers (ps_scheduler ?q) e = Some cs \<and> x \<in> set cs"
      "e \<in> set (ready_tasks ?q) \<union> {} \<or> waits_for ?q e \<noteq> None" by simp_all
  qed
  moreover have "served E {} ?q"
  proof -
    have same: "task_ok (ps_mir ?q) u = task_ok (ps_mir p) u"
      "task_done (ps_mir ?q) u = task_done (ps_mir p) u" for u by simp_all
    show ?thesis unfolding served_def same ws using D(7) S(2) by (auto simp: served_def)
  qed
  moreover have "room_ok (ps_mir ?q)" "kept m0 (ps_mir ?q)" "mir_ok (ps_mir ?q)"
    "edges_ok (ps_import_edges ?q) (ps_mir ?q)"
    using D by (simp_all add: room_ok_def kept_def mir_ok_waiting edges_ok_def)
  ultimately show ?thesis by (simp add: drain_inv_def)
qed

lemma pop_simps [simp]:
  "ps_mir (pop_ready p t ts) = ps_mir p" "ready_tasks (pop_ready p t ts) = ts"
  "ps_import_edges (pop_ready p t ts) = ps_import_edges p"
  by (simp_all add: pop_ready_def)

lemma order_open: "card (open_tasks (ps_mir q)) < card (open_tasks (ps_mir p)) \<Longrightarrow> (q, p) \<in> drain_order"
  by (simp add: drain_order_def drain_measure_def)

lemma order_waits:
  assumes "open_tasks (ps_mir q) = open_tasks (ps_mir p)" and "waiting_ok {} q"
    and "card (dom (waits_for q)) = Suc (card (dom (waits_for p)))"
  shows "(q, p) \<in> drain_order"
proof -
  have "card (dom (waits_for q)) \<le> card (open_tasks (ps_mir q))"
    by (intro card_mono waiting_open assms) simp
  with assms(1,3) have "card (open_tasks (ps_mir q)) - card (dom (waits_for q)) <
      card (open_tasks (ps_mir p)) - card (dom (waits_for p))" by simp
  with assms(1) show ?thesis by (simp add: drain_order_def drain_measure_def)
qed

lemma order_ready:
  assumes "open_tasks (ps_mir q) = open_tasks (ps_mir p)" and "waits_for q = waits_for p"
    and "length (ready_tasks q) < length (ready_tasks p)"
  shows "(q, p) \<in> drain_order"
  using assms by (simp add: drain_order_def drain_measure_def)

lemma finished_task:
  assumes inv: "drain_inv m0 E {} p" and r: "ready_tasks p = t # ts" and d: "task_done (ps_mir p) t"
  shows "drain_inv m0 E {} (notify t (pop_ready p t ts))" and "(notify t (pop_ready p t ts), p) \<in> drain_order"
proof -
  let ?p = "pop_ready p t ts"
  note P = popped_inv [OF inv r]
  note N = notify_inv [OF P(1)]
  show "drain_inv m0 E {} (notify t ?p)" using N(1) d by simp
  have q: "queue_sync ?p" "bt_ok (mir_waiting (ps_mir ?p))"
    using drain_invD(5,6) [OF P(1)] by (simp_all add: queue_ok_sync waiting_ok_def)
  have "waits_for p t = None" using P(3) d by (cases "waits_for p t") auto
  moreover have "waits_for p x \<noteq> Some t" for x using P(3) [of x t] d by blast
  ultimately have no: "waits_for p t = None" "waits_for p x \<noteq> Some t" for x by blast+
  note F = notify_effect [OF q, of t]
  have "waits_for (notify t ?p) = waits_for p" using F(4) no by (auto simp: fun_eq_iff)
  moreover have "set (ready_tasks (notify t ?p)) = set ts" using F(5) no by simp
  then have "length (ready_tasks (notify t ?p)) = length ts"
    using F(6) q(1) by (simp add: queue_sync_def flip: distinct_card)
  ultimately show "(notify t ?p, p) \<in> drain_order"
    using N(2) d r by (intro order_ready) simp_all
qed

lemma drain_task_ok:
  assumes inv: "drain_inv m0 E {} p" and r: "ready_tasks p = t # ts"
  shows "\<exists>q. drain_task t (pop_ready p t ts) = Inr q \<and> drain_inv m0 E {} q \<and> (q, p) \<in> drain_order"
proof -
  let ?p = "pop_ready p t ts" and ?m = "ps_mir p"
  note D = drain_invD [OF inv] and P = popped_inv [OF inv r]
  have fin: "finished ?m t = Inr (task_done ?m t)" by (rule finished_ok [OF D(2) P(2)])
  show ?thesis
  proof (cases "task_done ?m t")
    case True
    with fin finished_task [OF inv r True] show ?thesis by (simp add: drain_task_def)
  next
    case False
    show ?thesis
    proof (cases "waits_for p t")
      case (Some d)
      have "drain_inv m0 E {} ?p" by (rule drop_inv [OF P(1)]) (use Some P(3) in simp_all)
      moreover have "(?p, p) \<in> drain_order" using r by (intro order_ready) simp_all
      ultimately show ?thesis using fin False Some by (simp add: drain_task_def)
    next
      case None
      have "t \<in> open_tasks ?m" using P(2) False by (simp add: open_tasks_def)
      then have "0 < card (open_tasks ?m)" by (subst card_gt_0_iff) auto
      then have room: "length (mir_conflicts ?m) < 2 ^ 32" using D(4) by (simp add: room_ok_def)
      have "yields ?m (\<lambda>_ m'. advanced ?m t m') (run_task (ps_import_edges p) t ?m)"
        by (rule run_task_ok [OF D(1,3) room P(2) False])
      then show ?thesis
      proof (cases rule: yieldsE)
        case (1 x m')
        have adv: "drain_inv m0 E {t} (?p\<lparr>ps_mir := m'\<rparr>)" "card (open_tasks m') < card (open_tasks ?m)"
          "task_done m' t" using advanced_inv [OF P(1), of m'] 1(2) P(2) False by simp_all
        have N: "drain_inv m0 E {} (notify t (?p\<lparr>ps_mir := m'\<rparr>))"
          "open_tasks (ps_mir (notify t (?p\<lparr>ps_mir := m'\<rparr>))) = open_tasks m'"
          using notify_inv [OF adv(1)] adv(3) by simp_all
        have "(notify t (?p\<lparr>ps_mir := m'\<rparr>), p) \<in> drain_order"
          by (rule order_open) (use N(2) adv(2) in simp)
        moreover have "run_task (ps_import_edges p) t ?m = (Inr (), m')" using 1(1) by simp
        then have "drain_task t ?p = Inr (notify t (?p\<lparr>ps_mir := m'\<rparr>))"
          unfolding drain_task_def pop_simps fin using False None by (simp split: unit.split)
        ultimately show ?thesis using N(1) by blast
      next
        case (2 d)
        have S: "drain_inv m0 E {} (suspend t d ?p)"
          by (rule suspend_inv [OF P(1)]) (use 2 P(2,3) False in simp_all)
        have "(suspend t d ?p, p) \<in> drain_order"
        proof (rule order_waits [OF _ drain_invD(6) [OF S]])
          have "dom (waits_for (suspend t d ?p)) = insert t (dom (waits_for p))" by (simp add: bt_get_insert)
          moreover have "t \<notin> dom (waits_for p)" using None by auto
          ultimately show "card (dom (waits_for (suspend t d ?p))) = Suc (card (dom (waits_for p)))"
            by (simp add: bt.dom_finite)
        qed simp
        moreover have "drain_task t ?p = Inr (suspend t d ?p)"
        proof -
          have "finished ?m d = Inr False" using finished_ok [OF D(2) 2(2)] 2(3) by simp
          then have "drain_task t ?p = Inr (suspend t d (?p\<lparr>ps_mir := ?m\<rparr>))"
            using 2(1) fin False None by (simp add: drain_task_def)
          also have "?p\<lparr>ps_mir := ?m\<rparr> = ?p" by (cases p) (simp add: pop_ready_def)
          finally show ?thesis .
        qed
        ultimately show ?thesis using S by blast
      qed
    qed
  qed
qed

section \<open>Cycles are broken\<close>

lemma break_choice_in:
  assumes "ts \<noteq> []"
  shows "\<exists>t \<in> set ts. break_choice ts = Inr t"
proof -
  have "foldl (\<lambda>a b. if break_before b a then b else a) t ts \<in> insert t (set ts)" for t ts
  proof (induction ts arbitrary: t)
    case (Cons a ts)
    from Cons.IH [of "if break_before a t then a else t"] show ?case by (auto split: if_splits)
  qed simp
  with assms show ?thesis by (cases ts) (auto simp: break_choice_def)
qed

lemma break_cycle_ok:
  assumes inv: "drain_inv m0 E {} p" and "c \<noteq> []" and unanswered: "\<forall>t \<in> set c. task_ok (ps_mir p) t \<and> \<not> task_done (ps_mir p) t"
  shows "\<exists>t q. t \<in> set c \<and> break_cycle c p = Inr q \<and> drain_inv m0 E {} q \<and>
    open_tasks (ps_mir q) = open_tasks (ps_mir p) - {t} \<and>
    card (open_tasks (ps_mir q)) < card (open_tasks (ps_mir p))"
proof -
  note D = drain_invD [OF inv]
  obtain t where t: "t \<in> set c" "break_choice c = Inr t" using break_choice_in assms(2) by blast
  obtain m where m: "deny t (ps_mir p) = Inr m" "advanced (ps_mir p) t m"
    using deny_ok [OF D(1)] unanswered t(1) by blast
  have "drain_inv m0 E {t} p"
    using D by (auto simp: drain_inv_def waiting_ok_def served_def)
  note A = advanced_inv [OF this m(2)]
  have o: "task_ok (ps_mir p) t" "\<not> task_done (ps_mir p) t" using unanswered t(1) by auto
  note N = notify_inv [OF A(1) [OF o]]
  have op: "open_tasks (ps_mir (notify t (p\<lparr>ps_mir := m\<rparr>))) = open_tasks (ps_mir p) - {t}"
    using N(2) A(3) [OF o] advanced_open [OF m(2) o(1)] by simp
  have less: "card (open_tasks m) < card (open_tasks (ps_mir p))" by (rule A(2) [OF o])
  have "open_tasks (ps_mir (notify t (p\<lparr>ps_mir := m\<rparr>))) = open_tasks m" using N(2) A(3) [OF o] by simp
  with less have "card (open_tasks (ps_mir (notify t (p\<lparr>ps_mir := m\<rparr>)))) < card (open_tasks (ps_mir p))" by simp
  with op N(1) A(3) [OF o] t m(1) show ?thesis by (auto simp: break_cycle_def)
qed

lemma break_all_ok:
  "drain_inv m0 E {} p \<Longrightarrow> \<forall>c \<in> set cs. c \<noteq> [] \<Longrightarrow> set (concat cs) \<subseteq> open_tasks (ps_mir p) \<Longrightarrow>
    distinct (concat cs) \<Longrightarrow>
    \<exists>q. foldm break_cycle cs p = Inr q \<and> drain_inv m0 E {} q \<and>
      card (open_tasks (ps_mir q)) + length cs \<le> card (open_tasks (ps_mir p))"
proof (induction cs arbitrary: p)
  case (Cons c cs)
  have "\<forall>t \<in> set c. task_ok (ps_mir p) t \<and> \<not> task_done (ps_mir p) t"
    using Cons.prems(3) by (auto simp: open_tasks_def)
  from break_cycle_ok [OF Cons.prems(1) _ this] Cons.prems(2)
  obtain t q where q: "t \<in> set c" "break_cycle c p = Inr q" "drain_inv m0 E {} q"
    "open_tasks (ps_mir q) = open_tasks (ps_mir p) - {t}"
    "card (open_tasks (ps_mir q)) < card (open_tasks (ps_mir p))" by auto
  have "set (concat cs) \<subseteq> open_tasks (ps_mir q)" "distinct (concat cs)"
    using Cons.prems(3,4) q(1,4) by auto
  from Cons.IH [OF q(3) _ this] Cons.prems(2)
  obtain r where "foldm break_cycle cs q = Inr r" "drain_inv m0 E {} r"
    "card (open_tasks (ps_mir r)) + length cs \<le> card (open_tasks (ps_mir q))" by auto
  with q show ?case by auto
qed simp

lemma break_cycles_ok:
  assumes inv: "drain_inv m0 E {} p" and "ready_tasks p = []" and "mir_waiting (ps_mir p) \<noteq> []"
  shows "\<exists>q. break_cycles p = Inr q \<and> drain_inv m0 E {} q \<and> (q, p) \<in> drain_order"
proof -
  note D = drain_invD [OF inv]
  let ?w = "mir_waiting (ps_mir p)"
  have "wait_closed ?w (set (bt_keys ?w))"
    using D(6) assms(2) by (auto simp: wait_closed_def waiting_ok_def bt_keys_dom)
  from cycles_exist [OF this assms(3)] have ne: "cycles ?w \<noteq> []" .
  have "\<forall>c \<in> set (cycles ?w). c \<noteq> []" using cycles_waiting(1) by (auto simp: wait_cycle_def)
  moreover have "set (concat (cycles ?w)) \<subseteq> open_tasks (ps_mir p)"
    using cycles_waiting(2) waiting_open [OF D(6)] by fastforce
  ultimately obtain q where q: "foldm break_cycle (cycles ?w) p = Inr q" "drain_inv m0 E {} q"
    "card (open_tasks (ps_mir q)) + length (cycles ?w) \<le> card (open_tasks (ps_mir p))"
    using break_all_ok [OF inv _ _ cycles_disjoint] by blast
  have "0 < length (cycles ?w)" using ne by simp
  with q(3) have "(q, p) \<in> drain_order" by (intro order_open) linarith
  with q ne show ?thesis by (auto simp: break_cycles_def Let_def)
qed

section \<open>Both loops\<close>

lemma drain_returns:
  "drain_inv m0 E {} p \<Longrightarrow>
    \<exists>q. drain p = Some (Inr q) \<and> drain_inv m0 E {} q \<and> ready_tasks q = [] \<and> mir_waiting (ps_mir q) = []"
proof (induction p rule: wf_induct_rule [OF wf_drain_order])
  case (1 p)
  show ?case
  proof (cases "ready_tasks p")
    case (Cons t ts)
    from drain_task_ok [OF 1(2) Cons] obtain q
      where q: "drain_task t (pop_ready p t ts) = Inr q" "drain_inv m0 E {} q" "(q, p) \<in> drain_order" by blast
    from 1(1) [OF q(3,2)] q(1) Cons show ?thesis by (subst drain.simps) simp
  next
    case Nil
    show ?thesis
    proof (cases "mir_waiting (ps_mir p) = []")
      case True
      with Nil 1(2) show ?thesis by (subst drain.simps) simp
    next
      case False
      from break_cycles_ok [OF 1(2) Nil False] obtain q
        where q: "break_cycles p = Inr q" "drain_inv m0 E {} q" "(q, p) \<in> drain_order" by blast
      from 1(1) [OF q(3,2)] q(1) Nil False show ?thesis by (subst drain.simps) simp
    qed
  qed
qed

section \<open>Guarantees\<close>

lemma card_tasks: "card {t. task_ok m t} \<le> 3 * n_symbols m + 2 * n_hir m"
proof -
  let ?S = "{..<n_symbols m}" and ?H = "{..<n_hir m}"
  let ?U = "TaskSymbol ` ?S \<union> (TaskNamespace ` ?S \<union> (TaskConstructor ` ?S \<union>
    (TaskReference ` ?H \<union> TaskConstructorNamespace ` ?H)))"
  have "t \<in> ?U" if "task_ok m t" for t using that by (cases t) auto
  then have "card {t. task_ok m t} \<le> card ?U" by (intro card_mono) auto
  also have "\<dots> \<le> card (TaskSymbol ` ?S) + (card (TaskNamespace ` ?S) + (card (TaskConstructor ` ?S) +
      (card (TaskReference ` ?H) + card (TaskConstructorNamespace ` ?H))))"
    by (intro order_trans [OF card_Un_le] add_mono order_refl)
  also have "\<dots> \<le> n_symbols m + (n_symbols m + (n_symbols m + (n_hir m + n_hir m)))"
    by (intro add_mono) (use card_image_le [of ?S] card_image_le [of ?H] in auto)
  finally show ?thesis by simp
qed

lemma room_enough:
  assumes "length (mir_conflicts m) + 3 * n_symbols m + 2 * n_hir m \<le> 2 ^ 32"
  shows "room_ok m"
proof -
  have "card (open_tasks m) \<le> card {t. task_ok m t}"
    by (rule card_mono [OF finite_tasks]) (auto simp: open_tasks_def)
  with card_tasks [of m] assms show ?thesis by (simp add: room_ok_def)
qed

lemma start_inv:
  assumes "mir_ok (ps_mir p)" and "edges_ok (ps_import_edges p) (ps_mir p)"
    and "length (mir_conflicts (ps_mir p)) + 3 * n_symbols (ps_mir p) + 2 * n_hir (ps_mir p) \<le> 2 ^ 32"
    and "queue_ok p" and "mir_waiting (ps_mir p) = []"
  shows "drain_inv (ps_mir p) (set (ready_tasks p)) {} p"
  using assms room_enough [OF assms(3)]
  by (simp add: drain_inv_def waiting_ok_def served_def kept_def queue_ok_def)

text \<open>
  C5: Symbol resolution always ends with an answer. On a well-formed graph \<open>drain\<close> returns: no step
  panics, neither assertion of the scheduler fails, the loops end, nothing waits, and every task that
  was queued has its answer, cycles included. The bound leaves a number for each conflict.
\<close>

theorem resolution_drains:
  assumes "mir_ok (ps_mir p)" and "edges_ok (ps_import_edges p) (ps_mir p)"
    and "length (mir_conflicts (ps_mir p)) + 3 * n_symbols (ps_mir p) + 2 * n_hir (ps_mir p) \<le> 2 ^ 32"
    and "queue_ok p" and "mir_waiting (ps_mir p) = []"
  shows "\<exists>q. drain p = Some (Inr q) \<and> mir_ok (ps_mir q) \<and> ready_tasks q = [] \<and>
    mir_waiting (ps_mir q) = [] \<and> (\<forall>t \<in> set (ready_tasks p). task_done (ps_mir q) t)"
proof -
  obtain q where q: "drain p = Some (Inr q)" "drain_inv (ps_mir p) (set (ready_tasks p)) {} q"
    "ready_tasks q = []" "mir_waiting (ps_mir q) = []"
    using drain_returns [OF start_inv [OF assms]] by blast
  then show ?thesis using drain_invD(1,7) [OF q(2)] by (simp add: served_def)
qed


section \<open>An example\<close>

text \<open>
  A module with \<open>def x\<close>, an export of \<open>x\<close>, and an export \<open>y\<close> that names itself: two tasks that wait for
  each other.
\<close>

definition example_variable :: "string \<Rightarrow> nat \<Rightarrow> hir_node" where
  "example_variable name slot =
     \<lparr>hn_module = 0, hn_location = \<lparr>lc_source = 0, lc_start = 0, lc_end = 0\<rparr>, hn_kind = HkVariable name,
      hn_children = [], hn_resolution = Some slot\<rparr>"

definition example_export :: "hir_id \<Rightarrow> hir_node" where
  "example_export v =
     \<lparr>hn_module = 0, hn_location = \<lparr>lc_source = 0, lc_start = 0, lc_end = 0\<rparr>,
      hn_kind = HkBinding BkExport None None,
      hn_children = [\<lparr>he_role = RoValue, he_node = v\<rparr>], hn_resolution = None\<rparr>"

definition example_symbol :: "string \<Rightarrow> symbol_kind \<Rightarrow> hir_id \<Rightarrow> resolve_state \<Rightarrow> symbol" where
  "example_symbol name k n r =
     \<lparr>sy_native_type = None, sy_module = Some 0, sy_name = name, sy_kind = k, sy_declarations = [n],
      sy_scope = Some 0, sy_resolution = r\<rparr>"

definition example_mir :: mir where
  "example_mir =
     \<lparr>mir_modules = [\<lparr>md_native = None, md_name = ''m'', md_state = MsData 0, md_imports = []\<rparr>],
      mir_imports = [],
      mir_hir = [example_export 1, example_variable ''x'' 0, example_export 3, example_variable ''y'' 1],
      mir_slots = [RsPending, RsPending],
      mir_symbols = [example_symbol ''x'' (SkDeclaration BkDef) 0 (RsBound 0),
        example_symbol ''x'' SkExport 0 RsPending, example_symbol ''y'' SkExport 2 RsPending],
      mir_scopes = [\<lparr>sc_parent = None, sc_module = 0,
        sc_bindings = [\<lparr>sb_symbol = 0, sb_after = None\<rparr>, \<lparr>sb_symbol = 2, sb_after = None\<rparr>],
        sc_open_imports = []\<rparr>],
      mir_hir_scopes = [Some 0, Some 0, Some 0, Some 0], mir_hir_symbols = [None, None, None, None],
      mir_module_scopes = [Some 0], mir_exports = [[1, 2]], mir_conflicts = [],
      mir_namespaces = [None, None, None], mir_constructors = [None, None, None],
      mir_constructor_namespaces = [None, None, None, None], mir_waiting = [],
      mir_symbols_closed = False, mir_diagnostics = []\<rparr>"

definition example_pass :: pass where
  "example_pass =
     \<lparr>ps_mir = example_mir,
      ps_scheduler = \<lparr>sh_ready = [TaskSymbol 0, TaskSymbol 1, TaskSymbol 2],
        sh_queued = {TaskSymbol 0, TaskSymbol 1, TaskSymbol 2}, sh_consumers = Map.empty\<rparr>,
      ps_import_edges = Map.empty\<rparr>"

lemma less_four: "(i::nat) < 4 \<longleftrightarrow> i = 0 \<or> i = 1 \<or> i = 2 \<or> i = 3"
  by auto

lemma example_mir_lengths:
  "n_hir example_mir = 4" "n_symbols example_mir = 3" "n_scopes example_mir = 1" "n_modules example_mir = 1"
  by (simp_all add: example_mir_def)

lemmas example_nodes = example_export_def example_variable_def example_symbol_def

lemma example_hirs: "hirs_ok example_mir"
  unfolding hirs_ok_def example_mir_lengths less_four
  by (auto simp: example_mir_def example_nodes reference_ok_def)

lemma example_graph: "graph_ok example_mir"
proof -
  have "sizes_ok example_mir" "modules_ok example_mir" "scopes_ok example_mir"
    by (simp_all add: sizes_ok_def modules_ok_def scopes_ok_def example_mir_def)
  moreover have "\<forall>s \<in> set (mir_symbols example_mir). symbol_ok example_mir s"
    "\<forall>r \<in> set (mir_slots example_mir). state_ok example_mir r"
    by (simp_all add: example_mir_def example_nodes symbol_ok_def)
  ultimately show ?thesis using example_hirs by (simp add: graph_ok_def)
qed

lemma example_mir_ok: "mir_ok example_mir"
  unfolding mir_ok_def example_mir_lengths less_three
  using example_graph by (auto simp: pending_ok_def example_mir_def example_nodes Let_def)

lemma example_pass_ok:
  "mir_ok (ps_mir example_pass)" "edges_ok (ps_import_edges example_pass) (ps_mir example_pass)"
  "length (mir_conflicts (ps_mir example_pass)) + 3 * n_symbols (ps_mir example_pass) +
     2 * n_hir (ps_mir example_pass) \<le> 2 ^ 32"
  "queue_ok example_pass" "mir_waiting (ps_mir example_pass) = []"
  using example_mir_ok
  by (simp_all add: example_pass_def edges_ok_def example_mir_lengths queue_ok_def)
    (simp_all add: example_mir_def)

lemma resolution_drains_witness:
  "\<exists>q. drain example_pass = Some (Inr q) \<and> task_done (ps_mir q) (TaskSymbol 1) \<and>
    task_done (ps_mir q) (TaskSymbol 2)"
  using resolution_drains [OF example_pass_ok] by (auto simp: example_pass_def)


end
