(* ===== verification/Resolve_Lookup.thy ===== *)
theory Resolve_Lookup
  imports Resolve_Effects
begin

text \<open>
  Lexical scoping: what \<open>lookup\<close> of \<^verbatim>\<open>symbol_resolve/closure.rs\<close> finds, stated without its loop.
\<close>

section \<open>Visible names\<close>

definition visible :: "mir \<Rightarrow> string \<Rightarrow> hir_id \<Rightarrow> scope_binding \<Rightarrow> bool" where
  "visible m name node b \<longleftrightarrow>
     sy_name (mir_symbols m ! sb_symbol b) = name \<and> (\<forall>a. sb_after b = Some a \<longrightarrow> a < node)"

text \<open>The symbols of that name exported by a module that the scope opens.\<close>

definition opens_name :: "mir \<Rightarrow> string \<Rightarrow> scope_id \<Rightarrow> symbol_id \<Rightarrow> bool" where
  "opens_name m name sc i \<longleftrightarrow>
     (\<exists>e \<in> set (sc_open_imports (mir_scopes m ! sc)). \<exists>md. ie_target (mir_imports m ! e) = MtBound md \<and>
        i \<in> set (mir_exports m ! md) \<and> sy_name (mir_symbols m ! i) = name)"

text \<open>
  \<open>outward m name node sc sc'\<close>: going outwards from \<open>sc\<close>, no scope before \<open>sc'\<close> binds or opens the name.
\<close>

inductive outward :: "mir \<Rightarrow> string \<Rightarrow> hir_id \<Rightarrow> scope_id \<Rightarrow> scope_id \<Rightarrow> bool" for m name node where
  here: "outward m name node sc sc"
| parent: "outward m name node sc sc'"
  if "\<forall>b \<in> set (sc_bindings (mir_scopes m ! sc)). \<not> visible m name node b"
    and "\<forall>i. \<not> opens_name m name sc i"
    and "sc_parent (mir_scopes m ! sc) = Some p" and "outward m name node p sc'"

section \<open>The loop finds them\<close>

lemma find_binding_none:
  "\<forall>b \<in> set bs. sb_symbol b < n_symbols m \<Longrightarrow> \<forall>b \<in> set bs. \<not> visible m name node b \<Longrightarrow>
    find_binding m name node bs = Inr None"
  by (induction bs) (auto simp: visible_def split: option.splits)

lemma find_binding_first:
  assumes "\<forall>b \<in> set (bs @ [b]). sb_symbol b < n_symbols m" and "\<forall>b \<in> set bs. \<not> visible m name node b"
    and "visible m name node b"
  shows "find_binding m name node (bs @ b # cs) = Inr (Some (sb_symbol b))"
  using assms by (induction bs) (auto simp: visible_def split: option.splits)

lemma filter_named_Inr:
  "\<forall>i \<in> set ids. i < n_symbols m \<Longrightarrow>
    filter_named m name ids = Inr (filter (\<lambda>i. sy_name (mir_symbols m ! i) = name) ids)"
  by (induction ids) auto

lemma open_candidates_none:
  assumes "graph_ok m" and "sc < n_scopes m" and none: "\<forall>i. \<not> opens_name m name sc i"
  shows "open_candidates m name (sc_open_imports (mir_scopes m ! sc)) = Inr []"
proof -
  have "open_import m name e ([], []) = Inr ([], [])" if e: "e \<in> set (sc_open_imports (mir_scopes m ! sc))" for e
  proof -
    have len: "e < length (mir_imports m)" using scopeD(4) [OF assms(1,2)] e by blast
    show ?thesis
    proof (cases "ie_target (mir_imports m ! e)")
      case (MtBound md)
      then have "md < n_modules m" using graphD(3) [OF assms(1)] len by (auto simp: modules_ok_def)
      note exports = exportsD [OF assms(1) this]
      have "filter (\<lambda>i. sy_name (mir_symbols m ! i) = name) (mir_exports m ! md) = []"
        using none e MtBound by (auto simp: opens_name_def filter_empty_conv)
      with MtBound len exports show ?thesis by (simp add: open_import_def filter_named_Inr)
    qed (use len in \<open>simp_all add: open_import_def\<close>)
  qed
  then have "foldm (open_import m name) es ([], []) = Inr ([], [])"
    if "set es \<subseteq> set (sc_open_imports (mir_scopes m ! sc))" for es
    using that by (induction es) auto
  then show ?thesis by (simp add: open_candidates_def)
qed

lemma lookup_loop_outward:
  assumes "outward m name node sc sc'" and ok: "graph_ok m"
  shows "sc < n_scopes m \<Longrightarrow> sc < fuel \<Longrightarrow>
    \<exists>fuel'. sc' < fuel' \<and> sc' < n_scopes m \<and>
      lookup_loop fuel sc node name pattern m = lookup_loop fuel' sc' node name pattern m"
  using assms(1)
proof (induction arbitrary: fuel)
  case (parent sc p sc')
  note S = scopeD [OF ok parent.prems(1)]
  have p: "p < sc" by (rule S(1) [OF parent.hyps(3)])
  obtain f where f: "fuel = Suc f" using parent.prems(2) by (cases fuel) auto
  have "find_binding m name node (rev (sc_bindings (mir_scopes m ! sc))) = Inr None"
    by (rule find_binding_none [OF S(3)]) (use parent.hyps(1) in simp)
  moreover have "open_candidates m name (sc_open_imports (mir_scopes m ! sc)) = Inr []"
    by (rule open_candidates_none [OF ok parent.prems(1) parent.hyps(2)])
  ultimately have "lookup_loop fuel sc node name pattern m = lookup_loop f p node name pattern m"
    using f parent.prems(1) parent.hyps(3) by simp
  moreover have "\<exists>fuel'. sc' < fuel' \<and> sc' < n_scopes m \<and>
      lookup_loop f p node name pattern m = lookup_loop fuel' sc' node name pattern m"
    by (rule parent.IH) (use p f parent.prems in auto)
  ultimately show ?case by simp
qed blast

text \<open>
  C19: Lexical scoping. Going outwards from the scope of a reference past scopes that neither bind nor
  open the name, the first scope with a visible binding decides: a reference means the last binding
  there that is visible at it (a \<open>let\<close> is visible to what follows it only), shadowing earlier ones and
  every import and outer scope.
\<close>

theorem lookup_innermost:
  assumes "graph_ok m" and "sc < n_scopes m" and "outward m name node sc sc'"
    and "sc_bindings (mir_scopes m ! sc') = before @ b # after" and "visible m name node b"
    and "\<forall>c \<in> set after. \<not> visible m name node c"
  shows "lookup sc node name False m = (resolve_symbol m (sb_symbol b), m)"
proof -
  obtain fuel where f: "sc' < fuel" "sc' < n_scopes m"
    "lookup sc node name False m = lookup_loop fuel sc' node name False m"
    unfolding lookup_def using lookup_loop_outward [OF assms(3,1,2), of "Suc (n_scopes m)"] assms(2) by auto
  then obtain g where g: "fuel = Suc g" by (cases fuel) auto
  have "find_binding m name node (rev after @ b # rev before) = Inr (Some (sb_symbol b))"
    by (rule find_binding_first)
      (use scopeD(3) [OF assms(1) f(2)] assms(4-6) in auto)
  then have found: "find_binding m name node (rev (sc_bindings (mir_scopes m ! sc'))) = Inr (Some (sb_symbol b))"
    using assms(4) by simp
  have "local_state m False i = resolve_symbol m i" for i
    by (cases "resolve_symbol m i") (simp_all add: local_state_def)
  then have "query (local_state m False i) m (\<lambda>s. (Inr s, m)) = (resolve_symbol m i, m)" for i
    by (simp add: query_def split: sum.split)
  with found f g show ?thesis by simp
qed

section \<open>An example\<close>

text \<open>\<open>let x = 1; let x = 2; { x }\<close>, and the same reference between the two.\<close>

definition example_scopes :: mir where
  "example_scopes =
     \<lparr>mir_modules = [\<lparr>md_native = None, md_name = ''m'', md_state = MsData 0, md_imports = []\<rparr>],
      mir_imports = [], mir_hir = [], mir_slots = [],
      mir_symbols = map (\<lambda>i. \<lparr>sy_native_type = None, sy_module = Some 0, sy_name = ''x'',
        sy_kind = SkDeclaration BkLet, sy_declarations = [], sy_scope = Some 0,
        sy_resolution = RsBound i\<rparr>) [0, 1],
      mir_scopes =
        [\<lparr>sc_parent = None, sc_module = 0, sc_bindings = [\<lparr>sb_symbol = 0, sb_after = Some 1\<rparr>,
           \<lparr>sb_symbol = 1, sb_after = Some 3\<rparr>], sc_open_imports = []\<rparr>,
         \<lparr>sc_parent = Some 0, sc_module = 0, sc_bindings = [], sc_open_imports = []\<rparr>],
      mir_hir_scopes = [], mir_hir_symbols = [], mir_module_scopes = [None], mir_exports = [[]],
      mir_conflicts = [], mir_namespaces = [None, None], mir_constructors = [None, None],
      mir_constructor_namespaces = [], mir_waiting = [], mir_symbols_closed = False,
      mir_diagnostics = []\<rparr>"

lemma less_two: "(i::nat) < 2 \<longleftrightarrow> i = 0 \<or> i = 1"
  by auto

lemma example_scopes_ok: "graph_ok example_scopes"
  unfolding graph_ok_def
  by (auto simp: sizes_ok_def hirs_ok_def modules_ok_def scopes_ok_def symbol_ok_def example_scopes_def
      less_Suc_eq)

lemma example_outward: "outward example_scopes ''x'' node 1 0"
  by (rule outward.parent [OF _ _ _ outward.here]) (simp_all add: example_scopes_def opens_name_def)

lemma lookup_innermost_witness:
  "lookup 1 4 ''x'' False example_scopes = (Inr (RsBound 1), example_scopes) \<and>
    lookup 1 2 ''x'' False example_scopes = (Inr (RsBound 0), example_scopes)"
proof -
  have scopes: "1 < n_scopes example_scopes"
    "sc_bindings (mir_scopes example_scopes ! 0) = [\<lparr>sb_symbol = 0, sb_after = Some 1\<rparr>] @
      \<lparr>sb_symbol = 1, sb_after = Some 3\<rparr> # []"
    "sc_bindings (mir_scopes example_scopes ! 0) = [] @ \<lparr>sb_symbol = 0, sb_after = Some 1\<rparr> #
      [\<lparr>sb_symbol = 1, sb_after = Some 3\<rparr>]"
    by (simp_all add: example_scopes_def)
  have "lookup 1 4 ''x'' False example_scopes = (resolve_symbol example_scopes 1, example_scopes)"
    using lookup_innermost [OF example_scopes_ok scopes(1) example_outward scopes(2)]
    by (simp add: visible_def example_scopes_def)
  moreover have "lookup 1 2 ''x'' False example_scopes = (resolve_symbol example_scopes 0, example_scopes)"
    using lookup_innermost [OF example_scopes_ok scopes(1) example_outward scopes(3)]
    by (simp add: visible_def example_scopes_def)
  moreover have "resolve_symbol example_scopes i = Inr (RsBound i)" if "i = 0 \<or> i = 1" for i
    using that by (auto simp: resolve_symbol_def symbol_at_def idx_def example_scopes_def)
  ultimately show ?thesis by simp
qed

end
