(* ===== verification/Resolve_Index.thy ===== *)
theory Resolve_Index
  imports Resolve_Steps
begin

text \<open>
  The declaration index of the symbol pass, the first half of \<^verbatim>\<open>symbol_resolve.rs\<close>: scopes, symbols, the
  walk over a module body and its exports. Panics are \<open>Inl Panic\<close>; the walk is a loop over a stack,
  as in the code, and its result is \<open>None\<close> should it not end.
\<close>

section \<open>Scopes and symbols\<close>

definition new_scope :: "module_id \<Rightarrow> scope_id option \<Rightarrow> mir \<Rightarrow> stop + (scope_id \<times> mir)" where
  "new_scope module parent m =
     (if length (mir_scopes m) < 2 ^ 32
      then Inr (length (mir_scopes m),
        m\<lparr>mir_scopes := mir_scopes m @
          [\<lparr>sc_parent = parent, sc_module = module, sc_bindings = [], sc_open_imports = []\<rparr>]\<rparr>)
      else Inl Panic)"

definition initial_resolution :: "symbol_kind \<Rightarrow> symbol_id \<Rightarrow> resolve_state" where
  "initial_resolution k i = (if k = SkImport \<or> k = SkExport \<or> k = SkPattern then RsPending else RsBound i)"

definition new_symbol ::
  "module_id option \<Rightarrow> string \<Rightarrow> symbol_kind \<Rightarrow> hir_id option \<Rightarrow> scope_id option \<Rightarrow> mir \<Rightarrow>
     stop + (symbol_id \<times> mir)" where
  "new_symbol module name k node sc m =
     (let i = length (mir_symbols m) in
      if i < 2 ^ 32
      then Inr (i, m\<lparr>mir_symbols := mir_symbols m @
        [\<lparr>sy_native_type = None, sy_module = module, sy_name = name, sy_kind = k,
          sy_declarations = (case node of None \<Rightarrow> [] | Some n \<Rightarrow> [n]), sy_scope = sc,
          sy_resolution = initial_resolution k i\<rparr>]\<rparr>)
      else Inl Panic)"

definition set_hir_scope :: "hir_id \<Rightarrow> scope_id \<Rightarrow> mir \<Rightarrow> stop + mir" where
  "set_hir_scope node sc m =
     rbind (update_at (mir_hir_scopes m) node (\<lambda>_. Some sc)) (\<lambda>xs. Inr (m\<lparr>mir_hir_scopes := xs\<rparr>))"

definition set_hir_symbol :: "hir_id \<Rightarrow> symbol_id \<Rightarrow> mir \<Rightarrow> stop + mir" where
  "set_hir_symbol node i m =
     rbind (update_at (mir_hir_symbols m) node (\<lambda>_. Some i)) (\<lambda>xs. Inr (m\<lparr>mir_hir_symbols := xs\<rparr>))"

definition push_binding :: "scope_id \<Rightarrow> scope_binding \<Rightarrow> mir \<Rightarrow> stop + mir" where
  "push_binding sc b m =
     rbind (update_at (mir_scopes m) sc (\<lambda>s. s\<lparr>sc_bindings := sc_bindings s @ [b]\<rparr>))
       (\<lambda>ss. Inr (m\<lparr>mir_scopes := ss\<rparr>))"

definition push_declaration :: "symbol_id \<Rightarrow> hir_id \<Rightarrow> mir \<Rightarrow> stop + mir" where
  "push_declaration i node m =
     rbind (update_at (mir_symbols m) i (\<lambda>s. s\<lparr>sy_declarations := sy_declarations s @ [node]\<rparr>))
       (\<lambda>ss. Inr (m\<lparr>mir_symbols := ss\<rparr>))"

text \<open>A declaration a definition of the same name completes.\<close>

definition open_declaration :: "string \<Rightarrow> symbol \<Rightarrow> bool" where
  "open_declaration name s \<longleftrightarrow>
     sy_name s = name \<and> sy_kind s = SkDeclaration BkDecl \<and> length (sy_declarations s) = 1"

fun find_declaration :: "mir \<Rightarrow> string \<Rightarrow> scope_binding list \<Rightarrow> stop + symbol_id option" where
  "find_declaration m name [] = Inr None"
| "find_declaration m name (b # bs) =
     rbind (symbol_at m (sb_symbol b)) (\<lambda>s.
       if open_declaration name s then Inr (Some (sb_symbol b)) else find_declaration m name bs)"

definition declare_symbol :: "hir_id \<Rightarrow> symbol_kind \<Rightarrow> scope_id \<Rightarrow> hir_id option \<Rightarrow> mir \<Rightarrow> stop + mir" where
  "declare_symbol node k sc after m =
     rbind (hir_at m node) (\<lambda>n.
     rbind (node_name m node) (\<lambda>name.
     rbind (if k = SkDeclaration BkDef
            then rbind (idx (mir_scopes m) sc) (\<lambda>s. find_declaration m name (sc_bindings s))
            else Inr None) (\<lambda>existing.
       case existing of
         Some i \<Rightarrow> rbind (push_declaration i node m) (set_hir_symbol node i)
       | None \<Rightarrow>
           rbind (new_symbol (Some (hn_module n)) name k (Some node) (Some sc) m) (\<lambda>(i, m).
           rbind (push_binding sc \<lparr>sb_symbol = i, sb_after = after\<rparr> m) (set_hir_symbol node i)))))"

section \<open>The walk\<close>

datatype index_pass = IpBlock | IpNode

type_synonym index_task = "hir_id \<times> scope_id \<times> index_pass"

definition index_children :: "(hir_edge \<Rightarrow> scope_id) \<Rightarrow> hir_edge list \<Rightarrow> index_task list" where
  "index_children sc es = map (\<lambda>e. (he_node e, sc e, IpNode)) es"

definition binding_kind_of :: "hir_kind \<Rightarrow> binding_kind option" where
  "binding_kind_of k = (case k of HkBinding b _ _ \<Rightarrow> Some b | _ \<Rightarrow> None)"

definition binding_symbol_kind :: "binding_kind \<Rightarrow> symbol_kind" where
  "binding_symbol_kind b = (if b = BkImport then SkImport else SkDeclaration b)"

definition declare_binding :: "scope_id \<Rightarrow> hir_edge \<Rightarrow> mir \<Rightarrow> stop + mir" where
  "declare_binding sc e m =
     (if he_role e \<noteq> RoBinding then Inr m
      else
        rbind (hir_at m (he_node e)) (\<lambda>n.
          case binding_kind_of (hn_kind n) of
            None \<Rightarrow> Inl Panic
          | Some b \<Rightarrow>
              if b = BkExport then Inr m
              else declare_symbol (he_node e) (binding_symbol_kind b) sc
                     (if b = BkLet then Some (he_node e) else None) m))"

definition index_block_node ::
  "hir_id \<Rightarrow> scope_id \<Rightarrow> index_task list \<Rightarrow> mir \<Rightarrow> stop + (index_task list \<times> mir)" where
  "index_block_node node sc pending m =
     rbind (set_hir_scope node sc m) (\<lambda>m.
     rbind (hir_at m node) (\<lambda>n.
     rbind (foldm (declare_binding sc) (hn_children n) m) (\<lambda>m.
       Inr (index_children (\<lambda>_. sc) (hn_children n) @ pending, m))))"

definition parameter_kind :: "role \<Rightarrow> symbol_kind option" where
  "parameter_kind r =
     (case r of RoTypeParameter \<Rightarrow> Some SkTypeParameter | RoParameter \<Rightarrow> Some SkParameter | _ \<Rightarrow> None)"

definition declare_parameter :: "scope_id \<Rightarrow> hir_edge \<Rightarrow> mir \<Rightarrow> stop + mir" where
  "declare_parameter sc e m =
     (case parameter_kind (he_role e) of
        None \<Rightarrow> Inr m
      | Some k \<Rightarrow> declare_symbol (he_node e) k sc None m)"

definition parameter_scope ::
  "module_id \<Rightarrow> scope_id \<Rightarrow> hir_edge list \<Rightarrow> mir \<Rightarrow> stop + (scope_id \<times> mir)" where
  "parameter_scope module sc es m =
     (if list_ex (\<lambda>e. parameter_kind (he_role e) \<noteq> None) es then
        rbind (new_scope module (Some sc) m) (\<lambda>(nested, m).
        rbind (foldm (declare_parameter nested) es m) (\<lambda>m. Inr (nested, m)))
      else Inr (sc, m))"

text \<open>How the walk treats a node.\<close>

datatype index_class = IcBlock | IcParameters | IcCondition | IcArm | IcPattern | IcPlain

definition index_class :: "hir_kind \<Rightarrow> index_class" where
  "index_class k =
     (case k of HkBlock \<Rightarrow> IcBlock | HkBinding _ _ _ \<Rightarrow> IcParameters | HkClosure \<Rightarrow> IcParameters
      | HkIfLet \<Rightarrow> IcCondition | HkLetElse \<Rightarrow> IcCondition | HkMatchArm _ \<Rightarrow> IcArm
      | HkPatternName _ \<Rightarrow> IcPattern | _ \<Rightarrow> IcPlain)"

definition arm_scope :: "index_class \<Rightarrow> scope_id \<Rightarrow> scope_id \<Rightarrow> hir_edge \<Rightarrow> scope_id" where
  "arm_scope c nested sc e =
     (if he_role e = RoPattern \<or> he_role e = RoThen \<or> he_role e = RoBody \<or> he_role e = RoGuard \<or> c = IcArm
      then nested else sc)"

definition index_node ::
  "hir_id \<Rightarrow> scope_id \<Rightarrow> index_task list \<Rightarrow> mir \<Rightarrow> stop + (index_task list \<times> mir)" where
  "index_node node sc pending m =
     rbind (set_hir_scope node sc m) (\<lambda>m.
     rbind (hir_at m node) (\<lambda>n.
       case index_class (hn_kind n) of
         IcBlock \<Rightarrow>
           rbind (new_scope (hn_module n) (Some sc) m) (\<lambda>(child, m). Inr ((node, child, IpBlock) # pending, m))
       | IcParameters \<Rightarrow>
           rbind (parameter_scope (hn_module n) sc (hn_children n) m) (\<lambda>(nested, m).
             Inr (index_children (\<lambda>_. nested) (hn_children n) @ pending, m))
       | IcPattern \<Rightarrow> rbind (declare_symbol node SkPattern sc None m) (\<lambda>m. Inr (pending, m))
       | IcPlain \<Rightarrow> Inr (index_children (\<lambda>_. sc) (hn_children n) @ pending, m)
       | c \<Rightarrow>
           rbind (new_scope (hn_module n) (Some sc) m) (\<lambda>(nested, m).
             Inr (index_children (arm_scope c nested sc) (hn_children n) @ pending, m))))"

fun index_step :: "index_task \<Rightarrow> index_task list \<Rightarrow> mir \<Rightarrow> stop + (index_task list \<times> mir)" where
  "index_step (node, sc, IpBlock) pending m = index_block_node node sc pending m"
| "index_step (node, sc, IpNode) pending m = index_node node sc pending m"

partial_function (option) index_loop :: "index_task list \<Rightarrow> mir \<Rightarrow> (stop + mir) option" where
  "index_loop tasks m =
     (case tasks of
        [] \<Rightarrow> Some (Inr m)
      | t # pending \<Rightarrow>
          (case index_step t pending m of
             Inl e \<Rightarrow> Some (Inl e)
           | Inr (pending, m) \<Rightarrow> index_loop pending m))"

definition index_block :: "hir_id \<Rightarrow> scope_id \<Rightarrow> mir \<Rightarrow> (stop + mir) option" where
  "index_block node sc m = index_loop [(node, sc, IpBlock)] m"

section \<open>Exports\<close>

definition push_export :: "module_id \<Rightarrow> symbol_id \<Rightarrow> mir \<Rightarrow> stop + mir" where
  "push_export module i m =
     rbind (update_at (mir_exports m) module (\<lambda>is. is @ [i])) (\<lambda>es. Inr (m\<lparr>mir_exports := es\<rparr>))"

definition declare_export :: "module_id \<Rightarrow> hir_id \<Rightarrow> hir_id \<Rightarrow> mir \<Rightarrow> stop + mir" where
  "declare_export module node name_node m =
     rbind (node_name m name_node) (\<lambda>name.
     rbind (idx (mir_module_scopes m) module) (\<lambda>sc.
     rbind (new_symbol (Some module) name SkExport (Some node) sc m) (\<lambda>(i, m). push_export module i m)))"

definition index_export :: "module_id \<Rightarrow> hir_edge \<Rightarrow> mir \<Rightarrow> stop + mir" where
  "index_export module e m =
     (if he_role e \<noteq> RoBinding then Inr m
      else
        rbind (hir_at m (he_node e)) (\<lambda>n.
          if binding_kind_of (hn_kind n) \<noteq> Some BkExport then Inr m
          else
            rbind (child m (he_node e) RoName) (\<lambda>name.
              case name of None \<Rightarrow> Inr m | Some name \<Rightarrow> declare_export module (he_node e) name m)))"

definition index_exports :: "module_id \<Rightarrow> hir_id \<Rightarrow> mir \<Rightarrow> stop + mir" where
  "index_exports module body m =
     rbind (hir_at m body) (\<lambda>n. foldm (index_export module) (hn_children n) m)"

section \<open>Modules\<close>

definition module_body :: "module_state \<Rightarrow> hir_id option" where
  "module_body s = (case s of MsSource body \<Rightarrow> Some body | MsData body \<Rightarrow> Some body | _ \<Rightarrow> None)"

text \<open>The imports without syntax, which every scope lookup of the module falls back to.\<close>

fun implicit_imports :: "mir \<Rightarrow> nat list \<Rightarrow> stop + nat list" where
  "implicit_imports m [] = Inr []"
| "implicit_imports m (e # es) =
     rbind (idx (mir_imports m) e) (\<lambda>edge.
     rbind (implicit_imports m es) (\<lambda>rest. Inr (if ie_syntax edge = None then e # rest else rest)))"

definition set_module_scope :: "nat \<Rightarrow> scope_id \<Rightarrow> mir \<Rightarrow> stop + mir" where
  "set_module_scope index sc m =
     rbind (update_at (mir_module_scopes m) index (\<lambda>_. Some sc)) (\<lambda>xs. Inr (m\<lparr>mir_module_scopes := xs\<rparr>))"

definition extend_open_imports :: "scope_id \<Rightarrow> nat list \<Rightarrow> mir \<Rightarrow> stop + mir" where
  "extend_open_imports sc es m =
     rbind (update_at (mir_scopes m) sc (\<lambda>s. s\<lparr>sc_open_imports := sc_open_imports s @ es\<rparr>))
       (\<lambda>ss. Inr (m\<lparr>mir_scopes := ss\<rparr>))"

definition index_body :: "nat \<Rightarrow> hir_id \<Rightarrow> mir \<Rightarrow> (stop + mir) option" where
  "index_body index body m =
     (let module = index mod 2 ^ 32 in
      obind (Some (new_scope module None m)) (\<lambda>(sc, m).
      obind (Some (set_module_scope index sc m)) (\<lambda>m.
      obind (index_block body sc m) (\<lambda>m.
      Some (rbind (idx (mir_modules m) index) (\<lambda>md.
        rbind (implicit_imports m (md_imports md)) (\<lambda>implicit.
        rbind (extend_open_imports sc implicit m) (index_exports module body))))))))"

definition index_module :: "nat \<Rightarrow> mir \<Rightarrow> (stop + mir) option" where
  "index_module index m =
     obind (Some (idx (mir_modules m) index)) (\<lambda>md.
       case module_body (md_state md) of None \<Rightarrow> Some (Inr m) | Some body \<Rightarrow> index_body index body m)"

fun index_modules :: "nat list \<Rightarrow> mir \<Rightarrow> (stop + mir) option" where
  "index_modules [] m = Some (Inr m)"
| "index_modules (i # is) m = obind (index_module i m) (index_modules is)"

end
