(* ===== verification/Resolve_Pass.thy ===== *)
theory Resolve_Pass
  imports Resolve_Index Resolve_Schedule "HOL-Library.List_Lexorder" "HOL-Library.Char_ord"
    "HOL-Library.Product_Lexorder"
begin

text \<open>
  The symbol pass as a whole, the second half of \<^verbatim>\<open>symbol_resolve.rs\<close>: native types, duplicate names, and
  \<open>resolve\<close>, which indexes the modules, resolves the symbols, and then the references. Left out is
  the presentation of the diagnostics at the very end, where they are sorted by their text and
  repeated ones dropped.
\<close>

section \<open>Native types\<close>

definition run_effect :: "'a effect \<Rightarrow> stop + ('a \<times> mir)" where
  "run_effect e = (case fst e of Inl s \<Rightarrow> Inl s | Inr x \<Rightarrow> Inr (x, snd e))"

definition note_at :: "resolve_message \<Rightarrow> hir_id \<Rightarrow> mir \<Rightarrow> stop + mir" where
  "note_at msg node m = rbind (run_effect (diagnose msg node m)) (\<lambda>(_, m). Inr m)"

definition set_symbol_native :: "symbol_id \<Rightarrow> native_type_id \<Rightarrow> mir \<Rightarrow> stop + mir" where
  "set_symbol_native i t m =
     rbind (update_at (mir_symbols m) i (\<lambda>s. s\<lparr>sy_native_type := Some t\<rparr>)) (\<lambda>ss. Inr (m\<lparr>mir_symbols := ss\<rparr>))"

definition native_slot :: "mir \<Rightarrow> symbol \<Rightarrow> stop + (hir_id \<times> i64)" where
  "native_slot m s =
     rbind (idx (sy_declarations s) 0) (\<lambda>declaration.
     rbind (child m declaration RoValue) (\<lambda>v.
     rbind (unwrap v) (\<lambda>v.
     rbind (hir_at m v) (\<lambda>n. case hn_kind n of HkNativeTypeSlot slot \<Rightarrow> Inr (v, slot) | _ \<Rightarrow> Inl Panic))))"

definition registered_in :: "modul \<Rightarrow> u32 \<Rightarrow> native_type_id option" where
  "registered_in md slot =
     (case md_native md of
        None \<Rightarrow> None
      | Some native \<Rightarrow>
          if list_ex (\<lambda>(s, _). s = slot) (nm_types native)
          then Some \<lparr>nt_module = nm_id native, nt_slot = slot\<rparr>
          else None)"

definition registered_slot :: "mir \<Rightarrow> module_id \<Rightarrow> i64 \<Rightarrow> stop + native_type_id option" where
  "registered_slot m module slot =
     (if 0 \<le> sint slot \<and> sint slot < 2 ^ 32
      then rbind (idx (mir_modules m) module) (\<lambda>md. Inr (registered_in md (ucast slot)))
      else Inr None)"

type_synonym native_slots = "(u32 \<times> u32, symbol_id list) btree"

definition link_symbol :: "symbol_id \<Rightarrow> mir \<times> native_slots \<Rightarrow> stop + (mir \<times> native_slots)" where
  "link_symbol index = (\<lambda>(m, slots).
     rbind (symbol_at m index) (\<lambda>s.
       if sy_kind s \<noteq> SkDeclaration BkNativeType then Inr (m, slots)
       else
         rbind (unwrap (sy_module s)) (\<lambda>module.
         rbind (native_slot m s) (\<lambda>(v, slot).
         rbind (registered_slot m module slot) (\<lambda>registered.
           case registered of
             Some t \<Rightarrow>
               rbind (set_symbol_native index t m) (\<lambda>m.
                 Inr (m, bt_push (nt_module t, nt_slot t) (index mod 2 ^ 32) slots))
           | None \<Rightarrow>
               rbind (set_symbol_resolution index RsUnresolved m) (\<lambda>m.
               rbind (note_at MsgNativeSlotUnregistered v m) (\<lambda>m. Inr (m, slots))))))))"

text \<open>The \<open>Debug\<close> form of a native type.\<close>

fun show_decimal :: "nat \<Rightarrow> string" where
  "show_decimal n =
     (if n < 10 then [char_of (48 + n)] else show_decimal (n div 10) @ [char_of (48 + n mod 10)])"

declare show_decimal.simps [simp del]

definition native_slot_name :: "u32 \<times> u32 \<Rightarrow> string" where
  "native_slot_name t =
     ''native slot NativeTypeId { module: '' @ show_decimal (unat (fst t)) @ '', slot: '' @
     show_decimal (unat (snd t)) @ '' }''"

definition first_declaration :: "mir \<Rightarrow> symbol_id \<Rightarrow> stop + hir_id" where
  "first_declaration m i = rbind (symbol_at m i) (\<lambda>s. idx (sy_declarations s) 0)"

definition mark_native :: "conflict_id \<Rightarrow> symbol_id \<Rightarrow> mir \<Rightarrow> stop + mir" where
  "mark_native c i m =
     rbind (set_symbol_resolution i (RsConflicted c) m) (\<lambda>m.
     rbind (first_declaration m i) (\<lambda>d. note_at MsgNativeSlotDuplicate d m))"

definition native_duplicates :: "(u32 \<times> u32) \<times> symbol_id list \<Rightarrow> mir \<Rightarrow> stop + mir" where
  "native_duplicates = (\<lambda>(native, symbols) m.
     if length symbols < 2 then Inr m
     else
       foldm (mark_native (length (mir_conflicts m) mod 2 ^ 32)) symbols
         (m\<lparr>mir_conflicts := mir_conflicts m @ [DuplicateDefinition (native_slot_name native) symbols]\<rparr>))"

definition link_native_types :: "mir \<Rightarrow> stop + mir" where
  "link_native_types m =
     rbind (foldm link_symbol [0..<length (mir_symbols m)] (m, [])) (\<lambda>(m, slots).
       foldm native_duplicates slots m)"

section \<open>Duplicate names\<close>

type_synonym name_groups = "(string, symbol_id list) btree"

definition group_binding :: "bool \<Rightarrow> mir \<Rightarrow> scope_binding \<Rightarrow> name_groups \<Rightarrow> stop + name_groups" where
  "group_binding patterns m b groups =
     rbind (symbol_at m (sb_symbol b)) (\<lambda>s.
       Inr (if (sy_kind s = SkPattern) \<noteq> patterns then groups
            else if patterns \<and> sy_resolution s \<noteq> RsBound (sb_symbol b) then groups
            else if sb_after b = None then bt_push (sy_name s) (sb_symbol b) groups
            else groups))"

fun all_type_parameters :: "mir \<Rightarrow> symbol_id list \<Rightarrow> stop + bool" where
  "all_type_parameters m [] = Inr True"
| "all_type_parameters m (i # is) =
     rbind (symbol_at m i) (\<lambda>s. if sy_kind s = SkTypeParameter then all_type_parameters m is else Inr False)"

definition duplicate_description :: "bool \<Rightarrow> bool \<Rightarrow> string" where
  "duplicate_description parameters patterns =
     (if parameters then ''type parameter'' else if patterns then ''pattern binding'' else ''definition'')"

definition set_resolutions :: "resolve_state \<Rightarrow> symbol_id list \<Rightarrow> mir \<Rightarrow> stop + mir" where
  "set_resolutions r ids m = foldm (\<lambda>i. set_symbol_resolution i r) ids m"

definition note_duplicate :: "bool \<Rightarrow> string \<Rightarrow> symbol_id list \<Rightarrow> mir \<Rightarrow> stop + mir" where
  "note_duplicate patterns name ids m =
     rbind (idx ids 0) (\<lambda>a. rbind (first_declaration m a) (\<lambda>first.
     rbind (idx ids 1) (\<lambda>b. rbind (first_declaration m b) (\<lambda>second.
     rbind (all_type_parameters m ids) (\<lambda>parameters.
     rbind (hir_at m second) (\<lambda>n2. rbind (hir_at m first) (\<lambda>n1.
       Inr (m\<lparr>mir_diagnostics := mir_diagnostics m @
         [\<lparr>rd_message = MsgDuplicate (duplicate_description parameters patterns) name,
           rd_locs = [hn_location n2, hn_location n1]\<rparr>]\<rparr>))))))))"

definition scope_duplicates :: "bool \<Rightarrow> string \<times> symbol_id list \<Rightarrow> mir \<Rightarrow> stop + mir" where
  "scope_duplicates patterns = (\<lambda>(name, ids) m.
     if length ids < 2 then Inr m
     else
       rbind (run_effect (conflict (DuplicateDefinition name ids) m)) (\<lambda>(state, m).
       rbind (note_duplicate patterns name ids m) (set_resolutions state ids)))"

definition diagnose_scope :: "bool \<Rightarrow> scope_id \<Rightarrow> mir \<Rightarrow> stop + mir" where
  "diagnose_scope patterns sc m =
     rbind (idx (mir_scopes m) sc) (\<lambda>s.
     rbind (foldm (group_binding patterns m) (sc_bindings s) []) (\<lambda>groups.
       foldm (scope_duplicates patterns) groups m))"

definition group_export :: "mir \<Rightarrow> symbol_id \<Rightarrow> name_groups \<Rightarrow> stop + name_groups" where
  "group_export m i groups = rbind (symbol_at m i) (\<lambda>s. Inr (bt_push (sy_name s) i groups))"

definition export_duplicates :: "string \<times> symbol_id list \<Rightarrow> mir \<Rightarrow> stop + mir" where
  "export_duplicates = (\<lambda>(name, ids) m.
     if length ids < 2 then Inr m
     else
       rbind (run_effect (conflict (DuplicateDefinition name ids) m)) (\<lambda>(state, m).
       rbind (idx ids 1) (\<lambda>b. rbind (first_declaration m b) (\<lambda>d.
       rbind (note_at (MsgDuplicateExport name) d m) (set_resolutions state ids)))))"

definition diagnose_exports :: "nat \<Rightarrow> mir \<Rightarrow> stop + mir" where
  "diagnose_exports module m =
     rbind (idx (mir_exports m) module) (\<lambda>ids.
     rbind (foldm (group_export m) ids []) (\<lambda>groups. foldm export_duplicates groups m))"

definition diagnose_duplicates :: "bool \<Rightarrow> mir \<Rightarrow> stop + mir" where
  "diagnose_duplicates patterns m =
     rbind (foldm (diagnose_scope patterns) [0..<length (mir_scopes m)] m) (\<lambda>m.
       if patterns then Inr m else foldm diagnose_exports [0..<length (mir_exports m)] m)"

section \<open>The pass\<close>

definition resized :: "nat \<Rightarrow> 'a \<Rightarrow> 'a list \<Rightarrow> 'a list" where
  "resized n x xs = take n xs @ replicate (n - length xs) x"

definition import_edge_map :: "import_edge list \<Rightarrow> (hir_id \<rightharpoonup> nat)" where
  "import_edge_map es =
     foldl (\<lambda>f (i, e). case ie_syntax e of Some s \<Rightarrow> f(s \<mapsto> i) | None \<Rightarrow> f) Map.empty (enumerate 0 es)"

definition open_graph :: "mir \<Rightarrow> stop + mir" where
  "open_graph m =
     (if mir_symbols_closed m \<or> mir_symbols m \<noteq> [] then Inl Panic
      else Inr (m\<lparr>mir_hir_scopes := resized (length (mir_hir m)) None (mir_hir_scopes m),
        mir_hir_symbols := resized (length (mir_hir m)) None (mir_hir_symbols m),
        mir_module_scopes := resized (length (mir_modules m)) None (mir_module_scopes m),
        mir_exports := resized (length (mir_modules m)) [] (mir_exports m)\<rparr>))"

definition size_facts :: "mir \<Rightarrow> mir" where
  "size_facts m =
     m\<lparr>mir_namespaces := resized (length (mir_symbols m)) None (mir_namespaces m),
       mir_constructors := resized (length (mir_symbols m)) None (mir_constructors m),
       mir_constructor_namespaces := resized (length (mir_hir m)) None (mir_constructor_namespaces m)\<rparr>"

text \<open>Everything before the symbols are resolved.\<close>

definition prepare :: "mir \<Rightarrow> (stop + mir) option" where
  "prepare m =
     obind (Some (open_graph m)) (\<lambda>m.
     obind (index_modules [0..<length (mir_modules m)] m) (\<lambda>m.
     Some (rbind (link_native_types m) (\<lambda>m.
       rbind (diagnose_duplicates False m) (\<lambda>m. Inr (size_facts m))))))"

definition enqueue_all :: "resolve_task list \<Rightarrow> pass \<Rightarrow> pass" where
  "enqueue_all ts p = p\<lparr>ps_scheduler := fold enqueue ts (ps_scheduler p)\<rparr>"

text \<open>What is said of an import or an export that is still without a target.\<close>

definition imported_name :: "hir_kind \<Rightarrow> string \<Rightarrow> string" where
  "imported_name k name = (case k of HkBinding _ _ (Some imported) \<Rightarrow> imported | _ \<Rightarrow> name)"

definition unresolved_message ::
  "(hir_id \<rightharpoonup> nat) \<Rightarrow> symbol \<Rightarrow> hir_id \<Rightarrow> hir_node \<Rightarrow> mir \<Rightarrow> stop + resolve_message" where
  "unresolved_message edges s declaration n m =
     (if sy_kind s = SkImport then
        (let imported = imported_name (hn_kind n) (sy_name s) in
         case edges declaration of
           Some e \<Rightarrow> rbind (idx (mir_imports m) e) (\<lambda>edge. Inr (MsgUnknownImportFrom imported (ie_request edge)))
         | None \<Rightarrow> Inr (MsgUnknownImport imported))
      else Inr (MsgUnknownExport (sy_name s)))"

definition report_symbol :: "(hir_id \<rightharpoonup> nat) \<Rightarrow> symbol_id \<Rightarrow> mir \<Rightarrow> stop + mir" where
  "report_symbol edges i m =
     rbind (symbol_at m i) (\<lambda>s.
       if sy_resolution s = RsUnresolved \<and> (sy_kind s = SkImport \<or> sy_kind s = SkExport) then
         rbind (idx (sy_declarations s) 0) (\<lambda>declaration.
         rbind (hir_at m declaration) (\<lambda>n.
         rbind (unresolved_message edges s declaration n m) (\<lambda>msg. note_at msg declaration m)))
       else Inr m)"

definition report_symbols :: "(hir_id \<rightharpoonup> nat) \<Rightarrow> mir \<Rightarrow> stop + mir" where
  "report_symbols edges m = foldm (report_symbol edges) [0..<length (mir_symbols m)] m"

text \<open>The name a reference shows.\<close>

definition reference_name :: "mir \<Rightarrow> hir_node \<Rightarrow> stop + string option" where
  "reference_name m n =
     (case hn_kind n of
        HkVariable name \<Rightarrow> Inr (Some name)
      | HkPatternName name \<Rightarrow> Inr (Some name)
      | HkName name \<Rightarrow> Inr (Some name)
      | HkStaticPath path \<Rightarrow> Inr (if path = [] then None else Some (last path))
      | HkField \<Rightarrow>
          (case find_child (hn_children n) RoName of
             None \<Rightarrow> Inr None
           | Some c \<Rightarrow> rbind (hir_at m c) (\<lambda>cn. Inr (case hn_kind cn of HkName name \<Rightarrow> Some name | _ \<Rightarrow> None)))
      | _ \<Rightarrow> Inr None)"

definition report_reference :: "hir_id \<Rightarrow> mir \<Rightarrow> stop + mir" where
  "report_reference i m =
     rbind (hir_at m i) (\<lambda>n.
       case hn_resolution n of
         None \<Rightarrow> Inr m
       | Some slot \<Rightarrow>
           rbind (idx (mir_slots m) slot) (\<lambda>state.
             if state = RsPending then Inl Panic
             else if state = RsUnresolved then
               rbind (reference_name m n) (\<lambda>name.
                 case name of None \<Rightarrow> Inr m | Some name \<Rightarrow> note_at (MsgUnknownBinding name) i m)
             else Inr m))"

definition close_graph :: "mir \<Rightarrow> stop + mir" where
  "close_graph m =
     rbind (foldm report_reference [0..<length (mir_hir m)] m) (\<lambda>m.
       if list_all (\<lambda>s. sy_resolution s \<noteq> RsPending) (mir_symbols m)
       then Inr (m\<lparr>mir_symbols_closed := True\<rparr>)
       else Inl Panic)"

definition symbol_tasks :: "mir \<Rightarrow> resolve_task list" where
  "symbol_tasks m = map (\<lambda>i. TaskSymbol (i mod 2 ^ 32)) [0..<length (mir_symbols m)]"

definition reference_tasks :: "mir \<Rightarrow> resolve_task list" where
  "reference_tasks m =
     map (\<lambda>i. TaskReference (i mod 2 ^ 32))
       (filter (\<lambda>i. hn_resolution (mir_hir m ! i) \<noteq> None) [0..<length (mir_hir m)])"

definition initial_pass :: "(hir_id \<rightharpoonup> nat) \<Rightarrow> mir \<Rightarrow> pass" where
  "initial_pass edges m =
     enqueue_all (symbol_tasks m)
       \<lparr>ps_mir = m, ps_scheduler = scheduler_default, ps_import_edges = edges\<rparr>"

definition resolve :: "mir \<Rightarrow> (stop + mir) option" where
  "resolve m =
     obind (prepare m) (\<lambda>m.
     obind (drain (initial_pass (import_edge_map (mir_imports m)) m)) (\<lambda>p.
     obind (Some (report_symbols (ps_import_edges p) (ps_mir p))) (\<lambda>m.
     obind (Some (diagnose_duplicates True m)) (\<lambda>m.
     obind (drain (enqueue_all (reference_tasks m) (p\<lparr>ps_mir := m\<rparr>))) (\<lambda>p.
       Some (close_graph (ps_mir p)))))))"

end
