(* ===== verification/Resolve_Indexed.thy ===== *)
theory Resolve_Indexed
  imports Resolve_Index Resolve_Facts "HOL-Library.Multiset"
begin

text \<open>
  The index is total and well-formed: on the syntax that lowering builds the walk over a module body
  ends without a panic, every node it reaches is in a scope, and every symbol has the names,
  declarations and first answer of its kind.
\<close>

section \<open>The syntax\<close>

definition native_value :: "mir \<Rightarrow> hir_id \<Rightarrow> bool" where
  "native_value m n \<longleftrightarrow> (\<exists>v slot. find_child (hn_children (mir_hir m ! n)) RoValue = Some v \<and>
     hn_kind (mir_hir m ! v) = HkNativeTypeSlot slot)"

text \<open>A binding of a block.\<close>

definition binding_raw :: "mir \<Rightarrow> hir_id \<Rightarrow> bool" where
  "binding_raw m n \<longleftrightarrow>
     (case binding_kind_of (hn_kind (mir_hir m ! n)) of
        None \<Rightarrow> False
      | Some b \<Rightarrow>
          (if b = BkExport
           then \<forall>c. find_child (hn_children (mir_hir m ! n)) RoName = Some c \<longrightarrow> named_node m c
           else named_node m n) \<and>
          (b = BkNativeType \<longrightarrow> native_value m n))"

definition node_raw :: "mir \<Rightarrow> hir_id \<Rightarrow> bool" where
  "node_raw m i \<longleftrightarrow>
     (\<forall>e \<in> set (hn_children (mir_hir m ! i)). he_node e < i) \<and>
     hn_module (mir_hir m ! i) < n_modules m \<and>
     (hn_kind (mir_hir m ! i) = HkBlock \<longrightarrow>
        (\<forall>e \<in> set (hn_children (mir_hir m ! i)). he_role e = RoBinding \<longrightarrow> binding_raw m (he_node e))) \<and>
     (index_class (hn_kind (mir_hir m ! i)) = IcParameters \<longrightarrow>
        (\<forall>e \<in> set (hn_children (mir_hir m ! i)). parameter_kind (he_role e) \<noteq> None \<longrightarrow> named_node m (he_node e))) \<and>
     (index_class (hn_kind (mir_hir m ! i)) = IcPattern \<longrightarrow> named_node m i)"

definition module_raw :: "mir \<Rightarrow> modul \<Rightarrow> bool" where
  "module_raw m md \<longleftrightarrow>
     (\<forall>b. module_body (md_state md) = Some b \<longrightarrow> b < n_hir m \<and> hn_kind (mir_hir m ! b) = HkBlock) \<and>
     (\<forall>e \<in> set (md_imports md). e < length (mir_imports m))"

definition syntax_ok :: "mir \<Rightarrow> bool" where
  "syntax_ok m \<longleftrightarrow> (\<forall>i < n_hir m. node_raw m i) \<and> (\<forall>md \<in> set (mir_modules m). module_raw m md)"

lemma syntaxD:
  assumes "syntax_ok m" and "i < n_hir m"
  shows "e \<in> set (hn_children (mir_hir m ! i)) \<Longrightarrow> he_node e < i"
    and "e \<in> set (hn_children (mir_hir m ! i)) \<Longrightarrow> he_node e < n_hir m"
    and "hn_module (mir_hir m ! i) < n_modules m"
    and "hn_kind (mir_hir m ! i) = HkBlock \<Longrightarrow> e \<in> set (hn_children (mir_hir m ! i)) \<Longrightarrow>
      he_role e = RoBinding \<Longrightarrow> binding_raw m (he_node e)"
    and "index_class (hn_kind (mir_hir m ! i)) = IcParameters \<Longrightarrow> e \<in> set (hn_children (mir_hir m ! i)) \<Longrightarrow>
      parameter_kind (he_role e) \<noteq> None \<Longrightarrow> named_node m (he_node e)"
    and "index_class (hn_kind (mir_hir m ! i)) = IcPattern \<Longrightarrow> named_node m i"
  using assms by (fastforce simp: syntax_ok_def node_raw_def)+

lemma find_child_in: "find_child es r = Some c \<Longrightarrow> \<exists>e \<in> set es. he_node e = c"
  by (auto simp: find_child_def find_Some_iff)

lemma syntax_child:
  "syntax_ok m \<Longrightarrow> n < n_hir m \<Longrightarrow> find_child (hn_children (mir_hir m ! n)) r = Some c \<Longrightarrow> c < n_hir m"
  using find_child_in syntaxD(2) by blast

lemma syntax_named:
  assumes "syntax_ok m" and "n < n_hir m" and "named_node m n"
  shows "\<exists>name. node_name m n = Inr name"
proof (cases "find_child (hn_children (mir_hir m ! n)) RoName")
  case (Some c)
  with syntax_child [OF assms(1,2) Some] assms(2,3) show ?thesis
    by (auto simp: node_name_def named_node_def)
qed (use assms in \<open>auto simp: node_name_def named_node_def\<close>)

section \<open>Invariant\<close>

definition fresh_symbol :: "mir \<Rightarrow> symbol_id \<Rightarrow> symbol \<Rightarrow> bool" where
  "fresh_symbol m i s \<longleftrightarrow>
     sy_declarations s \<noteq> [] \<and> (\<forall>n \<in> set (sy_declarations s). n < n_hir m) \<and>
     sy_native_type s = None \<and> (\<exists>md < n_modules m. sy_module s = Some md) \<and>
     (\<exists>sc < n_scopes m. sy_scope s = Some sc) \<and>
     sy_resolution s = initial_resolution (sy_kind s) i \<and> (\<forall>md. sy_kind s \<noteq> SkNamespace md) \<and>
     (sy_kind s = SkImport \<longrightarrow> is_binding (hn_kind (mir_hir m ! hd (sy_declarations s)))) \<and>
     (sy_kind s = SkDeclaration BkNativeType \<longrightarrow> native_value m (hd (sy_declarations s))) \<and>
     (sy_kind s \<noteq> SkExport \<longrightarrow> (\<forall>n \<in> set (sy_declarations s). node_name m n = Inr (sy_name s)))"

text \<open>The symbols that scopes and exports list. No symbol is listed twice.\<close>

definition bound_symbols :: "mir \<Rightarrow> symbol_id list" where
  "bound_symbols m = concat (map (map sb_symbol \<circ> sc_bindings) (mir_scopes m)) @ concat (mir_exports m)"

definition index_ok :: "mir \<Rightarrow> bool" where
  "index_ok m \<longleftrightarrow> syntax_ok m \<and> scopes_ok m \<and> distinct (bound_symbols m) \<and>
     length (mir_hir_scopes m) = n_hir m \<and> length (mir_hir_symbols m) = n_hir m \<and>
     length (mir_module_scopes m) = n_modules m \<and> length (mir_exports m) = n_modules m \<and>
     (\<forall>i < n_symbols m. fresh_symbol m i (mir_symbols m ! i)) \<and>
     (\<forall>i sc. i < n_hir m \<longrightarrow> mir_hir_scopes m ! i = Some sc \<longrightarrow> sc < n_scopes m) \<and>
     (\<forall>i s. i < n_hir m \<longrightarrow> mir_hir_symbols m ! i = Some s \<longrightarrow>
        s < n_symbols m \<and> i \<in> set (sy_declarations (mir_symbols m ! s))) \<and>
     (\<forall>sc. Some sc \<in> set (mir_module_scopes m) \<longrightarrow> sc < n_scopes m) \<and>
     (\<forall>ids \<in> set (mir_exports m). \<forall>i \<in> set ids. i < n_symbols m)"

lemma index_okD:
  assumes "index_ok m"
  shows "syntax_ok m" and "scopes_ok m" and "length (mir_hir_scopes m) = n_hir m"
    and "length (mir_hir_symbols m) = n_hir m" and "length (mir_module_scopes m) = n_modules m"
    and "length (mir_exports m) = n_modules m"
    and "i < n_symbols m \<Longrightarrow> fresh_symbol m i (mir_symbols m ! i)" and "distinct (bound_symbols m)"
  using assms by (simp_all add: index_ok_def)

text \<open>What a piece of the walk leaves alone, and how much it may add.\<close>

definition same_frame :: "mir \<Rightarrow> mir \<Rightarrow> bool" where
  "same_frame m m' \<longleftrightarrow>
     mir_hir m' = mir_hir m \<and> mir_modules m' = mir_modules m \<and> mir_imports m' = mir_imports m \<and>
     mir_slots m' = mir_slots m \<and> mir_conflicts m' = mir_conflicts m \<and> mir_waiting m' = mir_waiting m \<and>
     mir_namespaces m' = mir_namespaces m \<and> mir_constructors m' = mir_constructors m \<and>
     mir_constructor_namespaces m' = mir_constructor_namespaces m \<and>
     (\<forall>i. mir_hir_scopes m ! i \<noteq> None \<longrightarrow> mir_hir_scopes m' ! i \<noteq> None) \<and>
     (\<forall>i. mir_hir_symbols m ! i \<noteq> None \<longrightarrow> mir_hir_symbols m' ! i \<noteq> None)"

definition grown :: "nat \<Rightarrow> nat \<Rightarrow> mir \<Rightarrow> mir \<Rightarrow> bool" where
  "grown a b m m' \<longleftrightarrow> index_ok m' \<and> same_frame m m' \<and>
     mir_module_scopes m' = mir_module_scopes m \<and> mir_exports m' = mir_exports m \<and>
     n_symbols m \<le> n_symbols m' \<and> n_symbols m' \<le> n_symbols m + a \<and>
     n_scopes m \<le> n_scopes m' \<and> n_scopes m' \<le> n_scopes m + b"

lemma same_frame_refl [simp]: "same_frame m m"
  by (simp add: same_frame_def)

lemma same_frame_trans: "same_frame m m' \<Longrightarrow> same_frame m' m'' \<Longrightarrow> same_frame m m''"
  by (simp add: same_frame_def)

lemma grown_none: "index_ok m \<Longrightarrow> grown 0 0 m m"
  by (simp add: grown_def)

lemma grown_seq: "grown a b m m' \<Longrightarrow> grown c d m' m'' \<Longrightarrow> grown (a + c) (b + d) m m''"
  using same_frame_trans by (auto simp: grown_def)

lemma grown_mono: "grown a b m m' \<Longrightarrow> a \<le> c \<Longrightarrow> b \<le> d \<Longrightarrow> grown c d m m'"
  by (auto simp: grown_def)

lemma grownD:
  assumes "grown a b m m'"
  shows "index_ok m'" and "mir_hir m' = mir_hir m" and "n_symbols m' \<le> n_symbols m + a"
    and "n_scopes m' \<le> n_scopes m + b" and "n_scopes m \<le> n_scopes m'" and "same_frame m m'"
  using assms by (simp_all add: grown_def same_frame_def)

text \<open>The facts about the syntax depend on the syntax only.\<close>

lemma syntax_cong:
  assumes "mir_hir m' = mir_hir m"
  shows "node_name m' n = node_name m n" and "named_node m' n = named_node m n"
    and "native_value m' n = native_value m n" and "binding_raw m' n = binding_raw m n"
proof -
  show named: "named_node m' n = named_node m n" for n unfolding named_node_def assms ..
  show native: "native_value m' n = native_value m n" for n unfolding native_value_def assms ..
  show "binding_raw m' n = binding_raw m n" unfolding binding_raw_def named native assms ..
  show "node_name m' n = node_name m n" unfolding node_name_def child_def hir_at_def assms ..
qed

lemma syntax_ok_cong:
  assumes "mir_hir m' = mir_hir m" and "mir_modules m' = mir_modules m" and "mir_imports m' = mir_imports m"
  shows "syntax_ok m' = syntax_ok m"
  unfolding syntax_ok_def node_raw_def module_raw_def syntax_cong [OF assms(1)] assms ..

lemma fresh_symbol_cong:
  assumes "fresh_symbol m i s" and "mir_hir m' = mir_hir m" and "mir_modules m' = mir_modules m"
    and "n_scopes m \<le> n_scopes m'"
  shows "fresh_symbol m' i s"
  using assms(1,4) less_le_trans
  unfolding fresh_symbol_def syntax_cong [OF assms(2)] assms(2,3) by blast

section \<open>Scopes\<close>

lemma index_okI:
  assumes old: "index_ok m" and frame: "same_frame m m'" and n: "n_scopes m \<le> n_scopes m'"
    and bound: "distinct (bound_symbols m')"
    and "scopes_ok m'" and "length (mir_hir_scopes m') = n_hir m" and "length (mir_hir_symbols m') = n_hir m"
    and "length (mir_module_scopes m') = n_modules m" and "length (mir_exports m') = n_modules m"
    and syms: "\<And>i. i < n_symbols m' \<Longrightarrow> fresh_symbol m i (mir_symbols m' ! i) \<or> fresh_symbol m' i (mir_symbols m' ! i)"
    and "\<And>i sc. i < n_hir m \<Longrightarrow> mir_hir_scopes m' ! i = Some sc \<Longrightarrow> sc < n_scopes m'"
    and "\<And>i s. i < n_hir m \<Longrightarrow> mir_hir_symbols m' ! i = Some s \<Longrightarrow>
      s < n_symbols m' \<and> i \<in> set (sy_declarations (mir_symbols m' ! s))"
    and "\<And>sc. Some sc \<in> set (mir_module_scopes m') \<Longrightarrow> sc < n_scopes m'"
    and "\<And>ids i. ids \<in> set (mir_exports m') \<Longrightarrow> i \<in> set ids \<Longrightarrow> i < n_symbols m'"
  shows "index_ok m'"
proof -
  have same: "mir_hir m' = mir_hir m" "mir_modules m' = mir_modules m" "mir_imports m' = mir_imports m"
    using frame by (simp_all add: same_frame_def)
  have "fresh_symbol m' i (mir_symbols m' ! i)" if "i < n_symbols m'" for i
    using syms [OF that] fresh_symbol_cong [OF _ same(1,2) n] by blast
  with assms syntax_ok_cong [OF same] show ?thesis unfolding index_ok_def same by blast
qed

lemma index_scopesD:
  assumes "index_ok m"
  shows "i < n_hir m \<Longrightarrow> mir_hir_scopes m ! i = Some sc \<Longrightarrow> sc < n_scopes m"
    and "i < n_hir m \<Longrightarrow> mir_hir_symbols m ! i = Some s \<Longrightarrow> s < n_symbols m"
    and "i < n_hir m \<Longrightarrow> mir_hir_symbols m ! i = Some s \<Longrightarrow> i \<in> set (sy_declarations (mir_symbols m ! s))"
    and "Some sc \<in> set (mir_module_scopes m) \<Longrightarrow> sc < n_scopes m"
    and "ids \<in> set (mir_exports m) \<Longrightarrow> i \<in> set ids \<Longrightarrow> i < n_symbols m"
  using assms unfolding index_ok_def by blast+

lemma bound_symbols_simps [simp]:
  "bound_symbols (m\<lparr>mir_symbols := ss\<rparr>) = bound_symbols m"
  "bound_symbols (m\<lparr>mir_hir_scopes := hs\<rparr>) = bound_symbols m"
  "bound_symbols (m\<lparr>mir_hir_symbols := hs\<rparr>) = bound_symbols m"
  "bound_symbols (m\<lparr>mir_module_scopes := hs\<rparr>) = bound_symbols m"
  by (simp_all add: bound_symbols_def)

lemma mset_concat_update:
  "i < length xss \<Longrightarrow> mset (concat (xss[i := xss ! i @ [x]])) = add_mset x (mset (concat xss))"
proof (induction xss arbitrary: i)
  case (Cons ys yss)
  then show ?case by (cases i) simp_all
qed simp

lemma distinct_insert: "mset ys = add_mset x (mset xs) \<Longrightarrow> distinct xs \<Longrightarrow> x \<notin> set xs \<Longrightarrow> distinct ys"
  by (metis distinct.simps(2) mset.simps(2) mset_eq_imp_distinct_iff)

lemma bound_less:
  assumes "index_ok m" and "x \<in> set (bound_symbols m)"
  shows "x < n_symbols m"
proof -
  from assms(2) consider sc b where "sc \<in> set (mir_scopes m)" "b \<in> set (sc_bindings sc)" "x = sb_symbol b"
    | ids where "ids \<in> set (mir_exports m)" "x \<in> set ids"
    by (auto simp: bound_symbols_def)
  then show ?thesis
  proof cases
    case 1
    obtain i where i: "i < n_scopes m" "sc = mir_scopes m ! i" using 1(1) by (metis in_set_conv_nth)
    with 1(2,3) index_okD(2) [OF assms(1)] show ?thesis unfolding scopes_ok_def by blast
  qed (rule index_scopesD(5) [OF assms(1)])
qed

lemma new_scope_ok:
  assumes "index_ok m" and "n_scopes m < 2 ^ 32" and "md < n_modules m" and "\<And>p. parent = Some p \<Longrightarrow> p < n_scopes m"
  shows "\<exists>m'. new_scope md parent m = Inr (n_scopes m, m') \<and> grown 0 1 m m' \<and> n_scopes m' = Suc (n_scopes m)"
proof -
  let ?m = "m\<lparr>mir_scopes := mir_scopes m @
    [\<lparr>sc_parent = parent, sc_module = md, sc_bindings = [], sc_open_imports = []\<rparr>]\<rparr>"
  note D = index_okD [OF assms(1)] and S = index_scopesD [OF assms(1)]
  have "scopes_ok ?m"
    using D(2) assms(3,4) by (auto simp: scopes_ok_def nth_append less_Suc_eq)
  moreover have "bound_symbols ?m = bound_symbols m" by (simp add: bound_symbols_def)
  ultimately have "index_ok ?m"
    by (intro index_okI [OF assms(1)]) (use D S in \<open>auto simp: same_frame_def less_Suc_eq\<close>)
  with assms(2) show ?thesis by (simp add: new_scope_def grown_def same_frame_def)
qed

lemma nth_update: "xs[n := y] ! i = (if i = n \<and> n < length xs then y else xs ! i)"
  by (cases "n < length xs") (simp_all add: nth_list_update list_update_beyond)

lemma set_hir_scope_ok:
  assumes "index_ok m" and "n < n_hir m" and "sc < n_scopes m"
  shows "\<exists>m'. set_hir_scope n sc m = Inr m' \<and> grown 0 0 m m' \<and> mir_hir_scopes m' ! n \<noteq> None \<and>
    (\<forall>i. i \<noteq> n \<longrightarrow> mir_hir_scopes m' ! i = mir_hir_scopes m ! i)"
proof -
  let ?m = "m\<lparr>mir_hir_scopes := (mir_hir_scopes m)[n := Some sc]\<rparr>"
  note D = index_okD [OF assms(1)] and S = index_scopesD [OF assms(1)]
  have frame: "same_frame m ?m" by (auto simp: same_frame_def nth_update)
  have "scopes_ok ?m" using D(2) by (simp add: scopes_ok_def)
  then have "index_ok ?m"
    by (intro index_okI [OF assms(1) frame])
      (use D S assms in \<open>auto simp: nth_list_update split: if_splits\<close>)
  with frame assms D show ?thesis by (simp add: set_hir_scope_def update_at_def grown_def)
qed

section \<open>Symbols\<close>

lemma set_hir_symbol_ok:
  assumes "index_ok m" and "n < n_hir m" and "i < n_symbols m" and "n \<in> set (sy_declarations (mir_symbols m ! i))"
  shows "\<exists>m'. set_hir_symbol n i m = Inr m' \<and> grown 0 0 m m' \<and> mir_hir_symbols m' ! n \<noteq> None \<and>
    mir_hir_scopes m' = mir_hir_scopes m"
proof -
  let ?m = "m\<lparr>mir_hir_symbols := (mir_hir_symbols m)[n := Some i]\<rparr>"
  note D = index_okD [OF assms(1)] and S = index_scopesD [OF assms(1)]
  have frame: "same_frame m ?m" by (auto simp: same_frame_def nth_update)
  have "scopes_ok ?m" using D(2) by (simp add: scopes_ok_def)
  then have "index_ok ?m"
    by (intro index_okI [OF assms(1) frame])
      (use D S assms in \<open>auto simp: nth_list_update split: if_splits\<close>)
  with frame assms D show ?thesis by (simp add: set_hir_symbol_def update_at_def grown_def)
qed

text \<open>The kinds a declared node may have.\<close>

definition kind_fits :: "mir \<Rightarrow> symbol_kind \<Rightarrow> hir_id \<Rightarrow> bool" where
  "kind_fits m k n \<longleftrightarrow> (\<forall>md. k \<noteq> SkNamespace md) \<and>
     (k = SkImport \<longrightarrow> is_binding (hn_kind (mir_hir m ! n))) \<and>
     (k = SkDeclaration BkNativeType \<longrightarrow> native_value m n)"

lemma new_symbol_ok:
  assumes "index_ok m" and "n_symbols m < 2 ^ 32" and "md < n_modules m" and "sc < n_scopes m" and "n < n_hir m"
    and "kind_fits m k n" and "k \<noteq> SkExport \<Longrightarrow> node_name m n = Inr name"
  shows "\<exists>m'. new_symbol (Some md) name k (Some n) (Some sc) m = Inr (n_symbols m, m') \<and> grown 1 0 m m' \<and>
    n_symbols m' = Suc (n_symbols m) \<and> n \<in> set (sy_declarations (mir_symbols m' ! n_symbols m)) \<and>
    mir_hir_scopes m' = mir_hir_scopes m \<and> n_symbols m \<notin> set (bound_symbols m')"
proof -
  let ?s = "\<lparr>sy_native_type = None, sy_module = Some md, sy_name = name, sy_kind = k,
    sy_declarations = [n], sy_scope = Some sc, sy_resolution = initial_resolution k (n_symbols m)\<rparr>"
  let ?m = "m\<lparr>mir_symbols := mir_symbols m @ [?s]\<rparr>"
  note D = index_okD [OF assms(1)] and S = index_scopesD [OF assms(1)]
  have frame: "same_frame m ?m" by (simp add: same_frame_def)
  have "fresh_symbol m (n_symbols m) ?s" using assms(3-7) by (simp add: fresh_symbol_def kind_fits_def)
  then have fresh: "fresh_symbol m i (mir_symbols ?m ! i)" if "i < n_symbols ?m" for i
    using that D(7) by (auto simp: nth_append less_Suc_eq)
  have "scopes_ok ?m" using D(2) less_SucI by (fastforce simp: scopes_ok_def)
  then have "index_ok ?m"
    by (intro index_okI [OF assms(1) frame])
      (use D S fresh in \<open>auto simp: nth_append less_SucI\<close>)
  moreover have "n_symbols m \<notin> set (bound_symbols m)" using bound_less [OF assms(1)] by blast
  ultimately show ?thesis using frame assms(2) by (simp add: new_symbol_def grown_def Let_def)
qed

lemma push_binding_ok:
  assumes "index_ok m" and "sc < n_scopes m" and "sb_symbol b < n_symbols m" and "sb_symbol b \<notin> set (bound_symbols m)"
  shows "\<exists>m'. push_binding sc b m = Inr m' \<and> grown 0 0 m m' \<and> mir_symbols m' = mir_symbols m \<and>
    mir_hir_scopes m' = mir_hir_scopes m"
proof -
  let ?m = "m\<lparr>mir_scopes := (mir_scopes m)[sc := (mir_scopes m ! sc)
    \<lparr>sc_bindings := sc_bindings (mir_scopes m ! sc) @ [b]\<rparr>]\<rparr>"
  note D = index_okD [OF assms(1)] and S = index_scopesD [OF assms(1)]
  have frame: "same_frame m ?m" by (simp add: same_frame_def)
  have "map (map sb_symbol \<circ> sc_bindings) (mir_scopes ?m) =
      (map (map sb_symbol \<circ> sc_bindings) (mir_scopes m))
        [sc := map (map sb_symbol \<circ> sc_bindings) (mir_scopes m) ! sc @ [sb_symbol b]]"
    using assms(2) by (simp add: map_update)
  then have "mset (bound_symbols ?m) = add_mset (sb_symbol b) (mset (bound_symbols m))"
    using assms(2) by (simp only: bound_symbols_def mset_append mset_concat_update length_map) simp
  then have "distinct (bound_symbols ?m)" by (rule distinct_insert [OF _ D(8) assms(4)])
  moreover have "scopes_ok ?m" using D(2) assms(2,3) by (auto simp: scopes_ok_def nth_list_update)
  ultimately have "index_ok ?m"
    by (intro index_okI [OF assms(1) frame]) (use D S in auto)
  with frame assms(2) show ?thesis by (simp add: push_binding_def update_at_def grown_def)
qed

lemma push_declaration_ok:
  assumes "index_ok m" and "i < n_symbols m" and "open_declaration name (mir_symbols m ! i)" and "n < n_hir m"
    and "node_name m n = Inr name"
  shows "\<exists>m'. push_declaration i n m = Inr m' \<and> grown 0 0 m m' \<and> n_symbols m' = n_symbols m \<and>
    n \<in> set (sy_declarations (mir_symbols m' ! i)) \<and> mir_hir_scopes m' = mir_hir_scopes m"
proof -
  let ?s = "(mir_symbols m ! i)\<lparr>sy_declarations := sy_declarations (mir_symbols m ! i) @ [n]\<rparr>"
  let ?m = "m\<lparr>mir_symbols := (mir_symbols m)[i := ?s]\<rparr>"
  note D = index_okD [OF assms(1)] and S = index_scopesD [OF assms(1)]
  have frame: "same_frame m ?m" by (simp add: same_frame_def)
  have "fresh_symbol m i ?s"
    using D(7) [OF assms(2)] assms(3-5) by (auto simp: fresh_symbol_def open_declaration_def)
  then have fresh: "fresh_symbol m j (mir_symbols ?m ! j)" if "j < n_symbols ?m" for j
    using that D(7) assms(2) by (auto simp: nth_list_update)
  have "scopes_ok ?m" using D(2) by (simp add: scopes_ok_def)
  then have "index_ok ?m"
    by (intro index_okI [OF assms(1) frame])
      (use D S fresh assms(2) in \<open>auto simp: nth_list_update\<close>)
  with frame assms(2) show ?thesis by (simp add: push_declaration_def update_at_def grown_def)
qed

lemma find_declaration_ok:
  "\<forall>b \<in> set bs. sb_symbol b < n_symbols m \<Longrightarrow>
    \<exists>r. find_declaration m name bs = Inr r \<and>
      (\<forall>i. r = Some i \<longrightarrow> i < n_symbols m \<and> open_declaration name (mir_symbols m ! i))"
  by (induction bs) auto

lemma declare_symbol_ok:
  assumes ok: "index_ok m" and "n_symbols m < 2 ^ 32" and n: "n < n_hir m" and "named_node m n"
    and sc: "sc < n_scopes m" and "kind_fits m k n"
  shows "\<exists>m'. declare_symbol n k sc after m = Inr m' \<and> grown 1 0 m m' \<and> mir_hir_symbols m' ! n \<noteq> None \<and>
    mir_hir_scopes m' = mir_hir_scopes m"
proof -
  note D = index_okD [OF ok]
  obtain name where name: "node_name m n = Inr name" using syntax_named [OF D(1) n assms(4)] by blast
  have binds: "\<forall>b \<in> set (sc_bindings (mir_scopes m ! sc)). sb_symbol b < n_symbols m"
    using D(2) sc by (auto simp: scopes_ok_def)
  obtain r where r: "(if k = SkDeclaration BkDef
      then rbind (idx (mir_scopes m) sc) (\<lambda>s. find_declaration m name (sc_bindings s)) else Inr None) = Inr r"
    "\<And>i. r = Some i \<Longrightarrow> i < n_symbols m \<and> open_declaration name (mir_symbols m ! i)"
    using find_declaration_ok [OF binds, of name] sc by (cases "k = SkDeclaration BkDef") auto
  show ?thesis
  proof (cases r)
    case (Some i)
    with r(2) have i: "i < n_symbols m" "open_declaration name (mir_symbols m ! i)" by blast+
    obtain m1 where m1: "push_declaration i n m = Inr m1" "grown 0 0 m m1" "n_symbols m1 = n_symbols m"
      "n \<in> set (sy_declarations (mir_symbols m1 ! i))" "mir_hir_scopes m1 = mir_hir_scopes m"
      using push_declaration_ok [OF ok i n name] by blast
    note G = grownD [OF m1(2)]
    obtain m2 where m2: "set_hir_symbol n i m1 = Inr m2" "grown 0 0 m1 m2" "mir_hir_symbols m2 ! n \<noteq> None"
      "mir_hir_scopes m2 = mir_hir_scopes m1"
      using set_hir_symbol_ok [OF G(1), of n i] n i(1) m1(3,4) G(2) by auto
    have "grown 1 0 m m2" by (rule grown_mono [OF grown_seq [OF m1(2) m2(2)]]) simp_all
    with Some name r(1) n m1(1,5) m2 show ?thesis by (simp add: declare_symbol_def)
  next
    case None
    have md: "hn_module (mir_hir m ! n) < n_modules m" using syntaxD(3) [OF D(1) n] .
    obtain m1 where m1: "new_symbol (Some (hn_module (mir_hir m ! n))) name k (Some n) (Some sc) m = Inr (n_symbols m, m1)"
      "grown 1 0 m m1" "n_symbols m1 = Suc (n_symbols m)"
      "n \<in> set (sy_declarations (mir_symbols m1 ! n_symbols m))" "mir_hir_scopes m1 = mir_hir_scopes m"
      "n_symbols m \<notin> set (bound_symbols m1)"
      using new_symbol_ok [OF ok assms(2) md sc n assms(6) name] by blast
    note G = grownD [OF m1(2)]
    let ?b = "\<lparr>sb_symbol = n_symbols m, sb_after = after\<rparr>"
    obtain m2 where m2: "push_binding sc ?b m1 = Inr m2" "grown 0 0 m1 m2" "mir_symbols m2 = mir_symbols m1"
      "mir_hir_scopes m2 = mir_hir_scopes m1"
      using push_binding_ok [OF G(1), of sc ?b] sc G(5) m1(3,6) by auto
    note H = grownD [OF m2(2)]
    obtain m3 where m3: "set_hir_symbol n (n_symbols m) m2 = Inr m3" "grown 0 0 m2 m3"
      "mir_hir_symbols m3 ! n \<noteq> None" "mir_hir_scopes m3 = mir_hir_scopes m2"
      using set_hir_symbol_ok [OF H(1), of n "n_symbols m"] n m1(3,4) m2(3) G(2) H(2) by auto
    have "grown 1 0 m m3" using grown_seq [OF grown_seq [OF m1(2) m2(2)] m3(2)] by simp
    with None name r(1) n m1(1,5) m2(1,4) m3 show ?thesis by (simp add: declare_symbol_def)
  qed
qed

section \<open>Declarations\<close>

text \<open>A fold of declarations into one scope.\<close>

lemma foldm_declare:
  assumes step: "\<And>e m'. e \<in> set es \<Longrightarrow> index_ok m' \<Longrightarrow> mir_hir m' = mir_hir m \<Longrightarrow> n_symbols m' < 2 ^ 32 \<Longrightarrow>
      sc < n_scopes m' \<Longrightarrow> \<exists>m''. f e m' = Inr m'' \<and> grown 1 0 m' m'' \<and> mir_hir_scopes m'' = mir_hir_scopes m'"
    and "index_ok m" and "n_symbols m + length es \<le> 2 ^ 32" and "sc < n_scopes m"
  shows "\<exists>m'. foldm f es m = Inr m' \<and> grown (length es) 0 m m' \<and> mir_hir_scopes m' = mir_hir_scopes m"
  using assms
proof (induction es arbitrary: m)
  case (Cons e es)
  have room: "n_symbols m < 2 ^ 32" using Cons.prems(3) by simp
  obtain m1 where m1: "f e m = Inr m1" "grown 1 0 m m1" "mir_hir_scopes m1 = mir_hir_scopes m"
    using Cons.prems(1) [OF list.set_intros(1) Cons.prems(2) refl room Cons.prems(4)] by blast
  note G = grownD [OF m1(2)]
  have "\<exists>m'. foldm f es m1 = Inr m' \<and> grown (length es) 0 m1 m' \<and> mir_hir_scopes m' = mir_hir_scopes m1"
  proof (rule Cons.IH [OF _ G(1)])
    fix x m' assume "x \<in> set es" "index_ok m'" "mir_hir m' = mir_hir m1" "n_symbols m' < 2 ^ 32" "sc < n_scopes m'"
    with Cons.prems(1) G(2) show "\<exists>m''. f x m' = Inr m'' \<and> grown 1 0 m' m'' \<and> mir_hir_scopes m'' = mir_hir_scopes m'"
      by simp
  next
    show "n_symbols m1 + length es \<le> 2 ^ 32" using Cons.prems(3) G(3) by simp
    show "sc < n_scopes m1" using Cons.prems(4) G(5) by simp
  qed
  then obtain m2 where "foldm f es m1 = Inr m2" "grown (length es) 0 m1 m2" "mir_hir_scopes m2 = mir_hir_scopes m1"
    by blast
  with m1 grown_seq [OF m1(2)] show ?case by fastforce
qed (simp add: grown_none)

lemma binding_fits:
  assumes "binding_raw m n" and "binding_kind_of (hn_kind (mir_hir m ! n)) = Some b"
  shows "kind_fits m (binding_symbol_kind b) n"
proof -
  have "is_binding (hn_kind (mir_hir m ! n))"
    using assms(2) by (cases "hn_kind (mir_hir m ! n)") (simp_all add: binding_kind_of_def is_binding_def)
  with assms show ?thesis by (auto simp: kind_fits_def binding_symbol_kind_def binding_raw_def)
qed

lemma declare_binding_ok:
  assumes "index_ok m" and "n_symbols m < 2 ^ 32" and "he_node e < n_hir m" and "sc < n_scopes m"
    and raw: "he_role e = RoBinding \<Longrightarrow> binding_raw m (he_node e)"
  shows "\<exists>m'. declare_binding sc e m = Inr m' \<and> grown 1 0 m m' \<and> mir_hir_scopes m' = mir_hir_scopes m"
proof (cases "he_role e = RoBinding")
  case True
  obtain b where b: "binding_kind_of (hn_kind (mir_hir m ! he_node e)) = Some b"
    using raw [OF True] by (auto simp: binding_raw_def split: option.splits)
  show ?thesis
  proof (cases "b = BkExport")
    case False
    then have "named_node m (he_node e)" using raw [OF True] b by (auto simp: binding_raw_def)
    from declare_symbol_ok [OF assms(1-3) this assms(4) binding_fits [OF raw [OF True] b]]
    show ?thesis using True False b assms(3) by (auto simp: declare_binding_def)
  next
    case True
    with \<open>he_role e = RoBinding\<close> b assms(3) grown_mono [OF grown_none [OF assms(1)]] show ?thesis
      by (simp add: declare_binding_def)
  qed
qed (use grown_mono [OF grown_none [OF assms(1)]] in \<open>simp add: declare_binding_def\<close>)

lemma declare_parameter_ok:
  assumes "index_ok m" and "n_symbols m < 2 ^ 32" and "he_node e < n_hir m" and "sc < n_scopes m"
    and raw: "parameter_kind (he_role e) \<noteq> None \<Longrightarrow> named_node m (he_node e)"
  shows "\<exists>m'. declare_parameter sc e m = Inr m' \<and> grown 1 0 m m' \<and> mir_hir_scopes m' = mir_hir_scopes m"
proof (cases "parameter_kind (he_role e)")
  case (Some k)
  then have "kind_fits m k (he_node e)"
    by (auto simp: kind_fits_def parameter_kind_def split: role.splits)
  from declare_symbol_ok [OF assms(1-3) raw assms(4) this] Some show ?thesis
    by (auto simp: declare_parameter_def)
qed (use grown_mono [OF grown_none [OF assms(1)]] in \<open>simp add: declare_parameter_def\<close>)

section \<open>Weights\<close>

text \<open>
  The nodes and edges of the tree under a node, a shared child counted once for each use. They bound
  the length of the walk and what it declares.
\<close>

function hir_weight :: "hir_node list \<Rightarrow> nat \<Rightarrow> nat" where
  "hir_weight ns i =
     (if i < length ns
      then 1 + sum_list (map (\<lambda>e. if he_node e < i then 1 + hir_weight ns (he_node e) else 0) (hn_children (ns ! i)))
      else 0)"
  by pat_completeness auto
termination
  by (relation "measure snd") simp_all

declare hir_weight.simps [simp del]

fun task_weight :: "hir_node list \<Rightarrow> index_task \<Rightarrow> nat" where
  "task_weight ns (n, sc, IpNode) = 2 * hir_weight ns n"
| "task_weight ns (n, sc, IpBlock) = 2 * hir_weight ns n - 1"

definition pending_weight :: "mir \<Rightarrow> index_task list \<Rightarrow> nat" where
  "pending_weight m ts = sum_list (map (task_weight (mir_hir m)) ts)"

lemma pending_weight_simps [simp]:
  "pending_weight m [] = 0"
  "pending_weight m (t # ts) = task_weight (mir_hir m) t + pending_weight m ts"
  "pending_weight m (ts @ us) = pending_weight m ts + pending_weight m us"
  by (simp_all add: pending_weight_def)

lemma hir_weight_eq:
  assumes "syntax_ok m" and "n < n_hir m"
  shows "hir_weight (mir_hir m) n = 1 + length (hn_children (mir_hir m ! n)) +
    sum_list (map (hir_weight (mir_hir m) \<circ> he_node) (hn_children (mir_hir m ! n)))"
proof -
  let ?w = "hir_weight (mir_hir m)" and ?es = "hn_children (mir_hir m ! n)"
  have sum: "sum_list (map (\<lambda>e. 1 + ?w (he_node e)) es) = length es + sum_list (map (?w \<circ> he_node) es)"
    for es by (induction es) simp_all
  have "map (\<lambda>e. if he_node e < n then 1 + ?w (he_node e) else 0) ?es = map (\<lambda>e. 1 + ?w (he_node e)) ?es"
    using syntaxD(1) [OF assms] by (intro map_cong) auto
  with assms(2) show ?thesis by (subst hir_weight.simps) (simp only: sum if_True)
qed

lemma children_weight:
  "pending_weight m (index_children sc es) = 2 * sum_list (map (hir_weight (mir_hir m) \<circ> he_node) es)"
  by (induction es) (simp_all add: index_children_def)

section \<open>The walk\<close>

definition walk_child :: "mir \<Rightarrow> hir_id \<Rightarrow> hir_id \<Rightarrow> bool" where
  "walk_child m a b \<longleftrightarrow> index_class (hn_kind (mir_hir m ! a)) \<noteq> IcPattern \<and>
     b \<in> he_node ` set (hn_children (mir_hir m ! a))"

fun task_fits :: "mir \<Rightarrow> index_task \<Rightarrow> bool" where
  "task_fits m (n, sc, p) \<longleftrightarrow> n < n_hir m \<and> sc < n_scopes m \<and>
     (p = IpBlock \<longrightarrow> hn_kind (mir_hir m ! n) = HkBlock)"

abbreviation (input) scoped :: "mir \<Rightarrow> hir_id \<Rightarrow> bool" where
  "scoped m n \<equiv> mir_hir_scopes m ! n \<noteq> None"

text \<open>The children of a node in a scope are in a scope, or still on the stack.\<close>

definition handled :: "mir \<Rightarrow> index_task list \<Rightarrow> hir_id \<Rightarrow> bool" where
  "handled m ts n \<longleftrightarrow> (\<exists>sc. (n, sc, IpBlock) \<in> set ts) \<or>
     (\<forall>c. walk_child m n c \<longrightarrow> scoped m c \<or> (\<exists>sc. (c, sc, IpNode) \<in> set ts))"

definition covered :: "mir \<Rightarrow> index_task list \<Rightarrow> bool" where
  "covered m ts \<longleftrightarrow> (\<forall>n < n_hir m. scoped m n \<longrightarrow>
     handled m ts n \<and> (index_class (hn_kind (mir_hir m ! n)) = IcPattern \<longrightarrow> mir_hir_symbols m ! n \<noteq> None))"

lemma covered_step:
  assumes "covered m ((n, sc, p) # ts)" and g: "grown a b m m'" and "scoped m' n"
    and other: "\<And>i. i \<noteq> n \<Longrightarrow> mir_hir_scopes m' ! i = mir_hir_scopes m ! i"
    and "set ts \<subseteq> set us" and "handled m' us n"
    and "index_class (hn_kind (mir_hir m ! n)) = IcPattern \<Longrightarrow> mir_hir_symbols m' ! n \<noteq> None"
  shows "covered m' us"
  unfolding covered_def
proof (intro allI impI)
  fix x assume x: "x < n_hir m'" "scoped m' x"
  have hir: "mir_hir m' = mir_hir m" and frame: "same_frame m m'" using grownD [OF g] by simp_all
  have syms: "mir_hir_symbols m ! i \<noteq> None \<Longrightarrow> mir_hir_symbols m' ! i \<noteq> None"
    and keep: "scoped m i \<Longrightarrow> scoped m' i" for i using frame unfolding same_frame_def by blast+
  show "handled m' us x \<and> (index_class (hn_kind (mir_hir m' ! x)) = IcPattern \<longrightarrow> mir_hir_symbols m' ! x \<noteq> None)"
  proof (cases "x = n")
    case False
    with x other have "scoped m x" "x < n_hir m" by (simp_all add: hir)
    with assms(1) have old: "handled m ((n, sc, p) # ts) x"
      "index_class (hn_kind (mir_hir m ! x)) = IcPattern \<longrightarrow> mir_hir_symbols m ! x \<noteq> None"
      by (simp_all add: covered_def)
    have "scoped m' c \<or> (\<exists>sc. (c, sc, IpNode) \<in> set us)"
      if "scoped m c \<or> (\<exists>sc'. (c, sc', IpNode) \<in> set ((n, sc, p) # ts))" for c
      using that keep [of c] assms(3,5) by auto
    moreover have "(x, sc', IpBlock) \<in> set us" if "(x, sc', IpBlock) \<in> set ((n, sc, p) # ts)" for sc'
      using that False assms(5) by auto
    moreover have "walk_child m' x c = walk_child m x c" for c by (simp add: walk_child_def hir)
    ultimately have "handled m' us x" using old(1) unfolding handled_def by blast
    with old(2) syms show ?thesis by (auto simp: hir)
  qed (use assms(6,7) in \<open>simp add: hir\<close>)
qed

text \<open>What one step of the walk achieves.\<close>

definition step_ok :: "mir \<Rightarrow> index_task \<Rightarrow> index_task list \<Rightarrow> stop + (index_task list \<times> mir) \<Rightarrow> bool" where
  "step_ok m t ts r \<longleftrightarrow> (\<exists>new m'. r = Inr (new @ ts, m') \<and> index_ok m' \<and> same_frame m m' \<and>
     mir_module_scopes m' = mir_module_scopes m \<and> mir_exports m' = mir_exports m \<and>
     n_scopes m \<le> n_scopes m' \<and> n_symbols m \<le> n_symbols m' \<and>
     n_symbols m' + pending_weight m new \<le> n_symbols m + task_weight (mir_hir m) t \<and>
     n_scopes m' + pending_weight m new \<le> n_scopes m + task_weight (mir_hir m) t \<and>
     pending_weight m new < task_weight (mir_hir m) t \<and>
     (\<forall>u \<in> set new. task_fits m' u) \<and> scoped m' (fst t) \<and>
     (\<forall>i. i \<noteq> fst t \<longrightarrow> mir_hir_scopes m' ! i = mir_hir_scopes m ! i) \<and> handled m' new (fst t) \<and>
     (index_class (hn_kind (mir_hir m ! fst t)) = IcPattern \<longrightarrow> mir_hir_symbols m' ! fst t \<noteq> None))"

lemma step_okI:
  assumes "r = Inr (new @ ts, m')" and g: "grown a b m m'"
    and "a + pending_weight m new \<le> task_weight (mir_hir m) t" and "b + pending_weight m new \<le> task_weight (mir_hir m) t"
    and "pending_weight m new < task_weight (mir_hir m) t"
    and "\<And>u. u \<in> set new \<Longrightarrow> task_fits m' u" and "scoped m' (fst t)"
    and "\<And>i. i \<noteq> fst t \<Longrightarrow> mir_hir_scopes m' ! i = mir_hir_scopes m ! i" and "handled m' new (fst t)"
    and "index_class (hn_kind (mir_hir m ! fst t)) = IcPattern \<Longrightarrow> mir_hir_symbols m' ! fst t \<noteq> None"
  shows "step_ok m t ts r"
  using assms unfolding step_ok_def grown_def by (intro exI [of _ new] exI [of _ m']) auto

lemma children_fit:
  assumes "syntax_ok m" and "n < n_hir m" and "\<And>e. e \<in> set (hn_children (mir_hir m ! n)) \<Longrightarrow> sc e < n_scopes m'"
    and "mir_hir m' = mir_hir m" and "u \<in> set (index_children sc (hn_children (mir_hir m ! n)))"
  shows "task_fits m' u"
  using assms(3-5) syntaxD(2) [OF assms(1,2)] by (auto simp: index_children_def)

lemma children_handled:
  assumes "mir_hir m' = mir_hir m"
  shows "handled m' (index_children sc (hn_children (mir_hir m ! n))) n"
  using assms by (force simp: handled_def walk_child_def index_children_def)

text \<open>A step of either kind.\<close>

lemma scope_set:
  assumes "index_ok m" and "n < n_hir m" and "sc < n_scopes m"
  obtains m1 where "set_hir_scope n sc m = Inr m1" "grown 0 0 m m1" "scoped m1 n"
    "\<forall>i. i \<noteq> n \<longrightarrow> mir_hir_scopes m1 ! i = mir_hir_scopes m ! i" "mir_hir m1 = mir_hir m"
    "index_ok m1" "n_scopes m1 = n_scopes m" "n_symbols m1 = n_symbols m"
  using set_hir_scope_ok [OF assms] unfolding grown_def same_frame_def by fastforce

lemma block_step_ok:
  assumes ok: "index_ok m" and fit: "task_fits m (n, sc, IpBlock)"
    and room: "n_symbols m + task_weight (mir_hir m) (n, sc, IpBlock) \<le> 2 ^ 32"
  shows "step_ok m (n, sc, IpBlock) ts (index_block_node n sc ts m)"
proof -
  let ?es = "hn_children (mir_hir m ! n)"
  have n: "n < n_hir m" and sc: "sc < n_scopes m" and kind: "hn_kind (mir_hir m ! n) = HkBlock"
    using fit by simp_all
  note syn = index_okD(1) [OF ok]
  have w: "task_weight (mir_hir m) (n, sc, IpBlock) = 1 + 2 * length ?es +
      pending_weight m (index_children (\<lambda>_. sc) ?es)"
    using hir_weight_eq [OF syn n] by (simp add: children_weight)
  obtain m1 where m1: "set_hir_scope n sc m = Inr m1" "grown 0 0 m m1" "scoped m1 n"
    "\<forall>i. i \<noteq> n \<longrightarrow> mir_hir_scopes m1 ! i = mir_hir_scopes m ! i" "mir_hir m1 = mir_hir m"
    "index_ok m1" "n_scopes m1 = n_scopes m" "n_symbols m1 = n_symbols m"
    using scope_set [OF ok n sc] by blast
  have "\<exists>m'. foldm (declare_binding sc) ?es m1 = Inr m' \<and> grown (length ?es) 0 m1 m' \<and>
      mir_hir_scopes m' = mir_hir_scopes m1"
  proof (rule foldm_declare [where sc = sc])
    fix e m' assume e: "e \<in> set ?es" and m': "index_ok m'" "mir_hir m' = mir_hir m1"
      "n_symbols m' < 2 ^ 32" "sc < n_scopes m'"
    have "he_role e = RoBinding \<Longrightarrow> binding_raw m' (he_node e)"
      using syntaxD(4) [OF syn n kind e] syntax_cong(4) [of m' m] m'(2) m1(5) by simp
    then show "\<exists>m''. declare_binding sc e m' = Inr m'' \<and> grown 1 0 m' m'' \<and> mir_hir_scopes m'' = mir_hir_scopes m'"
      using declare_binding_ok [OF m'(1,3) _ m'(4)] syntaxD(2) [OF syn n e] m'(2) m1(5) by simp
  qed (use m1 sc room w in simp_all)
  then obtain m2 where m2: "foldm (declare_binding sc) ?es m1 = Inr m2" "grown (length ?es) 0 m1 m2"
    "mir_hir_scopes m2 = mir_hir_scopes m1" by blast
  have g: "grown (length ?es) 0 m m2" using grown_seq [OF m1(2) m2(2)] by simp
  note G = grownD [OF g]
  show ?thesis
  proof (rule step_okI [OF _ g])
    show "index_block_node n sc ts m = Inr (index_children (\<lambda>_. sc) ?es @ ts, m2)"
      using m1(1,5) m2(1) n by (simp add: index_block_node_def)
    show "handled m2 (index_children (\<lambda>_. sc) ?es) (fst (n, sc, IpBlock))"
      using children_handled [OF G(2)] by simp
    show "task_fits m2 u" if "u \<in> set (index_children (\<lambda>_. sc) ?es)" for u
      using children_fit [OF syn n _ G(2) that] sc G(5) by simp
  qed (use w m1(3,4) m2(3) kind in \<open>simp_all add: index_class_def\<close>)
qed

lemma nested_scope:
  assumes "index_ok m" and "n < n_hir m" and "sc < n_scopes m" and "n_scopes m < 2 ^ 32"
  obtains m1 where "new_scope (hn_module (mir_hir m ! n)) (Some sc) m = Inr (n_scopes m, m1)"
    "grown 0 1 m m1" "n_scopes m1 = Suc (n_scopes m)" "mir_hir_scopes m1 = mir_hir_scopes m"
    "index_ok m1" "mir_hir m1 = mir_hir m" "n_symbols m1 = n_symbols m"
proof -
  have md: "hn_module (mir_hir m ! n) < n_modules m" by (rule syntaxD(3) [OF index_okD(1) [OF assms(1)] assms(2)])
  obtain m1 where "new_scope (hn_module (mir_hir m ! n)) (Some sc) m = Inr (n_scopes m, m1)"
    "grown 0 1 m m1" "n_scopes m1 = Suc (n_scopes m)"
    using new_scope_ok [OF assms(1,4) md, of "Some sc"] assms(3) by blast
  moreover from this(1) assms(4) have "mir_hir_scopes m1 = mir_hir_scopes m" "mir_hir m1 = mir_hir m"
    "n_symbols m1 = n_symbols m" by (auto simp: new_scope_def)
  ultimately show ?thesis using that grownD(1) by blast
qed

lemma parameter_scope_ok:
  assumes ok: "index_ok m" and n: "n < n_hir m" and sc: "sc < n_scopes m" and "n_scopes m < 2 ^ 32"
    and "n_symbols m + length (hn_children (mir_hir m ! n)) \<le> 2 ^ 32"
    and cls: "index_class (hn_kind (mir_hir m ! n)) = IcParameters"
  shows "\<exists>nested m'. parameter_scope (hn_module (mir_hir m ! n)) sc (hn_children (mir_hir m ! n)) m = Inr (nested, m') \<and>
    grown (length (hn_children (mir_hir m ! n))) 1 m m' \<and> nested < n_scopes m' \<and> mir_hir_scopes m' = mir_hir_scopes m"
proof (cases "list_ex (\<lambda>e. parameter_kind (he_role e) \<noteq> None) (hn_children (mir_hir m ! n))")
  case False
  then show ?thesis using grown_mono [OF grown_none [OF ok]] sc unfolding parameter_scope_def by simp
next
  case True
  let ?es = "hn_children (mir_hir m ! n)"
  note syn = index_okD(1) [OF ok]
  obtain m1 where m1: "new_scope (hn_module (mir_hir m ! n)) (Some sc) m = Inr (n_scopes m, m1)"
    "grown 0 1 m m1" "n_scopes m1 = Suc (n_scopes m)" "mir_hir_scopes m1 = mir_hir_scopes m"
    "index_ok m1" "mir_hir m1 = mir_hir m" "n_symbols m1 = n_symbols m"
    using nested_scope [OF assms(1-4)] by blast
  have "\<exists>m'. foldm (declare_parameter (n_scopes m)) ?es m1 = Inr m' \<and> grown (length ?es) 0 m1 m' \<and>
      mir_hir_scopes m' = mir_hir_scopes m1"
  proof (rule foldm_declare [where sc = "n_scopes m"])
    fix e m' assume e: "e \<in> set ?es" and m': "index_ok m'" "mir_hir m' = mir_hir m1"
      "n_symbols m' < 2 ^ 32" "n_scopes m < n_scopes m'"
    have "parameter_kind (he_role e) \<noteq> None \<Longrightarrow> named_node m' (he_node e)"
      using syntaxD(5) [OF syn n cls e] syntax_cong(2) [of m' m] m'(2) m1(6) by simp
    then show "\<exists>m''. declare_parameter (n_scopes m) e m' = Inr m'' \<and> grown 1 0 m' m'' \<and>
        mir_hir_scopes m'' = mir_hir_scopes m'"
      using declare_parameter_ok [OF m'(1,3) _ m'(4)] syntaxD(2) [OF syn n e] m'(2) m1(6) by simp
  qed (use m1 assms(5) in simp_all)
  then obtain m2 where m2: "foldm (declare_parameter (n_scopes m)) ?es m1 = Inr m2" "grown (length ?es) 0 m1 m2"
    "mir_hir_scopes m2 = mir_hir_scopes m1" by blast
  have "grown (length ?es) 1 m m2" using grown_seq [OF m1(2) m2(2)] by simp
  moreover have "n_scopes m < n_scopes m2" using m1(3) grownD(5) [OF m2(2)] by simp
  ultimately show ?thesis using True m1(1,4) m2(1,3) unfolding parameter_scope_def by simp
qed

text \<open>A node whose children are visited in the scopes \<open>target\<close>, after \<open>m2\<close> is reached.\<close>

lemma children_step:
  assumes ok: "index_ok m" and n: "n < n_hir m" and "grown 0 0 m m1" and "scoped m1 n"
    and "\<forall>i. i \<noteq> n \<longrightarrow> mir_hir_scopes m1 ! i = mir_hir_scopes m ! i"
    and "grown (length (hn_children (mir_hir m ! n))) 1 m1 m2" and "mir_hir_scopes m2 = mir_hir_scopes m1"
    and "\<And>e. e \<in> set (hn_children (mir_hir m ! n)) \<Longrightarrow> target e < n_scopes m2"
    and "index_class (hn_kind (mir_hir m ! n)) \<noteq> IcPattern"
    and "r = Inr (index_children target (hn_children (mir_hir m ! n)) @ ts, m2)"
  shows "step_ok m (n, sc, IpNode) ts r"
proof -
  let ?es = "hn_children (mir_hir m ! n)"
  note syn = index_okD(1) [OF ok]
  have w: "task_weight (mir_hir m) (n, sc, IpNode) = 2 + 2 * length ?es + pending_weight m (index_children target ?es)"
    using hir_weight_eq [OF syn n] by (simp add: children_weight)
  have g: "grown (length ?es) 1 m m2" using grown_seq [OF assms(3,6)] by simp
  note G = grownD [OF g]
  show ?thesis
  proof (rule step_okI [OF assms(10) g])
    show "handled m2 (index_children target ?es) (fst (n, sc, IpNode))"
      using children_handled [OF G(2)] by simp
    show "task_fits m2 u" if "u \<in> set (index_children target ?es)" for u
      using children_fit [OF syn n _ G(2) that] assms(8) by simp
  qed (use w assms(4,5,7,9) in simp_all)
qed

lemma node_step_ok:
  assumes ok: "index_ok m" and fit: "task_fits m (n, sc, IpNode)"
    and room: "n_symbols m + task_weight (mir_hir m) (n, sc, IpNode) \<le> 2 ^ 32"
      "n_scopes m + task_weight (mir_hir m) (n, sc, IpNode) \<le> 2 ^ 32"
  shows "step_ok m (n, sc, IpNode) ts (index_node n sc ts m)"
proof -
  let ?es = "hn_children (mir_hir m ! n)" and ?n = "mir_hir m ! n"
  have n: "n < n_hir m" and sc: "sc < n_scopes m" using fit by simp_all
  note syn = index_okD(1) [OF ok]
  have w: "task_weight (mir_hir m) (n, sc, IpNode) \<ge> 2 + 2 * length ?es"
    using hir_weight_eq [OF syn n] by simp
  obtain m1 where m1: "set_hir_scope n sc m = Inr m1" "grown 0 0 m m1" "scoped m1 n"
    "\<forall>i. i \<noteq> n \<longrightarrow> mir_hir_scopes m1 ! i = mir_hir_scopes m ! i" "mir_hir m1 = mir_hir m"
    "index_ok m1" "n_scopes m1 = n_scopes m" "n_symbols m1 = n_symbols m"
    using scope_set [OF ok n sc] by blast
  have n1: "n < n_hir m1" "sc < n_scopes m1" "n_scopes m1 < 2 ^ 32" "n_symbols m1 + length ?es \<le> 2 ^ 32"
    "n_symbols m1 < 2 ^ 32" using n sc room w m1(5,7,8) by simp_all
  note step = children_step [OF ok n m1(2-4)]
  have plain: "grown (length ?es) 1 m1 m1" by (rule grown_mono [OF grown_none [OF m1(6)]]) simp_all
  obtain m2 where m2: "new_scope (hn_module ?n) (Some sc) m1 = Inr (n_scopes m1, m2)"
    "grown 0 1 m1 m2" "n_scopes m2 = Suc (n_scopes m1)" "mir_hir_scopes m2 = mir_hir_scopes m1"
    "index_ok m2" "mir_hir m2 = mir_hir m1" "n_symbols m2 = n_symbols m1"
    using nested_scope [OF m1(6) n1(1-3)] m1(5) by auto
  have nested: "grown (length ?es) 1 m1 m2" by (rule grown_mono [OF m2(2)]) simp_all
  show ?thesis
  proof (cases "index_class (hn_kind ?n)")
    case IcBlock
    then have kind: "hn_kind ?n = HkBlock" by (auto simp: index_class_def split: hir_kind.splits)
    show ?thesis
    proof (rule step_okI [OF _ grown_seq [OF m1(2) m2(2)]])
      show "index_node n sc ts m = Inr ([(n, n_scopes m1, IpBlock)] @ ts, m2)"
        using m1(1,5) m2(1) n IcBlock by (simp add: index_node_def)
      show "handled m2 [(n, n_scopes m1, IpBlock)] (fst (n, sc, IpNode))" by (simp add: handled_def)
      have "1 \<le> hir_weight (mir_hir m) n" using hir_weight_eq [OF syn n] by simp
      then show "0 + 0 + pending_weight m [(n, n_scopes m1, IpBlock)] \<le> task_weight (mir_hir m) (n, sc, IpNode)"
        "0 + 1 + pending_weight m [(n, n_scopes m1, IpBlock)] \<le> task_weight (mir_hir m) (n, sc, IpNode)"
        "pending_weight m [(n, n_scopes m1, IpBlock)] < task_weight (mir_hir m) (n, sc, IpNode)" by simp_all
    qed (use m1(3-5) m2(3,4,6) kind n IcBlock in auto)
  next
    case IcParameters
    obtain nested m3 where "parameter_scope (hn_module ?n) sc ?es m1 = Inr (nested, m3)"
      "grown (length ?es) 1 m1 m3" "nested < n_scopes m3" "mir_hir_scopes m3 = mir_hir_scopes m1"
      using parameter_scope_ok [OF m1(6) n1(1-3)] n1(4) IcParameters m1(5) by auto
    then show ?thesis
      by (intro step [of m3 "\<lambda>_. nested"]) (use m1(1,5) n IcParameters in \<open>simp_all add: index_node_def\<close>)
  next
    case IcCondition
    then show ?thesis
      by (intro step [OF nested m2(4), of "arm_scope IcCondition (n_scopes m1) sc"])
        (use m1(1,5) m2(1,3) n n1(2) in \<open>simp_all add: index_node_def arm_scope_def\<close>)
  next
    case IcArm
    then show ?thesis
      by (intro step [OF nested m2(4), of "arm_scope IcArm (n_scopes m1) sc"])
        (use m1(1,5) m2(1,3) n n1(2) in \<open>simp_all add: index_node_def arm_scope_def\<close>)
  next
    case IcPattern
    have named: "named_node m1 n" using syntaxD(6) [OF syn n IcPattern] syntax_cong(2) [OF m1(5)] by simp
    obtain m3 where m3: "declare_symbol n SkPattern sc None m1 = Inr m3" "grown 1 0 m1 m3"
      "mir_hir_symbols m3 ! n \<noteq> None" "mir_hir_scopes m3 = mir_hir_scopes m1"
      using declare_symbol_ok [OF m1(6) n1(5) n1(1) named n1(2), of SkPattern None]
      by (auto simp: kind_fits_def)
    show ?thesis
    proof (rule step_okI [OF _ grown_seq [OF m1(2) m3(2)], of _ "[]"])
      show "index_node n sc ts m = Inr ([] @ ts, m3)"
        using m1(1,5) m3(1) n IcPattern by (simp add: index_node_def)
      show "handled m3 [] (fst (n, sc, IpNode))"
        using IcPattern grownD(2) [OF m3(2)] m1(5) by (simp add: handled_def walk_child_def)
    qed (use m1(3,4) m3(3,4) w in simp_all)
  next
    case IcPlain
    then show ?thesis
      by (intro step [OF plain refl, of "\<lambda>_. sc"]) (use m1(1,5) n n1(2) in \<open>simp_all add: index_node_def\<close>)
  qed
qed

lemma index_step_ok:
  assumes "index_ok m" and "task_fits m t" and "n_symbols m + task_weight (mir_hir m) t \<le> 2 ^ 32"
    and "n_scopes m + task_weight (mir_hir m) t \<le> 2 ^ 32"
  shows "step_ok m t ts (index_step t ts m)"
proof (cases t)
  case (fields n sc p)
  then show ?thesis using block_step_ok [OF assms(1)] node_step_ok [OF assms(1)] assms(2-4) by (cases p) simp_all
qed

section \<open>The walk ends\<close>

lemma handled_mono: "handled m ts n \<Longrightarrow> set ts \<subseteq> set us \<Longrightarrow> handled m us n"
  unfolding handled_def by blast

lemma task_fits_mono: "task_fits m t \<Longrightarrow> mir_hir m' = mir_hir m \<Longrightarrow> n_scopes m \<le> n_scopes m' \<Longrightarrow> task_fits m' t"
  by (cases t) simp

lemma index_loop_ok:
  assumes "index_ok m" and "\<forall>t \<in> set ts. task_fits m t" and "covered m ts"
    and "n_symbols m + pending_weight m ts \<le> 2 ^ 32" and "n_scopes m + pending_weight m ts \<le> 2 ^ 32"
  shows "\<exists>m'. index_loop ts m = Some (Inr m') \<and> grown (pending_weight m ts) (pending_weight m ts) m m' \<and>
    covered m' [] \<and> (\<forall>t \<in> set ts. scoped m' (fst t))"
  using assms
proof (induction "pending_weight m ts" arbitrary: ts m rule: less_induct)
  case less
  show ?case
  proof (cases ts)
    case Nil
    then show ?thesis using less.prems grown_none by (simp add: index_loop.simps)
  next
    case (Cons t us)
    have room: "n_symbols m + task_weight (mir_hir m) t \<le> 2 ^ 32" "n_scopes m + task_weight (mir_hir m) t \<le> 2 ^ 32"
      using less.prems(4,5) Cons by simp_all
    obtain new m1 where S: "index_step t us m = Inr (new @ us, m1)" "index_ok m1" "same_frame m m1"
      "mir_module_scopes m1 = mir_module_scopes m" "mir_exports m1 = mir_exports m"
      "n_scopes m \<le> n_scopes m1" "n_symbols m \<le> n_symbols m1"
      "n_symbols m1 + pending_weight m new \<le> n_symbols m + task_weight (mir_hir m) t"
      "n_scopes m1 + pending_weight m new \<le> n_scopes m + task_weight (mir_hir m) t"
      "pending_weight m new < task_weight (mir_hir m) t" "\<forall>u \<in> set new. task_fits m1 u" "scoped m1 (fst t)"
      "\<forall>i. i \<noteq> fst t \<longrightarrow> mir_hir_scopes m1 ! i = mir_hir_scopes m ! i" "handled m1 new (fst t)"
      "index_class (hn_kind (mir_hir m ! fst t)) = IcPattern \<longrightarrow> mir_hir_symbols m1 ! fst t \<noteq> None"
      using index_step_ok [OF less.prems(1) _ room] less.prems(2) Cons unfolding step_ok_def
      by (metis list.set_intros(1))
    have hir: "mir_hir m1 = mir_hir m" using S(3) by (simp add: same_frame_def)
    have pw: "pending_weight m1 x = pending_weight m x" for x by (simp add: pending_weight_def hir)
    have g: "grown (n_symbols m1 - n_symbols m) (n_scopes m1 - n_scopes m) m m1" using S by (simp add: grown_def)
    have "covered m1 (new @ us)"
    proof (rule covered_step [OF _ g])
      show "covered m ((fst t, fst (snd t), snd (snd t)) # us)" using less.prems(3) Cons by simp
      show "handled m1 (new @ us) (fst t)" using handled_mono [OF S(14)] by simp
    qed (use S(12,13,15) in auto)
    moreover have "task_fits m1 u" if "u \<in> set us" for u
      by (rule task_fits_mono [OF _ hir S(6)]) (use less.prems(2) Cons that in simp)
    with S(11) have "\<forall>u \<in> set (new @ us). task_fits m1 u" by auto
    moreover have "pending_weight m1 (new @ us) < pending_weight m ts" using S(10) Cons by (simp add: pw)
    ultimately obtain m2 where m2: "index_loop (new @ us) m1 = Some (Inr m2)"
      "grown (pending_weight m1 (new @ us)) (pending_weight m1 (new @ us)) m1 m2" "covered m2 []"
      "\<forall>u \<in> set (new @ us). scoped m2 (fst u)"
      using less.hyps [OF _ S(2)] less.prems(4,5) S(8,9) Cons pw by fastforce
    have "grown (pending_weight m ts) (pending_weight m ts) m m2"
      by (rule grown_mono [OF grown_seq [OF g m2(2)]]) (use S(6-9) Cons in \<open>simp_all add: pw\<close>)
    moreover have "scoped m2 (fst t)" using grownD(6) [OF m2(2)] S(12) unfolding same_frame_def by blast
    ultimately show ?thesis using Cons S(1) m2 by (auto simp: index_loop.simps)
  qed
qed

end
