(* ===== verification/Resolve_Modules.thy ===== *)
theory Resolve_Modules
  imports Resolve_Indexed
begin

text \<open>
  The index of a module and of all modules: the body, the implicit imports and the exports. Every node
  that the walk can reach from a module body ends up in a scope.
\<close>

section \<open>Exports\<close>

definition extended :: "nat \<Rightarrow> nat \<Rightarrow> mir \<Rightarrow> mir \<Rightarrow> bool" where
  "extended a b m m' \<longleftrightarrow> index_ok m' \<and> same_frame m m' \<and>
     n_symbols m' \<le> n_symbols m + a \<and> n_scopes m \<le> n_scopes m' \<and> n_scopes m' \<le> n_scopes m + b"

lemma extended_refl: "index_ok m \<Longrightarrow> extended a b m m"
  by (simp add: extended_def)

lemma extended_trans: "extended a b m m' \<Longrightarrow> extended c d m' m'' \<Longrightarrow> extended (a + c) (b + d) m m''"
  using same_frame_trans by (auto simp: extended_def)

lemma extended_mono: "extended a b m m' \<Longrightarrow> a \<le> c \<Longrightarrow> b \<le> d \<Longrightarrow> extended c d m m'"
  by (auto simp: extended_def)

lemma grown_extended: "grown a b m m' \<Longrightarrow> extended a b m m'"
  by (simp add: grown_def extended_def)

lemma extendedD:
  assumes "extended a b m m'"
  shows "index_ok m'" and "mir_hir m' = mir_hir m" and "mir_modules m' = mir_modules m"
    and "mir_imports m' = mir_imports m" and "n_symbols m' \<le> n_symbols m + a"
    and "n_scopes m \<le> n_scopes m'" and "n_scopes m' \<le> n_scopes m + b"
    and "scoped m n \<Longrightarrow> scoped m' n"
  using assms unfolding extended_def same_frame_def by simp_all

text \<open>The tables the walk fills, which the rest of the index leaves alone.\<close>

definition same_tables :: "mir \<Rightarrow> mir \<Rightarrow> bool" where
  "same_tables m m' \<longleftrightarrow> mir_hir m' = mir_hir m \<and> mir_hir_scopes m' = mir_hir_scopes m \<and>
     mir_hir_symbols m' = mir_hir_symbols m \<and> mir_module_scopes m' = mir_module_scopes m"

lemma same_tables_trans: "same_tables m m' \<Longrightarrow> same_tables m' m'' \<Longrightarrow> same_tables m m''"
  by (simp add: same_tables_def)

lemma covered_same: "covered m ts \<Longrightarrow> mir_hir m' = mir_hir m \<Longrightarrow> mir_hir_scopes m' = mir_hir_scopes m \<Longrightarrow>
    mir_hir_symbols m' = mir_hir_symbols m \<Longrightarrow> covered m' ts"
  unfolding covered_def handled_def walk_child_def by simp

lemma push_export_ok:
  assumes "index_ok m" and "md < n_modules m" and "i < n_symbols m" and "i \<notin> set (bound_symbols m)"
  shows "\<exists>m'. push_export md i m = Inr m' \<and> extended 0 0 m m' \<and> same_tables m m'"
proof -
  let ?m = "m\<lparr>mir_exports := (mir_exports m)[md := mir_exports m ! md @ [i]]\<rparr>"
  note D = index_okD [OF assms(1)] and S = index_scopesD [OF assms(1)]
  have len: "md < length (mir_exports m)" using D(6) assms(2) by simp
  have frame: "same_frame m ?m" by (simp add: same_frame_def)
  have exports: "j < n_symbols m" if j: "ids \<in> set (mir_exports ?m)" "j \<in> set ids" for ids j
  proof -
    consider "ids = mir_exports m ! md @ [i]" | "ids \<in> set (mir_exports m)"
      using set_update_subset_insert j(1) by fastforce
    then show ?thesis using S(5) j(2) assms(3) nth_mem [OF len] by cases auto
  qed
  have "mset (bound_symbols ?m) = add_mset i (mset (bound_symbols m))"
    using len by (simp add: bound_symbols_def mset_concat_update flip: mset_concat)
  then have "distinct (bound_symbols ?m)" by (rule distinct_insert [OF _ D(8) assms(4)])
  moreover have "scopes_ok ?m" using D(2) by (simp add: scopes_ok_def)
  ultimately have "index_ok ?m"
    by (intro index_okI [OF assms(1) frame]) (use D S exports in auto)
  with frame len show ?thesis by (simp add: push_export_def update_at_def extended_def same_tables_def)
qed

lemma declare_export_ok:
  assumes ok: "index_ok m" and "n_symbols m < 2 ^ 32" and md: "md < n_modules m" and "n < n_hir m"
    and c: "c < n_hir m" "named_node m c" and sc: "mir_module_scopes m ! md = Some sc"
  shows "\<exists>m'. declare_export md n c m = Inr m' \<and> extended 1 0 m m' \<and> same_tables m m'"
proof -
  note D = index_okD [OF ok]
  have len: "md < length (mir_module_scopes m)" using D(5) md by simp
  then have sc': "sc < n_scopes m" using index_scopesD(4) [OF ok, of sc] sc by (metis nth_mem)
  obtain name where name: "node_name m c = Inr name" using syntax_named [OF D(1) c] by blast
  obtain m1 where m1: "new_symbol (Some md) name SkExport (Some n) (Some sc) m = Inr (n_symbols m, m1)"
    "grown 1 0 m m1" "n_symbols m1 = Suc (n_symbols m)" "n_symbols m \<notin> set (bound_symbols m1)"
    using new_symbol_ok [OF ok assms(2) md sc' assms(4), of SkExport name] by (auto simp: kind_fits_def)
  have tables: "same_tables m m1" using m1(1) by (auto simp: new_symbol_def Let_def same_tables_def split: if_splits)
  note G = grown_extended [OF m1(2)]
  obtain m2 where m2: "push_export md (n_symbols m) m1 = Inr m2" "extended 0 0 m1 m2" "same_tables m1 m2"
    using push_export_ok [OF extendedD(1) [OF G], of md "n_symbols m"] extendedD(3) [OF G] md m1(3,4) by auto
  have "extended 1 0 m m2" using extended_trans [OF G m2(2)] by simp
  with name len sc m1(1) m2(1) same_tables_trans [OF tables m2(3)] show ?thesis
    by (simp add: declare_export_def)
qed

lemma index_export_ok:
  assumes ok: "index_ok m" and "n_symbols m < 2 ^ 32" and md: "md < n_modules m" and n: "he_node e < n_hir m"
    and raw: "he_role e = RoBinding \<Longrightarrow> binding_raw m (he_node e)" and sc: "mir_module_scopes m ! md = Some sc"
  shows "\<exists>m'. index_export md e m = Inr m' \<and> extended 1 0 m m' \<and> same_tables m m'"
proof (cases "he_role e = RoBinding \<and> binding_kind_of (hn_kind (mir_hir m ! he_node e)) = Some BkExport")
  case False
  then show ?thesis using extended_refl [OF ok] n by (auto simp: index_export_def same_tables_def)
next
  case True
  show ?thesis
  proof (cases "find_child (hn_children (mir_hir m ! he_node e)) RoName")
    case None
    with True n show ?thesis using extended_refl [OF ok] by (simp add: index_export_def same_tables_def)
  next
    case (Some c)
    have "named_node m c" using raw True Some by (simp add: binding_raw_def)
    from declare_export_ok [OF ok assms(2) md n syntax_child [OF index_okD(1) [OF ok] n Some] this sc]
    show ?thesis using True Some n by (simp add: index_export_def)
  qed
qed

lemma index_exports_ok:
  assumes ok: "index_ok m" and "md < n_modules m" and body: "body < n_hir m" "hn_kind (mir_hir m ! body) = HkBlock"
    and "n_symbols m + length (hn_children (mir_hir m ! body)) \<le> 2 ^ 32" and "mir_module_scopes m ! md = Some sc"
  shows "\<exists>m'. index_exports md body m = Inr m' \<and> extended (length (hn_children (mir_hir m ! body))) 0 m m' \<and>
    same_tables m m'"
proof -
  have "\<exists>m'. foldm (index_export md) es m = Inr m' \<and> extended (length es) 0 m m' \<and> same_tables m m'"
    if "index_ok m" "n_symbols m + length es \<le> 2 ^ 32" "md < n_modules m" "mir_module_scopes m ! md = Some sc"
      "\<forall>e \<in> set es. he_node e < n_hir m \<and> (he_role e = RoBinding \<longrightarrow> binding_raw m (he_node e))" for m es
    using that
  proof (induction es arbitrary: m)
    case (Cons e es)
    have room: "n_symbols m < 2 ^ 32" and e: "he_node e < n_hir m" using Cons.prems(2,5) by simp_all
    obtain m1 where m1: "index_export md e m = Inr m1" "extended 1 0 m m1" "same_tables m m1"
      using index_export_ok [OF Cons.prems(1) room Cons.prems(3) e _ Cons.prems(4)] Cons.prems(5) by auto
    note E = extendedD [OF m1(2)]
    have "\<exists>m'. foldm (index_export md) es m1 = Inr m' \<and> extended (length es) 0 m1 m' \<and> same_tables m1 m'"
    proof (rule Cons.IH [OF E(1)])
      show "\<forall>e \<in> set es. he_node e < n_hir m1 \<and> (he_role e = RoBinding \<longrightarrow> binding_raw m1 (he_node e))"
        using Cons.prems(5) syntax_cong(4) [OF E(2)] E(2) by simp
    qed (use Cons.prems(2-4) E(3,5) m1(3) in \<open>simp_all add: same_tables_def\<close>)
    then obtain m2 where "foldm (index_export md) es m1 = Inr m2" "extended (length es) 0 m1 m2" "same_tables m1 m2"
      by blast
    then show ?case using m1 extended_trans [OF m1(2)] same_tables_trans [OF m1(3)] by fastforce
  qed (simp add: extended_refl same_tables_def)
  from this [OF ok assms(5,2,6)] syntaxD(2,4) [OF index_okD(1) [OF ok] body(1)] body show ?thesis
    by (simp add: index_exports_def)
qed

section \<open>A module\<close>

lemma set_module_scope_ok:
  assumes "index_ok m" and "i < n_modules m" and "sc < n_scopes m"
  shows "\<exists>m'. set_module_scope i sc m = Inr m' \<and> extended 0 0 m m' \<and> mir_module_scopes m' ! i = Some sc \<and>
    mir_hir_scopes m' = mir_hir_scopes m \<and> mir_hir_symbols m' = mir_hir_symbols m \<and> n_symbols m' = n_symbols m"
proof -
  let ?m = "m\<lparr>mir_module_scopes := (mir_module_scopes m)[i := Some sc]\<rparr>"
  note D = index_okD [OF assms(1)] and S = index_scopesD [OF assms(1)]
  have frame: "same_frame m ?m" by (simp add: same_frame_def)
  have mods: "x < n_scopes m" if "Some x \<in> set (mir_module_scopes ?m)" for x
    using that S(4) assms(3) set_update_subset_insert [of "mir_module_scopes m" i "Some sc"] by auto
  have "scopes_ok ?m" using D(2) by (simp add: scopes_ok_def)
  then have "index_ok ?m" by (intro index_okI [OF assms(1) frame]) (use D S mods in auto)
  with frame D(5) assms(2) show ?thesis by (simp add: set_module_scope_def update_at_def extended_def)
qed

lemma implicit_imports_ok:
  "\<forall>e \<in> set es. e < length (mir_imports m) \<Longrightarrow>
    \<exists>r. implicit_imports m es = Inr r \<and> (\<forall>e \<in> set r. e < length (mir_imports m))"
  by (induction es) auto

lemma extend_open_imports_ok:
  assumes "index_ok m" and "sc < n_scopes m" and "\<forall>e \<in> set es. e < length (mir_imports m)"
  shows "\<exists>m'. extend_open_imports sc es m = Inr m' \<and> extended 0 0 m m' \<and> same_tables m m' \<and>
    n_symbols m' = n_symbols m"
proof -
  let ?m = "m\<lparr>mir_scopes := (mir_scopes m)[sc := (mir_scopes m ! sc)
    \<lparr>sc_open_imports := sc_open_imports (mir_scopes m ! sc) @ es\<rparr>]\<rparr>"
  note D = index_okD [OF assms(1)] and S = index_scopesD [OF assms(1)]
  have frame: "same_frame m ?m" by (simp add: same_frame_def)
  have "map (map sb_symbol \<circ> sc_bindings) (mir_scopes ?m) = map (map sb_symbol \<circ> sc_bindings) (mir_scopes m)"
    using assms(2) by (simp add: map_update list_update_same_conv)
  then have "distinct (bound_symbols ?m)" using D(8) unfolding bound_symbols_def by simp
  moreover have "scopes_ok ?m" using D(2) assms(2,3) by (auto simp: scopes_ok_def nth_list_update)
  ultimately have "index_ok ?m" by (intro index_okI [OF assms(1) frame]) (use D S in auto)
  with frame assms(2) show ?thesis
    by (simp add: extend_open_imports_def update_at_def extended_def same_tables_def)
qed

definition body_weight :: "mir \<Rightarrow> hir_id \<Rightarrow> nat" where
  "body_weight m body = 3 * hir_weight (mir_hir m) body"

lemma index_block_ok:
  assumes ok: "index_ok m" and cov: "covered m []" and body: "body < n_hir m" "hn_kind (mir_hir m ! body) = HkBlock"
    and sc: "sc < n_scopes m" and "n_symbols m + 2 * hir_weight (mir_hir m) body \<le> 2 ^ 32"
    and "n_scopes m + 2 * hir_weight (mir_hir m) body \<le> 2 ^ 32"
  shows "\<exists>m'. index_block body sc m = Some (Inr m') \<and>
    grown (2 * hir_weight (mir_hir m) body) (2 * hir_weight (mir_hir m) body) m m' \<and> covered m' [] \<and> scoped m' body"
proof -
  let ?ts = "[(body, sc, IpBlock)]"
  have w: "pending_weight m ?ts \<le> 2 * hir_weight (mir_hir m) body" by simp
  have "covered m ?ts" using cov by (auto simp: covered_def handled_def)
  moreover have "\<forall>t \<in> set ?ts. task_fits m t" using body sc by simp
  moreover have "n_symbols m + pending_weight m ?ts \<le> 2 ^ 32" "n_scopes m + pending_weight m ?ts \<le> 2 ^ 32"
    using assms(6,7) w by simp_all
  ultimately obtain m' where m': "index_loop ?ts m = Some (Inr m')"
    "grown (pending_weight m ?ts) (pending_weight m ?ts) m m'" "covered m' []" "\<forall>t \<in> set ?ts. scoped m' (fst t)"
    using index_loop_ok [OF ok, of ?ts] by blast
  then show ?thesis using grown_mono [OF m'(2) w w] by (simp add: index_block_def)
qed

lemma index_body_ok:
  assumes ok: "index_ok m" and cov: "covered m []" and i: "i < n_modules m" "n_modules m \<le> 2 ^ 32"
    and body: "module_body (md_state (mir_modules m ! i)) = Some body"
    and room: "n_symbols m + body_weight m body \<le> 2 ^ 32" "n_scopes m + body_weight m body \<le> 2 ^ 32"
  shows "\<exists>m'. index_body i body m = Some (Inr m') \<and> extended (body_weight m body) (body_weight m body) m m' \<and>
    covered m' [] \<and> scoped m' body"
proof -
  note D = index_okD [OF ok]
  have "module_raw m (mir_modules m ! i)" using D(1) i(1) by (simp add: syntax_ok_def)
  then have b: "body < n_hir m" "hn_kind (mir_hir m ! body) = HkBlock"
    and imps: "\<forall>e \<in> set (md_imports (mir_modules m ! i)). e < length (mir_imports m)"
    using body by (simp_all add: module_raw_def)
  let ?w = "hir_weight (mir_hir m) body" and ?n = "length (hn_children (mir_hir m ! body))"
  have w: "1 + ?n \<le> ?w" using hir_weight_eq [OF D(1) b(1)] by simp
  have md: "i mod 2 ^ 32 = i" using i by simp
  have bw: "body_weight m body = 3 * ?w" by (simp add: body_weight_def)
  obtain m1 where m1: "new_scope i None m = Inr (n_scopes m, m1)" "grown 0 1 m m1" "n_scopes m1 = Suc (n_scopes m)"
    using new_scope_ok [OF ok _ i(1), of None] room(2) bw w by fastforce
  note E1 = extendedD [OF grown_extended [OF m1(2)]]
  have t1: "mir_hir_scopes m1 = mir_hir_scopes m" "mir_hir_symbols m1 = mir_hir_symbols m" "n_symbols m1 = n_symbols m"
    using m1(1) by (auto simp: new_scope_def split: if_splits)
  obtain m2 where m2: "set_module_scope i (n_scopes m) m1 = Inr m2" "extended 0 0 m1 m2"
    "mir_module_scopes m2 ! i = Some (n_scopes m)" "mir_hir_scopes m2 = mir_hir_scopes m1"
    "mir_hir_symbols m2 = mir_hir_symbols m1" "n_symbols m2 = n_symbols m1"
    using set_module_scope_ok [OF E1(1), of i "n_scopes m"] i(1) E1(3) m1(3) by auto
  note E2 = extendedD [OF m2(2)]
  have cov2: "covered m2 []" by (rule covered_same [OF cov]) (use t1 m2(4,5) E1(2) E2(2) in simp_all)
  have s2: "n_scopes m2 = Suc (n_scopes m)" using E2(6,7) m1(3) by simp
  have hir2: "mir_hir m2 = mir_hir m" "mir_modules m2 = mir_modules m" "mir_imports m2 = mir_imports m"
    using E1(2-4) E2(2-4) by simp_all
  obtain m3 where m3: "index_block body (n_scopes m) m2 = Some (Inr m3)" "grown (2 * ?w) (2 * ?w) m2 m3"
    "covered m3 []" "scoped m3 body"
    using index_block_ok [OF E2(1) cov2, of body "n_scopes m"] b hir2(1) s2 room bw w m2(6) t1(3) by fastforce
  note E3 = extendedD [OF grown_extended [OF m3(2)]]
  have hir3: "mir_hir m3 = mir_hir m" "mir_modules m3 = mir_modules m" "mir_imports m3 = mir_imports m"
    using hir2 E3(2-4) by simp_all
  have ms3: "mir_module_scopes m3 ! i = Some (n_scopes m)" using m3(2) m2(3) by (simp add: grown_def)
  obtain imp where imp: "implicit_imports m3 (md_imports (mir_modules m ! i)) = Inr imp"
    "\<forall>e \<in> set imp. e < length (mir_imports m3)"
    using implicit_imports_ok [of "md_imports (mir_modules m ! i)" m3] imps hir3(3) by auto
  have sc3: "n_scopes m < n_scopes m3" using E3(6) s2 by simp
  obtain m4 where m4: "extend_open_imports (n_scopes m) imp m3 = Inr m4" "extended 0 0 m3 m4" "same_tables m3 m4"
    "n_symbols m4 = n_symbols m3"
    using extend_open_imports_ok [OF E3(1) sc3 imp(2)] by blast
  note E4 = extendedD [OF m4(2)]
  obtain m5 where m5: "index_exports i body m4 = Inr m5" "extended ?n 0 m4 m5" "same_tables m4 m5"
    using index_exports_ok [OF E4(1), of i body "n_scopes m"] i(1) b room(1) bw w E1(5) m2(6) E3(5) t1(3) m4(3,4) ms3
      E4(2,3) hir3 by (auto simp: same_tables_def)
  have "extended (2 * ?w + ?n) (1 + 2 * ?w) m m5"
    using extended_trans [OF extended_trans [OF extended_trans [OF extended_trans
      [OF grown_extended [OF m1(2)] m2(2)] grown_extended [OF m3(2)]] m4(2)] m5(2)] by simp
  then have ext: "extended (body_weight m body) (body_weight m body) m m5"
    by (rule extended_mono) (use w bw in simp_all)
  have tables: "same_tables m3 m5" by (rule same_tables_trans [OF m4(3) m5(3)])
  then have "covered m5 []" using covered_same [OF m3(3)] by (simp add: same_tables_def)
  moreover have "scoped m5 body" using tables m3(4) by (simp add: same_tables_def)
  moreover have "index_body i body m = Some (Inr m5)"
    unfolding index_body_def Let_def md
    using m1(1) m2(1) m3(1) m4(1) m5(1) imp(1) i(1) hir3(2) by simp
  ultimately show ?thesis using ext by blast
qed

section \<open>All modules\<close>

definition module_weight :: "mir \<Rightarrow> nat \<Rightarrow> nat" where
  "module_weight m i = (case module_body (md_state (mir_modules m ! i)) of None \<Rightarrow> 0 | Some b \<Rightarrow> body_weight m b)"

lemma index_modules_ok:
  assumes "index_ok m" and "covered m []" and "\<forall>i \<in> set is. i < n_modules m" and "n_modules m \<le> 2 ^ 32"
    and "n_symbols m + sum_list (map (module_weight m) is) \<le> 2 ^ 32"
    and "n_scopes m + sum_list (map (module_weight m) is) \<le> 2 ^ 32"
  shows "\<exists>m'. index_modules is m = Some (Inr m') \<and>
    extended (sum_list (map (module_weight m) is)) (sum_list (map (module_weight m) is)) m m' \<and> covered m' [] \<and>
    (\<forall>i \<in> set is. \<forall>b. module_body (md_state (mir_modules m ! i)) = Some b \<longrightarrow> scoped m' b)"
  using assms
proof (induction "is" arbitrary: m)
  case (Cons i ids)
  have i: "i < n_modules m" using Cons.prems(3) by simp
  have "\<exists>m1. index_module i m = Some (Inr m1) \<and> extended (module_weight m i) (module_weight m i) m m1 \<and> covered m1 [] \<and>
      (\<forall>b. module_body (md_state (mir_modules m ! i)) = Some b \<longrightarrow> scoped m1 b)"
  proof (cases "module_body (md_state (mir_modules m ! i))")
    case None
    then show ?thesis using i Cons.prems(2) extended_refl [OF Cons.prems(1)]
      by (simp add: index_module_def module_weight_def)
  next
    case (Some b)
    have "n_symbols m + body_weight m b \<le> 2 ^ 32" "n_scopes m + body_weight m b \<le> 2 ^ 32"
      using Cons.prems(5,6) Some by (simp_all add: module_weight_def)
    from index_body_ok [OF Cons.prems(1,2) i Cons.prems(4) Some this] Some i show ?thesis
      by (auto simp: index_module_def module_weight_def)
  qed
  then obtain m1 where m1: "index_module i m = Some (Inr m1)" "extended (module_weight m i) (module_weight m i) m m1"
    "covered m1 []" "\<forall>b. module_body (md_state (mir_modules m ! i)) = Some b \<longrightarrow> scoped m1 b" by blast
  note E = extendedD [OF m1(2)]
  have w: "module_weight m1 j = module_weight m j" for j
    unfolding module_weight_def body_weight_def E(2,3) ..
  obtain m2 where m2: "index_modules ids m1 = Some (Inr m2)"
    "extended (sum_list (map (module_weight m) ids)) (sum_list (map (module_weight m) ids)) m1 m2" "covered m2 []"
    "\<forall>i \<in> set ids. \<forall>b. module_body (md_state (mir_modules m ! i)) = Some b \<longrightarrow> scoped m2 b"
    using Cons.IH [OF E(1) m1(3)] Cons.prems(3-6) E(3,5,7) by (auto simp: w)
  have "extended (sum_list (map (module_weight m) (i # ids))) (sum_list (map (module_weight m) (i # ids))) m m2"
    using extended_trans [OF m1(2) m2(2)] by simp
  then show ?case using m1(1,4) m2 extendedD(8) [OF m2(2)] by auto
qed (simp add: extended_refl)

text \<open>The nodes the walk reaches from the bodies of the modules.\<close>

definition reachable_node :: "mir \<Rightarrow> hir_id \<Rightarrow> bool" where
  "reachable_node m n \<longleftrightarrow> (\<exists>md \<in> set (mir_modules m). \<exists>b. module_body (md_state md) = Some b \<and> (walk_child m)\<^sup>*\<^sup>* b n)"

lemma covered_reach:
  assumes "covered m []" and "syntax_ok m" and "(walk_child m)\<^sup>*\<^sup>* b n" and "b < n_hir m" and "scoped m b"
  shows "n < n_hir m \<and> scoped m n"
  using assms(3)
proof (induction rule: rtranclp_induct)
  case (step x y)
  then have x: "x < n_hir m" "scoped m x" by simp_all
  then have "y < n_hir m" using syntaxD(2) [OF assms(2) x(1)] step.hyps(2) by (auto simp: walk_child_def)
  moreover have "handled m [] x" using assms(1) x by (simp add: covered_def)
  then have "scoped m y" using step.hyps(2) unfolding handled_def by auto
  ultimately show ?case by blast
qed (use assms in simp)

end
