(* ===== verification/Resolve_Duplicates.thy ===== *)
theory Resolve_Duplicates
  imports Resolve_Pass Resolve_Modules
begin

text \<open>
  What \<open>diagnose_duplicates\<close> does: the symbols of a scope, or of the exports of a module, are grouped by
  their names, and the members of a group of two or more become conflicted.
\<close>

section \<open>Groups\<close>

definition groups_by :: "('a \<Rightarrow> 'k::linorder) \<Rightarrow> 'a list \<Rightarrow> ('k, 'a list) btree" where
  "groups_by key xs = fold (\<lambda>x. bt_push (key x) x) xs []"

lemma groups_by_snoc: "groups_by key (xs @ [x]) = bt_push (key x) x (groups_by key xs)"
  by (simp add: groups_by_def)

lemma groups_ok: "bt_ok (groups_by key xs)"
proof (induction xs rule: rev_induct)
  case (snoc x xs)
  then show ?case by (simp add: groups_by_snoc bt_push_ok)
qed (simp add: groups_by_def)

lemma get_groups:
  "bt_get (groups_by key xs) k = (let ys = filter (\<lambda>x. key x = k) xs in if ys = [] then None else Some ys)"
proof (induction xs rule: rev_induct)
  case (snoc x xs)
  then show ?case
    by (auto simp: groups_by_snoc bt_push_def bt_get_insert Let_def split: if_splits)
qed (simp add: groups_by_def)

lemma group_in: "(k, ys) \<in> set (groups_by key xs) \<longleftrightarrow> ys = filter (\<lambda>x. key x = k) xs \<and> ys \<noteq> []"
  by (auto simp: bt_set [OF groups_ok] get_groups Let_def)

lemma groups_set: "\<Union> (set ` snd ` set (groups_by key xs)) = set xs"
proof
  show "\<Union> (set ` snd ` set (groups_by key xs)) \<subseteq> set xs" by (auto simp: group_in)
  show "set xs \<subseteq> \<Union> (set ` snd ` set (groups_by key xs))"
  proof
    fix x assume x: "x \<in> set xs"
    then have "(key x, filter (\<lambda>y. key y = key x) xs) \<in> set (groups_by key xs)"
      by (auto simp: group_in filter_empty_conv)
    then show "x \<in> \<Union> (set ` snd ` set (groups_by key xs))" using x by force
  qed
qed

lemma bt_insert_length: "length (bt_insert k v g) \<le> Suc (length g)"
  by (induction k v g rule: bt_insert.induct) auto

lemma groups_length: "length (groups_by key xs) \<le> length xs"
proof (induction xs rule: rev_induct)
  case (snoc x xs)
  have "length (groups_by key (xs @ [x])) \<le> Suc (length (groups_by key xs))"
    by (simp add: groups_by_snoc bt_push_def bt_insert_length)
  with snoc show ?case by simp
qed (simp add: groups_by_def)

text \<open>Lists of groups whose members are all different.\<close>

definition members :: "('k \<times> 'a list) list \<Rightarrow> 'a set" where
  "members gs = \<Union> (set ` snd ` set gs)"

lemma members_simps [simp]:
  "members [] = {}" "members (g # gs) = set (snd g) \<union> members gs" "members (gs @ hs) = members gs \<union> members hs"
  by (auto simp: members_def)

lemma members_concat: "members (concat gss) = (\<Union>gs \<in> set gss. members gs)"
  by (induction gss) auto

lemma members_groups [simp]: "members (groups_by key xs) = set xs"
  by (simp only: members_def groups_set)

fun separate :: "('k \<times> 'a list) list \<Rightarrow> bool" where
  "separate [] \<longleftrightarrow> True"
| "separate (g # gs) \<longleftrightarrow> set (snd g) \<inter> members gs = {} \<and> separate gs"

lemma separate_append: "separate (gs @ hs) \<longleftrightarrow> separate gs \<and> separate hs \<and> members gs \<inter> members hs = {}"
  by (induction gs) auto

lemma separate_groups: "separate (groups_by key xs)"
proof -
  have "separate gs" if "distinct (map fst gs)" "\<forall>g \<in> set gs. \<forall>x \<in> set (snd g). key x = fst g" for gs :: "('a \<times> 'b list) list"
    using that by (induction gs) (fastforce simp: members_def image_iff)+
  moreover have "distinct (map fst (groups_by key xs))"
    using groups_ok [of key xs] by (simp add: bt_ok_def strict_sorted_iff)
  moreover have "\<forall>g \<in> set (groups_by key xs). \<forall>x \<in> set (snd g). key x = fst g" by (auto simp: group_in)
  ultimately show ?thesis by blast
qed

section \<open>Blame\<close>

definition blame_ids :: "conflict_id \<Rightarrow> symbol_id list \<Rightarrow> symbol list \<Rightarrow> symbol list" where
  "blame_ids c ids = fold (\<lambda>i ss. ss[i := (ss ! i)\<lparr>sy_resolution := RsConflicted c\<rparr>]) ids"

definition blame_group ::
  "string \<times> symbol_id list \<Rightarrow> symbol list \<times> resolve_conflict list \<Rightarrow> symbol list \<times> resolve_conflict list" where
  "blame_group g s =
     (if length (snd g) < 2 then s
      else (blame_ids (length (snd s)) (snd g) (fst s), snd s @ [DuplicateDefinition (fst g) (snd g)]))"

definition blame_all ::
  "(string \<times> symbol_id list) list \<Rightarrow> symbol list \<times> resolve_conflict list \<Rightarrow> symbol list \<times> resolve_conflict list" where
  "blame_all gs = fold blame_group gs"

lemma blame_ids_length [simp]: "length (blame_ids c ids ss) = length ss"
  by (induction ids arbitrary: ss) (simp_all add: blame_ids_def)

lemma blame_ids_nth:
  "j < length ss \<Longrightarrow> blame_ids c ids ss ! j =
    (if j \<in> set ids then (ss ! j)\<lparr>sy_resolution := RsConflicted c\<rparr> else ss ! j)"
proof (induction ids arbitrary: ss)
  case (Cons i ids)
  from Cons.IH [of "ss[i := (ss ! i)\<lparr>sy_resolution := RsConflicted c\<rparr>]"] Cons.prems
  show ?case by (cases "i = j") (simp_all add: blame_ids_def)
qed (simp add: blame_ids_def)

lemma blame_group_length [simp]: "length (fst (blame_group g s)) = length (fst s)"
  by (simp add: blame_group_def)

lemma blame_all_length [simp]: "length (fst (blame_all gs s)) = length (fst s)"
  by (induction gs arbitrary: s) (simp_all add: blame_all_def)

lemma blame_all_simps [simp]:
  "blame_all [] s = s" "blame_all (g # gs) s = blame_all gs (blame_group g s)"
  "blame_all (gs @ hs) s = blame_all hs (blame_all gs s)"
  by (simp_all add: blame_all_def)

lemma blame_all_conflicts:
  "length (snd (blame_all gs s)) \<le> length (snd s) + length gs"
proof (induction gs arbitrary: s)
  case (Cons g gs)
  from Cons.IH [of "blame_group g s"] show ?case by (auto simp: blame_group_def split: if_splits)
qed simp

text \<open>Only the answer of a symbol can change, and only to a conflict; others stay what they are.\<close>

lemma blame_all_nth:
  "j < length (fst s) \<Longrightarrow> fst (blame_all gs s) ! j = fst s ! j \<or>
    j \<in> members gs \<and> (\<exists>c. fst (blame_all gs s) ! j = (fst s ! j)\<lparr>sy_resolution := RsConflicted c\<rparr>)"
proof (induction gs arbitrary: s)
  case (Cons g gs)
  from Cons.IH [of "blame_group g s"] Cons.prems
  show ?case by (auto simp: blame_group_def blame_ids_nth split: if_splits)
qed simp

lemma blame_all_keeps: "\<exists>ds. snd (blame_all gs s) = snd s @ ds"
proof (induction gs arbitrary: s)
  case (Cons g gs)
  from Cons.IH [of "blame_group g s"] show ?case by (auto simp: blame_group_def split: if_splits)
qed simp

text \<open>The members of separate groups: in company, and alone.\<close>

lemma blame_all_member:
  assumes "separate gs" and "g \<in> set gs" and "j \<in> set (snd g)" and "j < length (fst s)"
  shows "if length (snd g) < 2 then fst (blame_all gs s) ! j = fst s ! j
    else \<exists>c. fst (blame_all gs s) ! j = (fst s ! j)\<lparr>sy_resolution := RsConflicted c\<rparr> \<and>
      length (snd s) \<le> c \<and> c < length (snd (blame_all gs s)) \<and>
      snd (blame_all gs s) ! c = DuplicateDefinition (fst g) (snd g)"
  using assms
proof (induction gs arbitrary: s)
  case (Cons h gs)
  let ?s = "blame_group h s"
  have len: "j < length (fst ?s)" using Cons.prems(4) by simp
  show ?case
  proof (cases "g = h")
    case True
    with Cons.prems(1,3) have j: "j \<notin> members gs" by auto
    have last: "fst (blame_all gs ?s) ! j = fst ?s ! j" using blame_all_nth [OF len, of gs] j by blast
    show ?thesis
    proof (cases "length (snd g) < 2")
      case False
      obtain ds where ds: "snd (blame_all gs ?s) = snd ?s @ ds" using blame_all_keeps by blast
      with last True False Cons.prems(3,4) show ?thesis
        by (auto simp: blame_group_def blame_ids_nth nth_append intro!: exI [of _ "length (snd s)"])
    qed (use last True in \<open>simp add: blame_group_def\<close>)
  next
    case False
    with Cons.prems(2) have g: "g \<in> set gs" by simp
    then have j: "j \<notin> set (snd h)" using Cons.prems(1,3) by (auto simp: members_def)
    have same: "fst ?s ! j = fst s ! j" using j Cons.prems(4) by (simp add: blame_group_def blame_ids_nth)
    have "length (snd s) \<le> length (snd ?s)" by (simp add: blame_group_def)
    with Cons.IH [OF _ g Cons.prems(3) len] Cons.prems(1) same show ?thesis
      by (auto split: if_splits intro: le_trans)
  qed
qed simp

section \<open>The code\<close>

definition with_blame :: "mir \<Rightarrow> symbol list \<times> resolve_conflict list \<Rightarrow> resolve_diagnostic list \<Rightarrow> mir" where
  "with_blame m s ds = m\<lparr>mir_symbols := fst s, mir_conflicts := snd s, mir_diagnostics := ds\<rparr>"

abbreviation (input) blame_state :: "mir \<Rightarrow> symbol list \<times> resolve_conflict list" where
  "blame_state m \<equiv> (mir_symbols m, mir_conflicts m)"

lemma with_blame_same [simp]:
  "mir_hir (with_blame m s ds) = mir_hir m" "mir_scopes (with_blame m s ds) = mir_scopes m"
  "mir_exports (with_blame m s ds) = mir_exports m" "mir_symbols (with_blame m s ds) = fst s"
  "mir_conflicts (with_blame m s ds) = snd s" "with_blame (with_blame m s ds) t es = with_blame m t es"
  by (simp_all add: with_blame_def)

lemma with_blame_id: "with_blame m (blame_state m) (mir_diagnostics m) = m"
  by (simp add: with_blame_def)

definition declared :: "mir \<Rightarrow> symbol_id \<Rightarrow> bool" where
  "declared m i \<longleftrightarrow> i < n_symbols m \<and> sy_declarations (mir_symbols m ! i) \<noteq> [] \<and>
     hd (sy_declarations (mir_symbols m ! i)) < n_hir m"

lemma first_declaration_ok:
  "declared m i \<Longrightarrow> first_declaration m i = Inr (hd (sy_declarations (mir_symbols m ! i)))"
  by (simp add: first_declaration_def declared_def hd_conv_nth)

lemma declared_blame:
  assumes "declared m i"
  shows "declared (with_blame m (blame_all gs (blame_state m)) ds) i"
  using assms blame_all_nth [of i "blame_state m" gs] by (auto simp: declared_def)

lemma set_resolutions_ok:
  "\<forall>i \<in> set ids. i < n_symbols m \<Longrightarrow>
    set_resolutions (RsConflicted c) ids m = Inr (m\<lparr>mir_symbols := blame_ids c ids (mir_symbols m)\<rparr>)"
proof (induction ids arbitrary: m)
  case (Cons i ids)
  then show ?case
    by (simp add: set_resolutions_def set_symbol_resolution_def update_at_def blame_ids_def)
qed (simp add: set_resolutions_def blame_ids_def)

lemma all_type_parameters_ok:
  "\<forall>i \<in> set ids. i < n_symbols m \<Longrightarrow> \<exists>b. all_type_parameters m ids = Inr b"
  by (induction ids) auto

lemma note_duplicate_ok:
  assumes "\<forall>i \<in> set ids. declared m i" and "2 \<le> length ids"
  shows "\<exists>ds. note_duplicate p name ids m = Inr (m\<lparr>mir_diagnostics := ds\<rparr>)"
proof -
  have i: "0 < length ids" "1 < length ids" using assms(2) by linarith+
  from nth_mem [OF i(1)] nth_mem [OF i(2)] have d: "declared m (ids ! 0)" "declared m (ids ! 1)" using assms(1) by blast+
  obtain b where b: "all_type_parameters m ids = Inr b"
    using all_type_parameters_ok [of ids m] assms(1) by (auto simp: declared_def)
  have h: "hd (sy_declarations (mir_symbols m ! (ids ! 0))) < n_hir m"
    "hd (sy_declarations (mir_symbols m ! (ids ! 1))) < n_hir m" using d by (simp_all add: declared_def)
  show ?thesis
    unfolding note_duplicate_def at_simps(1) [OF i(1)] at_simps(1) [OF i(2)] rbind_simps
      first_declaration_ok [OF d(1)] first_declaration_ok [OF d(2)] b at_simps(2) [OF h(1)] at_simps(2) [OF h(2)]
    by blast
qed

lemma scope_duplicates_ok:
  assumes "\<forall>i \<in> set (snd g). declared m i" and "length (mir_conflicts m) < 2 ^ 32"
  shows "\<exists>ds. scope_duplicates p g m = Inr (with_blame m (blame_group g (blame_state m)) ds)"
proof (cases "length (snd g) < 2")
  case True
  have "with_blame m (blame_group g (blame_state m)) (mir_diagnostics m) = m"
    using True by (simp add: blame_group_def with_blame_id)
  moreover have "scope_duplicates p g m = Inr m" using True by (simp add: scope_duplicates_def case_prod_beta)
  ultimately show ?thesis by (intro exI [of _ "mir_diagnostics m"]) simp
next
  case False
  obtain name ids where g: "g = (name, ids)" by (cases g)
  let ?m = "m\<lparr>mir_conflicts := mir_conflicts m @ [DuplicateDefinition name ids]\<rparr>"
  have dec: "\<forall>i \<in> set ids. declared ?m i" using assms(1) g by (simp add: declared_def)
  have two: "2 \<le> length ids" using False g by simp
  obtain ds where ds: "note_duplicate p name ids ?m = Inr (?m\<lparr>mir_diagnostics := ds\<rparr>)"
    using note_duplicate_ok [OF dec two] by blast
  have "\<forall>i \<in> set ids. i < n_symbols (?m\<lparr>mir_diagnostics := ds\<rparr>)" using dec by (simp add: declared_def)
  from set_resolutions_ok [OF this] False ds assms(2) g show ?thesis
    by (auto simp: scope_duplicates_def conflict_def run_effect_def blame_group_def with_blame_def intro!: exI [of _ ds])
qed

lemma export_duplicates_ok:
  assumes "\<forall>i \<in> set (snd g). declared m i" and "length (mir_conflicts m) < 2 ^ 32"
  shows "\<exists>ds. export_duplicates g m = Inr (with_blame m (blame_group g (blame_state m)) ds)"
proof (cases "length (snd g) < 2")
  case True
  have "with_blame m (blame_group g (blame_state m)) (mir_diagnostics m) = m"
    using True by (simp add: blame_group_def with_blame_id)
  moreover have "export_duplicates g m = Inr m" using True by (simp add: export_duplicates_def case_prod_beta)
  ultimately show ?thesis by (intro exI [of _ "mir_diagnostics m"]) simp
next
  case False
  obtain name ids where g: "g = (name, ids)" by (cases g)
  let ?m = "m\<lparr>mir_conflicts := mir_conflicts m @ [DuplicateDefinition name ids]\<rparr>"
  have i: "ids ! 1 \<in> set ids" "1 < length ids" using False g by simp_all
  then have d: "declared ?m (ids ! 1)" using assms(1) g by (simp add: declared_def)
  let ?d = "hd (sy_declarations (mir_symbols m ! (ids ! 1)))"
  have h: "?d < n_hir m" using d by (simp add: declared_def)
  obtain ds where ds: "note_at (MsgDuplicateExport name) ?d ?m = Inr (?m\<lparr>mir_diagnostics := ds\<rparr>)"
    using h by (simp add: note_at_def run_effect_def diagnose_def query_def)
  have "\<forall>i \<in> set ids. i < n_symbols (?m\<lparr>mir_diagnostics := ds\<rparr>)" using assms(1) g by (simp add: declared_def)
  note set = set_resolutions_ok [OF this, of "length (mir_conflicts m)"]
  have c: "run_effect (conflict (DuplicateDefinition name ids) m) = Inr (RsConflicted (length (mir_conflicts m)), ?m)"
    using assms(2) by (simp add: run_effect_def conflict_def)
  have f: "first_declaration ?m (ids ! 1) = Inr ?d" using first_declaration_ok [OF d] by simp
  have "export_duplicates g m = set_resolutions (RsConflicted (length (mir_conflicts m))) ids (?m\<lparr>mir_diagnostics := ds\<rparr>)"
    using False unfolding export_duplicates_def g
    by (simp only: case_prod_conv c rbind_simps at_simps(1) [OF i(2)] f ds snd_conv if_False)
  also have "\<dots> = Inr (with_blame m (blame_group g (blame_state m)) ds)"
    using False unfolding set g by (simp add: blame_group_def with_blame_def)
  finally show ?thesis by blast
qed

text \<open>A list of groups.\<close>

lemma foldm_blame:
  assumes step: "\<And>g m. \<forall>i \<in> set (snd g). declared m i \<Longrightarrow> length (mir_conflicts m) < 2 ^ 32 \<Longrightarrow>
      \<exists>ds. f g m = Inr (with_blame m (blame_group g (blame_state m)) ds)"
    and "\<forall>i \<in> members gs. declared m i" and "length (mir_conflicts m) + length gs \<le> 2 ^ 32"
  shows "\<exists>ds. foldm f gs m = Inr (with_blame m (blame_all gs (blame_state m)) ds)"
  using assms(2,3)
proof (induction gs arbitrary: m)
  case (Cons g gs)
  obtain ds where ds: "f g m = Inr (with_blame m (blame_group g (blame_state m)) ds)"
    using step [of g m] Cons.prems by auto
  let ?m = "with_blame m (blame_group g (blame_state m)) ds"
  have "\<forall>i \<in> members gs. declared ?m i"
    using declared_blame [of m _ "[g]" ds] Cons.prems(1) by simp
  moreover have "length (mir_conflicts ?m) + length gs \<le> 2 ^ 32"
    using blame_all_conflicts [of "[g]" "blame_state m"] Cons.prems(2) by simp
  ultimately obtain es where "foldm f gs ?m = Inr (with_blame ?m (blame_all gs (blame_state ?m)) es)"
    using Cons.IH by blast
  with ds show ?case by auto
qed (use with_blame_id in \<open>metis blame_all_simps(1) foldm.simps(1)\<close>)

section \<open>Scopes and exports\<close>

definition symbol_name :: "mir \<Rightarrow> symbol_id \<Rightarrow> string" where
  "symbol_name m i = sy_name (mir_symbols m ! i)"

text \<open>The bindings of a scope that can clash: not those of \<open>let\<close>, which shadow each other.\<close>

definition clash_binding :: "bool \<Rightarrow> mir \<Rightarrow> scope_binding \<Rightarrow> bool" where
  "clash_binding p m b \<longleftrightarrow> (let s = mir_symbols m ! sb_symbol b in
     (sy_kind s = SkPattern) = p \<and> (p \<longrightarrow> sy_resolution s = RsBound (sb_symbol b)) \<and> sb_after b = None)"

definition scope_candidates :: "bool \<Rightarrow> mir \<Rightarrow> scope_id \<Rightarrow> symbol_id list" where
  "scope_candidates p m sc = map sb_symbol (filter (clash_binding p m) (sc_bindings (mir_scopes m ! sc)))"

definition scope_groups :: "bool \<Rightarrow> mir \<Rightarrow> scope_id \<Rightarrow> (string \<times> symbol_id list) list" where
  "scope_groups p m sc = groups_by (symbol_name m) (scope_candidates p m sc)"

definition export_groups :: "mir \<Rightarrow> nat \<Rightarrow> (string \<times> symbol_id list) list" where
  "export_groups m md = groups_by (symbol_name m) (mir_exports m ! md)"

lemma group_bindings_ok:
  "\<forall>b \<in> set bs. sb_symbol b < n_symbols m \<Longrightarrow>
    foldm (group_binding p m) bs g =
      Inr (fold (\<lambda>x. bt_push (symbol_name m x) x) (map sb_symbol (filter (clash_binding p m) bs)) g)"
proof (induction bs arbitrary: g)
  case (Cons b bs)
  then show ?case by (auto simp: group_binding_def clash_binding_def symbol_name_def Let_def)
qed simp

lemma group_exports_ok:
  "\<forall>i \<in> set ids. i < n_symbols m \<Longrightarrow>
    foldm (group_export m) ids g = Inr (fold (\<lambda>x. bt_push (symbol_name m x) x) ids g)"
  by (induction ids arbitrary: g) (simp_all add: group_export_def symbol_name_def)

lemma candidates_sub: "set (scope_candidates p m sc) \<subseteq> sb_symbol ` set (sc_bindings (mir_scopes m ! sc))"
  by (auto simp: scope_candidates_def)

lemma scope_groups_length: "length (scope_groups p m sc) \<le> length (sc_bindings (mir_scopes m ! sc))"
proof -
  have "length (scope_groups p m sc) \<le> length (scope_candidates p m sc)"
    unfolding scope_groups_def by (rule groups_length)
  also have "\<dots> \<le> length (sc_bindings (mir_scopes m ! sc))" by (simp add: scope_candidates_def)
  finally show ?thesis .
qed

lemma diagnose_scope_ok:
  assumes "sc < n_scopes m" and dec: "\<forall>b \<in> set (sc_bindings (mir_scopes m ! sc)). declared m (sb_symbol b)"
    and "length (mir_conflicts m) + length (sc_bindings (mir_scopes m ! sc)) \<le> 2 ^ 32"
  shows "\<exists>ds. diagnose_scope p sc m = Inr (with_blame m (blame_all (scope_groups p m sc) (blame_state m)) ds)"
proof -
  let ?bs = "sc_bindings (mir_scopes m ! sc)"
  have "\<forall>b \<in> set ?bs. sb_symbol b < n_symbols m" using dec by (simp add: declared_def)
  then have g: "foldm (group_binding p m) ?bs [] = Inr (scope_groups p m sc)"
    by (simp add: group_bindings_ok scope_groups_def scope_candidates_def groups_by_def)
  have "\<forall>i \<in> members (scope_groups p m sc). declared m i"
    unfolding scope_groups_def members_groups using candidates_sub [of p m sc] dec by blast
  moreover have "length (mir_conflicts m) + length (scope_groups p m sc) \<le> 2 ^ 32"
    using assms(3) scope_groups_length [of p m sc] by simp
  ultimately have "\<exists>ds. foldm (scope_duplicates p) (scope_groups p m sc) m =
      Inr (with_blame m (blame_all (scope_groups p m sc) (blame_state m)) ds)"
    by (intro foldm_blame) (use scope_duplicates_ok in blast)+
  with assms(1) g show ?thesis by (simp add: diagnose_scope_def)
qed

lemma diagnose_exports_ok:
  assumes "md < length (mir_exports m)" and dec: "\<forall>i \<in> set (mir_exports m ! md). declared m i"
    and "length (mir_conflicts m) + length (mir_exports m ! md) \<le> 2 ^ 32"
  shows "\<exists>ds. diagnose_exports md m = Inr (with_blame m (blame_all (export_groups m md) (blame_state m)) ds)"
proof -
  have "\<forall>i \<in> set (mir_exports m ! md). i < n_symbols m" using dec by (simp add: declared_def)
  then have g: "foldm (group_export m) (mir_exports m ! md) [] = Inr (export_groups m md)"
    by (simp add: group_exports_ok export_groups_def groups_by_def)
  have "\<forall>i \<in> members (export_groups m md). declared m i" unfolding export_groups_def members_groups by (rule dec)
  moreover have "length (mir_conflicts m) + length (export_groups m md) \<le> 2 ^ 32"
    using assms(3) groups_length [of "symbol_name m" "mir_exports m ! md"] by (simp add: export_groups_def)
  ultimately have "\<exists>ds. foldm export_duplicates (export_groups m md) m =
      Inr (with_blame m (blame_all (export_groups m md) (blame_state m)) ds)"
    by (intro foldm_blame) (use export_duplicates_ok in blast)+
  with assms(1) g show ?thesis by (simp add: diagnose_exports_def)
qed

text \<open>Blame elsewhere changes no group.\<close>

lemma name_blame [simp]:
  "i < n_symbols m \<Longrightarrow> symbol_name (with_blame m (blame_all gs (blame_state m)) ds) i = symbol_name m i"
  using blame_all_nth [of i "blame_state m" gs] by (auto simp: symbol_name_def)

lemma groups_by_cong: "(\<And>x. x \<in> set xs \<Longrightarrow> f x = g x) \<Longrightarrow> groups_by f xs = groups_by g xs"
  unfolding groups_by_def by (rule fold_cong) simp_all

lemma scope_groups_blame:
  assumes "\<forall>b \<in> set (sc_bindings (mir_scopes m ! sc)). sb_symbol b < n_symbols m"
    and "members gs \<inter> sb_symbol ` set (sc_bindings (mir_scopes m ! sc)) = {}"
  shows "scope_groups p (with_blame m (blame_all gs (blame_state m)) ds) sc = scope_groups p m sc"
proof -
  let ?m = "with_blame m (blame_all gs (blame_state m)) ds"
  have "mir_symbols ?m ! sb_symbol b = mir_symbols m ! sb_symbol b" if "b \<in> set (sc_bindings (mir_scopes m ! sc))" for b
    using blame_all_nth [of "sb_symbol b" "blame_state m" gs] assms that by auto
  then have "clash_binding p ?m b = clash_binding p m b" if "b \<in> set (sc_bindings (mir_scopes m ! sc))" for b
    using that by (simp add: clash_binding_def Let_def)
  then have "filter (clash_binding p ?m) (sc_bindings (mir_scopes m ! sc)) =
      filter (clash_binding p m) (sc_bindings (mir_scopes m ! sc))" by (rule filter_cong [OF refl])
  then have c: "scope_candidates p ?m sc = scope_candidates p m sc" by (simp add: scope_candidates_def)
  have "i < n_symbols m" if "i \<in> set (scope_candidates p m sc)" for i
    using that candidates_sub [of p m sc] assms(1) by auto
  then show ?thesis unfolding scope_groups_def c by (intro groups_by_cong) simp
qed

lemma export_groups_blame:
  "\<forall>i \<in> set (mir_exports m ! md). i < n_symbols m \<Longrightarrow>
    export_groups (with_blame m (blame_all gs (blame_state m)) ds) md = export_groups m md"
  unfolding export_groups_def with_blame_same by (rule groups_by_cong) simp

lemma blame_more:
  "with_blame (with_blame m (blame_all gs (blame_state m)) ds)
     (blame_all hs (blame_state (with_blame m (blame_all gs (blame_state m)) ds))) es =
   with_blame m (blame_all (gs @ hs) (blame_state m)) es"
  by simp

section \<open>All groups\<close>

definition scope_ids :: "mir \<Rightarrow> scope_id \<Rightarrow> symbol_id list" where
  "scope_ids m sc = map sb_symbol (sc_bindings (mir_scopes m ! sc))"

lemma diagnose_scopes_ok:
  assumes "\<forall>sc \<in> set scs. sc < n_scopes m \<and> (\<forall>i \<in> set (scope_ids m sc). declared m i)"
    and "distinct (concat (map (scope_ids m) scs))"
    and "members gs \<inter> set (concat (map (scope_ids m) scs)) = {}"
    and "length (mir_conflicts m) + length gs + length (concat (map (scope_ids m) scs)) \<le> 2 ^ 32"
  shows "\<exists>es. foldm (diagnose_scope p) scs (with_blame m (blame_all gs (blame_state m)) ds) =
    Inr (with_blame m (blame_all (gs @ concat (map (scope_groups p m) scs)) (blame_state m)) es)"
  using assms
proof (induction scs arbitrary: gs ds)
  case (Cons sc scs)
  let ?m = "with_blame m (blame_all gs (blame_state m)) ds" and ?g = "scope_groups p m sc"
  have sc: "sc < n_scopes m" "\<forall>b \<in> set (sc_bindings (mir_scopes m ! sc)). declared m (sb_symbol b)"
    using Cons.prems(1) by (simp_all add: scope_ids_def)
  have len: "length ?g \<le> length (scope_ids m sc)" using scope_groups_length by (simp add: scope_ids_def)
  have same: "scope_groups p ?m sc = ?g"
    by (rule scope_groups_blame) (use sc(2) Cons.prems(3) in \<open>auto simp: declared_def scope_ids_def\<close>)
  have "length (snd (blame_all gs (blame_state m))) \<le> length (mir_conflicts m) + length gs"
    using blame_all_conflicts [of gs "blame_state m"] by simp
  then have "length (mir_conflicts ?m) + length (sc_bindings (mir_scopes ?m ! sc)) \<le> 2 ^ 32"
    using Cons.prems(4) by (simp add: scope_ids_def)
  moreover have "\<forall>b \<in> set (sc_bindings (mir_scopes ?m ! sc)). declared ?m (sb_symbol b)"
    using sc(2) declared_blame by simp
  ultimately obtain es where es: "diagnose_scope p sc ?m = Inr (with_blame ?m (blame_all ?g (blame_state ?m)) es)"
    using diagnose_scope_ok [of sc ?m p] sc(1) same by auto
  have "members ?g \<subseteq> set (scope_ids m sc)"
    unfolding scope_groups_def members_groups using candidates_sub [of p m sc] by (simp add: scope_ids_def)
  then have "members (gs @ ?g) \<inter> set (concat (map (scope_ids m) scs)) = {}"
    using Cons.prems(2,3) by auto
  moreover have "length (mir_conflicts m) + length (gs @ ?g) + length (concat (map (scope_ids m) scs)) \<le> 2 ^ 32"
    using Cons.prems(4) len by simp
  moreover have "\<forall>sc \<in> set scs. sc < n_scopes m \<and> (\<forall>i \<in> set (scope_ids m sc). declared m i)"
    "distinct (concat (map (scope_ids m) scs))" using Cons.prems(1,2) by simp_all
  ultimately obtain fs where "foldm (diagnose_scope p) scs (with_blame m (blame_all (gs @ ?g) (blame_state m)) es) =
      Inr (with_blame m (blame_all ((gs @ ?g) @ concat (map (scope_groups p m) scs)) (blame_state m)) fs)"
    using Cons.IH by blast
  with es show ?case by (simp only: foldm.simps rbind_simps blame_more append_assoc list.map concat.simps) blast
qed auto

lemma diagnose_all_exports_ok:
  assumes "\<forall>md \<in> set mds. md < length (mir_exports m) \<and> (\<forall>i \<in> set (mir_exports m ! md). declared m i)"
    and "length (mir_conflicts m) + length gs + length (concat (map (\<lambda>md. mir_exports m ! md) mds)) \<le> 2 ^ 32"
  shows "\<exists>es. foldm diagnose_exports mds (with_blame m (blame_all gs (blame_state m)) ds) =
    Inr (with_blame m (blame_all (gs @ concat (map (export_groups m) mds)) (blame_state m)) es)"
  using assms
proof (induction mds arbitrary: gs ds)
  case (Cons md mds)
  let ?m = "with_blame m (blame_all gs (blame_state m)) ds" and ?g = "export_groups m md"
  have md: "md < length (mir_exports m)" "\<forall>i \<in> set (mir_exports m ! md). declared m i" using Cons.prems(1) by simp_all
  have len: "length ?g \<le> length (mir_exports m ! md)" by (simp add: export_groups_def groups_length)
  have same: "export_groups ?m md = ?g"
    by (rule export_groups_blame) (use md(2) in \<open>simp add: declared_def\<close>)
  have "length (snd (blame_all gs (blame_state m))) \<le> length (mir_conflicts m) + length gs"
    using blame_all_conflicts [of gs "blame_state m"] by simp
  then have "length (mir_conflicts ?m) + length (mir_exports ?m ! md) \<le> 2 ^ 32" using Cons.prems(2) by simp
  moreover have "\<forall>i \<in> set (mir_exports ?m ! md). declared ?m i" using md(2) declared_blame by simp
  ultimately obtain es where es: "diagnose_exports md ?m = Inr (with_blame ?m (blame_all ?g (blame_state ?m)) es)"
    using diagnose_exports_ok [of md ?m] md(1) same by auto
  have "length (mir_conflicts m) + length (gs @ ?g) + length (concat (map (\<lambda>md. mir_exports m ! md) mds)) \<le> 2 ^ 32"
    using Cons.prems(2) len by simp
  moreover have "\<forall>md \<in> set mds. md < length (mir_exports m) \<and> (\<forall>i \<in> set (mir_exports m ! md). declared m i)"
    using Cons.prems(1) by simp
  ultimately obtain fs where "foldm diagnose_exports mds (with_blame m (blame_all (gs @ ?g) (blame_state m)) es) =
      Inr (with_blame m (blame_all ((gs @ ?g) @ concat (map (export_groups m) mds)) (blame_state m)) fs)"
    using Cons.IH by blast
  with es show ?case by (simp only: foldm.simps rbind_simps blame_more append_assoc list.map concat.simps) blast
qed auto

definition all_groups :: "bool \<Rightarrow> mir \<Rightarrow> (string \<times> symbol_id list) list" where
  "all_groups p m = concat (map (scope_groups p m) [0..<n_scopes m]) @
     (if p then [] else concat (map (export_groups m) [0..<length (mir_exports m)]))"

text \<open>What the code relies on: every listed symbol exists and has a declaration.\<close>

definition listed_ok :: "mir \<Rightarrow> bool" where
  "listed_ok m \<longleftrightarrow> distinct (bound_symbols m) \<and> (\<forall>i \<in> set (bound_symbols m). declared m i)"

lemma bound_symbols_eq:
  "bound_symbols m = concat (map (scope_ids m) [0..<n_scopes m]) @
     concat (map (\<lambda>md. mir_exports m ! md) [0..<length (mir_exports m)])"
proof -
  have "map (map sb_symbol \<circ> sc_bindings) (mir_scopes m) = map (scope_ids m) [0..<n_scopes m]"
    by (rule nth_equalityI) (simp_all add: scope_ids_def)
  then show ?thesis by (simp add: bound_symbols_def map_nth)
qed

lemma concat_length_mono:
  "(\<And>x. x \<in> set xs \<Longrightarrow> length (f x) \<le> length (g x)) \<Longrightarrow> length (concat (map f xs)) \<le> length (concat (map g xs))"
  by (induction xs) (auto intro: add_mono)

lemma all_groups_length: "length (all_groups p m) \<le> length (bound_symbols m)"
proof -
  have "length (concat (map (scope_groups p m) [0..<n_scopes m])) \<le> length (concat (map (scope_ids m) [0..<n_scopes m]))"
    by (rule concat_length_mono) (use scope_groups_length in \<open>simp add: scope_ids_def\<close>)
  moreover have "length (concat (map (export_groups m) [0..<length (mir_exports m)])) \<le>
      length (concat (map (\<lambda>md. mir_exports m ! md) [0..<length (mir_exports m)]))"
    by (rule concat_length_mono) (simp add: export_groups_def groups_length)
  ultimately show ?thesis unfolding all_groups_def bound_symbols_eq by auto
qed

lemma diagnose_duplicates_eq:
  assumes "listed_ok m" and "length (mir_conflicts m) + length (bound_symbols m) \<le> 2 ^ 32"
  shows "\<exists>ds. diagnose_duplicates p m = Inr (with_blame m (blame_all (all_groups p m) (blame_state m)) ds)"
proof -
  let ?S = "concat (map (scope_ids m) [0..<n_scopes m])" and ?G = "concat (map (scope_groups p m) [0..<n_scopes m])"
  let ?E = "concat (map (\<lambda>md. mir_exports m ! md) [0..<length (mir_exports m)])"
  note L = assms(1) [unfolded listed_ok_def bound_symbols_eq]
  have "\<forall>sc \<in> set [0..<n_scopes m]. sc < n_scopes m \<and> (\<forall>i \<in> set (scope_ids m sc). declared m i)" using L by auto
  moreover have "distinct ?S" using L by simp
  moreover have "length (mir_conflicts m) + length [] + length ?S \<le> 2 ^ 32" using assms(2) by (simp add: bound_symbols_eq)
  ultimately obtain es where es: "foldm (diagnose_scope p) [0..<n_scopes m] m =
      Inr (with_blame m (blame_all ?G (blame_state m)) es)"
    using diagnose_scopes_ok [of "[0..<n_scopes m]" m "[]" p "mir_diagnostics m"] by (auto simp: with_blame_id)
  show ?thesis
  proof (cases p)
    case True
    with es show ?thesis by (auto simp: diagnose_duplicates_def all_groups_def)
  next
    case False
    have "\<forall>md \<in> set [0..<length (mir_exports m)]. md < length (mir_exports m) \<and> (\<forall>i \<in> set (mir_exports m ! md). declared m i)"
      using L by auto
    moreover have "length ?G \<le> length ?S"
      by (rule concat_length_mono) (use scope_groups_length in \<open>simp add: scope_ids_def\<close>)
    then have "length (mir_conflicts m) + length ?G + length ?E \<le> 2 ^ 32" using assms(2) by (simp add: bound_symbols_eq)
    ultimately obtain fs where "foldm diagnose_exports [0..<length (mir_exports m)] (with_blame m (blame_all ?G (blame_state m)) es) =
        Inr (with_blame m (blame_all (?G @ concat (map (export_groups m) [0..<length (mir_exports m)])) (blame_state m)) fs)"
      using diagnose_all_exports_ok by blast
    with es False show ?thesis by (auto simp: diagnose_duplicates_def all_groups_def)
  qed
qed

lemma separate_concat:
  assumes "\<And>x. x \<in> set xs \<Longrightarrow> separate (f x) \<and> members (f x) \<subseteq> set (g x)" and "distinct (concat (map g xs))"
  shows "separate (concat (map f xs)) \<and> members (concat (map f xs)) \<subseteq> set (concat (map g xs))"
  using assms
proof (induction xs)
  case (Cons x xs)
  then have "separate (f x)" "members (f x) \<subseteq> set (g x)" "separate (concat (map f xs))"
    "members (concat (map f xs)) \<subseteq> set (concat (map g xs))" "set (g x) \<inter> set (concat (map g xs)) = {}" by auto
  then show ?case by (auto simp: separate_append)
qed simp

lemma all_groups_separate:
  assumes "distinct (bound_symbols m)"
  shows "separate (all_groups p m)"
proof -
  note D = assms [unfolded bound_symbols_eq]
  have s: "separate (scope_groups p m sc) \<and> members (scope_groups p m sc) \<subseteq> set (scope_ids m sc)" for sc
    unfolding scope_groups_def members_groups using candidates_sub [of p m sc] separate_groups
    by (simp add: scope_ids_def)
  have e: "separate (export_groups m md) \<and> members (export_groups m md) \<subseteq> set (mir_exports m ! md)" for md
    unfolding export_groups_def members_groups using separate_groups by blast
  have "separate (concat (map (scope_groups p m) [0..<n_scopes m])) \<and>
      members (concat (map (scope_groups p m) [0..<n_scopes m])) \<subseteq> set (concat (map (scope_ids m) [0..<n_scopes m]))"
    by (rule separate_concat) (use s D in simp_all)
  moreover have "separate (concat (map (export_groups m) [0..<length (mir_exports m)])) \<and>
      members (concat (map (export_groups m) [0..<length (mir_exports m)])) \<subseteq>
        set (concat (map (\<lambda>md. mir_exports m ! md) [0..<length (mir_exports m)]))"
    by (rule separate_concat) (use e D in simp_all)
  moreover have "set (concat (map (scope_ids m) [0..<n_scopes m])) \<inter>
      set (concat (map (\<lambda>md. mir_exports m ! md) [0..<length (mir_exports m)])) = {}" using D by simp
  ultimately show ?thesis unfolding all_groups_def separate_append by (cases p) (simp, simp, blast)
qed

section \<open>Duplicates exactly\<close>

text \<open>The verdict on a symbol, given the symbols of its name.\<close>

definition duplicate_verdict :: "mir \<Rightarrow> mir \<Rightarrow> symbol_id \<Rightarrow> symbol_id list \<Rightarrow> bool" where
  "duplicate_verdict m m' i namesakes \<longleftrightarrow>
     (if namesakes = [i] then mir_symbols m' ! i = mir_symbols m ! i
      else \<exists>c. mir_symbols m' ! i = (mir_symbols m ! i)\<lparr>sy_resolution := RsConflicted c\<rparr> \<and>
        length (mir_conflicts m) \<le> c \<and> c < length (mir_conflicts m') \<and>
        mir_conflicts m' ! c = DuplicateDefinition (symbol_name m i) namesakes)"

lemma group_verdict:
  assumes "separate gs" and "g \<in> set gs" and "g = (symbol_name m i, js)" and "i \<in> set js" and "i < n_symbols m"
  shows "duplicate_verdict m (with_blame m (blame_all gs (blame_state m)) ds) i js"
proof -
  have "length js < 2 \<longleftrightarrow> js = [i]" using assms(4) by (cases js; cases "tl js") auto
  then show ?thesis
    using blame_all_member [OF assms(1,2), of i "blame_state m"] assms(3-5)
    by (auto simp: duplicate_verdict_def)
qed

lemma group_of:
  assumes "i \<in> set xs"
  shows "(key i, filter (\<lambda>j. key j = key i) xs) \<in> set (groups_by key xs)"
    and "i \<in> set (filter (\<lambda>j. key j = key i) xs)"
  using assms by (auto simp: group_in filter_empty_conv)

lemma listedD:
  assumes "listed_ok m"
  shows "sc < n_scopes m \<Longrightarrow> i \<in> set (scope_ids m sc) \<Longrightarrow> declared m i"
    and "md < length (mir_exports m) \<Longrightarrow> i \<in> set (mir_exports m ! md) \<Longrightarrow> declared m i"
proof -
  have bound: "i \<in> set (bound_symbols m) \<Longrightarrow> declared m i" using assms by (simp add: listed_ok_def)
  show "sc < n_scopes m \<Longrightarrow> i \<in> set (scope_ids m sc) \<Longrightarrow> declared m i"
    by (rule bound) (force simp: bound_symbols_eq)
  show "md < length (mir_exports m) \<Longrightarrow> i \<in> set (mir_exports m ! md) \<Longrightarrow> declared m i"
    by (rule bound) (force simp: bound_symbols_eq)
qed

text \<open>
  C17: Exactly the names that are declared twice are reported. \<open>diagnose_duplicates\<close> returns; a symbol
  that shares its scope, or the exports of its module, with another of its name becomes conflicted,
  and its conflict lists all of them in order of declaration; every other symbol stays what it is.
  Bindings of \<open>let\<close> shadow each other and are never reported.
\<close>

theorem duplicates_exact:
  assumes "listed_ok m" and "length (mir_conflicts m) + length (bound_symbols m) \<le> 2 ^ 32"
  shows "\<exists>m'. diagnose_duplicates p m = Inr m' \<and> n_symbols m' = n_symbols m \<and>
    (\<forall>sc i. sc < n_scopes m \<longrightarrow> i \<in> set (scope_candidates p m sc) \<longrightarrow>
      duplicate_verdict m m' i (filter (\<lambda>j. symbol_name m j = symbol_name m i) (scope_candidates p m sc))) \<and>
    (\<not> p \<longrightarrow> (\<forall>md i. md < length (mir_exports m) \<longrightarrow> i \<in> set (mir_exports m ! md) \<longrightarrow>
      duplicate_verdict m m' i (filter (\<lambda>j. symbol_name m j = symbol_name m i) (mir_exports m ! md)))) \<and>
    (\<forall>i < n_symbols m. (\<forall>sc < n_scopes m. i \<notin> set (scope_candidates p m sc)) \<longrightarrow>
      (p \<or> (\<forall>ids \<in> set (mir_exports m). i \<notin> set ids)) \<longrightarrow> mir_symbols m' ! i = mir_symbols m ! i)"
proof -
  obtain ds where ds: "diagnose_duplicates p m = Inr (with_blame m (blame_all (all_groups p m) (blame_state m)) ds)"
    using diagnose_duplicates_eq [OF assms] by blast
  let ?m = "with_blame m (blame_all (all_groups p m) (blame_state m)) ds"
  have sep: "separate (all_groups p m)" using assms(1) all_groups_separate by (simp add: listed_ok_def)
  have scope: "duplicate_verdict m ?m i (filter (\<lambda>j. symbol_name m j = symbol_name m i) (scope_candidates p m sc))"
    if sc: "sc < n_scopes m" and i: "i \<in> set (scope_candidates p m sc)" for sc i
  proof (rule group_verdict [OF sep _ refl group_of(2) [OF i]])
    show "(symbol_name m i, filter (\<lambda>j. symbol_name m j = symbol_name m i) (scope_candidates p m sc)) \<in> set (all_groups p m)"
      using group_of(1) [OF i, of "symbol_name m"] sc by (auto simp: all_groups_def scope_groups_def)
    show "i < n_symbols m"
      using listedD(1) [OF assms(1) sc] i candidates_sub [of p m sc] by (auto simp: scope_ids_def declared_def)
  qed
  have exports: "duplicate_verdict m ?m i (filter (\<lambda>j. symbol_name m j = symbol_name m i) (mir_exports m ! md))"
    if "\<not> p" and md: "md < length (mir_exports m)" and i: "i \<in> set (mir_exports m ! md)" for md i
  proof (rule group_verdict [OF sep _ refl group_of(2) [OF i]])
    show "(symbol_name m i, filter (\<lambda>j. symbol_name m j = symbol_name m i) (mir_exports m ! md)) \<in> set (all_groups p m)"
      using group_of(1) [OF i, of "symbol_name m"] md that(1) by (auto simp: all_groups_def export_groups_def)
    show "i < n_symbols m" using listedD(2) [OF assms(1) md i] by (simp add: declared_def)
  qed
  have other: "mir_symbols ?m ! i = mir_symbols m ! i"
    if i: "i < n_symbols m" "\<forall>sc < n_scopes m. i \<notin> set (scope_candidates p m sc)"
      "p \<or> (\<forall>ids \<in> set (mir_exports m). i \<notin> set ids)" for i
  proof -
    have "members (all_groups p m) \<subseteq> (\<Union>sc < n_scopes m. set (scope_candidates p m sc)) \<union>
        (if p then {} else \<Union> (set ` set (mir_exports m)))"
    proof
      fix x assume "x \<in> members (all_groups p m)"
      then consider sc where "sc < n_scopes m" "x \<in> members (scope_groups p m sc)"
        | md where "\<not> p" "md < length (mir_exports m)" "x \<in> members (export_groups m md)"
        by (auto simp: all_groups_def members_concat split: if_splits)
      then show "x \<in> (\<Union>sc < n_scopes m. set (scope_candidates p m sc)) \<union>
        (if p then {} else \<Union> (set ` set (mir_exports m)))"
        by cases (auto simp: scope_groups_def export_groups_def)
    qed
    with i have "i \<notin> members (all_groups p m)" by (auto split: if_splits)
    with blame_all_nth [of i "blame_state m" "all_groups p m"] i(1) show ?thesis by auto
  qed
  have "n_symbols ?m = n_symbols m" by simp
  with ds scope exports other show ?thesis by blast
qed

section \<open>An example\<close>

text \<open>A scope with two definitions of \<open>x\<close> and a \<open>let\<close> of the same name.\<close>

definition twice_mir :: mir where
  "twice_mir =
     (let s = \<lambda>k i. \<lparr>sy_native_type = None, sy_module = Some 0, sy_name = ''x'', sy_kind = k,
        sy_declarations = [0], sy_scope = Some 0, sy_resolution = RsBound i\<rparr> in
      \<lparr>mir_modules = [], mir_imports = [],
       mir_hir = [\<lparr>hn_module = 0, hn_location = \<lparr>lc_source = 0, lc_start = 0, lc_end = 0\<rparr>,
         hn_kind = HkMissing, hn_children = [], hn_resolution = None\<rparr>],
       mir_slots = [],
       mir_symbols = [s (SkDeclaration BkDef) 0, s (SkDeclaration BkDef) 1, s (SkDeclaration BkLet) 2],
       mir_scopes = [\<lparr>sc_parent = None, sc_module = 0,
         sc_bindings = [\<lparr>sb_symbol = 0, sb_after = None\<rparr>, \<lparr>sb_symbol = 1, sb_after = None\<rparr>,
           \<lparr>sb_symbol = 2, sb_after = Some 0\<rparr>], sc_open_imports = []\<rparr>],
       mir_hir_scopes = [], mir_hir_symbols = [], mir_module_scopes = [], mir_exports = [], mir_conflicts = [],
       mir_namespaces = [], mir_constructors = [], mir_constructor_namespaces = [], mir_waiting = [],
       mir_symbols_closed = False, mir_diagnostics = []\<rparr>)"

lemma twice_candidates: "scope_candidates False twice_mir 0 = [0, 1]" "n_scopes twice_mir = 1"
  by (simp_all add: scope_candidates_def clash_binding_def twice_mir_def Let_def)

lemma twice_names: "filter (\<lambda>j. symbol_name twice_mir j = symbol_name twice_mir 0) [0, 1] = [0, 1]"
  by (simp add: symbol_name_def twice_mir_def Let_def)

lemma twice_ok: "listed_ok twice_mir" "length (mir_conflicts twice_mir) + length (bound_symbols twice_mir) \<le> 2 ^ 32"
  by (simp_all add: listed_ok_def bound_symbols_def declared_def twice_mir_def Let_def)

lemma duplicates_exact_witness:
  "\<exists>m' c. diagnose_duplicates False twice_mir = Inr m' \<and>
    mir_symbols m' ! 0 = (mir_symbols twice_mir ! 0)\<lparr>sy_resolution := RsConflicted c\<rparr> \<and>
    mir_conflicts m' ! c = DuplicateDefinition ''x'' [0, 1]"
proof -
  obtain m' where m': "diagnose_duplicates False twice_mir = Inr m'"
    "duplicate_verdict twice_mir m' 0 (filter (\<lambda>j. symbol_name twice_mir j = symbol_name twice_mir 0) [0, 1])"
    using duplicates_exact [OF twice_ok, of False] twice_candidates by fastforce
  have "symbol_name twice_mir 0 = ''x''" by (simp add: symbol_name_def twice_mir_def Let_def)
  with m' show ?thesis unfolding twice_names duplicate_verdict_def by auto
qed

end
