(* ===== verification/Resolve_Prepared.thy ===== *)
theory Resolve_Prepared
  imports Resolve_Duplicates Resolve_Drain
begin

text \<open>
  Before any symbol is resolved: native types are linked, duplicates reported, and the graph is
  well-formed, so that the scheduler can run on it.
\<close>

section \<open>Linked symbols\<close>

text \<open>What linking and blame may make of a symbol.\<close>

definition relinked :: "mir \<Rightarrow> symbol \<Rightarrow> symbol \<Rightarrow> bool" where
  "relinked m s s' \<longleftrightarrow>
     sy_module s' = sy_module s \<and> sy_name s' = sy_name s \<and> sy_kind s' = sy_kind s \<and>
     sy_declarations s' = sy_declarations s \<and> sy_scope s' = sy_scope s \<and>
     (sy_native_type s' = sy_native_type s \<or>
       (\<exists>md. sy_module s = Some md \<and> md_native (mir_modules m ! md) \<noteq> None)) \<and>
     (sy_resolution s' = sy_resolution s \<or> sy_resolution s' = RsUnresolved \<or>
       (\<exists>c. sy_resolution s' = RsConflicted c))"

definition linked :: "mir \<Rightarrow> mir \<Rightarrow> bool" where
  "linked m m' \<longleftrightarrow> (\<exists>ss cs ds. m' = m\<lparr>mir_symbols := ss, mir_conflicts := cs, mir_diagnostics := ds\<rparr> \<and>
     length ss = n_symbols m \<and> (\<forall>i < n_symbols m. relinked m (mir_symbols m ! i) (ss ! i)))"

lemma relinked_refl [simp]: "relinked m s s"
  by (simp add: relinked_def)

lemma relinked_trans: "relinked m s s' \<Longrightarrow> relinked m s' s'' \<Longrightarrow> relinked m s s''"
  by (auto simp: relinked_def)

lemma linkedD:
  assumes "linked m m'"
  shows "n_symbols m' = n_symbols m" and "mir_hir m' = mir_hir m" and "mir_modules m' = mir_modules m"
    and "mir_imports m' = mir_imports m" and "mir_scopes m' = mir_scopes m" and "mir_exports m' = mir_exports m"
    and "i < n_symbols m \<Longrightarrow> relinked m (mir_symbols m ! i) (mir_symbols m' ! i)"
    and "bound_symbols m' = bound_symbols m"
  using assms by (auto simp: linked_def bound_symbols_def)

lemma linkedI:
  assumes "m' = m\<lparr>mir_symbols := ss, mir_conflicts := cs, mir_diagnostics := ds\<rparr>"
    and "length ss = n_symbols m" and "\<And>i. i < n_symbols m \<Longrightarrow> relinked m (mir_symbols m ! i) (ss ! i)"
  shows "linked m m'"
  using assms unfolding linked_def by blast

lemma linked_refl [simp]: "linked m m"
  by (rule linkedI [where ss = "mir_symbols m" and cs = "mir_conflicts m" and ds = "mir_diagnostics m"]) simp_all

lemma relinked_cong: "mir_modules m' = mir_modules m \<Longrightarrow> relinked m' s t = relinked m s t"
  by (simp add: relinked_def)

lemma linked_trans:
  assumes "linked m m'" and "linked m' m''"
  shows "linked m m''"
proof -
  obtain ss cs ds where m': "m' = m\<lparr>mir_symbols := ss, mir_conflicts := cs, mir_diagnostics := ds\<rparr>"
    "length ss = n_symbols m" "\<forall>i < n_symbols m. relinked m (mir_symbols m ! i) (ss ! i)"
    using assms(1) by (auto simp: linked_def)
  obtain ts es fs where m'': "m'' = m'\<lparr>mir_symbols := ts, mir_conflicts := es, mir_diagnostics := fs\<rparr>"
    "length ts = n_symbols m'" "\<forall>i < n_symbols m'. relinked m' (mir_symbols m' ! i) (ts ! i)"
    using assms(2) by (auto simp: linked_def)
  show ?thesis
  proof (rule linkedI [where ss = ts and cs = es and ds = fs])
    show "m'' = m\<lparr>mir_symbols := ts, mir_conflicts := es, mir_diagnostics := fs\<rparr>" using m''(1) m'(1) by simp
    show "length ts = n_symbols m" using m''(2) m' by simp
    fix i assume i: "i < n_symbols m"
    have "relinked m (ss ! i) (ts ! i)"
      using m''(3) i m'(1,2) relinked_cong [of m' m] by simp
    then show "relinked m (mir_symbols m ! i) (ts ! i)" using relinked_trans m'(3) i by blast
  qed
qed

lemma linked_update:
  assumes "i < n_symbols m" and "relinked m (mir_symbols m ! i) s"
  shows "linked m (m\<lparr>mir_symbols := (mir_symbols m)[i := s]\<rparr>)"
  by (rule linkedI [where ss = "(mir_symbols m)[i := s]" and cs = "mir_conflicts m" and ds = "mir_diagnostics m"])
    (use assms in \<open>auto simp: nth_list_update\<close>)

lemma linked_notes: "linked m (m\<lparr>mir_conflicts := cs\<rparr>)" "linked m (m\<lparr>mir_diagnostics := ds\<rparr>)"
  by (rule linkedI [where ss = "mir_symbols m" and cs = cs and ds = "mir_diagnostics m"]; simp)
    (rule linkedI [where ss = "mir_symbols m" and cs = "mir_conflicts m" and ds = ds]; simp)

lemma linked_blame: "linked m (with_blame m (blame_all gs (blame_state m)) ds)"
proof (rule linkedI [OF with_blame_def [of m "blame_all gs (blame_state m)" ds]])
  fix i assume "i < n_symbols m"
  with blame_all_nth [of i "blame_state m" gs]
  show "relinked m (mir_symbols m ! i) (fst (blame_all gs (blame_state m)) ! i)"
    by (auto simp: relinked_def)
qed simp

section \<open>Native types\<close>

lemma note_at_ok: "n < n_hir m \<Longrightarrow> \<exists>ds. note_at msg n m = Inr (m\<lparr>mir_diagnostics := ds\<rparr>)"
  by (simp add: note_at_def run_effect_def diagnose_def query_def) blast

lemma set_resolution_ok:
  assumes "i < n_symbols m" and "r = RsUnresolved \<or> (\<exists>c. r = RsConflicted c)"
  shows "\<exists>m'. set_symbol_resolution i r m = Inr m' \<and> linked m m' \<and> mir_conflicts m' = mir_conflicts m"
proof -
  have "linked m (m\<lparr>mir_symbols := (mir_symbols m)[i := (mir_symbols m ! i)\<lparr>sy_resolution := r\<rparr>]\<rparr>)"
    by (rule linked_update [OF assms(1)]) (use assms(2) in \<open>auto simp: relinked_def\<close>)
  with assms(1) show ?thesis by (simp add: set_symbol_resolution_def update_at_def)
qed

lemma fresh_linked:
  assumes "index_ok m" and "linked m m'" and "i < n_symbols m"
  shows "sy_kind (mir_symbols m' ! i) = sy_kind (mir_symbols m ! i)"
    and "sy_declarations (mir_symbols m' ! i) = sy_declarations (mir_symbols m ! i)"
    and "sy_declarations (mir_symbols m ! i) \<noteq> []" and "hd (sy_declarations (mir_symbols m ! i)) < n_hir m"
    and "\<exists>md < n_modules m. sy_module (mir_symbols m' ! i) = Some md"
    and "sy_kind (mir_symbols m ! i) = SkDeclaration BkNativeType \<Longrightarrow>
      native_value m (hd (sy_declarations (mir_symbols m ! i)))"
  using linkedD(7) [OF assms(2,3)] index_okD(7) [OF assms(1,3)]
  by (auto simp: relinked_def fresh_symbol_def)

lemma native_slot_ok:
  assumes "index_ok m" and "linked m m'" and i: "i < n_symbols m"
    and "sy_kind (mir_symbols m ! i) = SkDeclaration BkNativeType"
  shows "\<exists>v slot. native_slot m' (mir_symbols m' ! i) = Inr (v, slot) \<and> v < n_hir m"
proof -
  note F = fresh_linked [OF assms(1-3)] and L = linkedD [OF assms(2)]
  let ?d = "hd (sy_declarations (mir_symbols m ! i))"
  obtain v slot where v: "find_child (hn_children (mir_hir m ! ?d)) RoValue = Some v"
    "hn_kind (mir_hir m ! v) = HkNativeTypeSlot slot" using F(6) assms(4) by (auto simp: native_value_def)
  have "v < n_hir m" using syntax_child [OF index_okD(1) [OF assms(1)] F(4) v(1)] .
  moreover have "sy_declarations (mir_symbols m' ! i) ! 0 = ?d" using F(2,3) by (simp add: hd_conv_nth)
  ultimately show ?thesis using F(2-4) v L(2) by (simp add: native_slot_def)
qed

definition slots_ok :: "mir \<Rightarrow> native_slots \<Rightarrow> bool" where
  "slots_ok m slots \<longleftrightarrow> (\<forall>e \<in> set slots. \<forall>i \<in> set (snd e). i < n_symbols m)"

lemma slots_push:
  assumes "slots_ok m slots" and "i < n_symbols m"
  shows "slots_ok m (bt_push k i slots)" and "length (bt_push k i slots) \<le> Suc (length slots)"
proof -
  have old: "\<forall>j \<in> set xs. j < n_symbols m" if "bt_get slots k = Some xs" for xs
    using assms(1) that map_of_SomeD by (fastforce simp: slots_ok_def bt_get_def)
  show "slots_ok m (bt_push k i slots)"
    using assms old bt_insert_set [of k _ slots]
    by (fastforce simp: slots_ok_def bt_push_def split: option.splits)
  show "length (bt_push k i slots) \<le> Suc (length slots)" by (simp add: bt_push_def bt_insert_length)
qed

lemma link_symbol_ok:
  assumes ok: "index_ok m" and l: "linked m m'" and i: "i < n_symbols m" "n_symbols m \<le> 2 ^ 32"
    and slots: "slots_ok m slots"
  shows "\<exists>m'' slots'. link_symbol i (m', slots) = Inr (m'', slots') \<and> linked m m'' \<and>
    mir_conflicts m'' = mir_conflicts m' \<and> slots_ok m slots' \<and> length slots' \<le> Suc (length slots)"
proof -
  note F = fresh_linked [OF ok l i(1)] and L = linkedD [OF l]
  have i': "i < n_symbols m'" "i mod 2 ^ 32 = i" using i L(1) by simp_all
  show ?thesis
  proof (cases "sy_kind (mir_symbols m ! i) = SkDeclaration BkNativeType")
    case False
    with i' F(1) l slots show ?thesis by (simp add: link_symbol_def)
  next
    case True
    obtain md where md: "md < n_modules m" "sy_module (mir_symbols m' ! i) = Some md" using F(5) by blast
    obtain v slot where v: "native_slot m' (mir_symbols m' ! i) = Inr (v, slot)" "v < n_hir m"
      using native_slot_ok [OF ok l i(1) True] by blast
    have "\<exists>r. registered_slot m' md slot = Inr r \<and> (r \<noteq> None \<longrightarrow> md_native (mir_modules m ! md) \<noteq> None)"
      using md(1) L(3) by (auto simp: registered_slot_def registered_in_def split: option.splits)
    then obtain r where r: "registered_slot m' md slot = Inr r" "r \<noteq> None \<Longrightarrow> md_native (mir_modules m ! md) \<noteq> None"
      by blast
    show ?thesis
    proof (cases r)
      case None
      obtain m1 where m1: "set_symbol_resolution i RsUnresolved m' = Inr m1" "linked m' m1"
        "mir_conflicts m1 = mir_conflicts m'" using set_resolution_ok [OF i'(1)] by blast
      have "v < n_hir m1" using v(2) linkedD(2) [OF m1(2)] L(2) by simp
      then obtain ds where ds: "note_at MsgNativeSlotUnregistered v m1 = Inr (m1\<lparr>mir_diagnostics := ds\<rparr>)"
        using note_at_ok by blast
      have "link_symbol i (m', slots) = Inr (m1\<lparr>mir_diagnostics := ds\<rparr>, slots)"
        using True F(1) i'(1) md(2) v(1) r(1) None m1(1) ds by (simp add: link_symbol_def)
      with linked_trans [OF l linked_trans [OF m1(2) linked_notes(2)]] m1(3) slots show ?thesis by fastforce
    next
      case (Some t)
      let ?s = "(mir_symbols m' ! i)\<lparr>sy_native_type := Some t\<rparr>"
      let ?m = "m'\<lparr>mir_symbols := (mir_symbols m')[i := ?s]\<rparr>"
      have "relinked m' (mir_symbols m' ! i) ?s" using md(2) r(2) Some L(3) by (simp add: relinked_def)
      from linked_trans [OF l linked_update [OF i'(1) this]] have "linked m ?m" .
      moreover have "link_symbol i (m', slots) = Inr (?m, bt_push (nt_module t, nt_slot t) i slots)"
        using True F(1) i' md(2) v(1) r(1) Some by (simp add: link_symbol_def set_symbol_native_def update_at_def)
      ultimately show ?thesis using slots_push [OF slots i(1)] by fastforce
    qed
  qed
qed

lemma link_symbols_ok:
  assumes ok: "index_ok m" and "n_symbols m \<le> 2 ^ 32"
  shows "linked m m' \<Longrightarrow> slots_ok m slots \<Longrightarrow> \<forall>i \<in> set is. i < n_symbols m \<Longrightarrow>
    \<exists>m'' slots'. foldm link_symbol is (m', slots) = Inr (m'', slots') \<and> linked m m'' \<and>
      mir_conflicts m'' = mir_conflicts m' \<and> slots_ok m slots' \<and> length slots' \<le> length slots + length is"
proof (induction "is" arbitrary: m' slots)
  case (Cons i ids)
  obtain m1 slots1 where 1: "link_symbol i (m', slots) = Inr (m1, slots1)" "linked m m1"
    "mir_conflicts m1 = mir_conflicts m'" "slots_ok m slots1" "length slots1 \<le> Suc (length slots)"
    using link_symbol_ok [OF ok Cons.prems(1) _ assms(2) Cons.prems(2)] Cons.prems(3) by force
  obtain m2 slots2 where 2: "foldm link_symbol ids (m1, slots1) = Inr (m2, slots2)" "linked m m2"
    "mir_conflicts m2 = mir_conflicts m1" "slots_ok m slots2" "length slots2 \<le> length slots1 + length ids"
    using Cons.IH [OF 1(2,4)] Cons.prems(3) by auto
  then show ?case using 1 by auto
qed simp

lemma mark_native_ok:
  assumes ok: "index_ok m" and "linked m m'" and i: "i < n_symbols m"
  shows "\<exists>m''. mark_native c i m' = Inr m'' \<and> linked m m'' \<and> mir_conflicts m'' = mir_conflicts m'"
proof -
  have i': "i < n_symbols m'" using i linkedD(1) [OF assms(2)] by simp
  obtain m1 where m1: "set_symbol_resolution i (RsConflicted c) m' = Inr m1" "linked m' m1"
    "mir_conflicts m1 = mir_conflicts m'" using set_resolution_ok [OF i'] by blast
  note l = linked_trans [OF assms(2) m1(2)]
  note F = fresh_linked [OF ok l i] and L = linkedD [OF l]
  have "declared m1 i" using F(2-4) L(1,2) i by (simp add: declared_def)
  then have d: "first_declaration m1 i = Inr (hd (sy_declarations (mir_symbols m ! i)))"
    using first_declaration_ok F(2) by simp
  obtain ds where "note_at MsgNativeSlotDuplicate (hd (sy_declarations (mir_symbols m ! i))) m1 =
      Inr (m1\<lparr>mir_diagnostics := ds\<rparr>)" using note_at_ok F(4) L(2) by metis
  with m1 d linked_trans [OF l linked_notes(2)] show ?thesis by (simp add: mark_native_def)
qed

lemma mark_natives_ok:
  assumes "index_ok m"
  shows "linked m m' \<Longrightarrow> \<forall>i \<in> set is. i < n_symbols m \<Longrightarrow>
    \<exists>m''. foldm (mark_native c) is m' = Inr m'' \<and> linked m m'' \<and> mir_conflicts m'' = mir_conflicts m'"
proof (induction "is" arbitrary: m')
  case (Cons i ids)
  obtain m1 where "mark_native c i m' = Inr m1" "linked m m1" "mir_conflicts m1 = mir_conflicts m'"
    using mark_native_ok [OF assms Cons.prems(1)] Cons.prems(2) by force
  with Cons.IH [of m1] Cons.prems(2) show ?case by auto
qed simp

lemma native_duplicates_ok:
  assumes "index_ok m"
  shows "linked m m' \<Longrightarrow> slots_ok m slots \<Longrightarrow>
    \<exists>m''. foldm native_duplicates slots m' = Inr m'' \<and> linked m m'' \<and>
      length (mir_conflicts m'') \<le> length (mir_conflicts m') + length slots"
proof (induction slots arbitrary: m')
  case (Cons e slots)
  obtain t ids where e: "e = (t, ids)" by (cases e)
  have ids: "\<forall>i \<in> set ids. i < n_symbols m" and rest: "slots_ok m slots"
    using Cons.prems(2) e by (auto simp: slots_ok_def)
  have "\<exists>m1. native_duplicates e m' = Inr m1 \<and> linked m m1 \<and>
      length (mir_conflicts m1) \<le> Suc (length (mir_conflicts m'))"
  proof (cases "length ids < 2")
    case False
    let ?m = "m'\<lparr>mir_conflicts := mir_conflicts m' @ [DuplicateDefinition (native_slot_name t) ids]\<rparr>"
    have "linked m ?m" by (rule linked_trans [OF Cons.prems(1) linked_notes(1)])
    from mark_natives_ok [OF assms this ids, of "length (mir_conflicts m') mod 2 ^ 32"] False e show ?thesis
      by (auto simp: native_duplicates_def)
  qed (use Cons.prems(1) e in \<open>simp add: native_duplicates_def\<close>)
  then obtain m1 where "native_duplicates e m' = Inr m1" "linked m m1"
    "length (mir_conflicts m1) \<le> Suc (length (mir_conflicts m'))" by blast
  with Cons.IH [OF _ rest, of m1] show ?case by fastforce
qed simp

lemma link_native_types_ok:
  assumes "index_ok m" and "n_symbols m \<le> 2 ^ 32"
  shows "\<exists>m'. link_native_types m = Inr m' \<and> linked m m' \<and>
    length (mir_conflicts m') \<le> length (mir_conflicts m) + n_symbols m"
proof -
  obtain m1 slots where 1: "foldm link_symbol [0..<n_symbols m] (m, []) = Inr (m1, slots)" "linked m m1"
    "mir_conflicts m1 = mir_conflicts m" "slots_ok m slots" "length slots \<le> n_symbols m"
    using link_symbols_ok [OF assms linked_refl, of "[]" "[0..<n_symbols m]"] by (auto simp: slots_ok_def)
  from native_duplicates_ok [OF assms(1) 1(2,4)] 1 show ?thesis by (fastforce simp: link_native_types_def)
qed

section \<open>The lowered graph\<close>

definition is_reference :: "hir_kind \<Rightarrow> bool" where
  "is_reference k = (case k of HkVariable _ \<Rightarrow> True | HkStaticPath _ \<Rightarrow> True | HkField \<Rightarrow> True
     | HkPatternName _ \<Rightarrow> True | _ \<Rightarrow> False)"

text \<open>The slots that \<open>Mir::node\<close> hands out: one of its own for each reference of a module.\<close>

definition slot_raw :: "mir \<Rightarrow> hir_id \<Rightarrow> bool" where
  "slot_raw m i \<longleftrightarrow> (\<forall>slot. hn_resolution (mir_hir m ! i) = Some slot \<longrightarrow>
     slot < length (mir_slots m) \<and> is_reference (hn_kind (mir_hir m ! i)) \<and> reachable_node m i \<and>
     (\<forall>j < n_hir m. hn_resolution (mir_hir m ! j) = Some slot \<longrightarrow> j = i))"

definition unresolved :: "mir \<Rightarrow> bool" where
  "unresolved m \<longleftrightarrow> \<not> mir_symbols_closed m \<and> mir_symbols m = [] \<and> mir_scopes m = [] \<and> mir_hir_scopes m = [] \<and>
     mir_hir_symbols m = [] \<and> mir_module_scopes m = [] \<and> mir_exports m = [] \<and> mir_namespaces m = [] \<and>
     mir_constructors m = [] \<and> mir_constructor_namespaces m = [] \<and> mir_waiting m = [] \<and>
     (\<forall>r \<in> set (mir_slots m). r = RsPending)"

text \<open>What module loading and lowering leave for the symbol pass.\<close>

definition lowered :: "mir \<Rightarrow> bool" where
  "lowered m \<longleftrightarrow> syntax_ok m \<and> unresolved m \<and>
     (\<forall>i < n_hir m. slot_raw m i \<and> (hn_kind (mir_hir m ! i) = HkField \<longrightarrow> field_ok m (mir_hir m ! i))) \<and>
     (\<forall>e \<in> set (mir_imports m). \<forall>md. ie_target e = MtBound md \<longrightarrow> md < n_modules m)"

definition graph_weight :: "mir \<Rightarrow> nat" where
  "graph_weight m = sum_list (map (module_weight m) [0..<n_modules m])"

text \<open>The graph is small enough for 32 bit identifiers of scopes, symbols and conflicts.\<close>

definition small :: "mir \<Rightarrow> bool" where
  "small m \<longleftrightarrow> n_modules m \<le> 2 ^ 32 \<and>
     length (mir_conflicts m) + 6 * graph_weight m + 2 * n_hir m \<le> 2 ^ 32"

lemma reference_kind:
  "is_reference (hn_kind (mir_hir m ! i)) \<Longrightarrow> \<exists>sc. mir_hir_scopes m ! i = Some sc \<and> sc < n_scopes m \<Longrightarrow>
    (index_class (hn_kind (mir_hir m ! i)) = IcPattern \<Longrightarrow> \<exists>s. mir_hir_symbols m ! i = Some s \<and> s < n_symbols m) \<Longrightarrow>
    reference_ok m i"
  by (auto simp: reference_ok_def is_reference_def index_class_def split: hir_kind.splits)

section \<open>Preparation\<close>

definition same_graph :: "mir \<Rightarrow> mir \<Rightarrow> bool" where
  "same_graph m m' \<longleftrightarrow>
     mir_hir m' = mir_hir m \<and> mir_modules m' = mir_modules m \<and> mir_imports m' = mir_imports m \<and>
     mir_slots m' = mir_slots m \<and> mir_conflicts m' = mir_conflicts m \<and> mir_waiting m' = mir_waiting m \<and>
     mir_namespaces m' = mir_namespaces m \<and> mir_constructors m' = mir_constructors m \<and>
     mir_constructor_namespaces m' = mir_constructor_namespaces m"

lemma open_graph_ok:
  assumes "lowered m"
  shows "\<exists>m0. open_graph m = Inr m0 \<and> index_ok m0 \<and> covered m0 [] \<and> same_graph m m0 \<and>
    n_symbols m0 = 0 \<and> n_scopes m0 = 0"
proof -
  let ?m = "m\<lparr>mir_hir_scopes := replicate (n_hir m) None, mir_hir_symbols := replicate (n_hir m) None,
    mir_module_scopes := replicate (n_modules m) None, mir_exports := replicate (n_modules m) []\<rparr>"
  have u: "unresolved m" and syn: "syntax_ok m" using assms by (simp_all add: lowered_def)
  have "syntax_ok ?m" using syn syntax_ok_cong [of ?m m] by simp
  moreover have "bound_symbols ?m = []" using u by (simp add: bound_symbols_def unresolved_def)
  ultimately have "index_ok ?m" using u by (simp add: index_ok_def unresolved_def scopes_ok_def)
  moreover have "covered ?m []" by (simp add: covered_def)
  moreover have "same_graph m ?m" using u by (simp add: same_graph_def)
  moreover have "open_graph m = Inr ?m" using u by (simp add: open_graph_def unresolved_def resized_def)
  ultimately show ?thesis using u by (simp add: unresolved_def)
qed

text \<open>The index of a lowered graph, before and after symbols are linked.\<close>

definition indexed :: "mir \<Rightarrow> mir \<Rightarrow> bool" where
  "indexed m m1 \<longleftrightarrow> index_ok m1 \<and> covered m1 [] \<and> same_graph m m1 \<and> n_symbols m1 \<le> graph_weight m \<and>
     (\<forall>n. reachable_node m n \<longrightarrow> n < n_hir m \<and> scoped m1 n)"

lemma indexed_ok:
  assumes "lowered m" and "small m"
  shows "\<exists>m0 m1. open_graph m = Inr m0 \<and> index_modules [0..<n_modules m0] m0 = Some (Inr m1) \<and> indexed m m1"
proof -
  obtain m0 where m0: "open_graph m = Inr m0" "index_ok m0" "covered m0 []" "same_graph m m0"
    "n_symbols m0 = 0" "n_scopes m0 = 0" using open_graph_ok [OF assms(1)] by blast
  have same0: "mir_hir m0 = mir_hir m" "mir_modules m0 = mir_modules m" using m0(4) by (simp_all add: same_graph_def)
  have w: "module_weight m0 = module_weight m"
    by (rule ext) (simp only: module_weight_def body_weight_def same0)
  have sum: "sum_list (map (module_weight m0) [0..<n_modules m0]) = graph_weight m"
    by (simp only: w same0 graph_weight_def)
  have room: "n_modules m0 \<le> 2 ^ 32" "graph_weight m \<le> 2 ^ 32" using assms(2) same0(2) by (simp_all add: small_def)
  obtain m1 where m1: "index_modules [0..<n_modules m0] m0 = Some (Inr m1)"
    "extended (graph_weight m) (graph_weight m) m0 m1" "covered m1 []"
    "\<forall>i \<in> set [0..<n_modules m0]. \<forall>b. module_body (md_state (mir_modules m0 ! i)) = Some b \<longrightarrow> scoped m1 b"
    using index_modules_ok [OF m0(2,3), of "[0..<n_modules m0]"] room m0(5,6) by (auto simp: sum)
  note E = extendedD [OF m1(2)]
  have frame: "same_graph m m1" using m0(4) m1(2) by (simp add: extended_def same_frame_def same_graph_def)
  have hir: "mir_hir m1 = mir_hir m" "mir_modules m1 = mir_modules m" using frame by (simp_all add: same_graph_def)
  have syn: "syntax_ok m1" by (rule index_okD(1) [OF E(1)])
  have "n < n_hir m \<and> scoped m1 n" if r: "reachable_node m n" for n
  proof -
    obtain i b where i: "i < n_modules m" "module_body (md_state (mir_modules m ! i)) = Some b" "(walk_child m)\<^sup>*\<^sup>* b n"
      using r unfolding reachable_node_def by (metis in_set_conv_nth)
    have walk: "walk_child m1 = walk_child m" by (rule ext)+ (simp add: walk_child_def hir)
    have "module_raw m1 (mir_modules m1 ! i)" using syn i(1) hir(2) by (simp add: syntax_ok_def)
    then have "b < n_hir m1" using i(2) hir(2) by (simp add: module_raw_def)
    moreover have "scoped m1 b" using m1(4) i(1,2) same0(2) by simp
    ultimately show ?thesis using covered_reach [OF m1(3) syn, of b n] i(3) walk hir(1) by simp
  qed
  with m0 m1 E frame show ?thesis by (auto simp: indexed_def)
qed

lemma field_ok_cong: "mir_hir m' = mir_hir m \<Longrightarrow> field_ok m' n = field_ok m n"
  using syntax_cong(2) [of m' m] by (simp add: field_ok_def)

lemma size_facts_simps [simp]:
  "mir_hir (size_facts m) = mir_hir m" "mir_modules (size_facts m) = mir_modules m"
  "mir_imports (size_facts m) = mir_imports m" "mir_scopes (size_facts m) = mir_scopes m"
  "mir_slots (size_facts m) = mir_slots m" "mir_symbols (size_facts m) = mir_symbols m"
  "mir_hir_scopes (size_facts m) = mir_hir_scopes m" "mir_hir_symbols (size_facts m) = mir_hir_symbols m"
  "mir_module_scopes (size_facts m) = mir_module_scopes m" "mir_exports (size_facts m) = mir_exports m"
  "mir_conflicts (size_facts m) = mir_conflicts m" "mir_waiting (size_facts m) = mir_waiting m"
  by (simp_all add: size_facts_def)

lemma linked_fields:
  assumes "linked m m'"
  shows "mir_hir_scopes m' = mir_hir_scopes m" and "mir_hir_symbols m' = mir_hir_symbols m"
    and "mir_module_scopes m' = mir_module_scopes m" and "mir_slots m' = mir_slots m"
    and "mir_waiting m' = mir_waiting m" and "mir_namespaces m' = mir_namespaces m"
    and "mir_constructors m' = mir_constructors m" and "mir_constructor_namespaces m' = mir_constructor_namespaces m"
  using assms by (auto simp: linked_def)

lemma linked_symbol_ok:
  assumes "index_ok m1" and "linked m1 m2" and "i < n_symbols m1"
  shows "symbol_ok (size_facts m2) (mir_symbols m2 ! i)" and "pending_ok (size_facts m2) i"
    and "declared (size_facts m2) i"
proof -
  let ?s = "mir_symbols m1 ! i" and ?t = "mir_symbols m2 ! i"
  have R: "relinked m1 ?s ?t" by (rule linkedD(7) [OF assms(2,3)])
  have S: "fresh_symbol m1 i ?s" by (rule index_okD(7) [OF assms(1,3)])
  note L = linkedD(1-6) [OF assms(2)]
  have res: "state_ok (size_facts m2) (sy_resolution ?t)"
    using R S L(1) assms(3) by (auto simp: relinked_def fresh_symbol_def initial_resolution_def)
  show "symbol_ok (size_facts m2) ?t"
    unfolding symbol_ok_def using R S L(2,3) res by (auto simp: relinked_def fresh_symbol_def)
  show "declared (size_facts m2) i"
    using R S L(1,2) assms(3) by (auto simp: declared_def relinked_def fresh_symbol_def)
  show "pending_ok (size_facts m2) i"
    unfolding pending_ok_def Let_def
  proof
    assume "sy_resolution (mir_symbols (size_facts m2) ! i) = RsPending"
    then have "sy_resolution ?s = RsPending" using R by (auto simp: relinked_def)
    then have "sy_kind ?s = SkImport \<or> sy_kind ?s = SkExport \<or> sy_kind ?s = SkPattern"
      using S by (auto simp: fresh_symbol_def initial_resolution_def split: if_splits)
    then show "sy_declarations (mir_symbols (size_facts m2) ! i) \<noteq> [] \<and>
      (case sy_kind (mir_symbols (size_facts m2) ! i) of SkExport \<Rightarrow> True
       | SkImport \<Rightarrow> is_binding (hn_kind (mir_hir (size_facts m2) ! hd (sy_declarations (mir_symbols (size_facts m2) ! i))))
       | SkPattern \<Rightarrow> (\<exists>sc. sy_scope (mir_symbols (size_facts m2) ! i) = Some sc \<and> sc < n_scopes (size_facts m2))
       | _ \<Rightarrow> False)"
      using R S L(2,5) by (auto simp: relinked_def fresh_symbol_def)
  qed
qed

lemma indexed_mir_ok:
  assumes "lowered m" and ix: "indexed m m1" and l: "linked m1 m2"
  shows "mir_ok (size_facts m2)"
proof -
  let ?m = "size_facts m2"
  have ok: "index_ok m1" and frame: "same_graph m m1" and cov: "covered m1 []" using ix by (simp_all add: indexed_def)
  have u: "unresolved m" using assms(1) by (simp add: lowered_def)
  note D = index_okD [OF ok] and S = index_scopesD [OF ok] and L = linkedD [OF l] and F = linked_fields [OF l]
  have same: "mir_hir m1 = mir_hir m" "mir_modules m1 = mir_modules m" "mir_imports m1 = mir_imports m"
    "mir_slots m1 = mir_slots m" "mir_namespaces m1 = []" "mir_constructors m1 = []"
    "mir_constructor_namespaces m1 = []" using frame u by (simp_all add: same_graph_def unresolved_def)
  have sizes: "sizes_ok ?m"
    unfolding sizes_ok_def size_facts_simps L(2,3,6) F(1-3) using D(3-6) F(6-8) same(5-7)
    by (simp add: size_facts_def resized_def L(1,2))
  have hirs: "hirs_ok ?m" unfolding hirs_ok_def
  proof (intro allI impI conjI)
    fix i assume "i < n_hir ?m"
    then have i: "i < n_hir m1" "i < n_hir m" using L(2) same(1) by simp_all
    have raw: "slot_raw m i" "hn_kind (mir_hir m ! i) = HkField \<longrightarrow> field_ok m (mir_hir m ! i)"
      using assms(1) i(2) by (simp_all add: lowered_def)
    have hir: "mir_hir ?m = mir_hir m" using L(2) same(1) by simp
    show "\<forall>e \<in> set (hn_children (mir_hir ?m ! i)). he_node e < n_hir ?m"
      using syntaxD(2) [OF D(1) i(1)] hir same(1) by simp
    show "hn_kind (mir_hir ?m ! i) = HkField \<Longrightarrow> field_ok ?m (mir_hir ?m ! i)"
      using raw(2) field_ok_cong [OF hir] hir by simp
    fix slot assume slot: "hn_resolution (mir_hir ?m ! i) = Some slot"
    then have s: "slot < length (mir_slots m)" "is_reference (hn_kind (mir_hir m ! i))" "reachable_node m i"
      "\<forall>j < n_hir m. hn_resolution (mir_hir m ! j) = Some slot \<longrightarrow> j = i"
      using raw(1) unfolding slot_raw_def hir by blast+
    show "slot < length (mir_slots ?m)" using s(1) F(4) same(4) by simp
    show "hn_resolution (mir_hir ?m ! j) = Some slot \<Longrightarrow> j = i" if "j < n_hir ?m" for j
      using s(4) that hir by simp
    have sc: "scoped m1 i" using ix s(3) by (simp add: indexed_def)
    then obtain x where x: "mir_hir_scopes m1 ! i = Some x" by auto
    show "reference_ok ?m i"
    proof (rule reference_kind)
      show "is_reference (hn_kind (mir_hir ?m ! i))" using s(2) hir by simp
      show "\<exists>sc. mir_hir_scopes ?m ! i = Some sc \<and> sc < n_scopes ?m" using x S(1) [OF i(1) x] F(1) L(5) by simp
      assume "index_class (hn_kind (mir_hir ?m ! i)) = IcPattern"
      then have "mir_hir_symbols m1 ! i \<noteq> None" using cov sc i(1) hir same(1) by (simp add: covered_def)
      then obtain y where y: "mir_hir_symbols m1 ! i = Some y" by auto
      then show "\<exists>s. mir_hir_symbols ?m ! i = Some s \<and> s < n_symbols ?m" using S(2) [OF i(1) y] F(2) L(1) by simp
    qed
  qed
  have modules: "modules_ok ?m" unfolding modules_ok_def
  proof (intro conjI)
    show "\<forall>e \<in> set (mir_imports ?m). \<forall>md. ie_target e = MtBound md \<longrightarrow> md < n_modules ?m"
      using assms(1) L(3,4) same(2,3) by (simp add: lowered_def)
    show "\<forall>ids \<in> set (mir_exports ?m). \<forall>i \<in> set ids. i < n_symbols ?m" using S(5) L(1,6) by auto
    show "\<forall>sc. Some sc \<in> set (mir_module_scopes ?m) \<longrightarrow> sc < n_scopes ?m" using S(4) F(3) L(5) by simp
    show "\<forall>md. Some (Some md) \<in> set (mir_namespaces ?m) \<longrightarrow> md < n_modules ?m"
      using F(6) same(5) by (simp add: size_facts_def resized_def)
  qed
  have scopes: "scopes_ok ?m" using D(2) unfolding scopes_ok_def size_facts_simps L(1,3,4,5) .
  have "\<forall>s \<in> set (mir_symbols ?m). symbol_ok ?m s"
    using linked_symbol_ok(1) [OF ok l] L(1) by (auto simp: in_set_conv_nth)
  moreover have "\<forall>r \<in> set (mir_slots ?m). state_ok ?m r"
    using u F(4) same(4) by (auto simp: unresolved_def)
  ultimately have "graph_ok ?m" using sizes hirs modules scopes by (simp add: graph_ok_def)
  moreover have "\<forall>i < n_symbols ?m. pending_ok ?m i" using linked_symbol_ok(2) [OF ok l] L(1) by simp
  ultimately show ?thesis by (simp add: mir_ok_def)
qed

end
