(* ===== verification/Resolve_Complete.thy ===== *)
theory Resolve_Complete
  imports Resolve_Prepared
begin

text \<open>
  The symbol pass from end to end: on the graph that lowering leaves, \<open>resolve\<close> returns, and every
  symbol and every reference has its answer.
\<close>

section \<open>Preparation\<close>

lemma bound_length:
  assumes "distinct (bound_symbols m)" and "\<forall>i \<in> set (bound_symbols m). i < n_symbols m"
  shows "length (bound_symbols m) \<le> n_symbols m"
proof -
  have "card (set (bound_symbols m)) \<le> card {..<n_symbols m}" using assms(2) by (intro card_mono) auto
  with assms(1) show ?thesis by (simp add: distinct_card)
qed

text \<open>What the preparation establishes, for a graph \<open>m\<close> and the prepared \<open>m'\<close>.\<close>

definition prepared :: "mir \<Rightarrow> mir \<Rightarrow> bool" where
  "prepared m m' \<longleftrightarrow> mir_ok m' \<and> listed_ok m' \<and> mir_waiting m' = [] \<and> mir_imports m' = mir_imports m \<and>
     (\<forall>i < n_symbols m'. declared m' i) \<and> n_hir m' = n_hir m \<and> n_symbols m' \<le> graph_weight m \<and>
     length (mir_conflicts m') \<le> length (mir_conflicts m) + 2 * n_symbols m'"

lemma declared_size_facts [simp]: "declared (size_facts m) i = declared m i"
  by (simp add: declared_def)

lemma bound_size_facts [simp]: "bound_symbols (size_facts m) = bound_symbols m"
  by (simp add: bound_symbols_def)

lemma prepare_ok:
  assumes "lowered m" and "small m"
  shows "\<exists>m'. prepare m = Some (Inr m') \<and> prepared m m'"
proof -
  obtain m0 m1 where m1: "open_graph m = Inr m0" "index_modules [0..<n_modules m0] m0 = Some (Inr m1)" "indexed m m1"
    using indexed_ok [OF assms] by blast
  have ok: "index_ok m1" and frame: "same_graph m m1" and S: "n_symbols m1 \<le> graph_weight m"
    using m1(3) by (simp_all add: indexed_def)
  have room: "length (mir_conflicts m) + 6 * n_symbols m1 \<le> 2 ^ 32" using assms(2) S by (simp add: small_def)
  then obtain m2 where m2: "link_native_types m1 = Inr m2" "linked m1 m2"
    "length (mir_conflicts m2) \<le> length (mir_conflicts m1) + n_symbols m1"
    using link_native_types_ok [OF ok] by auto
  have c1: "mir_conflicts m1 = mir_conflicts m" "mir_imports m1 = mir_imports m" "mir_hir m1 = mir_hir m"
    "mir_waiting m1 = []" using frame assms(1) by (simp_all add: same_graph_def lowered_def unresolved_def)
  note L = linkedD [OF m2(2)]
  have dec: "declared m2 i" if "i < n_symbols m1" for i using linked_symbol_ok(3) [OF ok m2(2) that] by simp
  have bound: "distinct (bound_symbols m2)" "\<forall>i \<in> set (bound_symbols m2). i < n_symbols m2"
    using index_okD(8) [OF ok] bound_less [OF ok] L(1,8) by simp_all
  have listed: "listed_ok m2" using bound dec L(1) by (simp add: listed_ok_def)
  note len = bound_length [OF bound]
  have "length (mir_conflicts m2) + length (bound_symbols m2) \<le> 2 ^ 32" using m2(3) c1(1) len L(1) room by simp
  then obtain ds where ds: "diagnose_duplicates False m2 = Inr (with_blame m2 (blame_all (all_groups False m2) (blame_state m2)) ds)"
    using diagnose_duplicates_eq [OF listed] by blast
  let ?m = "with_blame m2 (blame_all (all_groups False m2) (blame_state m2)) ds"
  have l: "linked m1 ?m" by (rule linked_trans [OF m2(2) linked_blame])
  note M = linkedD [OF l]
  have "length (mir_conflicts ?m) \<le> length (mir_conflicts m2) + length (all_groups False m2)"
    using blame_all_conflicts [of "all_groups False m2" "blame_state m2"] by simp
  then have "length (mir_conflicts ?m) \<le> length (mir_conflicts m) + 2 * n_symbols m1"
    using m2(3) c1(1) len L(1) all_groups_length [of False m2] by simp
  moreover have "declared ?m i" if "i < n_symbols m1" for i by (rule declared_blame [OF dec [OF that]])
  moreover have "listed_ok (size_facts ?m)"
    using bound M(8) L(1,8) calculation(2) by (simp add: listed_ok_def)
  moreover have "mir_ok (size_facts ?m)" by (rule indexed_mir_ok [OF assms(1) m1(3) l])
  moreover have "mir_waiting (size_facts ?m) = []" using linked_fields(5) [OF l] c1(4) by simp
  ultimately have "prepared m (size_facts ?m)" using M(1,2,4) c1(2,3) S by (simp add: prepared_def)
  moreover have "prepare m = Some (Inr (size_facts ?m))"
    using m1(1,2) m2(1) ds by (simp add: prepare_def)
  ultimately show ?thesis by blast
qed

section \<open>The queue\<close>

lemma enqueue_fold:
  assumes "queue_sync p"
  shows "queue_sync (enqueue_all ts p)" and "set (ready_tasks (enqueue_all ts p)) = set (ready_tasks p) \<union> set ts"
proof -
  have "queue_sync (p\<lparr>ps_scheduler := fold enqueue ts (ps_scheduler p)\<rparr>) \<and>
      set (sh_ready (fold enqueue ts (ps_scheduler p))) = set (ready_tasks p) \<union> set ts"
    using assms
  proof (induction ts arbitrary: p)
    case (Cons t ts)
    have "queue_sync (p\<lparr>ps_scheduler := enqueue t (ps_scheduler p)\<rparr>)"
      using Cons.prems by (auto simp: queue_sync_def enqueue_def)
    moreover have "set (sh_ready (enqueue t (ps_scheduler p))) = set (ready_tasks p) \<union> {t}"
      using Cons.prems by (auto simp: queue_sync_def enqueue_def)
    ultimately show ?case using Cons.IH [of "p\<lparr>ps_scheduler := enqueue t (ps_scheduler p)\<rparr>"] by auto
  qed simp
  then show "queue_sync (enqueue_all ts p)" "set (ready_tasks (enqueue_all ts p)) = set (ready_tasks p) \<union> set ts"
    by (simp_all add: enqueue_all_def)
qed

lemma enqueue_all_simps [simp]:
  "ps_mir (enqueue_all ts p) = ps_mir p" "ps_import_edges (enqueue_all ts p) = ps_import_edges p"
  by (simp_all add: enqueue_all_def)

lemma room_start:
  assumes "mir_ok (ps_mir p)" and "edges_ok (ps_import_edges p) (ps_mir p)" and "room_ok (ps_mir p)"
    and "queue_ok p" and "mir_waiting (ps_mir p) = []"
  shows "drain_inv (ps_mir p) (set (ready_tasks p)) {} p"
  using assms by (simp add: drain_inv_def waiting_ok_def served_def kept_def queue_ok_def)

lemma edge_map_ok: "edges_ok (import_edge_map (mir_imports m)) m"
proof -
  let ?f = "\<lambda>f (i, e). case ie_syntax e of Some s \<Rightarrow> f(s \<mapsto> i) | None \<Rightarrow> f"
  have "\<forall>n e. foldl ?f f xs n = Some e \<longrightarrow> e < N"
    if "\<forall>x \<in> set xs. fst x < N" "\<forall>n e. f n = Some e \<longrightarrow> e < N" for f xs and N :: nat
    using that
  proof (induction xs arbitrary: f)
    case (Cons x xs)
    have "\<forall>n e. ?f f x n = Some e \<longrightarrow> e < N" using Cons.prems by (auto split: option.splits prod.splits)
    with Cons.IH [of "?f f x"] Cons.prems(1) show ?case by simp
  qed simp
  from this [of "enumerate 0 (mir_imports m)" "length (mir_imports m)" Map.empty] show ?thesis
    by (auto simp: edges_ok_def import_edge_map_def in_set_enumerate_eq)
qed

lemma task_counts:
  assumes "kept m0 m"
  shows "n_symbols m = n_symbols m0" and "n_hir m = n_hir m0"
proof -
  have t: "task_ok m u = task_ok m0 u" for u using assms by (simp add: kept_def)
  have "i < n_symbols m \<longleftrightarrow> i < n_symbols m0" for i using t [of "TaskSymbol i"] by simp
  then show "n_symbols m = n_symbols m0" by (metis linorder_neqE_nat order_less_irrefl)
  have "i < n_hir m \<longleftrightarrow> i < n_hir m0" for i using t [of "TaskConstructorNamespace i"] by simp
  then show "n_hir m = n_hir m0" by (metis linorder_neqE_nat order_less_irrefl)
qed

section \<open>Reports\<close>

definition noted_only :: "mir \<Rightarrow> mir \<Rightarrow> bool" where
  "noted_only m m' \<longleftrightarrow> (\<exists>ds. m' = m\<lparr>mir_diagnostics := ds\<rparr>)"

lemma noted_only_refl [simp]: "noted_only m m"
  unfolding noted_only_def by (rule exI [of _ "mir_diagnostics m"]) simp

lemma noted_only_trans: "noted_only m m' \<Longrightarrow> noted_only m' m'' \<Longrightarrow> noted_only m m''"
  by (auto simp: noted_only_def)

lemma noted_onlyD:
  assumes "noted_only m m'"
  shows "mir_hir m' = mir_hir m" and "mir_symbols m' = mir_symbols m" and "mir_slots m' = mir_slots m"
    and "mir_imports m' = mir_imports m" and "mir_conflicts m' = mir_conflicts m" and "mir_scopes m' = mir_scopes m"
    and "mir_exports m' = mir_exports m" and "mir_waiting m' = mir_waiting m"
    and "mir_ok m \<Longrightarrow> mir_ok m'" and "open_tasks m' = open_tasks m" and "task_ok m' t = task_ok m t"
    and "task_answer m' t = task_answer m t"
proof -
  obtain ds where m': "m' = m\<lparr>mir_diagnostics := ds\<rparr>" using assms by (auto simp: noted_only_def)
  then show "mir_hir m' = mir_hir m" "mir_symbols m' = mir_symbols m" "mir_slots m' = mir_slots m"
    "mir_imports m' = mir_imports m" "mir_conflicts m' = mir_conflicts m" "mir_scopes m' = mir_scopes m"
    "mir_exports m' = mir_exports m" "mir_waiting m' = mir_waiting m" by simp_all
  have ans: "task_ok m' u = task_ok m u" "task_answer m' u = task_answer m u" for u
    using m' by (cases u; simp)+
  then show "task_ok m' t = task_ok m t" "task_answer m' t = task_answer m t" by blast+
  show "open_tasks m' = open_tasks m" using ans by (simp add: open_tasks_def task_done_def)
  assume ok: "mir_ok m"
  then have g: "graph_ok m" by (simp add: mir_ok_def)
  have "graph_ok m'" unfolding m' by (rule graph_ok_cong [OF g]; use graph_parts [OF g] in simp)
  moreover have "pending_ok m' i" if "i < n_symbols m'" for i
    using pending_ok_cong [of m i m'] ok that m' by (simp add: mir_ok_def)
  ultimately show "mir_ok m'" by (simp add: mir_ok_def)
qed

lemma noted_at: "n < n_hir m \<Longrightarrow> \<exists>m'. note_at msg n m = Inr m' \<and> noted_only m m'"
  using note_at_ok unfolding noted_only_def by blast

lemma foldm_noted:
  assumes "\<And>x m'. x \<in> set xs \<Longrightarrow> noted_only m m' \<Longrightarrow> \<exists>m''. f x m' = Inr m'' \<and> noted_only m' m''"
  shows "\<exists>m'. foldm f xs m = Inr m' \<and> noted_only m m'"
  using assms
proof (induction xs arbitrary: m)
  case (Cons x xs)
  obtain m1 where m1: "f x m = Inr m1" "noted_only m m1" using Cons.prems [of x m] by auto
  have "\<exists>m'. foldm f xs m1 = Inr m' \<and> noted_only m1 m'"
  proof (rule Cons.IH)
    fix y m' assume "y \<in> set xs" "noted_only m1 m'"
    then show "\<exists>m''. f y m' = Inr m'' \<and> noted_only m' m''"
      using Cons.prems [of y m'] noted_only_trans [OF m1(2)] by simp
  qed
  then obtain m2 where "foldm f xs m1 = Inr m2" "noted_only m1 m2" by blast
  with m1 noted_only_trans show ?case by auto
qed simp

lemma report_symbol_ok:
  assumes "declared m i" and "edges_ok edges m"
  shows "\<exists>m'. report_symbol edges i m = Inr m' \<and> noted_only m m'"
proof (cases "sy_resolution (mir_symbols m ! i) = RsUnresolved \<and>
    (sy_kind (mir_symbols m ! i) = SkImport \<or> sy_kind (mir_symbols m ! i) = SkExport)")
  case False
  with assms(1) show ?thesis by (auto simp: report_symbol_def declared_def)
next
  case True
  let ?s = "mir_symbols m ! i"
  have i: "i < n_symbols m" and d: "sy_declarations ?s ! 0 < n_hir m" "0 < length (sy_declarations ?s)"
    using assms(1) by (auto simp: declared_def hd_conv_nth)
  let ?d = "sy_declarations ?s ! 0"
  have "\<exists>msg. unresolved_message edges ?s ?d (mir_hir m ! ?d) m = Inr msg"
    using assms(2) by (auto simp: unresolved_message_def Let_def edges_ok_def split: option.split)
  then obtain msg where "unresolved_message edges ?s ?d (mir_hir m ! ?d) m = Inr msg" by blast
  with True i d noted_at [OF d(1), of msg] show ?thesis by (simp add: report_symbol_def)
qed

lemma report_symbols_ok:
  assumes "\<forall>i < n_symbols m. declared m i" and "edges_ok edges m"
  shows "\<exists>m'. report_symbols edges m = Inr m' \<and> noted_only m m'"
  unfolding report_symbols_def
proof (rule foldm_noted)
  fix i m' assume i: "i \<in> set [0..<n_symbols m]" and n: "noted_only m m'"
  have "declared m' i" using assms(1) i noted_onlyD(1,2) [OF n] by (simp add: declared_def)
  moreover have "edges_ok edges m'" using assms(2) noted_onlyD(4) [OF n] by (simp add: edges_ok_def)
  ultimately show "\<exists>m''. report_symbol edges i m' = Inr m'' \<and> noted_only m' m''" by (rule report_symbol_ok)
qed

lemma report_reference_ok:
  assumes g: "graph_ok m" and i: "i < n_hir m"
    and "task_ok m (TaskReference i) \<Longrightarrow> task_done m (TaskReference i)"
  shows "\<exists>m'. report_reference i m = Inr m' \<and> noted_only m m'"
proof (cases "hn_resolution (mir_hir m ! i)")
  case (Some slot)
  have len: "slot < length (mir_slots m)" using graphD(2) [OF g] i Some by (simp add: hirs_ok_def)
  have "mir_slots m ! slot \<noteq> RsPending" using assms(3) i Some by (simp add: task_done_def)
  moreover have "\<exists>name. reference_name m (mir_hir m ! i) = Inr name"
  proof (cases "hn_kind (mir_hir m ! i) = HkField")
    case True
    show ?thesis
    proof (cases "find_child (hn_children (mir_hir m ! i)) RoName")
      case (Some c)
      from find_child_less [OF g i Some] Some True show ?thesis by (simp add: reference_name_def)
    qed (use True in \<open>simp add: reference_name_def\<close>)
  next
    case False
    then show ?thesis by (auto simp: reference_name_def split: hir_kind.split)
  qed
  ultimately show ?thesis
    using Some i len noted_at [OF i] by (auto simp: report_reference_def split: option.split)
qed (use i in \<open>simp add: report_reference_def\<close>)

section \<open>The end of the pass\<close>

lemma close_graph_ok:
  assumes ok: "mir_ok m" and refs: "\<And>i. task_ok m (TaskReference i) \<Longrightarrow> task_done m (TaskReference i)"
    and syms: "\<And>i. i < n_symbols m \<Longrightarrow> task_done m (TaskSymbol i)"
  shows "\<exists>m'. close_graph m = Inr (m'\<lparr>mir_symbols_closed := True\<rparr>) \<and> noted_only m m'"
proof -
  have "\<exists>m'. foldm report_reference [0..<n_hir m] m = Inr m' \<and> noted_only m m'"
  proof (rule foldm_noted)
    fix i m' assume i: "i \<in> set [0..<n_hir m]" and n: "noted_only m m'"
    note N = noted_onlyD [OF n]
    have "graph_ok m'" using N(9) ok by (simp add: mir_ok_def)
    moreover have "task_done m' (TaskReference i)" if "task_ok m' (TaskReference i)"
      using refs [of i] that unfolding task_done_def N(11,12) by blast
    ultimately show "\<exists>m''. report_reference i m' = Inr m'' \<and> noted_only m' m''"
      using report_reference_ok [of m' i] i N(1) by simp
  qed
  then obtain m' where m': "foldm report_reference [0..<n_hir m] m = Inr m'" "noted_only m m'" by blast
  have "sy_resolution (mir_symbols m ! i) \<noteq> RsPending" if "i < n_symbols m" for i
    using syms [OF that] that by (simp add: task_done_def)
  then have "list_all (\<lambda>s. sy_resolution s \<noteq> RsPending) (mir_symbols m')"
    using noted_onlyD(2) [OF m'(2)] by (simp add: list_all_length)
  with m' show ?thesis by (auto simp: close_graph_def)
qed

lemma closed_flag:
  assumes "mir_ok m"
  shows "mir_ok (m\<lparr>mir_symbols_closed := True\<rparr>)"
proof -
  let ?m = "m\<lparr>mir_symbols_closed := True\<rparr>"
  have g: "graph_ok m" using assms by (simp add: mir_ok_def)
  have "graph_ok ?m" by (rule graph_ok_cong [OF g]; use graph_parts [OF g] in simp)
  moreover have "pending_ok ?m i" if "i < n_symbols ?m" for i
    using pending_ok_cong [of m i ?m] assms that by (simp add: mir_ok_def)
  ultimately show ?thesis by (simp add: mir_ok_def)
qed

section \<open>Blame between the rounds\<close>

lemma blamed_ok:
  assumes ok: "mir_ok m"
  defines "m' \<equiv> \<lambda>gs ds. with_blame m (blame_all gs (blame_state m)) ds"
  shows "mir_ok (m' gs ds)" and "open_tasks (m' gs ds) \<subseteq> open_tasks m" and "task_ok (m' gs ds) t = task_ok m t"
    and "task_ok m t \<Longrightarrow> task_done m t \<Longrightarrow> task_done (m' gs ds) t"
proof -
  let ?m = "m' gs ds"
  have g: "graph_ok m" using ok by (simp add: mir_ok_def)
  have same: "mir_hir ?m = mir_hir m" "n_symbols ?m = n_symbols m" "mir_scopes ?m = mir_scopes m"
    by (simp_all add: m'_def)
  have nth: "mir_symbols ?m ! i = mir_symbols m ! i \<or>
      (\<exists>c. mir_symbols ?m ! i = (mir_symbols m ! i)\<lparr>sy_resolution := RsConflicted c\<rparr>)" if "i < n_symbols m" for i
    using blame_all_nth [of i "blame_state m" gs] that by (auto simp: m'_def)
  have syms: "symbol_ok m (mir_symbols ?m ! i)" if "i < n_symbols m" for i
    using nth [OF that] graphD(5) [OF g that] by (auto simp: symbol_ok_def)
  then have all: "\<forall>s \<in> set (mir_symbols ?m). symbol_ok m s" using same(2) by (metis in_set_conv_nth)
  have "graph_ok ?m"
    by (rule graph_ok_cong [OF g]; use graph_parts [OF g] all in \<open>simp add: m'_def with_blame_def\<close>)
  moreover have "pending_ok ?m i" if i: "i < n_symbols ?m" for i
  proof -
    have i': "i < n_symbols m" using i same(2) by simp
    show ?thesis
    proof (cases "mir_symbols ?m ! i = mir_symbols m ! i")
      case True
      have "pending_ok m i" using ok i' by (simp add: mir_ok_def)
      then show ?thesis by (rule pending_ok_cong [OF _ True same(3)]) (simp add: same(1))
    next
      case False
      with nth [OF i'] show ?thesis by (auto simp: pending_ok_def Let_def)
    qed
  qed
  ultimately show "mir_ok ?m" by (simp add: mir_ok_def)
  have task: "task_ok ?m u = task_ok m u" for u by (cases u) (simp_all add: m'_def)
  then show "task_ok ?m t = task_ok m t" .
  have fin: "task_done ?m u" if "task_ok m u" "task_done m u" for u
  proof (cases u)
    case (TaskSymbol i)
    with nth [of i] that show ?thesis by (auto simp: task_done_def)
  qed (use that in \<open>simp_all add: task_done_def m'_def with_blame_def\<close>)
  then show "task_ok m t \<Longrightarrow> task_done m t \<Longrightarrow> task_done ?m t" .
  show "open_tasks ?m \<subseteq> open_tasks m" using task fin by (auto simp: open_tasks_def)
qed

section \<open>Both rounds\<close>

lemma symbol_tasks_set: "n_symbols m \<le> 2 ^ 32 \<Longrightarrow> set (symbol_tasks m) = TaskSymbol ` {..<n_symbols m}"
  by (force simp: symbol_tasks_def image_iff)

lemma reference_tasks_set:
  "n_hir m \<le> 2 ^ 32 \<Longrightarrow> set (reference_tasks m) = {t. \<exists>i. t = TaskReference i \<and> task_ok m t}"
  by (force simp: reference_tasks_def image_iff)

lemma first_round:
  assumes "prepared m m1" and "small m"
  shows "\<exists>q. drain (initial_pass (import_edge_map (mir_imports m1)) m1) = Some (Inr q) \<and>
    drain_inv m1 (TaskSymbol ` {..<n_symbols m1}) {} q \<and> ready_tasks q = [] \<and> mir_waiting (ps_mir q) = []"
proof -
  let ?start = "\<lparr>ps_mir = m1, ps_scheduler = scheduler_default, ps_import_edges = import_edge_map (mir_imports m1)\<rparr>"
  let ?p = "initial_pass (import_edge_map (mir_imports m1)) m1"
  have P: "mir_ok m1" "mir_waiting m1 = []" "n_hir m1 = n_hir m" "n_symbols m1 \<le> graph_weight m"
    "length (mir_conflicts m1) \<le> length (mir_conflicts m) + 2 * n_symbols m1"
    using assms(1) by (simp_all add: prepared_def)
  have room: "length (mir_conflicts m1) + 3 * n_symbols m1 + 2 * n_hir m1 \<le> 2 ^ 32" and n: "n_symbols m1 \<le> 2 ^ 32"
    using assms(2) P(3-5) by (simp_all add: small_def)
  have p: "ps_mir ?p = m1" "ps_import_edges ?p = import_edge_map (mir_imports m1)"
    by (simp_all add: initial_pass_def)
  have "queue_sync ?start" by (simp add: queue_sync_def scheduler_default_def)
  note Q = enqueue_fold [OF this, of "symbol_tasks m1", folded initial_pass_def]
  have ready: "set (ready_tasks ?p) = TaskSymbol ` {..<n_symbols m1}"
    using Q(2) symbol_tasks_set [OF n] by (simp add: scheduler_default_def)
  have q: "queue_ok ?p" using Q(1) ready p(1) by (auto simp: queue_ok_sync)
  have "drain_inv (ps_mir ?p) (set (ready_tasks ?p)) {} ?p"
    by (rule room_start) (use P(1,2) p edge_map_ok room_enough [OF room] q in simp_all)
  then have "drain_inv m1 (TaskSymbol ` {..<n_symbols m1}) {} ?p" using ready p(1) by simp
  then show ?thesis using drain_returns by blast
qed

lemma second_round:
  assumes inv: "drain_inv m1 E {} q" and empty: "ready_tasks q = []"
    and m: "mir_ok m" "mir_waiting m = []" "mir_imports m = mir_imports (ps_mir q)" "room_ok m" "n_hir m \<le> 2 ^ 32"
  shows "\<exists>r. drain (enqueue_all (reference_tasks m) (q\<lparr>ps_mir := m\<rparr>)) = Some (Inr r) \<and>
    drain_inv m {t. \<exists>i. t = TaskReference i \<and> task_ok m t} {} r \<and> ready_tasks r = [] \<and> mir_waiting (ps_mir r) = []"
proof -
  let ?p = "enqueue_all (reference_tasks m) (q\<lparr>ps_mir := m\<rparr>)"
  note D = drain_invD [OF inv]
  have "queue_sync (q\<lparr>ps_mir := m\<rparr>)" using D(5) by (simp add: queue_ok_sync queue_sync_def)
  note Q = enqueue_fold [OF this, of "reference_tasks m"]
  have ready: "set (ready_tasks ?p) = {t. \<exists>i. t = TaskReference i \<and> task_ok m t}"
    using Q(2) reference_tasks_set [OF m(5)] empty by simp
  have q: "queue_ok ?p" using Q(1) ready by (auto simp: queue_ok_sync)
  have "edges_ok (ps_import_edges q) m" using D(3) m(3) by (simp add: edges_ok_def)
  then have "drain_inv (ps_mir ?p) (set (ready_tasks ?p)) {} ?p"
    by (intro room_start) (use m q in simp_all)
  then have "drain_inv m {t. \<exists>i. t = TaskReference i \<and> task_ok m t} {} ?p" using ready by simp
  then show ?thesis using drain_returns by blast
qed

section \<open>The pass\<close>

lemma finish_ok:
  assumes ok: "mir_ok m" and refs: "\<And>i. task_ok m (TaskReference i) \<Longrightarrow> task_done m (TaskReference i)"
    and syms: "\<And>i. i < n_symbols m \<Longrightarrow> task_done m (TaskSymbol i)"
  shows "\<exists>m'. close_graph m = Inr m' \<and> mir_ok m' \<and> mir_symbols_closed m' \<and> n_hir m' = n_hir m \<and>
    (\<forall>s \<in> set (mir_symbols m'). sy_resolution s \<noteq> RsPending) \<and>
    (\<forall>n \<in> set (mir_hir m'). \<forall>slot. hn_resolution n = Some slot \<longrightarrow> mir_slots m' ! slot \<noteq> RsPending)"
proof -
  obtain m4 where m4: "close_graph m = Inr (m4\<lparr>mir_symbols_closed := True\<rparr>)" "noted_only m m4"
    using close_graph_ok [OF ok refs syms] by blast
  note N = noted_onlyD [OF m4(2)]
  let ?m = "m4\<lparr>mir_symbols_closed := True\<rparr>"
  have "mir_ok ?m" by (rule closed_flag [OF N(9) [OF ok]])
  moreover have "sy_resolution s \<noteq> RsPending" if s: "s \<in> set (mir_symbols ?m)" for s
  proof -
    obtain i where "i < n_symbols m" "s = mir_symbols m ! i" using s N(2) by (auto simp: in_set_conv_nth)
    with syms [of i] show ?thesis by (simp add: task_done_def)
  qed
  moreover have "mir_slots ?m ! slot \<noteq> RsPending" if n: "n \<in> set (mir_hir ?m)" "hn_resolution n = Some slot" for n slot
  proof -
    obtain i where i: "i < n_hir m" "n = mir_hir m ! i" using n(1) N(1) by (auto simp: in_set_conv_nth)
    with refs [of i] n(2) N(3) show ?thesis by (simp add: task_done_def)
  qed
  ultimately show ?thesis using m4(1) N(1) by auto
qed

text \<open>Between the rounds: the reports and the duplicate patterns.\<close>

lemma between_rounds:
  assumes "prepared m m1" and sm: "small m" and inv: "drain_inv m1 E {} q" and "mir_waiting (ps_mir q) = []"
  shows "\<exists>m2 m3. report_symbols (ps_import_edges q) (ps_mir q) = Inr m2 \<and> diagnose_duplicates True m2 = Inr m3 \<and>
    mir_ok m3 \<and> mir_waiting m3 = [] \<and> mir_imports m3 = mir_imports (ps_mir q) \<and> room_ok m3 \<and> n_hir m3 = n_hir m \<and>
    (\<forall>t. task_ok m3 t = task_ok m1 t) \<and> (\<forall>t. task_ok m1 t \<longrightarrow> task_done (ps_mir q) t \<longrightarrow> task_done m3 t)"
proof -
  note D = drain_invD [OF inv]
  have P: "listed_ok m1" "\<forall>i < n_symbols m1. declared m1 i" "n_hir m1 = n_hir m" "n_symbols m1 \<le> graph_weight m"
    "length (mir_conflicts m1) \<le> length (mir_conflicts m) + 2 * n_symbols m1" using assms(1) by (simp_all add: prepared_def)
  have K: "mir_scopes (ps_mir q) = mir_scopes m1" "mir_exports (ps_mir q) = mir_exports m1"
    "length (mir_conflicts (ps_mir q)) + card (open_tasks (ps_mir q)) \<le> length (mir_conflicts m1) + card (open_tasks m1)"
    "\<And>j. sy_declarations (mir_symbols (ps_mir q) ! j) = sy_declarations (mir_symbols m1 ! j)"
    "\<And>t. task_ok (ps_mir q) t = task_ok m1 t" using D(8) by (simp_all add: kept_def)
  note C = task_counts [OF D(8)]
  have dec: "declared (ps_mir q) i" if "i < n_symbols m1" for i
    using P(2) that K(4) C by (simp add: declared_def)
  obtain m2 where m2: "report_symbols (ps_import_edges q) (ps_mir q) = Inr m2" "noted_only (ps_mir q) m2"
    using report_symbols_ok [OF _ D(3)] dec C(1) by auto
  note N = noted_onlyD [OF m2(2)]
  have bound: "bound_symbols m2 = bound_symbols m1" using N(6,7) K(1,2) by (simp add: bound_symbols_def)
  have len: "length (bound_symbols m1) \<le> n_symbols m1"
    by (rule bound_length) (use P(1) in \<open>auto simp: listed_ok_def declared_def\<close>)
  have listed: "listed_ok m2"
    using P(1) bound dec N(1,2) by (auto simp: listed_ok_def declared_def)
  have "card (open_tasks m1) \<le> card {t. task_ok m1 t}"
    by (rule card_mono [OF finite_tasks]) (auto simp: open_tasks_def)
  then have total: "length (mir_conflicts m2) + card (open_tasks m2) + n_symbols m1 \<le> 2 ^ 32"
    using K(3) card_tasks [of m1] N(5,10) P(3-5) sm by (simp add: small_def)
  then have "length (mir_conflicts m2) + length (bound_symbols m2) \<le> 2 ^ 32" using bound len by simp
  then obtain ds where ds: "diagnose_duplicates True m2 = Inr (with_blame m2 (blame_all (all_groups True m2) (blame_state m2)) ds)"
    using diagnose_duplicates_eq [OF listed] by blast
  let ?m3 = "with_blame m2 (blame_all (all_groups True m2) (blame_state m2)) ds"
  have ok2: "mir_ok m2" by (rule N(9) [OF D(1)])
  note B = blamed_ok [OF ok2, where gs = "all_groups True m2" and ds = ds]
  have "length (mir_conflicts ?m3) \<le> length (mir_conflicts m2) + n_symbols m1"
    using blame_all_conflicts [of "all_groups True m2" "blame_state m2"] all_groups_length [of True m2] bound len by simp
  moreover have "card (open_tasks ?m3) \<le> card (open_tasks m2)" by (rule card_mono [OF finite_open B(2)])
  ultimately have "room_ok ?m3" using total by (simp add: room_ok_def)
  moreover have "mir_waiting ?m3 = []" "mir_imports ?m3 = mir_imports (ps_mir q)" "n_hir ?m3 = n_hir m"
    using N(1,4,8) assms(4) C(2) P(3) by (simp_all add: with_blame_def)
  moreover have tasks: "task_ok ?m3 t = task_ok m1 t" for t using B(3) N(11) K(5) by simp
  moreover have "task_done ?m3 t" if "task_ok m1 t" "task_done (ps_mir q) t" for t
    using B(4) [of t] that N(11,12) K(5) by (simp add: task_done_def)
  ultimately show ?thesis using m2(1) ds B(1) by blast
qed

lemma kept_done:
  "kept m0 m \<Longrightarrow> task_ok m0 t \<Longrightarrow> task_done m0 t \<Longrightarrow> task_done m t"
  by (auto simp: kept_def task_done_def)

text \<open>
  C4: Symbol resolution is total and complete. On a graph as lowering leaves it, small enough for 32 bit
  identifiers, \<open>resolve\<close> returns: no index, \<open>expect\<close> or assertion of the pass fails and all its loops end.
  The graph is then closed and well-formed, and every symbol and every reference of every module has
  an answer.
\<close>

theorem resolve_complete:
  assumes "lowered m" and "small m"
  shows "\<exists>m'. resolve m = Some (Inr m') \<and> mir_ok m' \<and> mir_symbols_closed m' \<and> n_hir m' = n_hir m \<and>
    (\<forall>s \<in> set (mir_symbols m'). sy_resolution s \<noteq> RsPending) \<and>
    (\<forall>n \<in> set (mir_hir m'). \<forall>slot. hn_resolution n = Some slot \<longrightarrow> mir_slots m' ! slot \<noteq> RsPending)"
proof -
  obtain m1 where m1: "prepare m = Some (Inr m1)" "prepared m m1" using prepare_ok [OF assms] by blast
  obtain q where q: "drain (initial_pass (import_edge_map (mir_imports m1)) m1) = Some (Inr q)"
    "drain_inv m1 (TaskSymbol ` {..<n_symbols m1}) {} q" "ready_tasks q = []" "mir_waiting (ps_mir q) = []"
    using first_round [OF m1(2) assms(2)] by blast
  obtain m2 m3 where m3: "report_symbols (ps_import_edges q) (ps_mir q) = Inr m2" "diagnose_duplicates True m2 = Inr m3"
    "mir_ok m3" "mir_waiting m3 = []" "mir_imports m3 = mir_imports (ps_mir q)" "room_ok m3" "n_hir m3 = n_hir m"
    "\<And>t. task_ok m3 t = task_ok m1 t" "\<And>t. task_ok m1 t \<Longrightarrow> task_done (ps_mir q) t \<Longrightarrow> task_done m3 t"
    using between_rounds [OF m1(2) assms(2) q(2,4)] by blast
  have "n_hir m3 \<le> 2 ^ 32" using assms(2) m3(7) by (simp add: small_def)
  then obtain r where r: "drain (enqueue_all (reference_tasks m3) (q\<lparr>ps_mir := m3\<rparr>)) = Some (Inr r)"
    "drain_inv m3 {t. \<exists>i. t = TaskReference i \<and> task_ok m3 t} {} r" "ready_tasks r = []" "mir_waiting (ps_mir r) = []"
    using second_round [OF q(2,3) m3(3-6)] by blast
  note R = drain_invD [OF r(2)]
  have tasks: "task_ok (ps_mir r) t \<longleftrightarrow> task_ok m3 t" for t using R(8) unfolding kept_def by blast
  have refs: "task_done (ps_mir r) (TaskReference i)" if "task_ok (ps_mir r) (TaskReference i)" for i
  proof -
    have "task_ok m3 (TaskReference i)" using that unfolding tasks .
    with R(7) r(3,4) show ?thesis unfolding served_def by fastforce
  qed
  have syms: "task_done (ps_mir r) (TaskSymbol i)" if "i < n_symbols (ps_mir r)" for i
  proof -
    have "task_ok (ps_mir r) (TaskSymbol i)" using that by simp
    then have i: "task_ok m3 (TaskSymbol i)" unfolding tasks .
    then have 1: "task_ok m1 (TaskSymbol i)" using m3(8) by blast
    then have "task_done (ps_mir q) (TaskSymbol i)"
      using drain_invD(7) [OF q(2)] q(3,4) by (auto simp: served_def)
    from kept_done [OF R(8) i m3(9) [OF 1 this]] show ?thesis .
  qed
  obtain m' where m': "close_graph (ps_mir r) = Inr m'" "mir_ok m'" "mir_symbols_closed m'" "n_hir m' = n_hir (ps_mir r)"
    "\<forall>s \<in> set (mir_symbols m'). sy_resolution s \<noteq> RsPending"
    "\<forall>n \<in> set (mir_hir m'). \<forall>slot. hn_resolution n = Some slot \<longrightarrow> mir_slots m' ! slot \<noteq> RsPending"
    using finish_ok [OF R(1) refs syms] by blast
  have "resolve m = Some (Inr m')" using m1(1) q(1) m3(1,2) r(1) m'(1) by (simp add: resolve_def)
  moreover have "n_hir m' = n_hir m" using m'(4) task_counts(2) [OF R(8)] m3(7) by simp
  ultimately show ?thesis using m'(2,3,5,6) by blast
qed


section \<open>A module\<close>

text \<open>The module \<open>def x = 1; export x\<close>, as lowering leaves it.\<close>

definition module_node :: "hir_kind \<Rightarrow> hir_edge list \<Rightarrow> nat option \<Rightarrow> hir_node" where
  "module_node k es slot =
     \<lparr>hn_module = 0, hn_location = \<lparr>lc_source = 0, lc_start = 0, lc_end = 0\<rparr>, hn_kind = k, hn_children = es,
      hn_resolution = slot\<rparr>"

definition module_edge :: "role \<Rightarrow> hir_id \<Rightarrow> hir_edge" where
  "module_edge r n = \<lparr>he_role = r, he_node = n\<rparr>"

definition module_mir :: mir where
  "module_mir =
     \<lparr>mir_modules = [\<lparr>md_native = None, md_name = ''m'', md_state = MsSource 6, md_imports = []\<rparr>],
      mir_imports = [],
      mir_hir =
        [module_node (HkName ''x'') [] None, module_node (HkInt 1) [] None,
         module_node (HkBinding BkDef None None) [module_edge RoName 0, module_edge RoValue 1] None,
         module_node (HkName ''x'') [] None, module_node (HkVariable ''x'') [] (Some 0),
         module_node (HkBinding BkExport None None) [module_edge RoName 3, module_edge RoValue 4] None,
         module_node HkBlock [module_edge RoBinding 2, module_edge RoBinding 5] None],
      mir_slots = [RsPending], mir_symbols = [], mir_scopes = [], mir_hir_scopes = [], mir_hir_symbols = [],
      mir_module_scopes = [], mir_exports = [], mir_conflicts = [], mir_namespaces = [], mir_constructors = [],
      mir_constructor_namespaces = [], mir_waiting = [], mir_symbols_closed = False, mir_diagnostics = []\<rparr>"

lemmas module_defs = module_mir_def module_node_def module_edge_def

lemma less_seven: "(i::nat) < 7 \<longleftrightarrow> i = 0 \<or> i = 1 \<or> i = 2 \<or> i = 3 \<or> i = 4 \<or> i = 5 \<or> i = 6"
  by auto

lemma module_lengths: "n_hir module_mir = 7" "n_modules module_mir = 1"
  by (simp_all add: module_mir_def)

lemma module_syntax: "syntax_ok module_mir"
proof -
  have "node_raw module_mir i" if "i < 7" for i
    using that unfolding less_seven
    by (elim disjE) (simp_all add: node_raw_def binding_raw_def named_node_def find_child_def kind_name_def
      binding_kind_of_def index_class_def parameter_kind_def module_defs)
  moreover have "module_raw module_mir md" if "md \<in> set (mir_modules module_mir)" for md
    using that by (auto simp: module_raw_def module_body_def module_defs)
  ultimately show ?thesis by (simp add: syntax_ok_def module_lengths)
qed

lemma module_reachable: "reachable_node module_mir 4"
proof -
  have "walk_child module_mir 6 5" "walk_child module_mir 5 4"
    by (simp_all add: walk_child_def index_class_def module_defs)
  then have "(walk_child module_mir)\<^sup>*\<^sup>* 6 4" by (meson rtranclp.rtrancl_refl rtranclp.rtrancl_into_rtrancl)
  then show ?thesis by (simp add: reachable_node_def module_body_def module_mir_def)
qed

lemma module_lowered: "lowered module_mir"
proof -
  have "slot_raw module_mir i \<and> hn_kind (mir_hir module_mir ! i) \<noteq> HkField" if "i < 7" for i
    using that module_reachable unfolding less_seven slot_raw_def module_lengths
    by (elim disjE) (simp_all add: is_reference_def, simp_all add: module_defs less_seven)
  moreover have "unresolved module_mir" by (simp add: unresolved_def module_mir_def)
  moreover have "mir_imports module_mir = []" by (simp add: module_mir_def)
  ultimately show ?thesis using module_syntax by (simp add: lowered_def module_lengths)
qed

lemma module_children:
  "hn_children (mir_hir module_mir ! 0) = []" "hn_children (mir_hir module_mir ! 1) = []"
  "hn_children (mir_hir module_mir ! Suc 0) = []"
  "hn_children (mir_hir module_mir ! 3) = []" "hn_children (mir_hir module_mir ! 4) = []"
  "hn_children (mir_hir module_mir ! 2) = [module_edge RoName 0, module_edge RoValue 1]"
  "hn_children (mir_hir module_mir ! 5) = [module_edge RoName 3, module_edge RoValue 4]"
  "hn_children (mir_hir module_mir ! 6) = [module_edge RoBinding 2, module_edge RoBinding 5]"
  by (simp_all add: module_mir_def module_node_def)

lemma module_small: "small module_mir"
proof -
  let ?w = "hir_weight (mir_hir module_mir)"
  note w = hir_weight_eq [OF module_syntax, unfolded module_lengths]
  have "?w 0 = 1" "?w 1 = 1" "?w 3 = 1" "?w 4 = 1"
    using w [of 0] w [of 1] w [of 3] w [of 4] by (simp_all add: module_children)
  moreover have "?w 2 = 3 + ?w 0 + ?w 1" "?w 5 = 3 + ?w 3 + ?w 4" "?w 6 = 3 + ?w 2 + ?w 5"
    using w [of 2] w [of 5] w [of 6] by (simp_all add: module_children module_edge_def)
  ultimately have "?w 6 = 13" by simp
  moreover have "module_body (md_state (mir_modules module_mir ! 0)) = Some 6"
    by (simp add: module_mir_def module_body_def)
  ultimately have "graph_weight module_mir = 39"
    by (simp add: graph_weight_def module_weight_def body_weight_def module_lengths)
  then show ?thesis by (simp add: small_def module_lengths) (simp add: module_mir_def)
qed

lemma resolve_complete_witness:
  "\<exists>m'. resolve module_mir = Some (Inr m') \<and> mir_symbols_closed m' \<and>
    (\<forall>s \<in> set (mir_symbols m'). sy_resolution s \<noteq> RsPending)"
  using resolve_complete [OF module_lowered module_small] by blast


end
