(* ===== verification/Spec2Isabelle.thy ===== *)
theory Spec2Isabelle
  imports Sha256 Gc_Classify Gc_Runtime Json_Validate Source_Coords Content_Bytes Source_Range Layout_Image
    Type_Subst Type_Equal Type_Canonical Resolve_Drain Resolve_Lookup Resolve_Complete
begin

text \<open>
  A verification library for Telora, a typed functional language compiled to WebAssembly. File names
  are relative to \<^verbatim>\<open>src/\<close>.

  \<^bold>\<open>The program.\<close> \<^verbatim>\<open>crates/telora-core\<close> is the compiler front end: it loads modules, resolves symbols
  and types over one graph (\<open>Mir\<close>), and hands a sealed graph to \<^verbatim>\<open>crates/telora-wasm\<close>, which emits a
  WebAssembly module and a runtime (\<^verbatim>\<open>rt/\<close>) that runs inside it. \<^verbatim>\<open>crates/telora-wasm-shared\<close> holds
  what the generator and the runtime agree on: the object layout, the layout image, the root registry,
  the frame scratch and the heap. \<^verbatim>\<open>crates/telora-data\<close> reads sources and JSON data for the compiler and,
  compiled into the module, for the runtime. \<^verbatim>\<open>crates/telora-sha256\<close> is the digest of caches and guests.

  \<^bold>\<open>The theories.\<close> \<open>Telora_Prelude\<close> has the machine integers, results as sums (\<open>Inl\<close> the error), checked
  arithmetic, byte strings and loops with \<open>?\<close>; \<open>Btree_Map\<close> the ordered maps of the standard library.
  Four groups follow the program.

  \<^item> Symbol resolution (\<^verbatim>\<open>telora-core/src/symbol_resolve.rs\<close> and its directory). \<open>Resolve_Mir\<close>: the graph
    (\<open>mir.rs\<close>, \<open>mir/resolution.rs\<close>). \<open>Resolve_Steps\<close>: the queries of \<open>closure.rs\<close> and \<open>queries.rs\<close>, one
    definition per method; \<open>Wait t\<close> is \<open>Err(t)\<close>. \<open>Resolve_Schedule\<close>: \<open>schedule.rs\<close>, the queue, the waiting
    tasks and the breaking of cycles; \<open>drain\<close> is the pair of loops. \<open>Resolve_Index\<close>: the walk that turns a
    module body into scopes, symbols and references (\<open>index_loop\<close>, the work list of \<open>index_node\<close>), its
    exports and the loop over modules. \<open>Resolve_Pass\<close>: native types, duplicate names and \<open>resolve\<close>, the
    whole pass. What holds of them: \<open>Resolve_Cycles\<close> (cycle detection is exact), \<open>Resolve_Lookup\<close> (lexical
    scoping), \<open>Resolve_Facts\<close> (the invariant \<open>mir_ok\<close>, pure queries), \<open>Resolve_Effects\<close> and \<open>Resolve_Tasks\<close>
    (lookups, paths, references), \<open>Resolve_Publish\<close> and \<open>Resolve_Progress\<close> (every step answers its task or
    waits for an open one), \<open>Resolve_Drain\<close> (the scheduler ends, every queued task is answered, no answer
    is revised), \<open>Resolve_Indexed\<close> and \<open>Resolve_Modules\<close> (the walk ends on every syntax graph and builds
    a graph the queries can rely on), \<open>Resolve_Duplicates\<close> (a duplicate is reported exactly once for every
    second declaration), \<open>Resolve_Prepared\<close> and \<open>Resolve_Complete\<close> (\<open>resolve\<close> returns and leaves no query
    without an answer).

  \<^item> Types (\<^verbatim>\<open>telora-core/src/type_resolve.rs\<close> and its directory, \<^verbatim>\<open>mir/substitution.rs\<close>).
    \<open>Type_Arena\<close>: the arena of provisional types (\<^verbatim>\<open>arena.rs\<close>), with \<open>compatible_structure\<close> and \<open>fit\<close> of
    \<^verbatim>\<open>constraints.rs\<close>, \<^verbatim>\<open>contract_sources.rs\<close> and the instantiation of templates of \<^verbatim>\<open>definitions.rs\<close>.
    \<open>Type_Forest\<close>: the forest of slots, path compression, the occurs check, and what it means that an
    assignment of finite types solves an arena. \<open>Type_Unify\<close>: one pair of the queue of \<open>equal\<close> keeps the
    solutions and makes progress, or records a conflict that no assignment solves. \<open>Type_Equal\<close>: \<open>equal\<close>
    is exact unification. \<open>Type_Canonical\<close>: \<open>finalize\<close> gives every slot its canonical type. The theorem on
    \<open>equal\<close> is about constructors that stand for themselves: the literals inference refines (tuple and
    array literals, records), \<open>Never\<close> and \<open>TypeOf\<close> relate to other types by \<open>compatible_structure\<close>, which is
    directional, and are excluded there. \<open>Type_Subst\<close> is the work list of \<^verbatim>\<open>mir/substitution.rs\<close> with its
    canonical types.

  \<^item> The garbage collector (\<^verbatim>\<open>telora-wasm-shared\<close>, \<^verbatim>\<open>telora-wasm/rt\<close>). \<open>Abi\<close>, \<open>Layout_Image\<close>,
    \<open>Content_Bytes\<close>, \<open>Source_Range\<close>: constants and codecs. \<open>Gc_Classify\<close>: which types hold references, a
    fixed point. \<open>Trace\<close>: the layout-driven traversal with a visitor. \<open>Gc_Roots\<close> and \<open>Frame_Scratch\<close>:
    frames, pins and tail packets, both instances of the contract of \<open>Frame_Stack\<close>. \<open>Direct_Heap\<close>: the
    registry of blocks, an instance of the contract of \<open>Mark_Sweep\<close>. \<open>Gc_Mark\<close>: the mark phase
    (\<open>gc_mark.rs\<close>). \<open>Gc_Runtime\<close>: the shadow frames, host pins and the sweep that compose them.

  \<^item> Data (\<^verbatim>\<open>telora-data\<close>, \<^verbatim>\<open>telora-sha256\<close>). \<open>Source_Coords\<close>: locations and line coordinates. \<open>Json_Lexer\<close>,
    \<open>Json_Parse\<close>, \<open>Json_Validate\<close>: the chunked scanner, the structural parser, and the second phase that
    decodes strings and numbers and sorts keys. \<open>Json_Tokens\<close> and \<open>Json_Admission\<close> hold what the scanner
    and the parser guarantee. \<open>Sha256\<close>: the streaming digest against the padded message.

  \<^bold>\<open>Conventions.\<close> A struct is a record, an enum a datatype, an integer a word of its width; \<open>usize\<close> is the
  32-bit one of wasm32, a \<open>nat\<close> with its bound written out, and identifiers of graph tables are \<open>nat\<close>
  with the casts to 32 bits written out. A panic is a value (\<open>None\<close>, \<open>Panic\<close>, \<open>TracePanic\<close>, \<open>JPanic\<close>,
  \<open>ValidatePanic\<close>, and \<open>Unreachable\<close> and \<open>Capacity\<close> in the type arena), so that its absence is a theorem. Effects are state passing; a \<open>&mut self\<close> method returns
  the state also when it fails where the caller can see it.

  \<^bold>\<open>Loops.\<close> A loop that always ends is a function with its termination proof: \<open>propagate\<close> (flags only
  grow), \<open>mark_drain\<close> (an item is queued once, and there are finitely many), \<open>parse_loop\<close> and
  \<open>scan_next\<close> (every token consumes input), \<open>cycle_walk\<close>, the recursion over layouts. A loop that ends on
  well-formed states only is a partial function into \<open>option\<close>, and that it returns is part of its theorem:
  \<open>drain\<close>, \<open>index_loop\<close> (it ends on acyclic syntax: the weight \<open>hir_weight\<close> of the queued nodes falls),
  \<open>subst_loop\<close>, and in the type arena \<open>root_of\<close>, \<open>compress\<close>, \<open>occurs_loop\<close>, \<open>equal_loop\<close> and \<open>settle_loop\<close>,
  which end on a forest of slots. \<open>lookup_loop\<close> has fuel, one step per scope and one more: a longer walk is in a
  scope it has seen and has changed nothing, so running out is the value \<open>Diverge\<close>, which the theorems
  exclude on well-formed graphs.

  \<^bold>\<open>Parameters.\<close> The extent of an invalid token of the generated Logos lexers is the function \<open>bad\<close>, which
  is at least one byte and ends on a character (\<open>bad_ok\<close>). The allocator and the growth of vectors are
  arguments of the heap operations. Guest memory and the published statics of the generated module are
  the environment \<open>mark_env\<close>. Each property with such a hypothesis has a witness with concrete ones.

  \<^bold>\<open>Not modelled.\<close> The imos store, the CLI, the language server and the HTTP runner are file system,
  process, terminal and network I/O. The code generator emits instructions through \<open>wasm-encoder\<close>; its
  meaning is that of WebAssembly. YAML and TOML readers and the serde bridge are glue over third-party
  crates. In symbol resolution, the wording of diagnostics and their final sorting are not modelled; the
  casts of table indices to 32 bits bound the program: \<open>small\<close> asks that the conflicts, six times the
  module graph and twice the syntax nodes together fit. In the front end, module loading, the generation
  and the tasks of type constraints, and sealing are not modelled.
  In the runtime, image packing, the relocating collector and telemetry are not.
\<close>

end
